(* ===== verification/Prelude.thy ===== *)
theory Prelude
  imports Main "HOL-Library.Word" "HOL-Library.Monad_Syntax" "HOL-Library.Sublist"
begin

text \<open>
  Shared vocabulary of the development: the machine integer types of the C sources, the
  \<^verbatim>\<open>errno\<close> values the code returns, little-endian access to a block of bytes, and the
  generic lemmas on words, lists and options that the component theories use.

  Conventions of every theory:
  \<^item> \<^verbatim>\<open>uint64_t\<close>, \<^verbatim>\<open>uint32_t\<close>, \<^verbatim>\<open>uint16_t\<close>, \<^verbatim>\<open>uint8_t\<close> are words of
    that width and arithmetic on them wraps as in C;
  \<^item> a function that can fail an \<^verbatim>\<open>assert\<close> or \<^verbatim>\<open>xassert\<close>, dereference
    \<^verbatim>\<open>NULL\<close> or run over the end of an object returns an \<open>option\<close>, and \<open>None\<close> is
    that abnormal end of the process (the Makefile builds with assertions enabled);
  \<^item> an \<^verbatim>\<open>int\<close> status is an \<open>int\<close>: negative \<^verbatim>\<open>errno\<close> values are errors;
  \<^item> a linked list of the C code is a HOL list unless the aliasing matters.
\<close>

unbundle bit_operations_syntax

section \<open>Machine integers and status codes\<close>

type_synonym u8 = "8 word"
type_synonym u16 = "16 word"
type_synonym u32 = "32 word"
type_synonym u64 = "64 word"

abbreviation (input) UINT64_MAX :: u64 where
  "UINT64_MAX \<equiv> - 1"

abbreviation (input) ENOENT :: int where "ENOENT \<equiv> 2"
abbreviation (input) ENOMEM :: int where "ENOMEM \<equiv> 12"
abbreviation (input) EEXIST :: int where "EEXIST \<equiv> 17"
abbreviation (input) ENOTDIR :: int where "ENOTDIR \<equiv> 20"
abbreviation (input) EISDIR :: int where "EISDIR \<equiv> 21"
abbreviation (input) EINVAL :: int where "EINVAL \<equiv> 22"
abbreviation (input) ENOSPC :: int where "ENOSPC \<equiv> 28"
abbreviation (input) EMLINK :: int where "EMLINK \<equiv> 31"
abbreviation (input) ENAMETOOLONG :: int where "ENAMETOOLONG \<equiv> 36"
abbreviation (input) ENOSYS :: int where "ENOSYS \<equiv> 38"
abbreviation (input) ENOTEMPTY :: int where "ENOTEMPTY \<equiv> 39"

text \<open>\<open>check b\<close> is \<^verbatim>\<open>assert(b)\<close>: the process ends when \<open>b\<close> is false.\<close>

definition check :: "bool \<Rightarrow> unit option" where
  "check b = (if b then Some () else None)"

lemma check_simps [simp]:
  "check True = Some ()" "check False = None"
  by (simp_all add: check_def)

lemma check_eq_Some [simp]: "check b = Some u \<longleftrightarrow> b"
  by (simp add: check_def)

lemma check_eq_None [simp]: "check b = None \<longleftrightarrow> \<not> b"
  by (simp add: check_def)

lemma check_bind_Some [simp]:
  "Option.bind (check b) f = Some r \<longleftrightarrow> b \<and> f () = Some r"
  by (simp add: check_def)

lemma check_bind_None [simp]:
  "Option.bind (check b) f = None \<longleftrightarrow> \<not> b \<or> f () = None"
  by (simp add: check_def)

section \<open>Collections of rewrite rules\<close>

named_theorems layout_simps \<open>sizes and offsets of the on-disk structures\<close>
named_theorems access_simps \<open>a load after a store\<close>
named_theorems inv_intros \<open>operations keep the invariant of their component\<close>

section \<open>Blocks of bytes, little-endian\<close>

text \<open>A block is read by byte offset; the code runs on x86-64, which is little-endian.\<close>

type_synonym block = "nat \<Rightarrow> u8"

primrec load_le :: "nat \<Rightarrow> block \<Rightarrow> nat \<Rightarrow> 'a::len word" where
  "load_le 0 b a = 0"
| "load_le (Suc n) b a = ucast (b a) OR push_bit 8 (load_le n b (Suc a))"

definition store_le :: "nat \<Rightarrow> block \<Rightarrow> nat \<Rightarrow> 'a::len word \<Rightarrow> block" where
  "store_le n b a v = (\<lambda>i. if a \<le> i \<and> i < a + n then ucast (drop_bit (8 * (i - a)) v) else b i)"

definition get_u16 :: "block \<Rightarrow> nat \<Rightarrow> u16" where "get_u16 b a = load_le 2 b a"
definition get_u32 :: "block \<Rightarrow> nat \<Rightarrow> u32" where "get_u32 b a = load_le 4 b a"
definition get_u64 :: "block \<Rightarrow> nat \<Rightarrow> u64" where "get_u64 b a = load_le 8 b a"
definition put_u16 :: "block \<Rightarrow> nat \<Rightarrow> u16 \<Rightarrow> block" where "put_u16 b a v = store_le 2 b a v"
definition put_u32 :: "block \<Rightarrow> nat \<Rightarrow> u32 \<Rightarrow> block" where "put_u32 b a v = store_le 4 b a v"
definition put_u64 :: "block \<Rightarrow> nat \<Rightarrow> u64 \<Rightarrow> block" where "put_u64 b a v = store_le 8 b a v"

text \<open>\<^verbatim>\<open>memcpy\<close> of \<open>n\<close> bytes from offset \<open>sa\<close> of \<open>src\<close>, and \<^verbatim>\<open>memset\<close>.\<close>

definition blk_copy :: "block \<Rightarrow> nat \<Rightarrow> block \<Rightarrow> nat \<Rightarrow> nat \<Rightarrow> block" where
  "blk_copy dst da src sa n = (\<lambda>i. if da \<le> i \<and> i < da + n then src (sa + (i - da)) else dst i)"

definition blk_fill :: "block \<Rightarrow> nat \<Rightarrow> u8 \<Rightarrow> nat \<Rightarrow> block" where
  "blk_fill dst da v n = (\<lambda>i. if da \<le> i \<and> i < da + n then v else dst i)"

lemma bit_load_le:
  "bit (load_le n b a :: 'a::len word) k \<longleftrightarrow>
     k < LENGTH('a) \<and> k < 8 * n \<and> bit (b (a + k div 8)) (k mod 8)"
proof (induction n arbitrary: a k)
  case 0
  then show ?case by simp
next
  case (Suc n)
  show ?case
  proof (cases "k < 8")
    case True
    then show ?thesis
      by (auto simp: bit_or_iff bit_push_bit_iff bit_ucast_iff)
  next
    case False
    then have "k div 8 = Suc ((k - 8) div 8)" "(k - 8) mod 8 = k mod 8"
      by (simp_all add: le_div_geq le_mod_geq)
    moreover from False have "\<not> bit (b a) k"
      using bit_imp_le_length [of "b a" k] by auto
    moreover from False have "k < 8 * Suc n \<longleftrightarrow> k - 8 < 8 * n" by auto
    ultimately show ?thesis
      using False bit_imp_le_length [of "load_le n b (Suc a) :: 'a word" "k - 8"]
      by (auto simp: bit_or_iff bit_push_bit_iff bit_ucast_iff Suc.IH)
  qed
qed

lemma load_store_le_same:
  assumes "8 * n = LENGTH('a)"
  shows "load_le n (store_le n b a v) a = (v :: 'a::len word)"
proof (rule bit_word_eqI)
  fix k assume k: "k < LENGTH('a)"
  with assms have "k < 8 * n" and c: "k div 8 < n"
    by (simp_all add: div_less_iff_less_mult mult.commute)
  moreover have "8 * (k div 8) + k mod 8 = k" by simp
  ultimately show "bit (load_le n (store_le n b a v) a :: 'a word) k = bit v k"
    using k by (simp add: bit_load_le store_le_def bit_ucast_iff bit_drop_bit_eq c)
qed

lemma load_le_eq_0:
  assumes "8 * n \<le> LENGTH('a)"
  shows "load_le n b a = (0 :: 'a::len word) \<longleftrightarrow> (\<forall>i < n. b (a + i) = 0)"
proof
  assume z: "load_le n b a = (0 :: 'a word)"
  show "\<forall>i < n. b (a + i) = 0"
  proof (intro allI impI bit_word_eqI)
    fix i k assume i: "i < n" and k: "k < LENGTH(8)"
    have "\<not> bit (load_le n b a :: 'a word) (8 * i + k)" by (simp add: z)
    then show "bit (b (a + i)) k = bit 0 k" using i k assms by (simp add: bit_load_le)
  qed
next
  assume "\<forall>i < n. b (a + i) = 0"
  then show "load_le n b a = (0 :: 'a word)"
    by (intro bit_word_eqI) (auto simp: bit_load_le less_mult_imp_div_less mult.commute)
qed

lemma load_le_cong:
  assumes "\<And>i. a \<le> i \<Longrightarrow> i < a + m \<Longrightarrow> b i = b' i"
  shows "load_le m b a = load_le m b' a"
  using assms by (induction m arbitrary: a) simp_all

lemma load_store_le_other:
  assumes "a + n \<le> a' \<or> a' + m \<le> a"
  shows "load_le m (store_le n b a v) a' = load_le m b a'"
  by (rule load_le_cong) (use assms in \<open>auto simp: store_le_def\<close>)

lemma get_put_u64_same [access_simps]: "get_u64 (put_u64 b a v) a = v"
  by (simp add: get_u64_def put_u64_def load_store_le_same)

lemma get_put_u32_same [access_simps]: "get_u32 (put_u32 b a v) a = v"
  by (simp add: get_u32_def put_u32_def load_store_le_same)

lemma get_put_u16_same [access_simps]: "get_u16 (put_u16 b a v) a = v"
  by (simp add: get_u16_def put_u16_def load_store_le_same)

lemma get_put_u64_other [access_simps]:
  "a + 8 \<le> a' \<or> a' + 8 \<le> a \<Longrightarrow> get_u64 (put_u64 b a v) a' = get_u64 b a'"
  "a + 4 \<le> a' \<or> a' + 8 \<le> a \<Longrightarrow> get_u64 (put_u32 b a w) a' = get_u64 b a'"
  "a + 2 \<le> a' \<or> a' + 8 \<le> a \<Longrightarrow> get_u64 (put_u16 b a x) a' = get_u64 b a'"
  by (simp_all add: get_u64_def put_u64_def put_u32_def put_u16_def load_store_le_other)

lemma get_put_u32_other [access_simps]:
  "a + 8 \<le> a' \<or> a' + 4 \<le> a \<Longrightarrow> get_u32 (put_u64 b a v) a' = get_u32 b a'"
  "a + 4 \<le> a' \<or> a' + 4 \<le> a \<Longrightarrow> get_u32 (put_u32 b a w) a' = get_u32 b a'"
  "a + 2 \<le> a' \<or> a' + 4 \<le> a \<Longrightarrow> get_u32 (put_u16 b a x) a' = get_u32 b a'"
  by (simp_all add: get_u32_def put_u64_def put_u32_def put_u16_def load_store_le_other)

lemma get_put_u16_other [access_simps]:
  "a + 8 \<le> a' \<or> a' + 2 \<le> a \<Longrightarrow> get_u16 (put_u64 b a v) a' = get_u16 b a'"
  "a + 4 \<le> a' \<or> a' + 2 \<le> a \<Longrightarrow> get_u16 (put_u32 b a w) a' = get_u16 b a'"
  "a + 2 \<le> a' \<or> a' + 2 \<le> a \<Longrightarrow> get_u16 (put_u16 b a x) a' = get_u16 b a'"
  by (simp_all add: get_u16_def put_u64_def put_u32_def put_u16_def load_store_le_other)

lemma put_bytes_outside [access_simps]:
  "i < a \<or> a + 8 \<le> i \<Longrightarrow> put_u64 b a v i = b i"
  "i < a \<or> a + 4 \<le> i \<Longrightarrow> put_u32 b a w i = b i"
  "i < a \<or> a + 2 \<le> i \<Longrightarrow> put_u16 b a x i = b i"
  by (auto simp: put_u64_def put_u32_def put_u16_def store_le_def)

section \<open>Lists, options and words\<close>

lemma bind_Some_eq: "Option.bind m f = Some r \<longleftrightarrow> (\<exists>x. m = Some x \<and> f x = Some r)"
  by (cases m) auto

lemma bit_set_other:
  "bit (w OR push_bit i 1 :: 'a::len word) j \<longleftrightarrow> bit w j \<or> (i = j \<and> j < LENGTH('a))"
  by (auto simp: bit_or_iff bit_exp_iff)

lemma bit_clear_other:
  "bit (w AND NOT (push_bit i 1) :: 'a::len word) j \<longleftrightarrow> bit w j \<and> i \<noteq> j"
  using bit_imp_le_length [of w j]
  by (auto simp: bit_and_iff bit_not_iff bit_exp_iff)

lemma and_push_bit_1_eq_0:
  "(w AND push_bit i 1 :: 'a::len word) = 0 \<longleftrightarrow> \<not> bit w i"
  by (metis and_exp_eq_0_iff_not_bit push_bit_eq_mult mult_1)

lemma unat_inject [simp]: "unat x = unat y \<longleftrightarrow> x = (y :: 'a::len word)"
  by (simp add: word_unat_eq_iff)

lemma unat_bounded: "unat (w :: 'a::len word) < 2 ^ LENGTH('a)"
  by (rule unsigned_less)

lemma unat_add_1_less:
  assumes "unat w < unat (v :: 'a::len word)"
  shows "unat (w + 1 :: 'a::len word) = Suc (unat w)"
proof -
  have "unat w + 1 < 2 ^ LENGTH('a)" using assms unat_bounded [of v] by linarith
  then show ?thesis by (simp add: unat_word_ariths)
qed

lemma unat_add_1:
  assumes "i \<noteq> (- 1 :: 'a::len word)"
  shows "unat (i + 1) = unat i + 1"
proof -
  have "i + 1 \<noteq> 0" using assms by (metis add_eq_0_iff2)
  then have "unat i = unat (i + 1) - 1" "0 < unat (i + 1)"
    using unat_minus_one [of "i + 1"] by (simp_all add: unat_gt_0)
  then show ?thesis by simp
qed

lemma unat_minus_1: "unat (- 1 :: 'a::len word) = 2 ^ LENGTH('a) - 1"
  by (simp add: unsigned_minus_1_eq_mask mask_eq_exp_minus_1)

lemma unat_of_nat_less:
  assumes "n \<le> unat (v :: 'a::len word)"
  shows "unat (of_nat n :: 'a word) = n"
proof -
  have "n < 2 ^ LENGTH('a)" using assms unat_bounded [of v] by linarith
  then show ?thesis by (simp add: unat_of_nat)
qed

section \<open>Runs of operations and transactions\<close>

text \<open>A sequence of operations on a state; an operation that ends the process ends the run.\<close>

primrec run :: "('op \<Rightarrow> 's \<Rightarrow> 's option) \<Rightarrow> 'op list \<Rightarrow> 's \<Rightarrow> 's option" where
  "run step [] s = Some s"
| "run step (x # xs) s = Option.bind (step x s) (run step xs)"

lemma run_invariant:
  assumes step: "\<And>x s s'. P s \<Longrightarrow> step x s = Some s' \<Longrightarrow> P s'"
    and "P s" and "run step xs s = Some s'"
  shows "P s'"
  using assms(2,3)
  by (induction xs arbitrary: s) (auto simp: bind_Some_eq intro: step)

text \<open>
  The interface of a store with staged changes: steps keep the invariant and what the store
  holds persistently, and an abort gives exactly the persistent contents back.
\<close>

locale staged_store =
  fixes step :: "'op \<Rightarrow> 's \<Rightarrow> 's option"
    and abort :: "'s \<Rightarrow> 's option"
    and inv :: "'s \<Rightarrow> bool"
    and clean :: "'s \<Rightarrow> bool"
    and used :: "'s \<Rightarrow> 'i set"
    and persistent :: "'s \<Rightarrow> 'i set"
  assumes step_inv: "inv s \<Longrightarrow> step x s = Some s' \<Longrightarrow> inv s'"
    and step_persistent: "inv s \<Longrightarrow> step x s = Some s' \<Longrightarrow> persistent s' = persistent s"
    and abort_used: "inv s \<Longrightarrow> \<exists>s'. abort s = Some s' \<and> inv s' \<and> clean s' \<and> used s' = persistent s"
    and clean_persistent: "clean s \<Longrightarrow> persistent s = used s"
begin

lemma run_inv_persistent:
  assumes "inv s" and "run step xs s = Some s'"
  shows "inv s' \<and> persistent s' = persistent s"
proof (rule run_invariant [OF _ _ assms(2)])
  show "inv t' \<and> persistent t' = persistent s"
    if "inv t \<and> persistent t = persistent s" and "step x t = Some t'" for x t t'
    using that step_inv step_persistent by blast
  show "inv s \<and> persistent s = persistent s" using assms(1) by simp
qed

theorem run_then_abort:
  assumes "inv s" and "clean s" and "run step xs s = Some s'"
  shows "\<exists>s''. abort s' = Some s'' \<and> inv s'' \<and> clean s'' \<and> used s'' = used s"
  using run_inv_persistent [OF assms(1,3)] abort_used [of s'] clean_persistent [OF assms(2)]
  by auto

end

end
