(* ===== verification/Structs.thy ===== *)
theory Structs
  imports Prelude
begin

text \<open>
  The persistent structures of \<^verbatim>\<open>bpfs_structs.h\<close>, the rounding macros of
  \<^verbatim>\<open>util.h\<close> and the conversions between BPFS and FUSE file types and modes of
  \<^verbatim>\<open>bpfs.c\<close>. A structure is a range of bytes of a block; each field has a getter and a
  setter at the offset the C compiler gives it.
\<close>

section \<open>Constants and macros\<close>

abbreviation (input) BPFS_FS_MAGIC :: u32 where "BPFS_FS_MAGIC \<equiv> 0xB9F5"
abbreviation (input) BPFS_STRUCT_VERSION :: u32 where "BPFS_STRUCT_VERSION \<equiv> 7"
abbreviation (input) BPFS_BLOCK_SIZE :: u64 where "BPFS_BLOCK_SIZE \<equiv> 4096"
abbreviation (input) BPFS_BLOCKNO_INVALID :: u64 where "BPFS_BLOCKNO_INVALID \<equiv> 0"
abbreviation (input) BPFS_BLOCKNO_SUPER :: u64 where "BPFS_BLOCKNO_SUPER \<equiv> 1"
abbreviation (input) BPFS_BLOCKNO_SUPER_2 :: u64 where "BPFS_BLOCKNO_SUPER_2 \<equiv> 2"
abbreviation (input) BPFS_BLOCKNO_FIRST_ALLOC :: u64 where "BPFS_BLOCKNO_FIRST_ALLOC \<equiv> 3"
abbreviation (input) BPFS_INO_INVALID :: u64 where "BPFS_INO_INVALID \<equiv> 0"
abbreviation (input) BPFS_INO_ROOT :: u64 where "BPFS_INO_ROOT \<equiv> 1"
abbreviation (input) BPFS_EOF :: u64 where "BPFS_EOF \<equiv> UINT64_MAX"
abbreviation (input) BPFS_COMMIT_SP :: u8 where "BPFS_COMMIT_SP \<equiv> 0"
abbreviation (input) BPFS_COMMIT_SCSP :: u8 where "BPFS_COMMIT_SCSP \<equiv> 1"
abbreviation (input) BPFS_TREE_MAX_HEIGHT :: u64 where "BPFS_TREE_MAX_HEIGHT \<equiv> 7"
abbreviation (input) BPFS_TREE_ROOT_MAX_ADDR :: u64 where "BPFS_TREE_ROOT_MAX_ADDR \<equiv> 0x1FFFFFFFFFFFFFFF"
abbreviation (input) BPFS_BLOCKNOS_PER_INDIR :: u64 where "BPFS_BLOCKNOS_PER_INDIR \<equiv> 512"
abbreviation (input) BPFS_INODES_PER_BLOCK :: u64 where "BPFS_INODES_PER_BLOCK \<equiv> 32"
abbreviation (input) SIZEOF_INODE :: nat where "SIZEOF_INODE \<equiv> 128"
abbreviation (input) SIZEOF_DIRENT :: nat where "SIZEOF_DIRENT \<equiv> 12"
abbreviation (input) BPFS_DIRENT_ALIGN :: u64 where "BPFS_DIRENT_ALIGN \<equiv> 8"

definition ROUNDUP64 :: "u64 \<Rightarrow> u64 \<Rightarrow> u64" where
  "ROUNDUP64 a n = (a + n - 1) AND NOT (n - 1)"

definition ROUNDDOWN64 :: "u64 \<Rightarrow> u64 \<Rightarrow> u64" where
  "ROUNDDOWN64 a n = a AND NOT (n - 1)"

definition NBLOCKS_FOR_NBYTES :: "u64 \<Rightarrow> u64" where
  "NBLOCKS_FOR_NBYTES nbytes = (nbytes + BPFS_BLOCK_SIZE - 1) div BPFS_BLOCK_SIZE"

definition BPFS_DIRENT_LEN :: "u64 \<Rightarrow> u64" where
  "BPFS_DIRENT_LEN name_len = ROUNDUP64 (of_nat SIZEOF_DIRENT + name_len) BPFS_DIRENT_ALIGN"

definition BPFS_DIRENT_MIN_LEN :: u64 where
  "BPFS_DIRENT_MIN_LEN = BPFS_DIRENT_LEN 0"

definition BPFS_DIRENT_MAX_NAME_LEN :: u64 where
  "BPFS_DIRENT_MAX_NAME_LEN = min (BPFS_BLOCK_SIZE - of_nat SIZEOF_DIRENT) (push_bit (1 * 8) 1)"

section \<open>Fields of the persistent structures\<close>

text \<open>\<^verbatim>\<open>struct height_addr\<close>: a 64-bit word, the height in its low three bits.\<close>

definition ha_height :: "u64 \<Rightarrow> u64" where "ha_height ha = ha AND 7"
definition ha_addr :: "u64 \<Rightarrow> u64" where "ha_addr ha = drop_bit 3 ha"
definition mk_ha :: "u64 \<Rightarrow> u64 \<Rightarrow> u64" where "mk_ha height addr = (height AND 7) OR push_bit 3 addr"

text \<open>\<^verbatim>\<open>struct bpfs_tree_root\<close> at byte offset \<open>a\<close> of a block.\<close>

definition root_ha :: "block \<Rightarrow> nat \<Rightarrow> u64" where "root_ha b a = get_u64 b a"
definition root_nbytes :: "block \<Rightarrow> nat \<Rightarrow> u64" where "root_nbytes b a = get_u64 b (a + 8)"
definition set_root_ha :: "block \<Rightarrow> nat \<Rightarrow> u64 \<Rightarrow> block" where "set_root_ha b a v = put_u64 b a v"
definition set_root_nbytes :: "block \<Rightarrow> nat \<Rightarrow> u64 \<Rightarrow> block" where
  "set_root_nbytes b a v = put_u64 b (a + 8) v"

text \<open>\<^verbatim>\<open>struct bpfs_super\<close> fills its block.\<close>

definition super_magic :: "block \<Rightarrow> u32" where "super_magic b = get_u32 b 0"
definition super_version :: "block \<Rightarrow> u32" where "super_version b = get_u32 b 4"
definition super_nblocks :: "block \<Rightarrow> u64" where "super_nblocks b = get_u64 b 24"
definition super_inode_root_addr :: "block \<Rightarrow> u64" where "super_inode_root_addr b = get_u64 b 32"
definition super_inode_root_addr_2 :: "block \<Rightarrow> u64" where "super_inode_root_addr_2 b = get_u64 b 40"
definition super_commit_mode :: "block \<Rightarrow> u8" where "super_commit_mode b = b 48"
definition super_ephemeral_valid :: "block \<Rightarrow> u8" where "super_ephemeral_valid b = b 49"

text \<open>\<^verbatim>\<open>struct bpfs_inode\<close> at byte offset \<open>a\<close>; \<^verbatim>\<open>root\<close> is at offset 32.\<close>

definition inode_generation :: "block \<Rightarrow> nat \<Rightarrow> u64" where "inode_generation b a = get_u64 b a"
definition inode_uid :: "block \<Rightarrow> nat \<Rightarrow> u32" where "inode_uid b a = get_u32 b (a + 8)"
definition inode_gid :: "block \<Rightarrow> nat \<Rightarrow> u32" where "inode_gid b a = get_u32 b (a + 12)"
definition inode_mode :: "block \<Rightarrow> nat \<Rightarrow> u32" where "inode_mode b a = get_u32 b (a + 16)"
definition inode_nlinks :: "block \<Rightarrow> nat \<Rightarrow> u32" where "inode_nlinks b a = get_u32 b (a + 20)"
definition inode_atime :: "block \<Rightarrow> nat \<Rightarrow> u32" where "inode_atime b a = get_u32 b (a + 48)"
definition inode_ctime :: "block \<Rightarrow> nat \<Rightarrow> u32" where "inode_ctime b a = get_u32 b (a + 52)"
definition inode_mtime :: "block \<Rightarrow> nat \<Rightarrow> u32" where "inode_mtime b a = get_u32 b (a + 56)"
definition inode_root_off :: "nat \<Rightarrow> nat" where "inode_root_off a = a + 32"

text \<open>\<^verbatim>\<open>struct bpfs_dirent\<close> at byte offset \<open>a\<close>, packed.\<close>

definition dirent_ino :: "block \<Rightarrow> nat \<Rightarrow> u64" where "dirent_ino b a = get_u64 b a"
definition dirent_rec_len :: "block \<Rightarrow> nat \<Rightarrow> u16" where "dirent_rec_len b a = get_u16 b (a + 8)"
definition dirent_file_type :: "block \<Rightarrow> nat \<Rightarrow> u8" where "dirent_file_type b a = b (a + 10)"
definition dirent_name_len :: "block \<Rightarrow> nat \<Rightarrow> u8" where "dirent_name_len b a = b (a + 11)"
definition dirent_name_off :: "nat \<Rightarrow> nat" where "dirent_name_off a = a + 12"

text \<open>Entry \<open>no\<close> of \<^verbatim>\<open>struct bpfs_indir_block\<close>.\<close>

definition indir_addr :: "block \<Rightarrow> u64 \<Rightarrow> u64" where
  "indir_addr b no = get_u64 b (8 * unat no)"

definition set_indir_addr :: "block \<Rightarrow> u64 \<Rightarrow> u64 \<Rightarrow> block" where
  "set_indir_addr b no v = put_u64 b (8 * unat no) v"

section \<open>File types and modes\<close>

abbreviation (input) S_IFMT :: u32 where "S_IFMT \<equiv> 0xF000"
abbreviation (input) S_IFSOCK :: u32 where "S_IFSOCK \<equiv> 0xC000"
abbreviation (input) S_IFLNK :: u32 where "S_IFLNK \<equiv> 0xA000"
abbreviation (input) S_IFREG :: u32 where "S_IFREG \<equiv> 0x8000"
abbreviation (input) S_IFBLK :: u32 where "S_IFBLK \<equiv> 0x6000"
abbreviation (input) S_IFDIR :: u32 where "S_IFDIR \<equiv> 0x4000"
abbreviation (input) S_IFCHR :: u32 where "S_IFCHR \<equiv> 0x2000"
abbreviation (input) S_IFIFO :: u32 where "S_IFIFO \<equiv> 0x1000"

abbreviation (input) BPFS_S_IFMT :: u32 where "BPFS_S_IFMT \<equiv> 0xF000"
abbreviation (input) BPFS_S_IFSOCK :: u32 where "BPFS_S_IFSOCK \<equiv> 0xC000"
abbreviation (input) BPFS_S_IFLNK :: u32 where "BPFS_S_IFLNK \<equiv> 0xA000"
abbreviation (input) BPFS_S_IFREG :: u32 where "BPFS_S_IFREG \<equiv> 0x8000"
abbreviation (input) BPFS_S_IFBLK :: u32 where "BPFS_S_IFBLK \<equiv> 0x6000"
abbreviation (input) BPFS_S_IFDIR :: u32 where "BPFS_S_IFDIR \<equiv> 0x4000"
abbreviation (input) BPFS_S_IFCHR :: u32 where "BPFS_S_IFCHR \<equiv> 0x2000"
abbreviation (input) BPFS_S_IFIFO :: u32 where "BPFS_S_IFIFO \<equiv> 0x1000"
abbreviation (input) BPFS_S_IPERM :: u32 where "BPFS_S_IPERM \<equiv> 0x0FFF"

abbreviation (input) BPFS_TYPE_FILE :: u32 where "BPFS_TYPE_FILE \<equiv> 1"
abbreviation (input) BPFS_TYPE_DIR :: u32 where "BPFS_TYPE_DIR \<equiv> 2"
abbreviation (input) BPFS_TYPE_CHRDEV :: u32 where "BPFS_TYPE_CHRDEV \<equiv> 3"
abbreviation (input) BPFS_TYPE_BLKDEV :: u32 where "BPFS_TYPE_BLKDEV \<equiv> 4"
abbreviation (input) BPFS_TYPE_FIFO :: u32 where "BPFS_TYPE_FIFO \<equiv> 5"
abbreviation (input) BPFS_TYPE_SOCK :: u32 where "BPFS_TYPE_SOCK \<equiv> 6"
abbreviation (input) BPFS_TYPE_SYMLINK :: u32 where "BPFS_TYPE_SYMLINK \<equiv> 7"

definition BPFS_S_ISDIR :: "u32 \<Rightarrow> bool" where "BPFS_S_ISDIR mode = (mode AND BPFS_S_IFMT = BPFS_S_IFDIR)"
definition BPFS_S_ISREG :: "u32 \<Rightarrow> bool" where "BPFS_S_ISREG mode = (mode AND BPFS_S_IFMT = BPFS_S_IFREG)"
definition BPFS_S_ISLNK :: "u32 \<Rightarrow> bool" where "BPFS_S_ISLNK mode = (mode AND BPFS_S_IFMT = BPFS_S_IFLNK)"

definition b2f_filetype :: "u32 \<Rightarrow> u32 option" where
  "b2f_filetype t = (
     if t = BPFS_TYPE_SOCK then Some S_IFSOCK
     else if t = BPFS_TYPE_FILE then Some S_IFREG
     else if t = BPFS_TYPE_BLKDEV then Some S_IFBLK
     else if t = BPFS_TYPE_DIR then Some S_IFDIR
     else if t = BPFS_TYPE_CHRDEV then Some S_IFCHR
     else if t = BPFS_TYPE_FIFO then Some S_IFIFO
     else if t = BPFS_TYPE_SYMLINK then Some S_IFLNK
     else None)"

definition f2b_filetype :: "u32 \<Rightarrow> u32 option" where
  "f2b_filetype fuse_mode = (let t = fuse_mode AND S_IFMT in
     if t = S_IFSOCK then Some BPFS_TYPE_SOCK
     else if t = S_IFREG then Some BPFS_TYPE_FILE
     else if t = S_IFBLK then Some BPFS_TYPE_BLKDEV
     else if t = S_IFDIR then Some BPFS_TYPE_DIR
     else if t = S_IFCHR then Some BPFS_TYPE_CHRDEV
     else if t = S_IFIFO then Some BPFS_TYPE_FIFO
     else if t = S_IFLNK then Some BPFS_TYPE_SYMLINK
     else None)"

definition b2f_mode :: "u32 \<Rightarrow> u32 option" where
  "b2f_mode bmode = do {
     fmode \<leftarrow> (let t = bmode AND BPFS_S_IFMT in
       if t = BPFS_S_IFSOCK then Some S_IFSOCK
       else if t = BPFS_S_IFLNK then Some S_IFLNK
       else if t = BPFS_S_IFREG then Some S_IFREG
       else if t = BPFS_S_IFBLK then Some S_IFBLK
       else if t = BPFS_S_IFDIR then Some S_IFDIR
       else if t = BPFS_S_IFCHR then Some S_IFCHR
       else if t = BPFS_S_IFIFO then Some S_IFIFO
       else None);
     Some (fmode OR (bmode AND BPFS_S_IPERM))
   }"

definition f2b_mode :: "u32 \<Rightarrow> u32 option" where
  "f2b_mode fmode = do {
     bmode \<leftarrow> (let t = fmode AND S_IFMT in
       if t = S_IFSOCK then Some BPFS_S_IFSOCK
       else if t = S_IFLNK then Some BPFS_S_IFLNK
       else if t = S_IFREG then Some BPFS_S_IFREG
       else if t = S_IFBLK then Some BPFS_S_IFBLK
       else if t = S_IFDIR then Some BPFS_S_IFDIR
       else if t = S_IFCHR then Some BPFS_S_IFCHR
       else if t = S_IFIFO then Some BPFS_S_IFIFO
       else None);
     Some (bmode OR (fmode AND BPFS_S_IPERM))
   }"

section \<open>Rounding\<close>

lemma and_not_mask: "w AND NOT (mask k) = push_bit k (drop_bit k (w :: 'a::len word))"
  by (rule bit_word_eqI)
     (auto simp: bit_and_iff bit_not_iff bit_mask_iff bit_push_bit_iff bit_drop_bit_eq)

lemma unat_and_not_mask:
  "unat (w AND NOT (mask k) :: 'a::len word) = unat w div 2 ^ k * 2 ^ k"
proof -
  have "unat w div 2 ^ k * 2 ^ k \<le> unat w" by simp
  then have "unat w div 2 ^ k * 2 ^ k < 2 ^ LENGTH('a)" using unat_bounded [of w] by linarith
  then show ?thesis
    unfolding and_not_mask unsigned_push_bit_eq unat_drop_bit_eq
    by (simp add: push_bit_eq_mult drop_bit_eq_div take_bit_nat_eq_self)
qed

lemma unat_ROUNDDOWN64 [layout_simps]:
  "unat (ROUNDDOWN64 a (2 ^ k)) = unat a div 2 ^ k * 2 ^ k"
  unfolding ROUNDDOWN64_def mask_eq_exp_minus_1 [symmetric] by (rule unat_and_not_mask)

lemma unat_ROUNDUP64 [layout_simps]:
  "unat (ROUNDUP64 a (2 ^ k)) = unat (a + (2 ^ k - 1)) div 2 ^ k * 2 ^ k"
proof -
  have "ROUNDUP64 a (2 ^ k) = (a + (2 ^ k - 1)) AND NOT (mask k)"
    by (simp only: ROUNDUP64_def mask_eq_exp_minus_1 add_diff_eq)
  then show ?thesis by (simp only: unat_and_not_mask)
qed

lemma BPFS_DIRENT_LEN_unat:
  assumes "unat n \<le> 2 ^ 32"
  shows "unat (BPFS_DIRENT_LEN n) = (unat n + 19) div 8 * 8"
proof -
  have "unat (n + 19) = unat n + 19" using assms by (simp add: unat_word_ariths)
  then show ?thesis
    using unat_ROUNDUP64 [of "12 + n" 3] by (simp add: BPFS_DIRENT_LEN_def add.commute)
qed

lemma BPFS_DIRENT_MIN_LEN_eq [simp]: "BPFS_DIRENT_MIN_LEN = 16"
  by (simp add: BPFS_DIRENT_MIN_LEN_def BPFS_DIRENT_LEN_def ROUNDUP64_def)

lemma BPFS_DIRENT_MAX_NAME_LEN_eq [simp]: "BPFS_DIRENT_MAX_NAME_LEN = 256"
  by (simp add: BPFS_DIRENT_MAX_NAME_LEN_def)

section \<open>Packed fields\<close>

lemma mask_3: "(7 :: u64) = mask 3"
  by (simp add: mask_eq_exp_minus_1)

lemma ha_height_mk_ha [access_simps]: "ha_height (mk_ha h a) = h AND 7"
  unfolding ha_height_def mk_ha_def mask_3
  by (rule bit_word_eqI) (auto simp: bit_and_iff bit_or_iff bit_push_bit_iff bit_mask_iff)

lemma ha_addr_mk_ha [access_simps]: "a \<le> BPFS_TREE_ROOT_MAX_ADDR \<Longrightarrow> ha_addr (mk_ha h a) = a"
proof -
  assume a: "a \<le> BPFS_TREE_ROOT_MAX_ADDR"
  then have "unat a < 2 ^ 61" by (simp add: word_le_nat_alt)
  then have "unat (take_bit 61 a) = unat a"
    by (simp add: unsigned_take_bit_eq take_bit_nat_eq_self)
  then have "take_bit 61 a = a" by (simp only: unat_inject)
  then have hi: "n < 61" if "bit a n" for n
    using that by (metis bit_take_bit_iff)
  show ?thesis
    unfolding ha_addr_def mk_ha_def mask_3
    by (intro bit_word_eqI)
       (auto simp: bit_and_iff bit_or_iff bit_push_bit_iff bit_mask_iff bit_drop_bit_eq dest: hi)
qed

lemma mk_ha_split [access_simps]: "mk_ha (ha_height ha) (ha_addr ha) = ha"
  unfolding ha_height_def ha_addr_def mk_ha_def mask_3
proof (rule bit_word_eqI)
  fix n :: nat assume "n < LENGTH(64)"
  then show "bit ((ha AND mask 3) AND mask 3 OR push_bit 3 (drop_bit 3 ha)) n = bit ha n"
    by (cases "n < 3") (auto simp: bit_and_iff bit_or_iff bit_push_bit_iff bit_mask_iff bit_drop_bit_eq)
qed

section \<open>Properties\<close>

lemma and_mask_cases:
  "(m AND 0xF000 OR (m AND 0x0FFF) :: u32) = m AND 0xFFFF"
proof -
  have "(0xFFFF :: u32) = 0xF000 OR 0x0FFF" by simp
  then show ?thesis by (simp only: bit.conj_disj_distrib)
qed

text \<open>C37. Modes survive the translation to the persistent format and back: when
  \<^verbatim>\<open>f2b_mode\<close> accepts a FUSE mode, the stored mode has the same type bits and
  permissions, \<^verbatim>\<open>b2f_mode\<close> returns the original mode (its low 16 bits), and
  \<^verbatim>\<open>f2b_filetype\<close> accepts it too, with \<^verbatim>\<open>b2f_filetype\<close> giving the
  type bits back. \<^verbatim>\<open>f2b_mode\<close> rejects exactly the modes \<^verbatim>\<open>f2b_filetype\<close>
  rejects.\<close>

theorem mode_round_trip:
  "(f2b_mode m = None \<longleftrightarrow> f2b_filetype m = None) \<and>
   (f2b_mode m = None \<or>
    (Option.bind (f2b_mode m) b2f_mode = Some (m AND 0xFFFF) \<and>
     Option.bind (f2b_filetype m) b2f_filetype = Some (m AND S_IFMT)))"
  using and_mask_cases [of m] unfolding f2b_mode_def f2b_filetype_def Let_def
  by (auto simp: b2f_mode_def b2f_filetype_def bit.conj_disj_distrib2 and.assoc)

end
