(* ===== verification/Atomic.thy ===== *)
theory Atomic
  imports Structs
begin

text \<open>
  Atomic in-place writes of \<^verbatim>\<open>bpfs.c\<close>: \<^verbatim>\<open>can_atomic_write\<close>,
  \<^verbatim>\<open>count_bits\<close> and \<^verbatim>\<open>atomic_memcpy\<close> with its macro
  \<^verbatim>\<open>ATOMIC_MEMCPY_X\<close>. Offsets are \<^verbatim>\<open>unsigned\<close>, 32 bits wide.
\<close>

abbreviation (input) ATOMIC_SIZE :: u32 where "ATOMIC_SIZE \<equiv> 8"

definition can_atomic_write :: "u32 \<Rightarrow> u32 \<Rightarrow> bool" where
  "can_atomic_write offset sz = (let lst = offset + sz - 1 in
     lst - offset < ATOMIC_SIZE \<and> offset mod ATOMIC_SIZE \<le> lst mod ATOMIC_SIZE)"

primrec count_bits_loop :: "nat \<Rightarrow> u32 \<Rightarrow> u32 \<Rightarrow> u32" where
  "count_bits_loop 0 x n = n"
| "count_bits_loop (Suc i) x n =
     count_bits_loop i x (n + (if x AND push_bit (31 - i) 1 \<noteq> 0 then 1 else 0))"

definition count_bits :: "u32 \<Rightarrow> u32" where
  "count_bits x = count_bits_loop 32 x 0"

text \<open>
  \<^verbatim>\<open>ATOMIC_MEMCPY_X(XB, ..., dst, src, n)\<close>: read the aligned window of \<open>xb\<close> bytes
  that holds \<open>dst\<close> into a local variable, copy \<open>n\<close> bytes into the variable starting at
  the offset of \<open>dst\<close> in the window, and store the window back with one instruction. The
  copy runs over the end of the variable when it does not fit: the surplus bytes go to
  whatever follows the variable on the stack and never reach the block. The model keeps the
  block's contents, so it writes the bytes that fall into the window.
\<close>

definition ATOMIC_MEMCPY_X :: "nat \<Rightarrow> block \<Rightarrow> nat \<Rightarrow> (nat \<Rightarrow> u8) \<Rightarrow> nat \<Rightarrow> block" where
  "ATOMIC_MEMCPY_X xb b dst src n = (
     let dst_x = dst div xb * xb;
         x = (\<lambda>i. b (dst_x + i));
         x' = blk_copy x (dst - dst_x) src 0 n
     in blk_copy b dst_x x' 0 xb)"

text \<open>Whether the copy stays inside the local variable.\<close>

definition window_fits :: "nat \<Rightarrow> nat \<Rightarrow> nat \<Rightarrow> bool" where
  "window_fits xb dst n = (dst mod xb + n \<le> xb)"

definition atomic_window :: "nat \<Rightarrow> nat" where
  "atomic_window n = (if n = 1 then 1 else if n = 2 then 2 else if n \<le> 4 then 4 else 8)"

definition atomic_memcpy :: "block \<Rightarrow> nat \<Rightarrow> (nat \<Rightarrow> u8) \<Rightarrow> nat \<Rightarrow> block option" where
  "atomic_memcpy b dst src n = do {
     check (can_atomic_write (of_nat dst) (of_nat n));
     Some (if n = 1 then ATOMIC_MEMCPY_X 1 b dst src n
           else if n = 2 then ATOMIC_MEMCPY_X 2 b dst src n
           else if n \<le> 4 then ATOMIC_MEMCPY_X 4 b dst src n
           else if n \<le> 8 then ATOMIC_MEMCPY_X 8 b dst src n
           else b)
   }"

section \<open>Lemmas\<close>

lemma blk_copy_window:
  assumes "0 < xb"
  shows "ATOMIC_MEMCPY_X xb b dst src n =
     blk_copy b dst src 0 (min n (xb - dst mod xb))"
proof -
  define q r where "q = dst div xb * xb" and "r = dst mod xb"
  have "dst = q + r" "r < xb" using assms by (simp_all add: q_def r_def)
  moreover have "i - q - r = i - (q + r)" for i by simp
  ultimately have "ATOMIC_MEMCPY_X xb b dst src n i = blk_copy b dst src 0 (min n (xb - r)) i" for i
    unfolding ATOMIC_MEMCPY_X_def blk_copy_def Let_def q_def [symmetric]
    by (cases "i < q"; cases "i < q + r"; cases "i < q + xb") auto
  then show ?thesis by (auto simp: r_def)
qed

lemma blk_copy_shorter:
  assumes "m < n"
  shows "blk_copy b dst src 0 m = blk_copy b dst src 0 n \<longleftrightarrow> (\<forall>i. m \<le> i \<and> i < n \<longrightarrow> b (dst + i) = src i)"
proof
  assume e: "blk_copy b dst src 0 m = blk_copy b dst src 0 n"
  show "\<forall>i. m \<le> i \<and> i < n \<longrightarrow> b (dst + i) = src i"
  proof (intro allI impI)
    fix i assume "m \<le> i \<and> i < n"
    then show "b (dst + i) = src i" using fun_cong [OF e, of "dst + i"] by (simp add: blk_copy_def)
  qed
next
  assume *: "\<forall>i. m \<le> i \<and> i < n \<longrightarrow> b (dst + i) = src i"
  show "blk_copy b dst src 0 m = blk_copy b dst src 0 n"
  proof
    fix i
    show "blk_copy b dst src 0 m i = blk_copy b dst src 0 n i"
    proof (cases "dst + m \<le> i \<and> i < dst + n")
      case True
      then have "m \<le> i - dst \<and> i - dst < n" "dst + (i - dst) = i" by linarith+
      then show ?thesis using True * by (metis blk_copy_def add_0 leD)
    next
      case False
      then show ?thesis using assms by (auto simp: blk_copy_def)
    qed
  qed
qed

lemma same_word_iff:
  assumes "(m :: nat) < 8"
  shows "d mod 8 \<le> (d + m) mod 8 \<longleftrightarrow> d div 8 = (d + m) div 8"
proof -
  define q r where "q = d div 8" and "r = d mod 8"
  then have d: "d = 8 * q + r" and r: "r < 8" by simp_all
  have e: "(d + m) div 8 = q + (r + m) div 8" "(d + m) mod 8 = (r + m) mod 8"
    by (simp_all add: d add.assoc)
  show ?thesis
  proof (cases "r + m < 8")
    case True
    then show ?thesis by (simp add: e flip: q_def r_def)
  next
    case False
    then have "(r + m) div 8 = 1" "(r + m) mod 8 = r + m - 8"
      using r assms by (auto simp: mod_if intro: div_nat_eqI)
    then show ?thesis using assms by (simp add: e flip: q_def r_def)
  qed
qed

lemma can_atomic_write_nat:
  assumes "dst + n < 2 ^ 32"
  shows "can_atomic_write (of_nat dst) (of_nat n) \<longleftrightarrow>
    1 \<le> n \<and> n \<le> 8 \<and> dst div 8 = (dst + n - 1) div 8"
proof (cases n)
  case 0
  have "(of_nat dst + of_nat 0 - 1 - of_nat dst :: u32) = - 1" by simp
  then show ?thesis using 0 by (simp add: can_atomic_write_def)
next
  case (Suc m)
  have last: "(of_nat dst + of_nat n - 1 :: u32) = of_nat (dst + m)" using Suc by simp
  have u: "unat (of_nat k :: u32) = k" if "k \<le> dst + n" for k
    using that assms by (simp add: unat_of_nat)
  have "can_atomic_write (of_nat dst) (of_nat n) \<longleftrightarrow> m < 8 \<and> dst mod 8 \<le> (dst + m) mod 8"
    unfolding can_atomic_write_def Let_def last
    using u [of m] u [of dst] u [of "dst + m"] Suc
    by (simp add: word_less_nat_alt word_le_nat_alt unat_mod)
  also have "\<dots> \<longleftrightarrow> m < 8 \<and> dst div 8 = (dst + m) div 8"
    using same_word_iff by blast
  finally show ?thesis using Suc by auto
qed

lemma count_bits_loop_eq:
  "m \<le> 32 \<Longrightarrow> count_bits_loop m x n = n + of_nat (card {i. 32 - m \<le> i \<and> i < 32 \<and> bit x i})"
proof (induction m arbitrary: n)
  case 0
  have "{i. 32 \<le> i \<and> i < 32 \<and> bit x i} = {}" by auto
  then show ?case by (simp del: Collect_empty_eq Collect_conj_eq)
next
  case (Suc m)
  let ?A = "{i. 32 - m \<le> i \<and> i < 32 \<and> bit x i}"
  have "{i. 32 - Suc m \<le> i \<and> i < 32 \<and> bit x i} = (if bit x (31 - m) then insert (31 - m) ?A else ?A)"
    using Suc.prems by (auto simp: le_less Suc_diff_le)
  moreover have "31 - m \<notin> ?A" "finite ?A" using Suc.prems by auto
  ultimately show ?case
    using Suc and_push_bit_1_eq_0 [of x "31 - m"] by (simp add: push_bit_eq_mult)
qed

section \<open>Properties\<close>

text \<open>C22. \<^verbatim>\<open>can_atomic_write\<close> accepts exactly the writes that stay inside one aligned
  eight-byte word: at least one byte, at most eight, first and last byte in the same word. An
  empty write is rejected, by the wrap-around of \<^verbatim>\<open>offset + size - 1\<close>.\<close>

theorem can_atomic_write_one_word:
  assumes "dst + n < 2 ^ 32"
  shows "can_atomic_write (of_nat dst) (of_nat n) \<longleftrightarrow>
    n \<noteq> 0 \<and> (\<exists>w. 8 * w \<le> dst \<and> dst + n \<le> 8 * w + 8)"
  unfolding can_atomic_write_nat [OF assms]
proof
  assume "1 \<le> n \<and> n \<le> 8 \<and> dst div 8 = (dst + n - 1) div 8"
  then show "n \<noteq> 0 \<and> (\<exists>w. 8 * w \<le> dst \<and> dst + n \<le> 8 * w + 8)"
    by (intro conjI exI [of _ "dst div 8"]) linarith+
next
  assume "n \<noteq> 0 \<and> (\<exists>w. 8 * w \<le> dst \<and> dst + n \<le> 8 * w + 8)"
  then obtain w where w: "n \<noteq> 0" "8 * w \<le> dst" "dst + n \<le> 8 * w + 8" by blast
  then have "dst div 8 = w" "(dst + n - 1) div 8 = w" by (auto intro!: div_nat_eqI)
  then show "1 \<le> n \<and> n \<le> 8 \<and> dst div 8 = (dst + n - 1) div 8" using w by linarith
qed

theorem can_atomic_write_one_word_witness:
  "can_atomic_write (of_nat 4090) (of_nat 2)"
  using can_atomic_write_one_word [of 4090 2] by (auto intro!: exI [of _ 511])

text \<open>C21. \<^verbatim>\<open>atomic_memcpy\<close> stores only what fits its window: it accepts exactly the writes
  \<^verbatim>\<open>can_atomic_write\<close> accepts and then stores the first
  \<^verbatim>\<open>min(n, X - dst % X)\<close> bytes, where \<open>X\<close> is the 1, 2, 4 or 8 byte window of its size
  class. So it is a correct copy when the window holds the whole write, and otherwise the
  block keeps its old bytes behind the window (the rest of the copy overran the local
  variable), which is wrong unless those bytes already had the new values.\<close>

theorem atomic_memcpy_window:
  assumes "dst + n < 2 ^ 32"
  shows "(atomic_memcpy b dst src n = None \<longleftrightarrow> \<not> can_atomic_write (of_nat dst) (of_nat n)) \<and>
    (\<forall>b'. atomic_memcpy b dst src n = Some b' \<longrightarrow>
      b' = blk_copy b dst src 0 (min n (atomic_window n - dst mod atomic_window n)) \<and>
      (b' = blk_copy b dst src 0 n \<longleftrightarrow>
        window_fits (atomic_window n) dst n \<or>
        (\<forall>i. atomic_window n - dst mod atomic_window n \<le> i \<and> i < n \<longrightarrow> b (dst + i) = src i)))"
proof -
  let ?m = "min n (atomic_window n - dst mod atomic_window n)"
  have "atomic_memcpy b dst src n = Some b' \<Longrightarrow> b' = blk_copy b dst src 0 ?m" for b'
    using can_atomic_write_nat [OF assms] blk_copy_window
    by (auto simp: atomic_memcpy_def atomic_window_def split: if_splits)
  moreover have "blk_copy b dst src 0 ?m = blk_copy b dst src 0 n \<longleftrightarrow>
      window_fits (atomic_window n) dst n \<or>
      (\<forall>i. atomic_window n - dst mod atomic_window n \<le> i \<and> i < n \<longrightarrow> b (dst + i) = src i)"
  proof (cases "window_fits (atomic_window n) dst n")
    case True
    then have "?m = n" by (auto simp: window_fits_def)
    then show ?thesis using True by simp
  next
    case False
    moreover have "dst mod atomic_window n < atomic_window n"
      by (simp add: atomic_window_def)
    ultimately have "?m < n" "?m = atomic_window n - dst mod atomic_window n"
      by (auto simp: window_fits_def)
    then show ?thesis using blk_copy_shorter [of ?m n b dst src] False by simp
  qed
  ultimately show ?thesis by (auto simp: atomic_memcpy_def)
qed

theorem atomic_memcpy_window_witness:
  "atomic_memcpy (\<lambda>_. 0) 1 (\<lambda>_. 7) 2 = Some (blk_copy (\<lambda>_. 0) 1 (\<lambda>_. 7) 0 1) \<and>
   blk_copy (\<lambda>_. 0) 1 (\<lambda>_. 7) 0 1 \<noteq> blk_copy (\<lambda>_. 0) 1 (\<lambda>_. 7 :: u8) 0 2"
proof -
  have "can_atomic_write (of_nat 1) (of_nat 2)" by (simp add: can_atomic_write_def)
  then obtain b' where "atomic_memcpy (\<lambda>_. 0) 1 (\<lambda>_. 7) 2 = Some b'"
    using atomic_memcpy_window [of 1 2 "\<lambda>_. 0" "\<lambda>_. 7"] by auto
  with atomic_memcpy_window [of 1 2 "\<lambda>_. 0" "\<lambda>_. 7"] show ?thesis
    by (auto simp: atomic_window_def window_fits_def)
qed

text \<open>\<^verbatim>\<open>count_bits\<close> counts the set bits of its argument.\<close>

lemma count_bits_card: "count_bits x = of_nat (card {i. i < 32 \<and> bit x i})"
  by (simp add: count_bits_def count_bits_loop_eq)

end
