(* ===== verification/Bitmap.thy ===== *)
theory Bitmap
  imports Prelude
begin

text \<open>
  The allocation bitmap of \<^verbatim>\<open>bpfs.c\<close> (\<^verbatim>\<open>struct bitmap\<close> and the
  \<^verbatim>\<open>bitmap_*\<close> functions). The bits live in a byte buffer that the allocator scans a
  64-bit word at a time; allocations and frees of the running transaction are staged on two
  lists until \<^verbatim>\<open>bitmap_commit\<close> or \<^verbatim>\<open>bitmap_abort\<close>. The theory relates
  the byte-level code to the set of used indices: allocation returns the least free index,
  the free counter is exact, and an abort gives back the set of the last commit. The
  entries of the staged lists are allocated with \<^verbatim>\<open>malloc\<close>; an \<^verbatim>\<open>xassert\<close> ends the process when that
  fails, and this end of the process is left out.
\<close>

section \<open>State and operations\<close>

record bitmap =
  bm_bytes :: "u8 list option"
  bm_ntotal :: u64
  bm_nfree :: u64
  bm_allocs :: "u64 list"
  bm_frees :: "u64 list"
  bm_prev_ntotal :: u64

text \<open>The staged lists are the linked lists of \<^verbatim>\<open>struct staged_entry\<close>, head first.\<close>

definition staged_list_freshly_alloced :: "u64 list \<Rightarrow> u64 \<Rightarrow> bool" where
  "staged_list_freshly_alloced head no = List.member head no"

text \<open>\<open>malloc_ok\<close> says whether \<^verbatim>\<open>malloc\<close> returned memory.\<close>

definition bitmap_init :: "bool \<Rightarrow> bitmap \<Rightarrow> u64 \<Rightarrow> (int \<times> bitmap) option" where
  "bitmap_init malloc_ok bm ntotal = do {
     check (ntotal mod 64 = 0);
     check (bm_bytes bm = None);
     if \<not> malloc_ok then Some (- ENOMEM, bm)
     else Some (0, \<lparr>bm_bytes = Some (replicate (unat (ntotal div 8)) 0), bm_ntotal = ntotal,
       bm_nfree = ntotal, bm_allocs = [], bm_frees = [], bm_prev_ntotal = 0\<rparr>)
   }"

definition bitmap_destroy :: "bitmap \<Rightarrow> bitmap" where
  "bitmap_destroy bm = bm\<lparr>bm_bytes := None, bm_allocs := [], bm_frees := []\<rparr>"

text \<open>\<^verbatim>\<open>bitmap_move\<close> returns the new destination and the emptied origin.\<close>

definition bitmap_move :: "bitmap \<Rightarrow> bitmap \<times> bitmap" where
  "bitmap_move org = (org, \<lparr>bm_bytes = None, bm_ntotal = 0, bm_nfree = 0, bm_allocs = [],
     bm_frees = [], bm_prev_ntotal = 0\<rparr>)"

text \<open>A 64-bit access to the buffer at byte offset \<open>k\<close>.\<close>

definition load64 :: "u8 list \<Rightarrow> nat \<Rightarrow> u64 option" where
  "load64 bs k = (if k + 8 \<le> length bs then Some (load_le 8 ((!) bs) k) else None)"

definition store64 :: "u8 list \<Rightarrow> nat \<Rightarrow> u64 \<Rightarrow> u8 list" where
  "store64 bs k w = map (store_le 8 ((!) bs) k w) [0..<length bs]"

text \<open>
  The debug check of \<^verbatim>\<open>bitmap_resize\<close> before shrinking: it reads the 64-bit word with
  index \<open>i / 8\<close>, that is at byte offset \<open>8 * (i / 8)\<close>, for each \<open>i\<close> from the new
  size in steps of 64.
\<close>

definition resize_check :: "u8 list \<Rightarrow> nat \<Rightarrow> nat \<Rightarrow> bool" where
  "resize_check bs n_new n_old =
     list_all (\<lambda>q. load64 bs (8 * ((n_new + 64 * q) div 8)) = Some 0) [0..<(n_old - n_new + 63) div 64]"

text \<open>
  \<^verbatim>\<open>realloc(bitmap, ntotal)\<close> asks for \<open>ntotal\<close> bytes; \<open>mem\<close> is \<open>None\<close> when it
  fails and otherwise gives the contents of the bytes beyond the old buffer.
\<close>

definition bitmap_resize :: "(nat \<Rightarrow> u8) option \<Rightarrow> bitmap \<Rightarrow> u64 \<Rightarrow> (int \<times> bitmap) option" where
  "bitmap_resize mem bm ntotal = (
     if bm_ntotal bm = ntotal then Some (0, bm)
     else do {
       bs \<leftarrow> bm_bytes bm;
       check (bm_ntotal bm > ntotal \<longrightarrow> ntotal mod 64 = 0 \<and> bm_ntotal bm mod 64 = 0 \<and>
         resize_check bs (unat ntotal) (unat (bm_ntotal bm)));
       case mem of None \<Rightarrow> Some (- ENOMEM, bm)
       | Some junk \<Rightarrow>
         let bs1 = map (\<lambda>i. if i < length bs then bs ! i else junk i) [0..<unat ntotal];
             prev = (if bm_prev_ntotal bm = 0 then bm_ntotal bm else bm_prev_ntotal bm)
         in if bm_ntotal bm < ntotal then
              let delta = ntotal - bm_ntotal bm;
                  lo = unat (bm_ntotal bm div 8);
                  bs2 = map (\<lambda>i. if lo \<le> i \<and> i < lo + unat (delta div 8) then 0 else bs1 ! i) [0..<length bs1]
              in Some (0, bm\<lparr>bm_bytes := Some bs2, bm_prev_ntotal := prev,
                   bm_nfree := bm_nfree bm + delta, bm_ntotal := ntotal\<rparr>)
            else
              let delta = bm_ntotal bm - ntotal
              in do {
                check (bm_allocs bm = []);
                check (bm_frees bm = []);
                Some (0, bm\<lparr>bm_bytes := Some bs1, bm_prev_ntotal := prev,
                   bm_nfree := bm_nfree bm - delta, bm_ntotal := ntotal\<rparr>)
              }
     })"

text \<open>
  \<^verbatim>\<open>bitmap_alloc\<close>: the outer loop over 64-bit words, the inner loop over the bits of a
  word that is not full. The inner loop returns at the first clear bit.
\<close>

definition first_clear_bit :: "u64 \<Rightarrow> nat option" where
  "first_clear_bit word = find (\<lambda>j. word AND push_bit j 1 = 0) [0..<64]"

function bitmap_alloc_from :: "bitmap \<Rightarrow> u8 list \<Rightarrow> nat \<Rightarrow> (u64 \<times> bitmap) option" where
  "bitmap_alloc_from bm bs i = (
     if i < unat (bm_ntotal bm) then do {
       word \<leftarrow> load64 bs (i div 8);
       if word \<noteq> UINT64_MAX then
         (case first_clear_bit word of
            Some j \<Rightarrow>
              let index = of_nat (i + j)
              in Some (index, bm\<lparr>bm_allocs := index # bm_allocs bm,
                   bm_bytes := Some (store64 bs (i div 8) (word OR push_bit j 1)),
                   bm_nfree := bm_nfree bm - 1\<rparr>)
          | None \<Rightarrow> bitmap_alloc_from bm bs (i + 64))
       else bitmap_alloc_from bm bs (i + 64)
     }
     else Some (bm_ntotal bm, bm))"
  by pat_completeness auto
termination
  by (relation "measure (\<lambda>(bm, bs, i). unat (bm_ntotal bm) - i)") auto

declare bitmap_alloc_from.simps [simp del]

definition bitmap_alloc :: "bitmap \<Rightarrow> (u64 \<times> bitmap) option" where
  "bitmap_alloc bm = do { bs \<leftarrow> bm_bytes bm; bitmap_alloc_from bm bs 0 }"

text \<open>The byte that holds bit \<open>no\<close>; an access beyond the buffer ends the process.\<close>

definition bitmap_byte :: "bitmap \<Rightarrow> u64 \<Rightarrow> u8 option" where
  "bitmap_byte bm no = do {
     bs \<leftarrow> bm_bytes bm;
     if unat (no div 8) < length bs then Some (bs ! unat (no div 8)) else None
   }"

definition bitmap_put_byte :: "bitmap \<Rightarrow> u64 \<Rightarrow> u8 \<Rightarrow> bitmap" where
  "bitmap_put_byte bm no v = bm\<lparr>bm_bytes := map_option (\<lambda>bs. bs[unat (no div 8) := v]) (bm_bytes bm)\<rparr>"

abbreviation bit_mask :: "u64 \<Rightarrow> u8" where
  "bit_mask no \<equiv> push_bit (unat (no mod 8)) 1"

definition bitmap_set :: "bitmap \<Rightarrow> u64 \<Rightarrow> bitmap option" where
  "bitmap_set bm no = do {
     word \<leftarrow> bitmap_byte bm no;
     check (word AND bit_mask no = 0);
     Some ((bitmap_put_byte bm no (word OR bit_mask no))\<lparr>bm_nfree := bm_nfree bm - 1\<rparr>)
   }"

definition bitmap_ensure_set :: "bitmap \<Rightarrow> u64 \<Rightarrow> (bool \<times> bitmap) option" where
  "bitmap_ensure_set bm no = do {
     check (no < bm_ntotal bm);
     word \<leftarrow> bitmap_byte bm no;
     let was_set = (word AND bit_mask no \<noteq> 0);
         bm1 = bitmap_put_byte bm no (word OR bit_mask no)
     in Some (was_set, if was_set then bm1 else bm1\<lparr>bm_nfree := bm_nfree bm - 1\<rparr>)
   }"

definition bitmap_free :: "bitmap \<Rightarrow> u64 \<Rightarrow> bitmap option" where
  "bitmap_free bm no = do {
     check (no < bm_ntotal bm);
     word \<leftarrow> bitmap_byte bm no;
     check (word AND bit_mask no \<noteq> 0);
     check (\<not> staged_list_freshly_alloced (bm_frees bm) no);
     Some (bm\<lparr>bm_frees := no # bm_frees bm\<rparr>)
   }"

definition bitmap_unfree :: "bitmap \<Rightarrow> u64 \<Rightarrow> bitmap option" where
  "bitmap_unfree bm no = do {
     check (no < bm_ntotal bm);
     word \<leftarrow> bitmap_byte bm no;
     check (word AND bit_mask no \<noteq> 0);
     check (List.member (bm_frees bm) no);
     (was_set, bm1) \<leftarrow> bitmap_ensure_set (bm\<lparr>bm_frees := remove1 no (bm_frees bm)\<rparr>) no;
     check was_set;
     Some bm1
   }"

definition bitmap_clear :: "bitmap \<Rightarrow> u64 \<Rightarrow> bitmap option" where
  "bitmap_clear bm no = do {
     check (no < bm_ntotal bm);
     word \<leftarrow> bitmap_byte bm no;
     check (word AND bit_mask no \<noteq> 0);
     Some ((bitmap_put_byte bm no (word AND NOT (bit_mask no)))\<lparr>bm_nfree := bm_nfree bm + 1\<rparr>)
   }"

definition bitmap_unalloc :: "bitmap \<Rightarrow> u64 \<Rightarrow> bitmap option" where
  "bitmap_unalloc bm no = do {
     check (no < bm_ntotal bm);
     word \<leftarrow> bitmap_byte bm no;
     check (word AND bit_mask no \<noteq> 0);
     check (List.member (bm_allocs bm) no);
     bitmap_clear (bm\<lparr>bm_allocs := remove1 no (bm_allocs bm)\<rparr>) no
   }"

text \<open>The loops of abort and commit clear the staged indices one by one, head first.\<close>

primrec clear_allocs :: "u64 list \<Rightarrow> bitmap \<Rightarrow> bitmap option" where
  "clear_allocs [] bm = Some bm"
| "clear_allocs (cur # rest) bm = do {
     bm1 \<leftarrow> bitmap_clear bm cur;
     clear_allocs rest (bm1\<lparr>bm_allocs := rest\<rparr>)
   }"

primrec clear_frees :: "u64 list \<Rightarrow> bitmap \<Rightarrow> bitmap option" where
  "clear_frees [] bm = Some bm"
| "clear_frees (cur # rest) bm = do {
     bm1 \<leftarrow> bitmap_clear bm cur;
     clear_frees rest (bm1\<lparr>bm_frees := rest\<rparr>)
   }"

definition bitmap_abort :: "(nat \<Rightarrow> u8) option \<Rightarrow> bitmap \<Rightarrow> bitmap option" where
  "bitmap_abort mem bm = do {
     bm1 \<leftarrow> clear_allocs (bm_allocs bm) bm;
     let bm2 = bm1\<lparr>bm_frees := []\<rparr>;
     bm3 \<leftarrow> (if bm_prev_ntotal bm2 \<noteq> 0 \<and> bm_ntotal bm2 \<noteq> bm_prev_ntotal bm2 then do {
              (r, bm3) \<leftarrow> bitmap_resize mem bm2 (bm_prev_ntotal bm2);
              check (r \<ge> 0);
              Some bm3
            } else Some bm2);
     Some (bm3\<lparr>bm_prev_ntotal := 0\<rparr>)
   }"

definition bitmap_commit :: "bitmap \<Rightarrow> bitmap option" where
  "bitmap_commit bm = do {
     bm1 \<leftarrow> clear_frees (bm_frees bm) (bm\<lparr>bm_allocs := []\<rparr>);
     Some (bm1\<lparr>bm_prev_ntotal := 0\<rparr>)
   }"

section \<open>The abstract view: the set of used indices\<close>

definition bit_at :: "u8 list \<Rightarrow> nat \<Rightarrow> bool" where
  "bit_at bs i = bit (bs ! (i div 8)) (i mod 8)"

definition bitmap_used :: "bitmap \<Rightarrow> nat set" where
  "bitmap_used bm = (case bm_bytes bm of None \<Rightarrow> {}
     | Some bs \<Rightarrow> set (filter (bit_at bs) [0..<unat (bm_ntotal bm)]))"

text \<open>The buffer holds all bits, in whole 64-bit words, and the free counter is exact.\<close>

definition bitmap_core :: "bitmap \<Rightarrow> bool" where
  "bitmap_core bm = (case bm_bytes bm of None \<Rightarrow> False
     | Some bs \<Rightarrow> unat (bm_ntotal bm) \<le> 8 * length bs \<and> unat (bm_ntotal bm) mod 64 = 0 \<and>
         unat (bm_nfree bm) = length (filter (\<lambda>i. \<not> bit_at bs i) [0..<unat (bm_ntotal bm)]))"

definition bitmap_inv :: "bitmap \<Rightarrow> bool" where
  "bitmap_inv bm = (bitmap_core bm \<and> distinct (bm_allocs bm) \<and> distinct (bm_frees bm) \<and>
     list_all (\<lambda>x. unat x \<in> bitmap_used bm) (bm_allocs bm) \<and>
     list_all (\<lambda>x. unat x \<in> bitmap_used bm) (bm_frees bm))"

text \<open>No transaction is running.\<close>

definition bitmap_clean :: "bitmap \<Rightarrow> bool" where
  "bitmap_clean bm = (bm_allocs bm = [] \<and> bm_frees bm = [] \<and> bm_prev_ntotal bm = 0)"

text \<open>What a crash or an abort leaves allocated: the staged allocations are not in it.\<close>

definition bitmap_persistent :: "bitmap \<Rightarrow> nat set" where
  "bitmap_persistent bm = bitmap_used bm - unat ` set (bm_allocs bm)"

subsection \<open>Bits of the buffer\<close>

lemma bitmap_used_iff:
  "i \<in> bitmap_used bm \<longleftrightarrow>
     (\<exists>bs. bm_bytes bm = Some bs \<and> i < unat (bm_ntotal bm) \<and> bit_at bs i)"
  by (auto simp: bitmap_used_def split: option.splits)

lemma bitmap_used_update [simp]:
  "bitmap_used (bm\<lparr>bm_allocs := xs\<rparr>) = bitmap_used bm"
  "bitmap_used (bm\<lparr>bm_frees := xs\<rparr>) = bitmap_used bm"
  "bitmap_used (bm\<lparr>bm_prev_ntotal := n\<rparr>) = bitmap_used bm"
  by (simp_all add: bitmap_used_def cong: option.case_cong)

lemma bitmap_core_update [simp]:
  "bitmap_core (bm\<lparr>bm_allocs := xs\<rparr>) = bitmap_core bm"
  "bitmap_core (bm\<lparr>bm_frees := xs\<rparr>) = bitmap_core bm"
  "bitmap_core (bm\<lparr>bm_prev_ntotal := n\<rparr>) = bitmap_core bm"
  by (simp_all add: bitmap_core_def cong: option.case_cong)

lemma index_split: "i div 8 = j div 8 \<and> i mod 8 = j mod 8 \<longleftrightarrow> i = (j :: nat)"
  by (metis div_mult_mod_eq)

lemma unat_div8 [simp]: "unat (no div 8 :: u64) = unat no div 8"
  by (simp add: unat_div)

lemma unat_mod8 [simp]: "unat (no mod 8 :: u64) = unat no mod 8"
  by (simp add: unat_mod)

lemma bit_at_set:
  assumes "unat no div 8 < length bs"
  shows "bit_at (bs[unat no div 8 := (bs ! (unat no div 8)) OR bit_mask no]) i \<longleftrightarrow>
           bit_at bs i \<or> i = unat no"
proof (cases "i div 8 = unat no div 8")
  case True
  then have "i mod 8 = unat no mod 8 \<longleftrightarrow> i = unat no" using index_split by metis
  with True assms show ?thesis
    by (auto simp: bit_at_def bit_or_iff bit_exp_iff)
next
  case False
  with assms show ?thesis by (auto simp: bit_at_def nth_list_update)
qed

lemma bit_at_clear:
  assumes "unat no div 8 < length bs"
  shows "bit_at (bs[unat no div 8 := (bs ! (unat no div 8)) AND NOT (bit_mask no)]) i \<longleftrightarrow>
           bit_at bs i \<and> i \<noteq> unat no"
proof (cases "i div 8 = unat no div 8")
  case True
  then have "i mod 8 = unat no mod 8 \<longleftrightarrow> i = unat no" using index_split by metis
  with True assms show ?thesis
    by (auto simp: bit_at_def bit_and_iff bit_not_iff bit_exp_iff)
next
  case False
  with assms show ?thesis by (auto simp: bit_at_def nth_list_update)
qed

lemma bit_mask_test: "(bs ! (unat no div 8)) AND bit_mask no \<noteq> 0 \<longleftrightarrow> bit_at bs (unat no)"
  using and_push_bit_1_eq_0 [of "bs ! (unat no div 8)" "unat no mod 8"]
  by (simp add: bit_at_def)

lemma load64_bit:
  assumes "load64 bs k = Some w" and "j < 64"
  shows "bit w j \<longleftrightarrow> bit_at bs (8 * k + j)"
  using assms by (auto simp: load64_def bit_at_def bit_load_le split: if_splits)

lemma length_store64 [simp]: "length (store64 bs k w) = length bs"
  by (simp add: store64_def)

lemma bit_at_store64:
  assumes "load64 bs k = Some w" and "j < 64" and "i < 8 * length bs"
  shows "bit_at (store64 bs k (w OR push_bit j 1)) i \<longleftrightarrow> bit_at bs i \<or> i = 8 * k + j"
proof -
  have len: "i div 8 < length bs" using assms(3) by auto
  show ?thesis
  proof (cases "k \<le> i div 8 \<and> i div 8 < k + 8")
    case True
    define d where "d = 8 * (i div 8 - k) + i mod 8"
    have "8 * (i div 8) + i mod 8 = i" and "i mod 8 < 8" by simp_all
    with True have d: "d < 64" "8 * k + d = i" unfolding d_def by linarith+
    have "bit_at (store64 bs k (w OR push_bit j 1)) i \<longleftrightarrow> bit (w OR push_bit j 1) d"
      using True len
      by (simp add: bit_at_def store64_def store_le_def bit_ucast_iff bit_drop_bit_eq bit_or_iff d_def)
    also have "\<dots> \<longleftrightarrow> bit w d \<or> j = d"
      using d(1) bit_set_other [of w j d] by simp
    also have "\<dots> \<longleftrightarrow> bit_at bs i \<or> i = 8 * k + j"
      using load64_bit [OF assms(1) d(1)] d(2) by auto
    finally show ?thesis .
  next
    case False
    then have "i \<noteq> 8 * k + j" using assms(2) by auto
    with False len show ?thesis by (auto simp: bit_at_def store64_def store_le_def)
  qed
qed

subsection \<open>The free counter\<close>

lemma free_count_card:
  "length (filter (\<lambda>i. \<not> bit_at bs i) [0..<n]) = card {i. i < n \<and> \<not> bit_at bs i}"
  by (simp add: length_filter_conv_card)
     (rule arg_cong [where f = card], auto)

lemma free_count_set:
  assumes "i < n" and "\<not> bit_at bs i"
    and "\<And>k. k < n \<Longrightarrow> bit_at bs' k \<longleftrightarrow> bit_at bs k \<or> k = i"
  shows "Suc (length (filter (\<lambda>k. \<not> bit_at bs' k) [0..<n])) =
         length (filter (\<lambda>k. \<not> bit_at bs k) [0..<n])"
proof -
  have "{k. k < n \<and> \<not> bit_at bs k} = insert i {k. k < n \<and> \<not> bit_at bs' k}"
    using assms by auto
  moreover have "i \<notin> {k. k < n \<and> \<not> bit_at bs' k}" using assms by auto
  ultimately show ?thesis by (simp add: free_count_card)
qed

subsection \<open>Setting and clearing one bit\<close>

lemma bitmap_core_iff:
  "bitmap_core bm \<longleftrightarrow> (\<exists>bs. bm_bytes bm = Some bs \<and> unat (bm_ntotal bm) \<le> 8 * length bs \<and>
     unat (bm_ntotal bm) mod 64 = 0 \<and>
     unat (bm_nfree bm) = length (filter (\<lambda>i. \<not> bit_at bs i) [0..<unat (bm_ntotal bm)]))"
  by (auto simp: bitmap_core_def split: option.splits)

lemma bitmap_clear_used:
  assumes core: "bitmap_core bm" and used: "unat no \<in> bitmap_used bm"
  shows "\<exists>bm'. bitmap_clear bm no = Some bm' \<and> bitmap_core bm' \<and>
    bitmap_used bm' = bitmap_used bm - {unat no} \<and> bm_ntotal bm' = bm_ntotal bm \<and>
    bm_allocs bm' = bm_allocs bm \<and> bm_frees bm' = bm_frees bm \<and>
    bm_prev_ntotal bm' = bm_prev_ntotal bm"
proof -
  from core obtain bs where bs: "bm_bytes bm = Some bs" "unat (bm_ntotal bm) \<le> 8 * length bs"
      "unat (bm_ntotal bm) mod 64 = 0"
      "unat (bm_nfree bm) = length (filter (\<lambda>i. \<not> bit_at bs i) [0..<unat (bm_ntotal bm)])"
    by (auto simp: bitmap_core_iff)
  from used bs(1) have no: "unat no < unat (bm_ntotal bm)" "bit_at bs (unat no)"
    by (auto simp: bitmap_used_iff)
  define bs' where "bs' = bs[unat no div 8 := bs ! (unat no div 8) AND NOT (bit_mask no)]"
  define bm' where "bm' = bm\<lparr>bm_bytes := Some bs', bm_nfree := bm_nfree bm + 1\<rparr>"
  have len: "unat no div 8 < length bs" using no(1) bs(2) by auto
  have bits: "bit_at bs' k \<longleftrightarrow> bit_at bs k \<and> k \<noteq> unat no" for k
    using bit_at_clear [OF len] by (simp add: bs'_def)
  have count: "Suc (length (filter (\<lambda>k. \<not> bit_at bs k) [0..<unat (bm_ntotal bm)])) =
      length (filter (\<lambda>k. \<not> bit_at bs' k) [0..<unat (bm_ntotal bm)])"
    by (rule free_count_set [of "unat no"]) (use no bits in auto)
  have "length (filter (\<lambda>k. \<not> bit_at bs' k) [0..<unat (bm_ntotal bm)]) \<le> unat (bm_ntotal bm)"
    by (metis length_filter_le length_upt minus_nat.diff_0)
  then have "unat (bm_nfree bm) < unat (bm_ntotal bm)" using count bs(4) by simp
  then have "unat (bm_nfree bm + 1) = Suc (unat (bm_nfree bm))"
    by (rule unat_add_1_less)
  then have "bitmap_core bm'" using bs count by (simp add: bm'_def bs'_def bitmap_core_iff)
  moreover have "bitmap_used bm' = bitmap_used bm - {unat no}"
    by (rule set_eqI) (simp add: bm'_def bitmap_used_iff bits bs(1) conj_assoc)
  moreover have "bitmap_clear bm no = Some bm'"
    using no len bs(1) bit_mask_test [of bs no]
    by (simp add: bitmap_clear_def bitmap_byte_def bitmap_put_byte_def bm'_def bs'_def word_less_nat_alt)
  ultimately show ?thesis by (auto simp: bm'_def)
qed

lemma bitmap_checked_used:
  assumes "bitmap_core bm" and "no < bm_ntotal bm" and "bitmap_byte bm no = Some word"
  shows "word AND bit_mask no \<noteq> 0 \<longleftrightarrow> unat no \<in> bitmap_used bm"
proof -
  from assms obtain bs where bs: "bm_bytes bm = Some bs" "word = bs ! (unat no div 8)"
    by (auto simp: bitmap_core_iff bitmap_byte_def split: if_splits)
  then show ?thesis
    using assms(2) bit_mask_test [of bs no] by (simp add: bitmap_used_iff word_less_nat_alt)
qed

lemma bitmap_byte_used:
  assumes "bitmap_core bm" and "unat no \<in> bitmap_used bm"
  shows "\<exists>word. bitmap_byte bm no = Some word \<and> word AND bit_mask no \<noteq> 0 \<and> no < bm_ntotal bm"
proof -
  from assms obtain bs where bs: "bm_bytes bm = Some bs" "unat (bm_ntotal bm) \<le> 8 * length bs"
      "unat no < unat (bm_ntotal bm)" "bit_at bs (unat no)"
    by (auto simp: bitmap_core_iff bitmap_used_iff)
  then have "unat no div 8 < length bs" by auto
  with bs show ?thesis
    using bit_mask_test [of bs no] by (simp add: bitmap_byte_def word_less_nat_alt)
qed

lemma bitmap_ensure_set_used:
  assumes "bitmap_core bm" and "unat no \<in> bitmap_used bm"
  shows "bitmap_ensure_set bm no = Some (True, bm)"
proof -
  obtain word where w: "bitmap_byte bm no = Some word" "word AND bit_mask no \<noteq> 0" "no < bm_ntotal bm"
    using bitmap_byte_used [OF assms] by blast
  then obtain bs where bs: "bm_bytes bm = Some bs" "word = bs ! (unat no div 8)" "unat no div 8 < length bs"
    by (auto simp: bitmap_byte_def bind_Some_eq split: if_splits)
  have "word OR bit_mask no = word"
    using w(2) and_push_bit_1_eq_0 [of word "unat no mod 8"]
    by (auto intro!: bit_word_eqI simp: bit_or_iff bit_exp_iff)
  then have "bitmap_put_byte bm no (word OR bit_mask no) = bm"
    using bs by (simp add: bitmap_put_byte_def)
  then show ?thesis using w by (simp add: bitmap_ensure_set_def)
qed

text \<open>
  C-level allocation against the specification: the least free index, or \<^verbatim>\<open>ntotal\<close>
  when every index is used.
\<close>

lemma first_clear_bit_None: "first_clear_bit w = None \<longleftrightarrow> w = UINT64_MAX"
proof
  assume "first_clear_bit w = None"
  then have "bit w j" if "j < 64" for j
    using that and_push_bit_1_eq_0 [of w j] by (auto simp: first_clear_bit_def find_None_iff)
  then show "w = UINT64_MAX" by (auto intro: bit_word_eqI)
qed (simp add: first_clear_bit_def find_None_iff and_push_bit_1_eq_0)

lemma first_clear_bit_Some:
  assumes "first_clear_bit w = Some j"
  shows "j < 64 \<and> \<not> bit w j \<and> (\<forall>k < j. bit w k)"
  using assms and_push_bit_1_eq_0 [of w]
  by (auto simp: first_clear_bit_def find_Some_iff)

lemma bitmap_alloc_from_spec:
  assumes "bm_bytes bm = Some bs" and "bitmap_core bm" and "i mod 64 = 0"
    and "i \<le> unat (bm_ntotal bm)" and "\<forall>k < i. bit_at bs k"
  shows "\<exists>no bm'. bitmap_alloc_from bm bs i = Some (no, bm') \<and>
    (if \<forall>k < unat (bm_ntotal bm). bit_at bs k then no = bm_ntotal bm \<and> bm' = bm
     else unat no < unat (bm_ntotal bm) \<and> \<not> bit_at bs (unat no) \<and> (\<forall>k < unat no. bit_at bs k) \<and>
       (\<exists>bs'. bm' = bm\<lparr>bm_allocs := no # bm_allocs bm, bm_bytes := Some bs', bm_nfree := bm_nfree bm - 1\<rparr> \<and>
          length bs' = length bs \<and>
          (\<forall>k < unat (bm_ntotal bm). bit_at bs' k \<longleftrightarrow> bit_at bs k \<or> k = unat no)))"
  using assms
proof (induction bm bs i rule: bitmap_alloc_from.induct)
  case (1 bm bs i)
  let ?n = "unat (bm_ntotal bm)"
  from "1.prems" have n: "?n \<le> 8 * length bs" "?n mod 64 = 0" by (auto simp: bitmap_core_iff)
  show ?case
  proof (cases "i < ?n")
    case False
    with "1.prems" have "i = ?n" by simp
    with "1.prems" show ?thesis by (simp add: bitmap_alloc_from.simps [of bm bs "unat (bm_ntotal bm)"])
  next
    case True
    with n "1.prems"(3) have next_i: "i + 64 \<le> ?n" by presburger
    have k8: "8 * (i div 8) = i" using "1.prems"(3) by presburger
    have in_buf: "i div 8 + 8 \<le> length bs" using next_i n(1) k8 by linarith
    then obtain w where w: "load64 bs (i div 8) = Some w" by (simp add: load64_def)
    have wbit: "bit w j \<longleftrightarrow> bit_at bs (i + j)" if "j < 64" for j
      using load64_bit [OF w that] k8 by simp
    show ?thesis
    proof (cases "first_clear_bit w")
      case None
      then have full: "w = UINT64_MAX" by (simp add: first_clear_bit_None)
      then have "bit_at bs (i + j)" if "j < 64" for j
        using wbit [OF that] that by (simp add: bit_minus_1_iff)
      then have "\<forall>k < i + 64. bit_at bs k"
        using "1.prems"(5) by (metis add_diff_inverse_nat nat_add_left_cancel_less)
      moreover have "(i + 64) mod 64 = 0" using "1.prems"(3) by presburger
      ultimately show ?thesis
        using "1.IH"(2) [OF True w] full "1.prems" next_i True w
        by (simp add: bitmap_alloc_from.simps [of bm bs i])
    next
      case (Some j)
      then have j: "j < 64" "\<not> bit w j" "\<forall>k < j. bit w k" using first_clear_bit_Some by blast+
      then have nfull: "w \<noteq> UINT64_MAX" using Some first_clear_bit_None by fastforce
      have idx: "unat (of_nat (i + j) :: u64) = i + j"
        using j(1) next_i by (intro unat_of_nat_less [of _ "bm_ntotal bm"]) simp
      have less: "\<forall>k < i + j. bit_at bs k"
        using "1.prems"(5) j(1,3) wbit
        by (metis add_diff_inverse_nat less_trans nat_add_left_cancel_less)
      have unset: "\<not> bit_at bs (i + j)" using wbit j(1,2) by blast
      moreover have "bit_at (store64 bs (i div 8) (w OR push_bit j 1)) k \<longleftrightarrow> bit_at bs k \<or> k = i + j"
        if "k < ?n" for k
        using bit_at_store64 [OF w j(1), of k] that n(1) k8 by simp
      moreover have "i + j < ?n" using j(1) next_i by simp
      ultimately show ?thesis
        using True w nfull Some idx less
        by (auto simp: bitmap_alloc_from.simps [of bm bs i] Let_def)
    qed
  qed
qed

lemma bitmap_alloc_full:
  assumes "bitmap_core bm" and "bitmap_used bm = {..<unat (bm_ntotal bm)}"
  shows "bitmap_alloc bm = Some (bm_ntotal bm, bm)"
proof -
  from assms(1) obtain bs where bs: "bm_bytes bm = Some bs" by (auto simp: bitmap_core_iff)
  then have "\<forall>k < unat (bm_ntotal bm). bit_at bs k"
    using assms(2) by (auto simp: bitmap_used_iff set_eq_iff)
  then show ?thesis
    using bitmap_alloc_from_spec [OF bs assms(1), of 0] bs by (auto simp: bitmap_alloc_def)
qed

lemma bitmap_alloc_free_index:
  assumes core: "bitmap_core bm" and free: "bitmap_used bm \<noteq> {..<unat (bm_ntotal bm)}"
  shows "\<exists>no bm'. bitmap_alloc bm = Some (no, bm') \<and> no < bm_ntotal bm \<and>
    unat no \<notin> bitmap_used bm \<and> {..<unat no} \<subseteq> bitmap_used bm \<and> bitmap_core bm' \<and>
    bitmap_used bm' = insert (unat no) (bitmap_used bm) \<and> bm_nfree bm' = bm_nfree bm - 1 \<and>
    bm_allocs bm' = no # bm_allocs bm \<and> bm_frees bm' = bm_frees bm \<and>
    bm_ntotal bm' = bm_ntotal bm \<and> bm_prev_ntotal bm' = bm_prev_ntotal bm"
proof -
  let ?n = "unat (bm_ntotal bm)"
  from core obtain bs where bs: "bm_bytes bm = Some bs" "?n \<le> 8 * length bs" "?n mod 64 = 0"
      "unat (bm_nfree bm) = length (filter (\<lambda>i. \<not> bit_at bs i) [0..<?n])"
    by (auto simp: bitmap_core_iff)
  have some_clear: "\<not> (\<forall>k < ?n. bit_at bs k)"
    using free bs(1) by (auto simp: bitmap_used_iff set_eq_iff)
  obtain no bs' where no: "unat no < ?n" "\<not> bit_at bs (unat no)" "\<forall>k < unat no. bit_at bs k"
    and bs': "length bs' = length bs" "\<forall>k < ?n. bit_at bs' k \<longleftrightarrow> bit_at bs k \<or> k = unat no"
    and alloc: "bitmap_alloc bm = Some (no, bm\<lparr>bm_allocs := no # bm_allocs bm, bm_bytes := Some bs',
                  bm_nfree := bm_nfree bm - 1\<rparr>)"
  proof -
    have "\<exists>no bm'. bitmap_alloc_from bm bs 0 = Some (no, bm') \<and>
      unat no < ?n \<and> \<not> bit_at bs (unat no) \<and> (\<forall>k < unat no. bit_at bs k) \<and>
       (\<exists>bs'. bm' = bm\<lparr>bm_allocs := no # bm_allocs bm, bm_bytes := Some bs', bm_nfree := bm_nfree bm - 1\<rparr> \<and>
          length bs' = length bs \<and> (\<forall>k < ?n. bit_at bs' k \<longleftrightarrow> bit_at bs k \<or> k = unat no))"
      using bitmap_alloc_from_spec [OF bs(1) core, of 0] some_clear by simp
    then show ?thesis using that by (elim exE conjE) (simp add: bitmap_alloc_def bs(1))
  qed
  have count: "Suc (length (filter (\<lambda>k. \<not> bit_at bs' k) [0..<?n])) =
      length (filter (\<lambda>k. \<not> bit_at bs k) [0..<?n])"
    by (rule free_count_set [of "unat no"]) (use no bs' in auto)
  then have "bm_nfree bm \<noteq> 0" using bs(4) by auto
  then have "unat (bm_nfree bm - 1) = unat (bm_nfree bm) - 1" by (rule unat_minus_one)
  then have "bitmap_core (bm\<lparr>bm_allocs := no # bm_allocs bm, bm_bytes := Some bs',
      bm_nfree := bm_nfree bm - 1\<rparr>)"
    using bs bs' count by (simp add: bitmap_core_iff)
  moreover have "bitmap_used (bm\<lparr>bm_allocs := no # bm_allocs bm, bm_bytes := Some bs',
      bm_nfree := bm_nfree bm - 1\<rparr>) = insert (unat no) (bitmap_used bm)"
    by (rule set_eqI) (use bs(1) bs' no(1) in \<open>auto simp: bitmap_used_iff\<close>)
  moreover have "unat no \<notin> bitmap_used bm" using no(2) bs(1) by (simp add: bitmap_used_iff)
  moreover have "{..<unat no} \<subseteq> bitmap_used bm" using no(1,3) bs(1) by (auto simp: bitmap_used_iff)
  ultimately show ?thesis using alloc no(1) by (simp add: word_less_nat_alt)
qed

section \<open>Transactions\<close>

text \<open>
  The operations of a transaction as the file system issues them. An index whose free is
  staged is never un-allocated (its callers un-allocate only blocks they have just allocated).
\<close>

datatype bitmap_op = Alloc | Free u64 | Unfree u64 | Unalloc u64

fun bitmap_step :: "bitmap_op \<Rightarrow> bitmap \<Rightarrow> bitmap option" where
  "bitmap_step Alloc bm = map_option snd (bitmap_alloc bm)"
| "bitmap_step (Free no) bm = bitmap_free bm no"
| "bitmap_step (Unfree no) bm = bitmap_unfree bm no"
| "bitmap_step (Unalloc no) bm =
     (if List.member (bm_frees bm) no then None else bitmap_unalloc bm no)"

lemmas bitmap_inv_simps = bitmap_inv_def list_all_iff

lemma bitmap_alloc_step:
  assumes "bitmap_inv bm" and "bitmap_alloc bm = Some (no, bm')"
  shows "bitmap_inv bm' \<and> bitmap_persistent bm' = bitmap_persistent bm \<and>
    bm_prev_ntotal bm' = bm_prev_ntotal bm \<and> bm_ntotal bm' = bm_ntotal bm"
proof (cases "bitmap_used bm = {..<unat (bm_ntotal bm)}")
  case True
  with assms show ?thesis using bitmap_alloc_full by (auto simp: bitmap_inv_def)
next
  case False
  with assms show ?thesis
    using bitmap_alloc_free_index [of bm]
    by (force simp: bitmap_inv_simps bitmap_persistent_def)
qed

lemma bitmap_free_step:
  assumes "bitmap_inv bm" and "bitmap_free bm no = Some bm'"
  shows "bitmap_inv bm' \<and> bitmap_persistent bm' = bitmap_persistent bm \<and>
    bm_prev_ntotal bm' = bm_prev_ntotal bm \<and> bm_ntotal bm' = bm_ntotal bm \<and>
    bitmap_used bm' = bitmap_used bm \<and> bm_frees bm' = no # bm_frees bm"
proof -
  from assms(2) obtain word where w: "no < bm_ntotal bm" "bitmap_byte bm no = Some word"
      "word AND bit_mask no \<noteq> 0" "no \<notin> set (bm_frees bm)" "bm' = bm\<lparr>bm_frees := no # bm_frees bm\<rparr>"
    by (auto simp: bitmap_free_def bind_Some_eq staged_list_freshly_alloced_def)
  have used: "bitmap_used bm' = bitmap_used bm" using w(5) by (simp)
  have "bitmap_core bm'" using assms(1) w(5) by (simp add: bitmap_inv_def)
  moreover have "unat no \<in> bitmap_used bm"
    using bitmap_checked_used [OF _ w(1,2)] w(3) assms(1) by (simp add: bitmap_inv_def)
  ultimately show ?thesis
    using assms(1) w(4) used unfolding w(5) by (simp add: bitmap_inv_simps bitmap_persistent_def)
qed

lemma bitmap_unfree_step:
  assumes "bitmap_inv bm" and "bitmap_unfree bm no = Some bm'"
  shows "bm' = bm\<lparr>bm_frees := remove1 no (bm_frees bm)\<rparr> \<and> bitmap_inv bm' \<and>
    bitmap_persistent bm' = bitmap_persistent bm"
proof -
  let ?b = "bm\<lparr>bm_frees := remove1 no (bm_frees bm)\<rparr>"
  from assms(2) have w: "no \<in> set (bm_frees bm)"
      "Option.bind (bitmap_ensure_set ?b no) (\<lambda>(was_set, bm1). do { check was_set; Some bm1 }) = Some bm'"
    by (auto simp: bitmap_unfree_def bind_Some_eq)
  have used: "bitmap_used ?b = bitmap_used bm" by (simp)
  have core: "bitmap_core ?b" using assms(1) by (simp add: bitmap_inv_def)
  have "unat no \<in> bitmap_used ?b" using assms(1) w(1) used by (simp add: bitmap_inv_simps)
  then have "bm' = ?b" using w(2) bitmap_ensure_set_used [OF core] by simp
  moreover have "set (remove1 no (bm_frees bm)) \<subseteq> set (bm_frees bm)" by (rule set_remove1_subset)
  ultimately show ?thesis
    using assms(1) used core by (simp add: bitmap_inv_simps bitmap_persistent_def subset_iff)
qed

lemma bitmap_unalloc_step:
  assumes inv: "bitmap_inv bm" and "bitmap_unalloc bm no = Some bm'" and "no \<notin> set (bm_frees bm)"
  shows "bitmap_inv bm' \<and> bitmap_persistent bm' = bitmap_persistent bm \<and>
    bitmap_used bm' = bitmap_used bm - {unat no} \<and>
    bm_prev_ntotal bm' = bm_prev_ntotal bm \<and> bm_ntotal bm' = bm_ntotal bm"
proof -
  let ?b = "bm\<lparr>bm_allocs := remove1 no (bm_allocs bm)\<rparr>"
  from assms(2) have w: "no \<in> set (bm_allocs bm)" "bitmap_clear ?b no = Some bm'"
    by (auto simp: bitmap_unalloc_def bind_Some_eq)
  have used: "bitmap_used ?b = bitmap_used bm" by (simp)
  have core: "bitmap_core ?b" using inv by (simp add: bitmap_inv_def)
  have "unat no \<in> bitmap_used ?b" using inv w(1) used by (simp add: bitmap_inv_simps)
  with bitmap_clear_used [OF core] w(2) used
  have c: "bitmap_core bm'" "bitmap_used bm' = bitmap_used bm - {unat no}" "bm_ntotal bm' = bm_ntotal bm"
      "bm_allocs bm' = remove1 no (bm_allocs bm)" "bm_frees bm' = bm_frees bm"
      "bm_prev_ntotal bm' = bm_prev_ntotal bm"
    by fastforce+
  have allocs: "set (bm_allocs bm') = set (bm_allocs bm) - {no}"
    using inv c(4) by (simp add: bitmap_inv_def)
  have "bitmap_inv bm'"
    using inv c allocs assms(3) by (auto simp: bitmap_inv_simps)
  moreover have "bitmap_persistent bm' = bitmap_persistent bm"
    using w(1) unfolding bitmap_persistent_def allocs c(2) by auto
  ultimately show ?thesis using c by simp
qed

lemma bitmap_step_sound:
  assumes "bitmap_inv bm" and "bitmap_step x bm = Some bm'"
  shows "bitmap_inv bm' \<and> bitmap_persistent bm' = bitmap_persistent bm \<and>
    bm_prev_ntotal bm' = bm_prev_ntotal bm \<and> bm_ntotal bm' = bm_ntotal bm"
proof (cases x)
  case Alloc
  with assms(2) obtain no where "bitmap_alloc bm = Some (no, bm')" by auto
  then show ?thesis using bitmap_alloc_step [OF assms(1)] by simp
next
  case (Free no)
  with assms show ?thesis using bitmap_free_step [of bm no bm'] by simp
next
  case (Unfree no)
  with assms show ?thesis using bitmap_unfree_step [of bm no bm'] by auto
next
  case (Unalloc no)
  with assms show ?thesis using bitmap_unalloc_step [of bm no bm'] by (auto split: if_splits)
qed

lemma clear_allocs_spec:
  assumes "bitmap_core bm" and "distinct xs" and "unat ` set xs \<subseteq> bitmap_used bm" and "bm_allocs bm = xs"
  shows "\<exists>bm'. clear_allocs xs bm = Some bm' \<and> bitmap_core bm' \<and>
    bitmap_used bm' = bitmap_used bm - unat ` set xs \<and> bm_ntotal bm' = bm_ntotal bm \<and>
    bm_allocs bm' = [] \<and> bm_prev_ntotal bm' = bm_prev_ntotal bm"
  using assms
proof (induction xs arbitrary: bm)
  case Nil
  then show ?case by simp
next
  case (Cons x xs)
  then obtain bm1 where bm1: "bitmap_clear bm x = Some bm1" "bitmap_core bm1"
      "bitmap_used bm1 = bitmap_used bm - {unat x}" "bm_ntotal bm1 = bm_ntotal bm"
      "bm_prev_ntotal bm1 = bm_prev_ntotal bm"
    using bitmap_clear_used [of bm x] by fastforce
  have "unat ` set xs \<subseteq> bitmap_used (bm1\<lparr>bm_allocs := xs\<rparr>)"
    using Cons.prems(2,3) bm1(3) by auto
  with Cons.IH [of "bm1\<lparr>bm_allocs := xs\<rparr>"] Cons.prems(2) bm1 show ?case by auto
qed

lemma clear_frees_spec:
  assumes "bitmap_core bm" and "distinct xs" and "unat ` set xs \<subseteq> bitmap_used bm" and "bm_frees bm = xs"
  shows "\<exists>bm'. clear_frees xs bm = Some bm' \<and> bitmap_core bm' \<and>
    bitmap_used bm' = bitmap_used bm - unat ` set xs \<and> bm_ntotal bm' = bm_ntotal bm \<and>
    bm_frees bm' = [] \<and> bm_allocs bm' = bm_allocs bm"
  using assms
proof (induction xs arbitrary: bm)
  case Nil
  then show ?case by simp
next
  case (Cons x xs)
  then obtain bm1 where bm1: "bitmap_clear bm x = Some bm1" "bitmap_core bm1"
      "bitmap_used bm1 = bitmap_used bm - {unat x}" "bm_ntotal bm1 = bm_ntotal bm"
      "bm_allocs bm1 = bm_allocs bm"
    using bitmap_clear_used [of bm x] by fastforce
  have "unat ` set xs \<subseteq> bitmap_used (bm1\<lparr>bm_frees := xs\<rparr>)"
    using Cons.prems(2,3) bm1(3) by auto
  with Cons.IH [of "bm1\<lparr>bm_frees := xs\<rparr>"] Cons.prems(2) bm1 show ?case by auto
qed

lemma bitmap_abort_fixed_size:
  assumes inv: "bitmap_inv bm" and "bm_prev_ntotal bm = 0"
  shows "\<exists>bm'. bitmap_abort mem bm = Some bm' \<and> bitmap_inv bm' \<and> bitmap_clean bm' \<and>
    bitmap_used bm' = bitmap_persistent bm \<and> bm_ntotal bm' = bm_ntotal bm"
proof -
  have "unat ` set (bm_allocs bm) \<subseteq> bitmap_used bm" using inv by (auto simp: bitmap_inv_simps)
  then obtain bm1 where bm1: "clear_allocs (bm_allocs bm) bm = Some bm1" "bitmap_core bm1"
      "bitmap_used bm1 = bitmap_used bm - unat ` set (bm_allocs bm)" "bm_ntotal bm1 = bm_ntotal bm"
      "bm_allocs bm1 = []" "bm_prev_ntotal bm1 = bm_prev_ntotal bm"
    using clear_allocs_spec [of bm "bm_allocs bm"] inv by (auto simp: bitmap_inv_def)
  then have "bitmap_abort mem bm = Some (bm1\<lparr>bm_frees := [], bm_prev_ntotal := 0\<rparr>)"
    using assms(2) by (simp add: bitmap_abort_def Let_def)
  then show ?thesis
    using bm1 by (simp add: bitmap_inv_def bitmap_clean_def bitmap_persistent_def)
qed

text \<open>
  The bitmap implements the interface of a staged store. The invariant of the interface
  includes that the bitmap has not been resized in the running transaction, which only the
  inode allocator does.
\<close>

definition bitmap_inv_fixed :: "bitmap \<Rightarrow> bool" where
  "bitmap_inv_fixed bm = (bitmap_inv bm \<and> bm_prev_ntotal bm = 0)"

interpretation bm_store: staged_store bitmap_step "bitmap_abort mem" bitmap_inv_fixed bitmap_clean
  bitmap_used bitmap_persistent for mem
proof (unfold_locales, goal_cases)
  case (1 s x s')
  then show ?case using bitmap_step_sound by (auto simp: bitmap_inv_fixed_def)
next
  case (2 s x s')
  then show ?case using bitmap_step_sound by (auto simp: bitmap_inv_fixed_def)
next
  case (3 s)
  then show ?case
    using bitmap_abort_fixed_size [of s mem] by (auto simp: bitmap_inv_fixed_def bitmap_clean_def)
next
  case (4 s)
  then show ?case by (simp add: bitmap_clean_def bitmap_persistent_def)
qed

section \<open>Properties\<close>

definition empty_bitmap :: bitmap where
  "empty_bitmap = \<lparr>bm_bytes = None, bm_ntotal = 0, bm_nfree = 0, bm_allocs = [], bm_frees = [],
     bm_prev_ntotal = 0\<rparr>"

text \<open>C16. The word-at-a-time scan of \<^verbatim>\<open>bitmap_alloc\<close> allocates the least free index:
  on a well-formed bitmap it always returns; when every index is used it returns
  \<^verbatim>\<open>ntotal\<close> and changes nothing, and otherwise it returns an index that was free while
  all smaller ones were used, marks exactly that index, stages it as an allocation and keeps
  the bitmap well-formed (so the free counter stays exact).\<close>

theorem bitmap_alloc_least_free:
  assumes "bitmap_inv bm"
  shows "\<exists>no bm'. bitmap_alloc bm = Some (no, bm') \<and> bitmap_inv bm' \<and>
    (if bitmap_used bm = {..<unat (bm_ntotal bm)} then no = bm_ntotal bm \<and> bm' = bm
     else no < bm_ntotal bm \<and> unat no \<notin> bitmap_used bm \<and> {..<unat no} \<subseteq> bitmap_used bm \<and>
       bitmap_used bm' = insert (unat no) (bitmap_used bm) \<and> bm_allocs bm' = no # bm_allocs bm \<and>
       bm_frees bm' = bm_frees bm)"
proof (cases "bitmap_used bm = {..<unat (bm_ntotal bm)}")
  case True
  then show ?thesis using assms bitmap_alloc_full [of bm] by (simp add: bitmap_inv_def)
next
  case False
  with assms obtain no bm' where "bitmap_alloc bm = Some (no, bm')" "no < bm_ntotal bm"
      "unat no \<notin> bitmap_used bm" "{..<unat no} \<subseteq> bitmap_used bm"
      "bitmap_used bm' = insert (unat no) (bitmap_used bm)" "bm_allocs bm' = no # bm_allocs bm"
      "bm_frees bm' = bm_frees bm"
    using bitmap_alloc_free_index [of bm] by (auto simp: bitmap_inv_def)
  with False show ?thesis using bitmap_alloc_step [OF assms, of no bm'] by simp
qed

definition sample_bitmap :: bitmap where
  "sample_bitmap = \<lparr>bm_bytes = Some [255, 255, 15, 0, 0, 0, 0, 0], bm_ntotal = 64, bm_nfree = 44,
     bm_allocs = [], bm_frees = [], bm_prev_ntotal = 0\<rparr>"

lemma sample_bitmap_inv: "bitmap_inv sample_bitmap"
  by code_simp

theorem bitmap_alloc_least_free_witness:
  "\<exists>no bm'. bitmap_alloc sample_bitmap = Some (no, bm') \<and> bitmap_inv bm' \<and> unat no \<in> bitmap_used bm'"
proof -
  have "20 \<notin> bitmap_used sample_bitmap" "20 \<in> {..<unat (bm_ntotal sample_bitmap)}" by code_simp+
  then have "bitmap_used sample_bitmap \<noteq> {..<unat (bm_ntotal sample_bitmap)}" by blast
  with bitmap_alloc_least_free [OF sample_bitmap_inv] show ?thesis by auto
qed

text \<open>C13. A transaction that aborts leaves no trace in the bitmap: after any sequence of
  allocations, frees, un-frees and un-allocations from a committed state,
  \<^verbatim>\<open>bitmap_abort\<close> succeeds and gives back a committed, well-formed bitmap with exactly
  the used indices of the start.\<close>

theorem bitmap_transaction_abort:
  assumes "bitmap_inv bm" and "bitmap_clean bm" and "run bitmap_step xs bm = Some bm'"
  shows "\<exists>bm''. bitmap_abort mem bm' = Some bm'' \<and> bitmap_inv bm'' \<and> bitmap_clean bm'' \<and>
    bitmap_used bm'' = bitmap_used bm"
proof -
  have "bitmap_inv_fixed bm" using assms by (simp add: bitmap_inv_fixed_def bitmap_clean_def)
  from bm_store.run_then_abort [OF this assms(2,3), of mem] show ?thesis
    by (auto simp: bitmap_inv_fixed_def)
qed

theorem bitmap_transaction_abort_witness:
  "\<exists>bm' bm''. run bitmap_step [Alloc, Free 3, Alloc, Free 21, Unalloc 20] sample_bitmap = Some bm' \<and>
     bitmap_abort None bm' = Some bm'' \<and> bitmap_used bm'' = bitmap_used sample_bitmap"
proof -
  have "run bitmap_step [Alloc, Free 3, Alloc, Free 21, Unalloc 20] sample_bitmap \<noteq> None" by code_simp
  then obtain bm' where r: "run bitmap_step [Alloc, Free 3, Alloc, Free 21, Unalloc 20] sample_bitmap = Some bm'"
    by blast
  have "bitmap_clean sample_bitmap" by (simp add: bitmap_clean_def sample_bitmap_def)
  from bitmap_transaction_abort [OF sample_bitmap_inv this r, of None] r show ?thesis by blast
qed

lemma bitmap_commit_ok:
  assumes "bitmap_inv bm"
  shows "\<exists>bm'. bitmap_commit bm = Some bm' \<and> bitmap_inv bm' \<and> bitmap_clean bm' \<and>
    bitmap_used bm' = bitmap_used bm - unat ` set (bm_frees bm) \<and> bm_ntotal bm' = bm_ntotal bm"
proof -
  let ?b = "bm\<lparr>bm_allocs := []\<rparr>"
  have "unat ` set (bm_frees bm) \<subseteq> bitmap_used ?b" using assms by (auto simp: bitmap_inv_simps)
  then obtain bm1 where "clear_frees (bm_frees bm) ?b = Some bm1" "bitmap_core bm1"
      "bitmap_used bm1 = bitmap_used bm - unat ` set (bm_frees bm)" "bm_ntotal bm1 = bm_ntotal bm"
      "bm_frees bm1 = []" "bm_allocs bm1 = []"
    using clear_frees_spec [of ?b "bm_frees bm"] assms by (auto simp: bitmap_inv_def)
  then show ?thesis
    by (intro exI [of _ "bm1\<lparr>bm_prev_ntotal := 0\<rparr>"])
       (simp add: bitmap_commit_def bitmap_inv_def bitmap_clean_def)
qed

text \<open>C15. Committing keeps every staged allocation and releases exactly the staged frees: on a
  well-formed bitmap \<^verbatim>\<open>bitmap_commit\<close> always succeeds, the result is committed and
  well-formed, and its used indices are those used before without the ones whose free was
  staged; the free counter grows by the number of staged frees.\<close>

theorem bitmap_commit_releases:
  assumes "bitmap_inv bm"
  shows "\<exists>bm'. bitmap_commit bm = Some bm' \<and> bitmap_inv bm' \<and> bitmap_clean bm' \<and>
    bitmap_used bm' = bitmap_used bm - unat ` set (bm_frees bm) \<and> bm_ntotal bm' = bm_ntotal bm"
  using assms by (rule bitmap_commit_ok)

theorem bitmap_commit_releases_witness:
  "\<exists>bm'. bitmap_commit (sample_bitmap\<lparr>bm_frees := [3, 7]\<rparr>) = Some bm' \<and> 3 \<notin> bitmap_used bm'"
proof -
  have "bitmap_inv (sample_bitmap\<lparr>bm_frees := [3, 7]\<rparr>)" by code_simp
  from bitmap_commit_releases [OF this] show ?thesis by auto
qed

text \<open>C38. Aborting a transaction that grew the bitmap depends on uninitialised memory: the
  shrinking check of \<^verbatim>\<open>bitmap_resize\<close> reads 64-bit words at index \<open>i / 8\<close> instead of
  \<open>i / 64\<close>, beyond the bits. Growing a fresh bitmap of 64 indices to 128 and aborting ends
  the process exactly when one of the eight bytes at offset 64 of the reallocated buffer, which
  nothing has written, is not zero.\<close>

theorem bitmap_abort_after_grow_reads_junk:
  "(do { (r, bm) \<leftarrow> bitmap_init True empty_bitmap 64;
         (r, bm) \<leftarrow> bitmap_resize (Some junk) bm 128;
         bitmap_abort mem bm }) = None \<longleftrightarrow>
   mem = None \<or> (\<exists>i. 64 \<le> i \<and> i < 72 \<and> junk i \<noteq> 0)"
proof -
  have "(\<exists>i. 64 \<le> i \<and> i < 72 \<and> junk i \<noteq> 0) \<longleftrightarrow> \<not> (\<forall>i < 8. junk (64 + i) = 0)"
  proof
    assume "\<exists>i. 64 \<le> i \<and> i < 72 \<and> junk i \<noteq> 0"
    then obtain k where "64 + k < 72" "junk (64 + k) \<noteq> 0" by (metis le_Suc_ex)
    then show "\<not> (\<forall>i < 8. junk (64 + i) = 0)" by auto
  next
    assume "\<not> (\<forall>i < 8. junk (64 + i) = 0)"
    then obtain k where "k < 8" "junk (64 + k) \<noteq> 0" by blast
    then show "\<exists>i. 64 \<le> i \<and> i < 72 \<and> junk i \<noteq> 0" by (intro exI [of _ "64 + k"]) simp
  qed
  then show ?thesis
    by (cases mem) (auto simp: bitmap_init_def empty_bitmap_def bitmap_resize_def bitmap_abort_def
      Let_def resize_check_def load64_def load_le_eq_0)
qed

end
