(* ===== verification/Vector.thy ===== *)
theory Vector
  imports Prelude
begin

text \<open>
  The growable array of \<^verbatim>\<open>vector.c\<close> and \<^verbatim>\<open>vector.h\<close>. Elements are
  \<^verbatim>\<open>void*\<close> in the code and of a type variable here; the argument \<open>z\<close> is the
  element whose bytes are all zero. \<open>v_elts\<close> is the allocated array: an access outside of it
  ends the process. \<^verbatim>\<open>malloc\<close> of \<^verbatim>\<open>n * sizeof(void*)\<close> bytes gives as many
  slots as fit in the product modulo \<open>2 ^ 64\<close>; an argument of type option stands for its result,
  \<open>None\<close> for \<^verbatim>\<open>NULL\<close> and otherwise what the new memory holds.
\<close>

record 'a vector =
  v_size :: u64
  v_capacity :: u64
  v_elts :: "'a list"

section \<open>Operations\<close>

definition slots :: "u64 \<Rightarrow> nat" where
  "slots n = unat (n * 8) div 8"

definition vector_create_elts :: "(nat \<Rightarrow> 'a) option \<Rightarrow> u64 \<Rightarrow> 'a list option" where
  "vector_create_elts mem n = map_option (\<lambda>junk. map junk [0..<slots n]) mem"

definition vector_create_size :: "bool \<Rightarrow> (nat \<Rightarrow> 'a) option \<Rightarrow> 'a \<Rightarrow> u64 \<Rightarrow> 'a vector option" where
  "vector_create_size mem_v mem z n =
     (if \<not> mem_v then None
      else case vector_create_elts mem n of
        None \<Rightarrow> None
      | Some elts \<Rightarrow>
          Some \<lparr>v_size = n, v_capacity = n, v_elts = map (\<lambda>_. z) elts\<rparr>)"

abbreviation (input) INIT_CAPACITY :: u64 where "INIT_CAPACITY \<equiv> 10"

definition vector_create :: "bool \<Rightarrow> (nat \<Rightarrow> 'a) option \<Rightarrow> 'a \<Rightarrow> 'a vector option" where
  "vector_create mem_v mem z =
     map_option (v_size_update (\<lambda>_. 0)) (vector_create_size mem_v mem z INIT_CAPACITY)"

definition vector_empty :: "'a vector \<Rightarrow> bool" where
  "vector_empty v = (v_size v = 0)"

definition vector_elt :: "'a vector \<Rightarrow> u64 \<Rightarrow> 'a option" where
  "vector_elt v i = do { check (unat i < length (v_elts v)); Some (v_elts v ! unat i) }"

definition vector_elt_set :: "'a vector \<Rightarrow> u64 \<Rightarrow> 'a \<Rightarrow> 'a vector option" where
  "vector_elt_set v i elt =
     do { check (unat i < length (v_elts v)); Some (v\<lparr>v_elts := (v_elts v)[unat i := elt]\<rparr>) }"

definition vector_elt_front :: "'a vector \<Rightarrow> 'a option" where
  "vector_elt_front v = vector_elt v 0"

definition vector_elt_end :: "'a vector \<Rightarrow> 'a option" where
  "vector_elt_end v = vector_elt v (v_size v - 1)"

definition vector_pop_back :: "'a vector \<Rightarrow> 'a vector" where
  "vector_pop_back v = (if v_size v = 0 then v else v\<lparr>v_size := v_size v - 1\<rparr>)"

definition vector_reserve :: "(nat \<Rightarrow> 'a) option \<Rightarrow> 'a vector \<Rightarrow> u64 \<Rightarrow> (int \<times> 'a vector) option" where
  "vector_reserve mem v n =
     (if n \<le> v_capacity v then Some (1, v)
      else case vector_create_elts mem n of
        None \<Rightarrow> Some (- ENOMEM, v)
      | Some elts \<Rightarrow> do {
          check (unat (v_size v) \<le> length elts \<and> unat (v_size v) \<le> length (v_elts v));
          Some (0, \<lparr>v_size = v_size v, v_capacity = n,
                    v_elts = take (unat (v_size v)) (v_elts v) @ drop (unat (v_size v)) elts\<rparr>)
        })"

definition vector_grow :: "(nat \<Rightarrow> 'a) option \<Rightarrow> 'a vector \<Rightarrow> (int \<times> 'a vector) option" where
  "vector_grow mem v = vector_reserve mem v (2 * v_capacity v)"

definition vector_push_back :: "(nat \<Rightarrow> 'a) option \<Rightarrow> 'a vector \<Rightarrow> 'a \<Rightarrow> (int \<times> 'a vector) option" where
  "vector_push_back mem v elt = do {
     (r, v) \<leftarrow> (if v_size v = v_capacity v then vector_grow mem v else Some (0, v));
     if r < 0 then Some (r, v)
     else do {
       v \<leftarrow> vector_elt_set v (v_size v) elt;
       Some (0, v\<lparr>v_size := v_size v + 1\<rparr>)
     }
   }"

text \<open>The loop of \<^verbatim>\<open>vector_push_back_vector\<close>, over the elements of the second vector.\<close>

primrec push_back_all :: "'a list \<Rightarrow> 'a vector \<Rightarrow> 'a vector option" where
  "push_back_all [] v = Some v"
| "push_back_all (x # xs) v = do {
     (r, v) \<leftarrow> vector_push_back None v x;
     check (r \<ge> 0);
     push_back_all xs v
   }"

definition vector_push_back_vector ::
  "(nat \<Rightarrow> 'a) option \<Rightarrow> 'a vector \<Rightarrow> 'a vector \<Rightarrow> (int \<times> 'a vector) option" where
  "vector_push_back_vector mem v v2 = do {
     (r, v) \<leftarrow> vector_reserve mem v (v_size v + v_size v2);
     if r < 0 then Some (r, v)
     else do {
       check (unat (v_size v2) \<le> length (v_elts v2));
       v \<leftarrow> push_back_all (take (unat (v_size v2)) (v_elts v2)) v;
       Some (0, v)
     }
   }"

text \<open>The loop of \<^verbatim>\<open>vector_erase\<close>. Index \<open>2 ^ 64 - 1\<close> is outside of every array.\<close>

function vector_erase_loop :: "'a vector \<Rightarrow> u64 \<Rightarrow> 'a vector option" where
  "vector_erase_loop v i =
     (if i + 1 < v_size v then do {
        check (i \<noteq> UINT64_MAX);
        x \<leftarrow> vector_elt v (i + 1);
        v \<leftarrow> vector_elt_set v i x;
        vector_erase_loop v (i + 1)
      } else Some v)"
  by auto
termination
proof (relation "measure (\<lambda>(v, i). unat (v_size v) - unat i)", simp)
  fix v :: "'a vector" and i :: u64 and u x v'
  assume 1: "i + 1 < v_size v" and 2: "check (i \<noteq> UINT64_MAX) = Some u"
    and 3: "vector_elt_set v i x = Some v'"
  have "unat (i + 1) = unat i + 1" using 2 by (simp add: unat_add_1)
  moreover have "unat (i + 1) < unat (v_size v)" using 1 by (simp add: word_less_nat_alt)
  moreover have "v_size v' = v_size v" using 3 by (auto simp: vector_elt_set_def)
  ultimately show "((v', i + 1), (v, i)) \<in> measure (\<lambda>(v, i). unat (v_size v) - unat i)" by simp
qed

definition vector_erase :: "'a vector \<Rightarrow> u64 \<Rightarrow> 'a vector option" where
  "vector_erase v i = do { v \<leftarrow> vector_erase_loop v i; Some (v\<lparr>v_size := v_size v - 1\<rparr>) }"

definition vector_clear :: "'a vector \<Rightarrow> 'a vector" where
  "vector_clear v = v\<lparr>v_size := 0\<rparr>"

function contains_from :: "'a vector \<Rightarrow> 'a \<Rightarrow> nat \<Rightarrow> bool option" where
  "contains_from v elt i =
     (if i < unat (v_size v) then do {
        x \<leftarrow> vector_elt v (of_nat i);
        if x = elt then Some True else contains_from v elt (Suc i)
      } else Some False)"
  by auto
termination by (relation "measure (\<lambda>(v, elt, i). unat (v_size v) - i)") auto

definition vector_contains :: "'a vector \<Rightarrow> 'a \<Rightarrow> bool option" where
  "vector_contains v elt = contains_from v elt 0"

declare vector_erase_loop.simps [simp del] contains_from.simps [simp del]

section \<open>Invariant and contents\<close>

text \<open>
  The capacity is what was allocated and its size in bytes does not wrap around; the elements
  in use are a prefix of the array.
\<close>

definition vector_ok :: "'a vector \<Rightarrow> bool" where
  "vector_ok v \<longleftrightarrow> v_size v \<le> v_capacity v \<and> length (v_elts v) = unat (v_capacity v) \<and>
     unat (v_capacity v) < 2 ^ 61"

definition vector_list :: "'a vector \<Rightarrow> 'a list" where
  "vector_list v = take (unat (v_size v)) (v_elts v)"

section \<open>Lemmas\<close>

lemma slots_eq: "unat n < 2 ^ 61 \<Longrightarrow> slots n = unat n"
  by (simp add: slots_def unat_word_ariths)

lemma vector_okD:
  assumes "vector_ok v"
  shows "unat (v_size v) \<le> unat (v_capacity v)" "length (v_elts v) = unat (v_capacity v)"
    "unat (v_capacity v) < 2 ^ 61" "length (vector_list v) = unat (v_size v)"
  using assms by (auto simp: vector_ok_def vector_list_def word_le_nat_alt)

lemma vector_reserve_ok:
  assumes "vector_ok v" and "unat n < 2 ^ 61"
  shows "\<exists>r v'. vector_reserve mem v n = Some (r, v') \<and> vector_ok v' \<and>
    vector_list v' = vector_list v \<and> v_size v' = v_size v \<and>
    (if n \<le> v_capacity v then r = 1 \<and> v' = v
     else if mem = None then r = - ENOMEM \<and> v' = v
     else r = 0 \<and> v_capacity v' = n)"
proof (cases mem)
  case None
  then show ?thesis using assms by (auto simp: vector_reserve_def vector_create_elts_def)
next
  case (Some junk)
  note v = vector_okD [OF assms(1)]
  have "unat (v_size v) \<le> unat n" if "\<not> n \<le> v_capacity v"
    using that v by (simp add: word_le_nat_alt)
  then show ?thesis using assms Some v
    by (auto simp: vector_reserve_def vector_create_elts_def slots_eq vector_ok_def
        vector_list_def word_le_nat_alt)
qed

lemma vector_elt_set_size:
  assumes "vector_ok v" and "v_size v < v_capacity v"
  shows "\<exists>v'. vector_elt_set v (v_size v) x = Some v' \<and> v_size v' = v_size v \<and>
    vector_ok (v'\<lparr>v_size := v_size v + 1\<rparr>) \<and>
    vector_list (v'\<lparr>v_size := v_size v + 1\<rparr>) = vector_list v @ [x]"
proof -
  have l: "unat (v_size v) < unat (v_capacity v)" using assms(2) by (simp add: word_less_nat_alt)
  then have "unat (v_size v + 1) = Suc (unat (v_size v))" by (rule unat_add_1_less)
  then show ?thesis
    using l vector_okD [OF assms(1)]
    by (auto simp: vector_elt_set_def vector_ok_def vector_list_def word_le_nat_alt
        take_Suc_conv_app_nth)
qed

lemma push_back_all_eq:
  assumes "vector_ok v" and "unat (v_size v) + length xs \<le> unat (v_capacity v)"
  shows "\<exists>v'. push_back_all xs v = Some v' \<and> vector_ok v' \<and>
    vector_list v' = vector_list v @ xs \<and> v_capacity v' = v_capacity v"
  using assms
proof (induction xs arbitrary: v)
  case Nil
  then show ?case by simp
next
  case (Cons x xs)
  then have lt: "v_size v < v_capacity v" by (simp add: word_less_nat_alt)
  obtain w where w: "vector_elt_set v (v_size v) x = Some w" "v_size w = v_size v"
      "vector_ok (w\<lparr>v_size := v_size v + 1\<rparr>)"
      "vector_list (w\<lparr>v_size := v_size v + 1\<rparr>) = vector_list v @ [x]"
    using vector_elt_set_size [OF Cons.prems(1) lt] by blast
  have cap: "v_capacity w = v_capacity v" using w(1) by (auto simp: vector_elt_set_def)
  have "unat (v_size v + 1) = Suc (unat (v_size v))"
    using lt by (intro unat_add_1_less [of _ "v_capacity v"]) (simp add: word_less_nat_alt)
  then obtain v' where "push_back_all xs (w\<lparr>v_size := v_size v + 1\<rparr>) = Some v'" "vector_ok v'"
      "vector_list v' = vector_list v @ x # xs" "v_capacity v' = v_capacity v"
    using Cons.IH [OF w(3)] Cons.prems(2) w(4) cap by auto
  then show ?case using lt w by (auto simp: vector_push_back_def)
qed

lemma vector_erase_loop_eq:
  assumes "vector_ok v" and "i < v_size v"
  shows "\<exists>v'. vector_erase_loop v i = Some v' \<and> v_size v' = v_size v \<and> vector_ok v' \<and>
    take (unat (v_size v) - 1) (v_elts v') =
      take (unat i) (vector_list v) @ drop (Suc (unat i)) (vector_list v)"
  using assms
proof (induction v i rule: vector_erase_loop.induct)
  case (1 v i)
  note v = vector_okD [OF 1(2)]
  have i: "unat i < unat (v_size v)" using 1(3) by (simp add: word_less_nat_alt)
  have suc: "unat (i + 1) = Suc (unat i)" by (rule unat_add_1_less [OF i])
  have le: "Suc (unat i) \<le> unat (v_size v)" using i by simp
  show ?case
  proof (cases "i + 1 < v_size v")
    case True
    let ?w = "v\<lparr>v_elts := (v_elts v)[unat i := v_elts v ! Suc (unat i)]\<rparr>"
    have lt: "Suc (unat i) < length (v_elts v)" using True v suc by (simp add: word_less_nat_alt)
    have nm: "i \<noteq> UINT64_MAX" using suc by auto
    have w: "vector_ok ?w" using 1(2) by (simp add: vector_ok_def)
    have get: "vector_elt v (i + 1) = Some (v_elts v ! Suc (unat i))"
      and set: "vector_elt_set v i (v_elts v ! Suc (unat i)) = Some ?w"
      using lt suc by (simp_all add: vector_elt_def vector_elt_set_def)
    obtain v' where v': "vector_erase_loop ?w (i + 1) = Some v'" "v_size v' = v_size v" "vector_ok v'"
        "take (unat (v_size v) - 1) (v_elts v') =
           take (unat (i + 1)) (vector_list ?w) @ drop (Suc (unat (i + 1))) (vector_list ?w)"
      using 1(1) [OF True _ get set] nm w True by auto
    have "take (Suc (unat i)) (vector_list ?w) @ drop (Suc (Suc (unat i))) (vector_list ?w) =
        take (unat i) (vector_list v) @ drop (Suc (unat i)) (vector_list v)"
    proof -
      have "Suc (unat i) < length (vector_list v)" using True v suc by (simp add: word_less_nat_alt)
      then have "vector_list ?w = (vector_list v)[unat i := vector_list v ! Suc (unat i)]"
        by (simp add: vector_list_def take_update_swap)
      then show ?thesis using \<open>Suc (unat i) < length (vector_list v)\<close>
        by (simp add: take_Suc_conv_app_nth Cons_nth_drop_Suc)
    qed
    then show ?thesis using v' True nm get set suc by (subst vector_erase_loop.simps) simp
  next
    case False
    then have "unat (v_size v) = Suc (unat i)" using i suc by (simp add: word_less_nat_alt)
    then show ?thesis using False 1(2) v by (subst vector_erase_loop.simps) (auto simp: vector_list_def)
  qed
qed

lemma contains_from_eq:
  assumes "vector_ok v"
  shows "contains_from v x i = Some (x \<in> set (drop i (vector_list v)))"
  using assms
proof (induction v x i rule: contains_from.induct)
  case (1 v x i)
  note v = vector_okD [OF 1(2)]
  show ?case
  proof (cases "i < unat (v_size v)")
    case True
    then have "vector_elt v (of_nat i) = Some (vector_list v ! i)"
      using v by (simp add: vector_elt_def vector_list_def unat_of_nat_less [of i "v_size v"])
    moreover have "drop i (vector_list v) = vector_list v ! i # drop (Suc i) (vector_list v)"
      using True v by (simp add: Cons_nth_drop_Suc)
    ultimately show ?thesis using True 1
      by (subst contains_from.simps) auto
  next
    case False
    then show ?thesis using v by (subst contains_from.simps) simp
  qed
qed

section \<open>Properties\<close>

text \<open>C39. \<^verbatim>\<open>vector_push_back\<close> on a well-formed vector: when there is room, or memory to
  double the capacity, it returns 0 and appends the element; when the vector is full and
  \<^verbatim>\<open>malloc\<close> fails it returns \<^verbatim>\<open>-ENOMEM\<close> and changes nothing; and it writes
  outside of the array (\<open>None\<close>) exactly when the capacity is zero, which doubling does not
  change.\<close>

theorem vector_push_back_appends:
  assumes "vector_ok v" and "unat (v_capacity v) < 2 ^ 60"
  shows "(vector_push_back mem v x = None \<longleftrightarrow> v_capacity v = 0) \<and>
    (v_capacity v \<noteq> 0 \<longrightarrow>
      (if v_size v = v_capacity v \<and> mem = None then vector_push_back mem v x = Some (- ENOMEM, v)
       else \<exists>v'. vector_push_back mem v x = Some (0, v') \<and> vector_ok v' \<and>
         vector_list v' = vector_list v @ [x]))"
proof (cases "v_size v = v_capacity v")
  case False
  then have lt: "v_size v < v_capacity v" using assms(1) by (simp add: vector_ok_def order_less_le)
  have "v_capacity v \<noteq> 0"
  proof
    assume "v_capacity v = 0" with lt show False by simp
  qed
  then show ?thesis using vector_elt_set_size [OF assms(1) lt, of x] lt
    by (auto simp: vector_push_back_def)
next
  case full: True
  have dbl: "unat (2 * v_capacity v) = 2 * unat (v_capacity v)"
    using assms(2) by (simp add: unat_word_ariths)
  obtain r w where w: "vector_reserve mem v (2 * v_capacity v) = Some (r, w)" "vector_ok w"
      "vector_list w = vector_list v" "v_size w = v_size v"
      "if 2 * v_capacity v \<le> v_capacity v then r = 1 \<and> w = v
       else if mem = None then r = - ENOMEM \<and> w = v
       else r = 0 \<and> v_capacity w = 2 * v_capacity v"
    using vector_reserve_ok [OF assms(1), of "2 * v_capacity v" mem] assms(2) dbl by auto
  show ?thesis
  proof (cases "v_capacity v = 0")
    case True
    then have "r = 1" "w = v" "v_elts v = []" using w(5) vector_okD [OF assms(1)] by auto
    then show ?thesis using full True w(1)
      by (auto simp: vector_push_back_def vector_grow_def vector_elt_set_def)
  next
    case False
    then have gt: "\<not> 2 * v_capacity v \<le> v_capacity v"
      using dbl by (simp add: word_le_nat_alt unat_gt_0)
    show ?thesis
    proof (cases mem)
      case None
      then show ?thesis using False gt full w(1,5) by (simp add: vector_push_back_def vector_grow_def)
    next
      case (Some junk)
      then have "r = 0" "v_size w < v_capacity w"
        using w(4,5) gt full by (simp_all add: not_le)
      then show ?thesis using vector_elt_set_size [OF w(2), of x] w False Some full
        by (auto simp: vector_push_back_def vector_grow_def)
    qed
  qed
qed

definition sample_vector :: "nat vector" where
  "sample_vector = \<lparr>v_size = 3, v_capacity = 3, v_elts = [10, 20, 30]\<rparr>"

theorem vector_push_back_appends_witness:
  "(\<exists>v'. vector_push_back (Some (\<lambda>_. 7)) sample_vector 40 = Some (0, v') \<and> vector_list v' = [10, 20, 30, 40]) \<and>
    vector_push_back None sample_vector 40 = Some (- ENOMEM, sample_vector)"
  using vector_push_back_appends [of sample_vector "Some (\<lambda>_. 7)" 40] vector_push_back_appends [of sample_vector None 40]
  by (auto simp: sample_vector_def vector_ok_def vector_list_def)

text \<open>\<^verbatim>\<open>vector_push_back_vector\<close>, on well-formed vectors whose joint size can be
  addressed, appends all elements of the second vector in order, with no failure after the
  reservation (its assertion holds), or reports \<^verbatim>\<open>-ENOMEM\<close> with the vector unchanged.\<close>

lemma vector_push_back_vector_appends:
  assumes "vector_ok v" and "vector_ok v2"
    and "unat (v_size v) + unat (v_size v2) < 2 ^ 61"
  shows "\<exists>r v'. vector_push_back_vector mem v v2 = Some (r, v') \<and> vector_ok v' \<and>
    (if r = 0 then vector_list v' = vector_list v @ vector_list v2
     else r = - ENOMEM \<and> v' = v \<and> mem = None)"
proof -
  have sum: "unat (v_size v + v_size v2) = unat (v_size v) + unat (v_size v2)"
    using assms(3) by (simp add: unat_word_ariths)
  obtain r w where w: "vector_reserve mem v (v_size v + v_size v2) = Some (r, w)" "vector_ok w"
      "vector_list w = vector_list v" "v_size w = v_size v"
      "if v_size v + v_size v2 \<le> v_capacity v then r = 1 \<and> w = v
       else if mem = None then r = - ENOMEM \<and> w = v
       else r = 0 \<and> v_capacity w = v_size v + v_size v2"
    using vector_reserve_ok [OF assms(1), of "v_size v + v_size v2" mem] assms(3) sum by auto
  show ?thesis
  proof (cases "r < 0")
    case True
    then have "r = - ENOMEM" "w = v" "mem = None" using w(5) by (auto split: if_splits)
    then show ?thesis using w(1,2) by (simp add: vector_push_back_vector_def)
  next
    case False
    then have "unat (v_size w) + unat (v_size v2) \<le> unat (v_capacity w)"
      using w(4,5) sum by (auto simp: word_le_nat_alt split: if_splits)
    then obtain v' where "push_back_all (vector_list v2) w = Some v'" "vector_ok v'"
        "vector_list v' = vector_list w @ vector_list v2"
      using push_back_all_eq [OF w(2), of "vector_list v2"] vector_okD [OF assms(2)] by auto
    then show ?thesis using False w(1,3) vector_okD [OF assms(2)]
      by (auto simp: vector_push_back_vector_def vector_list_def)
  qed
qed

lemma vector_push_back_vector_appends_witness:
  "\<exists>r v'. vector_push_back_vector (Some (\<lambda>_. 7)) sample_vector sample_vector = Some (r, v') \<and>
    vector_list v' = [10, 20, 30, 10, 20, 30]"
  using vector_push_back_vector_appends [of sample_vector sample_vector "Some (\<lambda>_. 7)"]
  by (auto simp: sample_vector_def vector_ok_def vector_list_def split: if_splits)

text \<open>C40. \<^verbatim>\<open>vector_erase\<close> of an index in use removes exactly that element, and
  \<^verbatim>\<open>vector_contains\<close> answers whether an element is among those in use.\<close>

theorem vector_erase_removes:
  assumes "vector_ok v" and "i < v_size v"
  shows "\<exists>v'. vector_erase v i = Some v' \<and> vector_ok v' \<and>
    vector_list v' = take (unat i) (vector_list v) @ drop (Suc (unat i)) (vector_list v) \<and>
    vector_contains v' x =
      Some (x \<in> set (take (unat i) (vector_list v)) \<union> set (drop (Suc (unat i)) (vector_list v)))"
proof -
  obtain w where w: "vector_erase_loop v i = Some w" "v_size w = v_size v" "vector_ok w"
      "take (unat (v_size v) - 1) (v_elts w) =
         take (unat i) (vector_list v) @ drop (Suc (unat i)) (vector_list v)"
    using vector_erase_loop_eq [OF assms] by blast
  have "v_size v \<noteq> 0" using assms(2) by (metis word_not_simps(1))
  then have sz: "unat (v_size v - 1) = unat (v_size v) - 1" by (simp add: unat_minus_one)
  let ?v' = "w\<lparr>v_size := v_size v - 1\<rparr>"
  have ok: "vector_ok ?v'" using w(2,3) sz
    by (auto simp: vector_ok_def word_le_nat_alt)
  have "vector_list ?v' = take (unat i) (vector_list v) @ drop (Suc (unat i)) (vector_list v)"
    using w(4) sz by (simp add: vector_list_def)
  then show ?thesis using w(1,2) ok contains_from_eq [OF ok, of x 0]
    by (simp add: vector_erase_def vector_contains_def)
qed

theorem vector_erase_removes_witness:
  "\<exists>v'. vector_erase sample_vector 1 = Some v' \<and> vector_list v' = [10, 30] \<and> vector_contains v' 20 = Some False"
  using vector_erase_removes [of sample_vector 1 20]
  by (auto simp: sample_vector_def vector_ok_def vector_list_def)

end
