(* ===== verification/Hash_Map.thy ===== *)
theory Hash_Map
  imports Vector
begin

text \<open>
  The chaining hash table of \<^verbatim>\<open>hash_map.c\<close>. Keys are pointers (type
  \<^verbatim>\<open>PTR\<close>, compared by address) or strings (type \<^verbatim>\<open>STR\<close>, compared by contents);
  the strings do not change while they are keys. Values are the non-null pointers of the
  clients, of a type variable here. A chain is the list of its elements from the head; a pointer
  to a chain element is written as the key of the element, which is unique in its chain. The
  debugging counters \<^verbatim>\<open>version\<close> and \<^verbatim>\<open>loose_version\<close> are kept, as in a build with
  assertions. \<open>None\<close> is the end of the process: a failed assertion or a bad access.
\<close>

datatype hkey = KPtr u64 | KStr string

datatype htype = TPtr | TStr

type_synonym 'v chain = "(hkey \<times> 'v) list"

record 'v hash_map =
  hm_size :: u64
  hm_auto_resize :: bool
  hm_tbl :: "'v chain vector"
  hm_type :: htype
  hm_version :: u64
  hm_loose_version :: u64

text \<open>Whether the three calls of \<^verbatim>\<open>malloc\<close> for a new table succeed.\<close>

type_synonym hm_mem = "bool \<times> bool \<times> bool"

section \<open>Hashing\<close>

definition prime_list :: "u64 list" where
  "prime_list =
     [53, 97, 193, 389, 769, 1543, 3079, 6151, 12289, 24593,
      49157, 98317, 196613, 393241, 786433, 1572869, 3145739, 6291469, 12582917, 25165843,
      50331653, 100663319, 201326611, 402653189, 805306457, 1610612741, 3221225473, 4294967291]"

text \<open>
  The loop condition reads \<^verbatim>\<open>*pos\<close> before it compares \<open>pos\<close> with the end; for an \<open>n\<close>
  beyond the last prime it reads one element past the array, whose value decides nothing.
\<close>

fun next_size_loop :: "u64 list \<Rightarrow> u64 \<Rightarrow> u64" where
  "next_size_loop [] n = 4294967291"
| "next_size_loop (p # ps) n = (if p < n then next_size_loop ps n else p)"

definition next_size :: "u64 \<Rightarrow> u64" where
  "next_size n = next_size_loop prime_list n"

definition hash_ptr :: "u64 \<Rightarrow> u64 \<Rightarrow> u64" where
  "hash_ptr k tbl_size = k mod tbl_size"

text \<open>A \<^verbatim>\<open>char\<close> is signed: its value is sign-extended to 64 bits.\<close>

definition hash_str :: "string \<Rightarrow> u64 \<Rightarrow> u64" where
  "hash_str s tbl_size =
     foldl (\<lambda>h c. 5 * h + scast (of_nat (of_char c) :: u8)) 0 s mod tbl_size"

fun hash_type :: "htype \<Rightarrow> u64 \<Rightarrow> hkey \<Rightarrow> u64 option" where
  "hash_type TPtr n (KPtr p) = Some (hash_ptr p n)"
| "hash_type TStr n (KStr s) = Some (hash_str s n)"
| "hash_type _ _ _ = None"

definition hash :: "'v hash_map \<Rightarrow> hkey \<Rightarrow> u64 option" where
  "hash hm k = hash_type (hm_type hm) (v_size (hm_tbl hm)) k"

section \<open>Chains\<close>

fun chain_search_key :: "'v chain \<Rightarrow> hkey \<Rightarrow> (hkey \<times> 'v) option" where
  "chain_search_key [] k = None"
| "chain_search_key (e # es) k = (if fst e = k then Some e else chain_search_key es k)"

text \<open>Unlink the element with key \<open>k\<close>; store a value in it.\<close>

fun chain_unlink :: "hkey \<Rightarrow> 'v chain \<Rightarrow> 'v chain" where
  "chain_unlink k [] = []"
| "chain_unlink k (e # es) = (if fst e = k then es else e # chain_unlink k es)"

fun chain_set_val :: "hkey \<Rightarrow> 'v \<Rightarrow> 'v chain \<Rightarrow> 'v chain" where
  "chain_set_val k v [] = []"
| "chain_set_val k v (e # es) = (if fst e = k then (fst e, v) # es else e # chain_set_val k v es)"

section \<open>Construction\<close>

definition hash_map_create_size_type :: "hm_mem \<Rightarrow> u64 \<Rightarrow> bool \<Rightarrow> htype \<Rightarrow> 'v hash_map option" where
  "hash_map_create_size_type mem n auto_resize type =
     (if n = 0 then None
      else if \<not> fst mem then None
      else map_option
        (\<lambda>tbl. \<lparr>hm_size = 0, hm_auto_resize = auto_resize, hm_tbl = tbl, hm_type = type,
               hm_version = 0, hm_loose_version = 0\<rparr>)
        (vector_create_size (fst (snd mem)) (if snd (snd mem) then Some (\<lambda>_. []) else None) []
           (next_size n)))"

definition hash_map_create_ptr :: "hm_mem \<Rightarrow> 'v hash_map option" where
  "hash_map_create_ptr mem = hash_map_create_size_type mem 1 True TPtr"

definition hash_map_create_str :: "hm_mem \<Rightarrow> 'v hash_map option" where
  "hash_map_create_str mem = hash_map_create_size_type mem 1 True TStr"

text \<open>The sized constructors ignore their arguments.\<close>

definition hash_map_create_size_ptr :: "hm_mem \<Rightarrow> u64 \<Rightarrow> bool \<Rightarrow> 'v hash_map option" where
  "hash_map_create_size_ptr mem n auto_resize = hash_map_create_size_type mem 1 True TPtr"

definition hash_map_create_size_str :: "hm_mem \<Rightarrow> u64 \<Rightarrow> bool \<Rightarrow> 'v hash_map option" where
  "hash_map_create_size_str mem n auto_resize = hash_map_create_size_type mem 1 True TStr"

section \<open>Lookup, insertion and removal\<close>

definition hash_map_size :: "'v hash_map \<Rightarrow> u64" where
  "hash_map_size hm = hm_size hm"

definition hash_map_empty :: "'v hash_map \<Rightarrow> bool" where
  "hash_map_empty hm = (hm_size hm = 0)"

definition hash_map_bucket_count :: "'v hash_map \<Rightarrow> u64" where
  "hash_map_bucket_count hm = v_size (hm_tbl hm)"

definition hash_map_find_internal :: "'v hash_map \<Rightarrow> hkey \<Rightarrow> (hkey \<times> 'v) option option" where
  "hash_map_find_internal hm k = do {
     elt_num \<leftarrow> hash hm k;
     head \<leftarrow> vector_elt (hm_tbl hm) elt_num;
     Some (chain_search_key head k)
   }"

definition hash_map_find_val :: "'v hash_map \<Rightarrow> hkey \<Rightarrow> 'v option option" where
  "hash_map_find_val hm k = map_option (map_option snd) (hash_map_find_internal hm k)"

definition hash_map_find_elt :: "'v hash_map \<Rightarrow> hkey \<Rightarrow> (hkey \<times> 'v) option option" where
  "hash_map_find_elt hm k = hash_map_find_internal hm k"

definition bump :: "'v hash_map \<Rightarrow> 'v hash_map" where
  "bump hm = hm\<lparr>hm_version := hm_version hm + 1, hm_loose_version := hm_loose_version hm + 1\<rparr>"

definition insert_chain_elt :: "'v hash_map \<Rightarrow> hkey \<times> 'v \<Rightarrow> 'v hash_map option" where
  "insert_chain_elt hm elt = do {
     elt_num \<leftarrow> hash hm (fst elt);
     head \<leftarrow> vector_elt (hm_tbl hm) elt_num;
     tbl \<leftarrow> vector_elt_set (hm_tbl hm) elt_num (elt # head);
     Some (bump (hm\<lparr>hm_tbl := tbl, hm_size := hm_size hm + 1\<rparr>))
   }"

definition erase_chain_elt :: "'v hash_map \<Rightarrow> hkey \<Rightarrow> ((hkey \<times> 'v) option \<times> 'v hash_map) option" where
  "erase_chain_elt hm k = do {
     elt_num \<leftarrow> hash hm k;
     head \<leftarrow> vector_elt (hm_tbl hm) elt_num;
     case chain_search_key head k of
       None \<Rightarrow> Some (None, hm)
     | Some k_chain \<Rightarrow> do {
         tbl \<leftarrow> vector_elt_set (hm_tbl hm) elt_num (chain_unlink k head);
         Some (Some k_chain,
           hm\<lparr>hm_tbl := tbl, hm_size := hm_size hm - 1, hm_version := hm_version hm + 1\<rparr>)
       }
   }"

definition hash_map_erase :: "'v hash_map \<Rightarrow> hkey \<Rightarrow> ('v option \<times> 'v hash_map) option" where
  "hash_map_erase hm k = do {
     (k_chain, hm) \<leftarrow> erase_chain_elt hm k;
     Some (map_option snd k_chain, hm)
   }"

text \<open>The loops of \<^verbatim>\<open>hash_map_resize\<close> over a chain and over the buckets.\<close>

primrec rehash_chain :: "'v chain \<Rightarrow> 'v hash_map \<times> 'v hash_map \<Rightarrow> ('v hash_map \<times> 'v hash_map) option" where
  "rehash_chain [] p = Some p"
| "rehash_chain (elt # es) p = do {
     (found, hm) \<leftarrow> erase_chain_elt (fst p) (fst elt);
     check (found \<noteq> None);
     new_hm \<leftarrow> insert_chain_elt (snd p) elt;
     rehash_chain es (hm, new_hm)
   }"

primrec rehash :: "nat list \<Rightarrow> 'v hash_map \<times> 'v hash_map \<Rightarrow> ('v hash_map \<times> 'v hash_map) option" where
  "rehash [] p = Some p"
| "rehash (i # is) p = do {
     chain \<leftarrow> vector_elt (hm_tbl (fst p)) (of_nat i);
     p \<leftarrow> rehash_chain chain p;
     rehash is p
   }"

definition hash_map_clear :: "'v hash_map \<Rightarrow> 'v hash_map option" where
  "hash_map_clear hm = do {
     check (unat (v_size (hm_tbl hm)) \<le> length (v_elts (hm_tbl hm)));
     Some (bump (hm\<lparr>hm_size := 0,
       hm_tbl := (hm_tbl hm)\<lparr>v_elts :=
         replicate (unat (v_size (hm_tbl hm))) [] @
         drop (unat (v_size (hm_tbl hm))) (v_elts (hm_tbl hm))\<rparr>\<rparr>))
   }"

definition hash_map_resize :: "hm_mem \<Rightarrow> 'v hash_map \<Rightarrow> u64 \<Rightarrow> (int \<times> 'v hash_map) option" where
  "hash_map_resize mem hm n0 = (
     let n = next_size n0 in
     if n = hash_map_bucket_count hm then Some (1, hm)
     else case hash_map_create_size_type mem n (hm_auto_resize hm) (hm_type hm) of
       None \<Rightarrow> Some (- ENOMEM, hm)
     | Some new_hm \<Rightarrow> do {
         (hm, new_hm) \<leftarrow> rehash [0..<unat (v_size (hm_tbl hm))] (hm, new_hm);
         hm \<leftarrow> hash_map_clear hm;
         Some (0, bump (hm\<lparr>hm_size := hm_size new_hm, hm_tbl := hm_tbl new_hm\<rparr>))
       })"

text \<open>
  \<^verbatim>\<open>chain_elt_create\<close> writes through the pointer it got from the pool without a check,
  so a failed allocation ends the process before the caller's test for
  \<^verbatim>\<open>NULL\<close>: the argument \<open>pool\<close> says whether the pool has an element.
\<close>

definition chain_elt_create :: "bool \<Rightarrow> hkey \<Rightarrow> 'v \<Rightarrow> (hkey \<times> 'v) option" where
  "chain_elt_create pool k v = do { check pool; Some (k, v) }"

definition hash_map_insert ::
  "bool \<Rightarrow> hm_mem \<Rightarrow> 'v hash_map \<Rightarrow> hkey \<Rightarrow> 'v \<Rightarrow> (int \<times> 'v hash_map) option" where
  "hash_map_insert pool mem hm k v = do {
     elt_num \<leftarrow> hash hm k;
     head \<leftarrow> vector_elt (hm_tbl hm) elt_num;
     case chain_search_key head k of
       Some existing_elt \<Rightarrow> do {
         tbl \<leftarrow> vector_elt_set (hm_tbl hm) elt_num (chain_set_val k v head);
         Some (1, bump (hm\<lparr>hm_tbl := tbl\<rparr>))
       }
     | None \<Rightarrow> do {
         elt \<leftarrow> chain_elt_create pool k v;
         tbl \<leftarrow> vector_elt_set (hm_tbl hm) elt_num (elt # head);
         let hm = bump (hm\<lparr>hm_tbl := tbl, hm_size := hm_size hm + 1\<rparr>);
         hm \<leftarrow> (if hm_auto_resize hm \<and> hash_map_bucket_count hm < next_size (hash_map_size hm)
               then map_option snd (hash_map_resize mem hm (hash_map_size hm))
               else Some hm);
         Some (0, hm)
       }
   }"

definition hash_map_change_key :: "'v hash_map \<Rightarrow> hkey \<Rightarrow> hkey \<Rightarrow> (int \<times> 'v hash_map) option" where
  "hash_map_change_key hm oldk newk = do {
     newk_elt_num \<leftarrow> hash hm newk;
     head \<leftarrow> vector_elt (hm_tbl hm) newk_elt_num;
     if chain_search_key head newk \<noteq> None then Some (- EEXIST, hm)
     else do {
       oldk_elt_num \<leftarrow> hash hm oldk;
       head \<leftarrow> vector_elt (hm_tbl hm) oldk_elt_num;
       case chain_search_key head oldk of
         None \<Rightarrow> Some (- ENOENT, hm)
       | Some elt \<Rightarrow> do {
           tbl \<leftarrow> vector_elt_set (hm_tbl hm) oldk_elt_num (chain_unlink oldk head);
           head \<leftarrow> vector_elt tbl newk_elt_num;
           tbl \<leftarrow> vector_elt_set tbl newk_elt_num ((newk, snd elt) # head);
           Some (0, bump (hm\<lparr>hm_tbl := tbl\<rparr>))
         }
     }
   }"

section \<open>Invariant and contents\<close>

definition buckets :: "'v hash_map \<Rightarrow> 'v chain list" where
  "buckets hm = v_elts (hm_tbl hm)"

definition chain_ok :: "'v hash_map \<Rightarrow> nat \<Rightarrow> 'v chain \<Rightarrow> bool" where
  "chain_ok hm i c \<longleftrightarrow> distinct (map fst c) \<and> (\<forall>e \<in> set c. hash hm (fst e) = Some (of_nat i))"

definition table_ok :: "'v hash_map \<Rightarrow> bool" where
  "table_ok hm \<longleftrightarrow> vector_ok (hm_tbl hm) \<and> v_size (hm_tbl hm) = v_capacity (hm_tbl hm) \<and>
     v_size (hm_tbl hm) \<noteq> 0 \<and> (\<forall>i < length (buckets hm). chain_ok hm i (buckets hm ! i))"

definition hash_map_ok :: "'v hash_map \<Rightarrow> bool" where
  "hash_map_ok hm \<longleftrightarrow> table_ok hm \<and> hm_size hm = of_nat (length (concat (buckets hm)))"

definition hm_map :: "'v hash_map \<Rightarrow> hkey \<Rightarrow> 'v option" where
  "hm_map hm k = (case hash hm k of None \<Rightarrow> None | Some i \<Rightarrow> map_of (buckets hm ! unat i) k)"

definition key_ok :: "'v hash_map \<Rightarrow> hkey \<Rightarrow> bool" where
  "key_ok hm k \<longleftrightarrow> hash hm k \<noteq> None"

section \<open>Chains\<close>

lemma chain_search_key_eq: "chain_search_key c k = map_option (Pair k) (map_of c k)"
  by (induction c) auto

lemma map_of_chain_set_val:
  "map_of c k \<noteq> None \<Longrightarrow> map_of (chain_set_val k v c) = (map_of c)(k \<mapsto> v)"
  by (induction c) (auto simp: fun_eq_iff)

lemma keys_chain_set_val [simp]: "map fst (chain_set_val k v c) = map fst c"
  by (induction c) auto

lemma length_chain_set_val [simp]: "length (chain_set_val k v c) = length c"
  by (induction c) auto

lemma map_of_chain_unlink:
  "distinct (map fst c) \<Longrightarrow> map_of (chain_unlink k c) = (map_of c)(k := None)"
  by (induction c) (auto simp: fun_eq_iff map_of_eq_None_iff)

lemma set_chain_unlink: "set (chain_unlink k c) \<subseteq> set c"
  by (induction c) auto

lemma distinct_chain_unlink: "distinct (map fst c) \<Longrightarrow> distinct (map fst (chain_unlink k c))"
  by (induction c) (use set_chain_unlink in force)+

lemma length_chain_unlink:
  "map_of c k \<noteq> None \<Longrightarrow> Suc (length (chain_unlink k c)) = length c"
  by (induction c) auto

lemma chain_ok_iff_keys:
  "chain_ok hm i c \<longleftrightarrow> distinct (map fst c) \<and> (\<forall>k \<in> set (map fst c). hash hm k = Some (of_nat i))"
  by (simp add: chain_ok_def)

lemma chain_ok_unlink: "chain_ok hm i c \<Longrightarrow> chain_ok hm i (chain_unlink k c)"
  using set_chain_unlink [of k c] by (auto simp: chain_ok_def distinct_chain_unlink)

lemma chain_ok_set_val: "chain_ok hm i c \<Longrightarrow> chain_ok hm i (chain_set_val k v c)"
  unfolding chain_ok_iff_keys keys_chain_set_val .

section \<open>Replacing a chain\<close>

definition put_chain :: "u64 \<Rightarrow> 'v chain \<Rightarrow> 'v hash_map \<Rightarrow> 'v hash_map" where
  "put_chain i c hm = hm\<lparr>hm_tbl := (hm_tbl hm)\<lparr>v_elts := (buckets hm)[unat i := c]\<rparr>\<rparr>"

lemma put_chain_simps [simp]:
  "buckets (put_chain i c hm) = (buckets hm)[unat i := c]"
  "hash (put_chain i c hm) = hash hm"
  "hm_size (put_chain i c hm) = hm_size hm"
  "hm_type (put_chain i c hm) = hm_type hm"
  "v_size (hm_tbl (put_chain i c hm)) = v_size (hm_tbl hm)"
  "v_capacity (hm_tbl (put_chain i c hm)) = v_capacity (hm_tbl hm)"
  by (simp_all add: put_chain_def buckets_def hash_def fun_eq_iff)

lemma counters_simps [simp]:
  "buckets (bump hm) = buckets hm" "hash (bump hm) = hash hm" "hm_size (bump hm) = hm_size hm"
  "hm_tbl (bump hm) = hm_tbl hm" "hm_type (bump hm) = hm_type hm"
  "hm_auto_resize (bump hm) = hm_auto_resize hm"
  "buckets (hm\<lparr>hm_size := n\<rparr>) = buckets hm" "hash (hm\<lparr>hm_size := n\<rparr>) = hash hm"
  "buckets (hm\<lparr>hm_version := w\<rparr>) = buckets hm" "hash (hm\<lparr>hm_version := w\<rparr>) = hash hm"
  by (simp_all add: bump_def buckets_def hash_def fun_eq_iff)

lemma table_ok_counters [simp]:
  "table_ok (bump hm) = table_ok hm" "table_ok (hm\<lparr>hm_size := n\<rparr>) = table_ok hm"
  "table_ok (hm\<lparr>hm_version := w\<rparr>) = table_ok hm"
  by (simp_all add: table_ok_def chain_ok_def)

lemma hm_map_counters [simp]:
  "hm_map (bump hm) = hm_map hm" "hm_map (hm\<lparr>hm_size := n\<rparr>) = hm_map hm"
  "hm_map (hm\<lparr>hm_version := w\<rparr>) = hm_map hm"
  by (simp_all add: hm_map_def fun_eq_iff cong: option.case_cong)

lemma table_okD:
  assumes "table_ok hm"
  shows "length (buckets hm) = unat (v_size (hm_tbl hm))" "0 < length (buckets hm)"
    "unat (v_size (hm_tbl hm)) < 2 ^ 61"
    "i < length (buckets hm) \<Longrightarrow> chain_ok hm i (buckets hm ! i)"
  using assms by (auto simp: table_ok_def buckets_def vector_ok_def unat_gt_0)

lemma hash_bound:
  assumes "table_ok hm" and "hash hm k = Some i"
  shows "unat i < length (buckets hm)"
proof -
  have "i < v_size (hm_tbl hm)"
    using assms table_okD(2) [OF assms(1)]
    by (cases "(hm_type hm, v_size (hm_tbl hm), k)" rule: hash_type.cases)
       (auto simp: hash_def hash_ptr_def hash_str_def table_ok_def word_mod_less_divisor word_neq_0_conv)
  then show ?thesis using table_okD(1) [OF assms(1)] by (simp add: word_less_nat_alt)
qed

lemma bucket_access:
  assumes "table_ok hm" and "hash hm k = Some i"
  shows "vector_elt (hm_tbl hm) i = Some (buckets hm ! unat i)"
    and "vector_elt_set (hm_tbl hm) i c = Some (hm_tbl (put_chain i c hm))"
    and "chain_ok hm (unat i) (buckets hm ! unat i)"
  using hash_bound [OF assms] table_okD(4) [OF assms(1)]
  by (auto simp: vector_elt_def vector_elt_set_def put_chain_def buckets_def)

lemma set_tbl_put_chain: "hm\<lparr>hm_tbl := hm_tbl (put_chain i c hm)\<rparr> = put_chain i c hm"
  by (simp add: put_chain_def)

lemma put_chain_ok:
  assumes "table_ok hm" and "unat i < length (buckets hm)" and "chain_ok hm (unat i) c"
  shows "table_ok (put_chain i c hm)"
    and "hm_map (put_chain i c hm) k = (if hash hm k = Some i then map_of c k else hm_map hm k)"
proof -
  have "chain_ok (put_chain i c hm) j d = chain_ok hm j d" for j d by (simp add: chain_ok_def)
  then show "table_ok (put_chain i c hm)"
    using assms by (auto simp: table_ok_def vector_ok_def nth_list_update put_chain_def buckets_def)
  show "hm_map (put_chain i c hm) k = (if hash hm k = Some i then map_of c k else hm_map hm k)"
    using assms(2) by (auto simp: hm_map_def nth_list_update split: option.splits)
qed

lemma length_concat_update:
  "i < length xss \<Longrightarrow>
    length (concat (xss[i := c])) + length (xss ! i) = length (concat xss) + length c"
  by (induction xss arbitrary: i) (auto split: nat.splits)

lemma hm_map_bucket:
  "hash hm k = Some i \<Longrightarrow> hm_map hm k = map_of (buckets hm ! unat i) k"
  by (simp add: hm_map_def)

lemma hm_map_None: "\<not> key_ok hm k \<Longrightarrow> hm_map hm k = None"
  by (simp add: hm_map_def key_ok_def)

lemma chain_map_of_other:
  assumes "chain_ok hm (unat i) c" and "hash hm k \<noteq> Some i"
  shows "map_of c k = None"
  using assms by (auto simp: chain_ok_def map_of_eq_None_iff)

section \<open>Lookup and removal\<close>

lemma find_val_eq:
  assumes "hash_map_ok hm" and "key_ok hm k"
  shows "hash_map_find_val hm k = Some (hm_map hm k)"
proof -
  have t: "table_ok hm" using assms(1) by (simp add: hash_map_ok_def)
  obtain i where i: "hash hm k = Some i" using assms(2) by (auto simp: key_ok_def)
  show ?thesis using bucket_access(1) [OF t i] i
    by (simp add: hash_map_find_val_def hash_map_find_internal_def chain_search_key_eq hm_map_bucket
        option.map_comp comp_def option.map_ident)
qed

lemma erase_chain_elt_ok:
  assumes "table_ok hm" and "hash hm k = Some i"
  shows "\<exists>hm'. erase_chain_elt hm k = Some (map_option (Pair k) (hm_map hm k), hm') \<and>
    table_ok hm' \<and> hm_map hm' = (hm_map hm)(k := None) \<and> hash hm' = hash hm \<and>
    (if hm_map hm k = None then hm' = hm
     else hm_size hm' = hm_size hm - 1 \<and> hm_type hm' = hm_type hm \<and> v_size (hm_tbl hm') = v_size (hm_tbl hm) \<and>
       buckets hm' = (buckets hm)[unat i := chain_unlink k (buckets hm ! unat i)])"
proof -
  let ?c = "buckets hm ! unat i"
  note b = bucket_access [OF assms]
  have m: "hm_map hm k = map_of ?c k" using assms(2) by (rule hm_map_bucket)
  show ?thesis
  proof (cases "map_of ?c k")
    case None
    then show ?thesis using assms b m
      by (auto simp: erase_chain_elt_def chain_search_key_eq)
  next
    case (Some v)
    let ?hm = "put_chain i (chain_unlink k ?c) hm"
    have ok: "chain_ok hm (unat i) (chain_unlink k ?c)" by (rule chain_ok_unlink [OF b(3)])
    have d: "distinct (map fst ?c)" using b(3) by (simp add: chain_ok_def)
    note p = put_chain_ok [OF assms(1) hash_bound [OF assms] ok]
    have "hm_map ?hm = (hm_map hm)(k := None)"
    proof
      fix k'
      show "hm_map ?hm k' = ((hm_map hm)(k := None)) k'"
        using p(2) [of k'] hm_map_bucket [of hm k' i] assms(2) map_of_chain_unlink [OF d]
        by (cases "hash hm k' = Some i") auto
    qed
    moreover have "erase_chain_elt hm k = Some (Some (k, v),
        ?hm\<lparr>hm_size := hm_size hm - 1, hm_version := hm_version hm + 1\<rparr>)"
      using assms(2) b Some by (simp add: erase_chain_elt_def chain_search_key_eq put_chain_def)
    ultimately show ?thesis using p(1) m Some by auto
  qed
qed

lemma hash_map_erase_ok:
  assumes "hash_map_ok hm" and "key_ok hm k"
  shows "\<exists>hm'. hash_map_erase hm k = Some (hm_map hm k, hm') \<and> hash_map_ok hm' \<and>
    hm_map hm' = (hm_map hm)(k := None) \<and> hash hm' = hash hm \<and>
    (hm_map hm k = None \<longrightarrow> hm' = hm)"
proof -
  have t: "table_ok hm" using assms(1) by (simp add: hash_map_ok_def)
  obtain i where i: "hash hm k = Some i" using assms(2) by (auto simp: key_ok_def)
  obtain hm' where e: "erase_chain_elt hm k = Some (map_option (Pair k) (hm_map hm k), hm')"
      "table_ok hm'" "hm_map hm' = (hm_map hm)(k := None)" "hash hm' = hash hm"
    and r: "if hm_map hm k = None then hm' = hm
     else hm_size hm' = hm_size hm - 1 \<and> hm_type hm' = hm_type hm \<and> v_size (hm_tbl hm') = v_size (hm_tbl hm) \<and>
       buckets hm' = (buckets hm)[unat i := chain_unlink k (buckets hm ! unat i)]"
    using erase_chain_elt_ok [OF t i] by blast
  have "hash_map_ok hm'"
  proof (cases "hm_map hm k = None")
    case True
    then show ?thesis using r assms(1) by simp
  next
    case False
    let ?c = "buckets hm ! unat i"
    have "Suc (length (chain_unlink k ?c)) = length ?c"
      using False hm_map_bucket [OF i] length_chain_unlink by metis
    then have "Suc (length (concat (buckets hm'))) = length (concat (buckets hm))"
      using False r length_concat_update [OF hash_bound [OF t i], of "chain_unlink k ?c"] by simp
    then have "(of_nat (length (concat (buckets hm))) :: u64) = of_nat (length (concat (buckets hm'))) + 1"
      by (metis add.commute of_nat_Suc)
    then show ?thesis using False r e(2) assms(1) by (simp add: hash_map_ok_def)
  qed
  then show ?thesis using e r
    by (auto simp: hash_map_erase_def option.map_comp comp_def option.map_ident split: if_splits)
qed

section \<open>Insertion and resizing\<close>

lemma insert_chain_elt_ok:
  assumes "table_ok hm" and "hash hm k = Some i" and "hm_map hm k = None"
  shows "\<exists>hm'. insert_chain_elt hm (k, v) = Some hm' \<and> table_ok hm' \<and>
    hm_map hm' = (hm_map hm)(k \<mapsto> v) \<and> hash hm' = hash hm \<and> hm_size hm' = hm_size hm + 1 \<and>
    length (concat (buckets hm')) = Suc (length (concat (buckets hm))) \<and>
    hm_auto_resize hm' = hm_auto_resize hm \<and> hm_type hm' = hm_type hm \<and>
    v_size (hm_tbl hm') = v_size (hm_tbl hm)"
proof -
  let ?c = "(k, v) # buckets hm ! unat i"
  let ?hm = "put_chain i ?c hm"
  note b = bucket_access [OF assms(1,2)]
  have "map_of (buckets hm ! unat i) k = None" using assms(3) hm_map_bucket [OF assms(2)] by simp
  then have ok: "chain_ok hm (unat i) ?c" using b(3) assms(2) by (auto simp: chain_ok_def map_of_eq_None_iff)
  note p = put_chain_ok [OF assms(1) hash_bound [OF assms(1,2)] ok]
  have m: "hm_map ?hm = (hm_map hm)(k \<mapsto> v)"
  proof
    fix k'
    show "hm_map ?hm k' = ((hm_map hm)(k \<mapsto> v)) k'"
      using p(2) [of k'] hm_map_bucket [of hm k' i] assms(2) by (cases "hash hm k' = Some i") auto
  qed
  have "length (concat (buckets ?hm)) = Suc (length (concat (buckets hm)))"
    using length_concat_update [OF hash_bound [OF assms(1,2)], of ?c] by simp
  moreover have "insert_chain_elt hm (k, v) = Some (bump (?hm\<lparr>hm_size := hm_size hm + 1\<rparr>))"
    using assms(2) b by (simp add: insert_chain_elt_def put_chain_def)
  moreover have "hm_auto_resize ?hm = hm_auto_resize hm" by (simp add: put_chain_def)
  ultimately show ?thesis using p(1) m by simp
qed

lemma rehash_chain_ok:
  assumes "table_ok hm" and "table_ok new" and "i < length (buckets hm)" and "buckets hm ! i = es"
    and "hm_type new = hm_type hm" and "\<forall>e \<in> set es. hm_map new (fst e) = None"
  shows "\<exists>hm' new'. rehash_chain es (hm, new) = Some (hm', new') \<and> table_ok hm' \<and> table_ok new' \<and>
    buckets hm' = (buckets hm)[i := []] \<and> hash hm' = hash hm \<and> hm_type hm' = hm_type hm \<and>
    v_size (hm_tbl hm') = v_size (hm_tbl hm) \<and>
    hm_map new' = hm_map new ++ map_of es \<and> hm_type new' = hm_type new \<and>
    (hm_size new = of_nat (length (concat (buckets new))) \<longrightarrow>
     hm_size new' = of_nat (length (concat (buckets new'))))"
  using assms
proof (induction es arbitrary: hm new)
  case Nil
  then show ?case using list_update_id [of "buckets hm" i] by auto
next
  case (Cons e es)
  obtain k v where e: "e = (k, v)" by (cases e)
  have ui: "unat (of_nat i :: u64) = i"
    using Cons.prems(3) table_okD(1) [OF Cons.prems(1)]
    by (intro unat_of_nat_less [of _ "v_size (hm_tbl hm)"]) simp
  have c: "chain_ok hm i (e # es)" using table_okD(4) [OF Cons.prems(1,3)] Cons.prems(4) by simp
  then have h: "hash hm k = Some (of_nat i)" and d: "k \<notin> fst ` set es" "distinct (map fst es)"
    by (auto simp: chain_ok_def e)
  have mk: "hm_map hm k = Some v" using hm_map_bucket [OF h] ui Cons.prems(4) e by simp
  obtain hm1 where hm1: "erase_chain_elt hm k = Some (Some (k, v), hm1)" "table_ok hm1"
      "hash hm1 = hash hm" "hm_type hm1 = hm_type hm" "v_size (hm_tbl hm1) = v_size (hm_tbl hm)"
      "buckets hm1 = (buckets hm)[i := es]"
    using erase_chain_elt_ok [OF Cons.prems(1) h] mk ui Cons.prems(4) e by auto
  obtain j where j: "hash new k = Some j"
    using h Cons.prems(5) by (cases "hm_type hm"; cases k) (auto simp: hash_def)
  obtain new1 where new1: "insert_chain_elt new (k, v) = Some new1" "table_ok new1"
      "hm_map new1 = (hm_map new)(k \<mapsto> v)" "hm_type new1 = hm_type new"
      "hm_size new1 = hm_size new + 1"
      "length (concat (buckets new1)) = Suc (length (concat (buckets new)))"
    using insert_chain_elt_ok [OF Cons.prems(2) j] Cons.prems(6) e by auto
  have none: "\<forall>e \<in> set es. hm_map new1 (fst e) = None" using new1(3) Cons.prems(6) d e by auto
  have pre: "i < length (buckets hm1)" "buckets hm1 ! i = es" "hm_type new1 = hm_type hm1"
    using hm1 new1 Cons.prems(3,5) by simp_all
  obtain hm' new' where r: "rehash_chain es (hm1, new1) = Some (hm', new')"
      "table_ok hm'" "table_ok new'" "buckets hm' = (buckets hm)[i := []]"
      "hash hm' = hash hm" "hm_type hm' = hm_type hm" "v_size (hm_tbl hm') = v_size (hm_tbl hm)"
      "hm_map new' = hm_map new1 ++ map_of es" "hm_type new' = hm_type new"
      "hm_size new1 = of_nat (length (concat (buckets new1))) \<longrightarrow>
       hm_size new' = of_nat (length (concat (buckets new')))"
    using Cons.IH [OF hm1(2) new1(2) pre none, unfolded hm1(3-6) new1(4) list_update_overwrite] by blast
  have nk: "map_of es k = None" using d(1) by (simp add: map_of_eq_None_iff)
  have m: "hm_map new' = hm_map new ++ map_of (e # es)"
  proof
    fix x
    show "hm_map new' x = (hm_map new ++ map_of (e # es)) x"
      by (cases "x = k"; cases "map_of es x") (simp_all add: r(8) new1(3) nk e map_add_def)
  qed
  have "rehash_chain (e # es) (hm, new) = Some (hm', new')" using r(1) hm1(1) new1(1) e by simp
  moreover have "hm_size new = of_nat (length (concat (buckets new))) \<longrightarrow>
      hm_size new' = of_nat (length (concat (buckets new')))"
    using r(10) new1(5,6) by (simp add: add.commute)
  ultimately show ?case using r(2-7,9) m by blast
qed

lemma rehash_ok:
  assumes "table_ok hm" and "table_ok new" and "n = length (buckets hm)" and "i \<le> n"
    and "hm_type new = hm_type hm" and "\<forall>k. hm_map new k = None \<or> hm_map hm k = None"
    and "\<forall>j < i. buckets hm ! j = []" and "hm_size new = of_nat (length (concat (buckets new)))"
  shows "\<exists>hm' new'. rehash [i..<n] (hm, new) = Some (hm', new') \<and> table_ok hm' \<and>
    hm_type hm' = hm_type hm \<and> hash_map_ok new' \<and> hm_type new' = hm_type hm \<and>
    hm_map new' = hm_map new ++ hm_map hm"
  using assms
proof (induction "n - i" arbitrary: i hm new)
  case 0
  then have "buckets hm ! unat j = []" if "hash hm k = Some j" for k j
    using hash_bound [OF "0.prems"(1) that] by simp
  then have "hm_map hm = Map.empty" by (auto simp: hm_map_def fun_eq_iff split: option.splits)
  then show ?case using "0" by (simp add: hash_map_ok_def)
next
  case (Suc m)
  then have i: "i < length (buckets hm)" by simp
  have m: "m = n - Suc i" "Suc i \<le> n" using Suc.hyps(2) by simp_all
  have ui: "unat (of_nat i :: u64) = i"
    using i table_okD(1) [OF Suc.prems(1)] by (intro unat_of_nat_less [of _ "v_size (hm_tbl hm)"]) simp
  let ?c = "buckets hm ! i"
  have c: "chain_ok hm i ?c" by (rule table_okD(4) [OF Suc.prems(1) i])
  have get: "vector_elt (hm_tbl hm) (of_nat i) = Some ?c"
    using i ui by (simp add: vector_elt_def buckets_def)
  have inc: "hm_map hm k = Some v" if "(k, v) \<in> set ?c" for k v
    using that c ui hm_map_bucket [of hm k "of_nat i"] by (auto simp: chain_ok_def)
  have dis: "\<forall>e \<in> set ?c. hm_map new (fst e) = None"
    using inc Suc.prems(6) by (metis option.distinct(1) prod.collapse)
  obtain hm1 new1 where 1: "rehash_chain ?c (hm, new) = Some (hm1, new1)" "table_ok hm1" "table_ok new1"
      "buckets hm1 = (buckets hm)[i := []]" "hash hm1 = hash hm" "hm_type hm1 = hm_type hm"
      "hm_map new1 = hm_map new ++ map_of ?c" "hm_type new1 = hm_type new"
      "hm_size new1 = of_nat (length (concat (buckets new1)))"
    using rehash_chain_ok [OF Suc.prems(1,2) i refl Suc.prems(5) dis] Suc.prems(8) by auto
  have m1: "hm_map hm1 k = (if hash hm k = Some (of_nat i) then None else hm_map hm k)" for k
  proof (cases "hash hm k")
    case None
    then show ?thesis using 1(5) by (simp add: hm_map_def)
  next
    case (Some j)
    then have "(of_nat i = j) = (i = unat j)" using ui by auto
    then show ?thesis using 1(4,5) Some i ui by (simp add: hm_map_def nth_list_update)
  qed
  have mc: "map_of ?c k = (if hash hm k = Some (of_nat i) then hm_map hm k else None)" for k
    using hm_map_bucket [of hm k "of_nat i"] chain_map_of_other [of hm "of_nat i" ?c k] c ui by auto
  have disj: "\<forall>k. hm_map new1 k = None \<or> hm_map hm1 k = None"
    using Suc.prems(6) m1 mc 1(7) by (auto simp: map_add_def split: option.splits)
  obtain hm' new' where 2: "rehash [Suc i..<n] (hm1, new1) = Some (hm', new')" "table_ok hm'"
      "hm_type hm' = hm_type hm1" "hash_map_ok new'" "hm_type new' = hm_type hm1"
      "hm_map new' = hm_map new1 ++ hm_map hm1"
    using Suc.hyps(1) [of "Suc i" hm1 new1] m Suc.prems(3,5,7) 1 disj
    by (auto simp: nth_list_update less_Suc_eq)
  have "hm_map new1 ++ hm_map hm1 = hm_map new ++ hm_map hm"
    using 1(7) m1 mc by (auto simp: fun_eq_iff map_add_def split: option.splits)
  moreover have "[i..<n] = i # [Suc i..<n]" using Suc.prems(3) i by (simp add: upt_conv_Cons)
  ultimately show ?case using get 1(1,6) 2 by simp
qed

lemma next_size_loop_bounds:
  "set ps \<subseteq> set prime_list \<Longrightarrow> next_size_loop ps n \<in> set prime_list"
  by (induction ps) (auto simp: prime_list_def)

lemma next_size_bounds: "next_size n \<noteq> 0" "unat (next_size n) < 2 ^ 61"
proof -
  have "next_size n \<in> set prime_list" by (simp add: next_size_def next_size_loop_bounds)
  then show "next_size n \<noteq> 0" "unat (next_size n) < 2 ^ 61" by (auto simp: prime_list_def)
qed

lemma create_size_type_ok:
  assumes "hash_map_create_size_type mem n a t = Some hm"
  shows "hash_map_ok hm" "hm_map hm = Map.empty" "hm_type hm = t" "hm_auto_resize hm = a"
proof -
  have "slots (next_size n) = unat (next_size n)" using next_size_bounds by (simp add: slots_eq)
  then have b: "buckets hm = replicate (unat (next_size n)) []"
    and t: "hm_tbl hm = \<lparr>v_size = next_size n, v_capacity = next_size n, v_elts = buckets hm\<rparr>"
    and s: "hm_size hm = 0"
    using assms by (auto simp: hash_map_create_size_type_def vector_create_size_def
        vector_create_elts_def buckets_def map_replicate_const split: if_splits)
  have "table_ok hm" using b t next_size_bounds [of n]
    by (simp add: table_ok_def vector_ok_def chain_ok_def)
  then show "hash_map_ok hm" using b s by (simp add: hash_map_ok_def concat_replicate_trivial)
  show "hm_map hm = Map.empty" using b hash_bound [OF \<open>table_ok hm\<close>]
    by (auto simp: hm_map_def fun_eq_iff split: option.splits)
  show "hm_type hm = t" "hm_auto_resize hm = a"
    using assms by (auto simp: hash_map_create_size_type_def split: if_splits)
qed

lemma same_table_ok:
  assumes "hm_tbl h = hm_tbl h'" and "hm_type h = hm_type h'"
  shows "hm_size h = hm_size h' \<Longrightarrow> hash_map_ok h = hash_map_ok h'" and "hm_map h = hm_map h'"
proof -
  have *: "buckets h = buckets h'" "hash h = hash h'"
    using assms by (simp_all add: buckets_def hash_def fun_eq_iff)
  then show "hm_map h = hm_map h'" by (intro ext) (simp only: hm_map_def)
  show "hm_size h = hm_size h' \<Longrightarrow> hash_map_ok h = hash_map_ok h'"
    using * assms by (simp add: hash_map_ok_def table_ok_def chain_ok_def)
qed

lemma hash_map_resize_ok:
  assumes "hash_map_ok hm"
  shows "\<exists>r hm'. hash_map_resize mem hm n = Some (r, hm') \<and> hash_map_ok hm' \<and>
    hm_map hm' = hm_map hm \<and> hm_type hm' = hm_type hm \<and>
    (r = - ENOMEM \<and> hm' = hm \<and> \<not> (fst mem \<and> fst (snd mem) \<and> snd (snd mem)) \<or>
     r = 1 \<and> hm' = hm \<or> r = 0)"
proof -
  have t: "table_ok hm" using assms by (simp add: hash_map_ok_def)
  consider (same) "next_size n = hash_map_bucket_count hm"
    | (fail) "next_size n \<noteq> hash_map_bucket_count hm"
        "hash_map_create_size_type mem (next_size n) (hm_auto_resize hm) (hm_type hm) = (None :: 'a hash_map option)"
    | (new) new where "next_size n \<noteq> hash_map_bucket_count hm"
        "hash_map_create_size_type mem (next_size n) (hm_auto_resize hm) (hm_type hm) = Some (new :: 'a hash_map)"
    by blast
  then show ?thesis
  proof cases
    case same
    then show ?thesis using assms by (simp add: hash_map_resize_def)
  next
    case fail
    then have "\<not> (fst mem \<and> fst (snd mem) \<and> snd (snd mem))" using next_size_bounds
      by (auto simp: hash_map_create_size_type_def vector_create_size_def vector_create_elts_def)
    then show ?thesis using assms fail by (simp add: hash_map_resize_def)
  next
    case new
    note c = create_size_type_ok [OF new(2)]
    obtain hm1 new1 where r: "rehash [0..<unat (v_size (hm_tbl hm))] (hm, new) = Some (hm1, new1)"
        "table_ok hm1" "hm_type hm1 = hm_type hm" "hash_map_ok new1" "hm_type new1 = hm_type hm"
        "hm_map new1 = hm_map new ++ hm_map hm"
      using rehash_ok [OF t, of new "unat (v_size (hm_tbl hm))" 0] c table_okD(1) [OF t]
      by (auto simp: hash_map_ok_def)
    obtain hm2 where c2: "hash_map_clear hm1 = Some hm2" "hm_type hm2 = hm_type hm"
      using r(2,3) by (auto simp: hash_map_clear_def table_ok_def vector_ok_def)
    let ?hm = "bump (hm2\<lparr>hm_size := hm_size new1, hm_tbl := hm_tbl new1\<rparr>)"
    have "hash_map_ok ?hm" "hm_map ?hm = hm_map new1"
      using same_table_ok [of ?hm new1] r(4,5) c2(2) by auto
    then show ?thesis using new r(1,6) c2 c(2) by (simp add: hash_map_resize_def)
  qed
qed

lemma hash_map_insert_ok:
  assumes "hash_map_ok hm" and "key_ok hm k"
  shows "\<exists>r hm'. hash_map_insert True mem hm k v = Some (r, hm') \<and> hash_map_ok hm' \<and>
    hm_map hm' = (hm_map hm)(k \<mapsto> v) \<and> hm_type hm' = hm_type hm \<and>
    r = (if hm_map hm k = None then 0 else 1)"
proof -
  have t: "table_ok hm" and sz: "hm_size hm = of_nat (length (concat (buckets hm)))"
    using assms(1) by (simp_all add: hash_map_ok_def)
  obtain i where i: "hash hm k = Some i" using assms(2) by (auto simp: key_ok_def)
  let ?c = "buckets hm ! unat i"
  note b = bucket_access [OF t i] and m = hm_map_bucket [OF i]
  show ?thesis
  proof (cases "hm_map hm k")
    case None
    obtain hm1 where h: "insert_chain_elt hm (k, v) = Some hm1" "table_ok hm1"
        "hm_map hm1 = (hm_map hm)(k \<mapsto> v)" "hm_size hm1 = hm_size hm + 1"
        "length (concat (buckets hm1)) = Suc (length (concat (buckets hm)))" "hm_type hm1 = hm_type hm"
      using insert_chain_elt_ok [OF t i None] by blast
    then have ok: "hash_map_ok hm1" using sz by (simp add: hash_map_ok_def add.commute)
    have e: "hm1 = bump (hm\<lparr>hm_tbl := hm_tbl (put_chain i ((k, v) # ?c) hm), hm_size := hm_size hm + 1\<rparr>)"
      using h(1) i b by (simp add: insert_chain_elt_def)
    have "hash_map_insert True mem hm k v = map_option (Pair 0)
        (if hm_auto_resize hm1 \<and> hash_map_bucket_count hm1 < next_size (hash_map_size hm1)
         then map_option snd (hash_map_resize mem hm1 (hash_map_size hm1)) else Some hm1)"
      using i b m [symmetric] None by (simp add: hash_map_insert_def chain_search_key_eq chain_elt_create_def e Let_def
          map_conv_bind_option)
    moreover obtain r hm2 where "hash_map_resize mem hm1 (hash_map_size hm1) = Some (r, hm2)"
        "hash_map_ok hm2" "hm_map hm2 = hm_map hm1" "hm_type hm2 = hm_type hm1"
      using hash_map_resize_ok [OF ok] by blast
    ultimately show ?thesis using None ok h(3,6) by auto
  next
    case (Some w)
    let ?hm = "put_chain i (chain_set_val k v ?c) hm"
    note p = put_chain_ok [OF t hash_bound [OF t i] chain_ok_set_val [OF b(3), of k v]]
    have "hm_map ?hm = (hm_map hm)(k \<mapsto> v)"
    proof
      fix k'
      show "hm_map ?hm k' = ((hm_map hm)(k \<mapsto> v)) k'"
        using p(2) [of k'] hm_map_bucket [of hm k' i] i Some m map_of_chain_set_val [of ?c k v]
        by (cases "hash hm k' = Some i") auto
    qed
    moreover have "hash_map_ok (bump ?hm)"
      using p(1) sz length_concat_update [OF hash_bound [OF t i], of "chain_set_val k v ?c"]
      by (simp add: hash_map_ok_def)
    moreover have "hash_map_insert True mem hm k v = Some (1, bump ?hm)"
      using i b m [symmetric] Some by (simp add: hash_map_insert_def chain_search_key_eq set_tbl_put_chain)
    ultimately show ?thesis using Some by simp
  qed
qed

section \<open>Changing a key\<close>

lemma hash_map_change_key_ok:
  assumes "hash_map_ok hm" and "key_ok hm oldk" and "key_ok hm newk"
  shows "\<exists>r hm'. hash_map_change_key hm oldk newk = Some (r, hm') \<and> hash_map_ok hm' \<and>
    (if hm_map hm newk \<noteq> None then r = - EEXIST \<and> hm' = hm
     else case hm_map hm oldk of
       None \<Rightarrow> r = - ENOENT \<and> hm' = hm
     | Some v \<Rightarrow> r = 0 \<and> hm_map hm' = (hm_map hm)(oldk := None, newk \<mapsto> v))"
proof -
  have t: "table_ok hm" and sz: "hm_size hm = of_nat (length (concat (buckets hm)))"
    using assms(1) by (simp_all add: hash_map_ok_def)
  obtain i j where i: "hash hm oldk = Some i" and j: "hash hm newk = Some j"
    using assms(2,3) by (auto simp: key_ok_def)
  note bi = bucket_access [OF t i] and bj = bucket_access [OF t j]
  note mi = hm_map_bucket [OF i] and mj = hm_map_bucket [OF j]
  show ?thesis
  proof (cases "hm_map hm newk = None \<and> hm_map hm oldk \<noteq> None")
    case False
    then show ?thesis using assms(1) i j bi bj mi [symmetric] mj [symmetric]
      by (auto simp: hash_map_change_key_def chain_search_key_eq split: option.splits)
  next
    case True
    then obtain v where v: "hm_map hm oldk = Some v" and n: "hm_map hm newk = None" by auto
    let ?c = "chain_unlink oldk (buckets hm ! unat i)"
    let ?h1 = "put_chain i ?c hm"
    have d: "distinct (map fst (buckets hm ! unat i))" using bi(3) by (simp add: chain_ok_def)
    note p = put_chain_ok [OF t hash_bound [OF t i] chain_ok_unlink [OF bi(3), of oldk]]
    have m1: "hm_map ?h1 = (hm_map hm)(oldk := None)"
    proof
      fix k
      show "hm_map ?h1 k = ((hm_map hm)(oldk := None)) k"
        using p(2) [of k] hm_map_bucket [of hm k i] i map_of_chain_unlink [OF d]
        by (cases "hash hm k = Some i") auto
    qed
    have len: "Suc (length (concat (buckets ?h1))) = length (concat (buckets hm))"
      using length_concat_update [OF hash_bound [OF t i], of ?c] v mi
        length_chain_unlink [of "buckets hm ! unat i" oldk] by simp
    have j1: "hash ?h1 newk = Some j" using j by simp
    have n1: "hm_map ?h1 newk = None" using m1 n by simp
    obtain h2 where h2: "insert_chain_elt ?h1 (newk, v) = Some h2" "table_ok h2"
        "hm_map h2 = (hm_map ?h1)(newk \<mapsto> v)"
        "length (concat (buckets h2)) = Suc (length (concat (buckets ?h1)))"
      using insert_chain_elt_ok [OF p(1) j1 n1] by blast
    note b1 = bucket_access [OF p(1) j1]
    have e: "h2 = bump (?h1\<lparr>hm_tbl := hm_tbl (put_chain j ((newk, v) # buckets ?h1 ! unat j) ?h1),
        hm_size := hm_size hm + 1\<rparr>)"
      using h2(1) j1 b1 by (simp add: insert_chain_elt_def)
    let ?h = "bump (hm\<lparr>hm_tbl := hm_tbl h2\<rparr>)"
    have tb: "hm_tbl h2 = hm_tbl (put_chain j ((newk, v) # buckets ?h1 ! unat j) ?h1)"
      by (simp add: e)
    have "hash_map_change_key hm oldk newk = Some (0, ?h)"
      using i j bi bj b1 n v mi [symmetric] mj [symmetric] tb
      by (simp add: hash_map_change_key_def chain_search_key_eq del: put_chain_simps)
    moreover have "hm_map ?h = hm_map h2" "hash_map_ok ?h = hash_map_ok (h2\<lparr>hm_size := hm_size hm\<rparr>)"
      using same_table_ok [of ?h "h2\<lparr>hm_size := hm_size hm\<rparr>"] e by simp_all
    moreover have "hash_map_ok (h2\<lparr>hm_size := hm_size hm\<rparr>)"
      using h2(2,4) len sz by (simp add: hash_map_ok_def)
    ultimately show ?thesis using v n h2(3) m1 by simp
  qed
qed

section \<open>Iteration\<close>

text \<open>
  An iterator keeps the current entry, the bucket and the key of the next chain element, and the
  version of the map it was made for. A chain element that has been erased cannot be followed.
\<close>

record 'v hash_map_it2 =
  it_elt :: "(hkey \<times> 'v) option"
  it_next_bucket :: nat
  it_next_elt :: "hkey option"
  it_loose_version :: u64

primrec first_elt :: "'v hash_map \<Rightarrow> nat list \<Rightarrow> (nat \<times> hkey) option option" where
  "first_elt hm [] = Some None"
| "first_elt hm (i # is) = do {
     head \<leftarrow> vector_elt (hm_tbl hm) (of_nat i);
     if head \<noteq> [] then Some (Some (i, fst (hd head))) else first_elt hm is
   }"

definition hash_map_it2_create :: "'v hash_map \<Rightarrow> 'v hash_map_it2 option" where
  "hash_map_it2_create hm = do {
     f \<leftarrow> first_elt hm [0..<unat (v_size (hm_tbl hm))];
     Some \<lparr>it_elt = None,
           it_next_bucket = (case f of None \<Rightarrow> 0 | Some (i, k) \<Rightarrow> i),
           it_next_elt = map_option snd f,
           it_loose_version = hm_loose_version hm\<rparr>
   }"

definition hash_map_it2_next :: "'v hash_map \<Rightarrow> 'v hash_map_it2 \<Rightarrow> (bool \<times> 'v hash_map_it2) option" where
  "hash_map_it2_next hm it = do {
     check (it_loose_version it = hm_loose_version hm);
     case it_next_elt it of
       None \<Rightarrow> Some (False, it)
     | Some k \<Rightarrow> do {
         chain \<leftarrow> vector_elt (hm_tbl hm) (of_nat (it_next_bucket it));
         case dropWhile (\<lambda>e. fst e \<noteq> k) chain of
           [] \<Rightarrow> None
         | e # es \<Rightarrow>
             let it = it\<lparr>it_elt := Some e\<rparr> in
             if es \<noteq> [] then Some (True, it\<lparr>it_next_elt := Some (fst (hd es))\<rparr>)
             else do {
               f \<leftarrow> first_elt hm [Suc (it_next_bucket it)..<unat (v_size (hm_tbl hm))];
               case f of
                 None \<Rightarrow> Some (True, it\<lparr>it_next_elt := None\<rparr>)
               | Some (i, k) \<Rightarrow> Some (True, it\<lparr>it_next_bucket := i, it_next_elt := Some k\<rparr>)
             }
       }
   }"

text \<open>\<^verbatim>\<open>while (hash_map_it2_next(&it))\<close> with at most \<open>n\<close> calls: the entries visited.\<close>

primrec hash_map_entries :: "nat \<Rightarrow> 'v hash_map \<Rightarrow> 'v hash_map_it2 \<Rightarrow> (hkey \<times> 'v) list option" where
  "hash_map_entries 0 hm it = None"
| "hash_map_entries (Suc n) hm it = do {
     (more, it) \<leftarrow> hash_map_it2_next hm it;
     if \<not> more then Some []
     else do {
       e \<leftarrow> it_elt it;
       es \<leftarrow> hash_map_entries n hm it;
       Some (e # es)
     }
   }"

text \<open>The loops of \<^verbatim>\<open>hash_map_copy\<close>: all allocations of elements succeed.\<close>

primrec copy_elts :: "hm_mem \<Rightarrow> (hkey \<times> 'v) list \<Rightarrow> 'v hash_map \<Rightarrow> 'v hash_map option" where
  "copy_elts mem [] hm = Some hm"
| "copy_elts mem (e # es) hm = do {
     (r, hm) \<leftarrow> hash_map_insert True mem hm (fst e) (snd e);
     copy_elts mem es hm
   }"

definition hash_map_copy :: "hm_mem \<Rightarrow> 'v hash_map \<Rightarrow> 'v hash_map option option" where
  "hash_map_copy mem hm =
     (case hash_map_create_size_type mem (hm_size hm) (hm_auto_resize hm) (hm_type hm) of
        None \<Rightarrow> Some None
      | Some hm_copy \<Rightarrow> do {
          check (unat (v_size (hm_tbl hm)) \<le> length (v_elts (hm_tbl hm)));
          hm_copy \<leftarrow> copy_elts mem (concat (take (unat (v_size (hm_tbl hm))) (v_elts (hm_tbl hm)))) hm_copy;
          Some (Some hm_copy)
        })"

text \<open>What an iterator has still to visit, and when it points into the map.\<close>

definition it_rest :: "'v hash_map \<Rightarrow> 'v hash_map_it2 \<Rightarrow> (hkey \<times> 'v) list" where
  "it_rest hm it = (case it_next_elt it of
     None \<Rightarrow> []
   | Some k \<Rightarrow> dropWhile (\<lambda>e. fst e \<noteq> k) (buckets hm ! it_next_bucket it) @
        concat (drop (Suc (it_next_bucket it)) (buckets hm)))"

definition it_ok :: "'v hash_map \<Rightarrow> 'v hash_map_it2 \<Rightarrow> bool" where
  "it_ok hm it \<longleftrightarrow> it_loose_version it = hm_loose_version hm \<and>
     (\<forall>k. it_next_elt it = Some k \<longrightarrow>
        it_next_bucket it < length (buckets hm) \<and> k \<in> fst ` set (buckets hm ! it_next_bucket it))"

lemma bucket_get:
  assumes "table_ok hm" and "i < length (buckets hm)"
  shows "vector_elt (hm_tbl hm) (of_nat i) = Some (buckets hm ! i)"
proof -
  have "unat (of_nat i :: u64) = i"
    using assms table_okD(1) [OF assms(1)] by (intro unat_of_nat_less [of _ "v_size (hm_tbl hm)"]) simp
  then show ?thesis using assms(2) by (simp add: vector_elt_def buckets_def)
qed

lemma first_elt_ok:
  assumes "table_ok hm" and "i \<le> length (buckets hm)"
  shows "\<exists>f. first_elt hm [i..<length (buckets hm)] = Some f \<and>
    (case f of None \<Rightarrow> concat (drop i (buckets hm)) = []
     | Some (j, k) \<Rightarrow> j < length (buckets hm) \<and> buckets hm ! j \<noteq> [] \<and> k = fst (hd (buckets hm ! j)) \<and>
         concat (drop i (buckets hm)) = buckets hm ! j @ concat (drop (Suc j) (buckets hm)))"
  using assms(2)
proof (induction "length (buckets hm) - i" arbitrary: i)
  case 0
  then show ?case by simp
next
  case (Suc m)
  then have i: "i < length (buckets hm)" by simp
  have u: "[i..<length (buckets hm)] = i # [Suc i..<length (buckets hm)]"
    using i by (simp add: upt_conv_Cons)
  have d: "drop i (buckets hm) = buckets hm ! i # drop (Suc i) (buckets hm)"
    using i by (simp add: Cons_nth_drop_Suc)
  show ?case
  proof (cases "buckets hm ! i = []")
    case True
    then have cd: "concat (drop i (buckets hm)) = concat (drop (Suc i) (buckets hm))" by (simp add: d)
    have m: "m = length (buckets hm) - Suc i" "Suc i \<le> length (buckets hm)" using Suc.hyps(2) by simp_all
    show ?thesis using Suc.hyps(1) [OF m] True bucket_get [OF assms(1) i] unfolding u cd by simp
  next
    case False
    then show ?thesis using i bucket_get [OF assms(1) i] unfolding u d by simp
  qed
qed

lemma dropWhile_key:
  assumes "k \<in> fst ` set c"
  shows "\<exists>v es. dropWhile (\<lambda>e. fst e \<noteq> k) c = (k, v) # es"
  using assms by (induction c) auto

lemma dropWhile_next:
  assumes "distinct (map fst c)" and "dropWhile (\<lambda>e. fst e \<noteq> k) c = e # e' # es"
  shows "dropWhile (\<lambda>e. fst e \<noteq> fst e') c = e' # es" "fst e' \<in> fst ` set c"
proof -
  obtain pre where c: "c = pre @ e # e' # es" using assms(2) by (metis takeWhile_dropWhile_id)
  then have "\<forall>x \<in> set pre. fst x \<noteq> fst e'" "fst e \<noteq> fst e'" using assms(1) by (auto simp: rev_image_eqI)
  then show "dropWhile (\<lambda>e. fst e \<noteq> fst e') c = e' # es" unfolding c by (subst dropWhile_append2) auto
  show "fst e' \<in> fst ` set c" by (simp add: c)
qed

lemma dropWhile_hd: "c \<noteq> [] \<Longrightarrow> dropWhile (\<lambda>e. fst e \<noteq> fst (hd c)) c = c"
  by (cases c) auto

lemma it2_next_ok:
  assumes "table_ok hm" and "it_ok hm it"
  shows "case it_rest hm it of
      [] \<Rightarrow> hash_map_it2_next hm it = Some (False, it)
    | e # es \<Rightarrow> \<exists>it'. hash_map_it2_next hm it = Some (True, it') \<and> it_elt it' = Some e \<and>
        it_ok hm it' \<and> it_rest hm it' = es"
proof (cases "it_next_elt it")
  case None
  then show ?thesis using assms(2) by (simp add: it_rest_def hash_map_it2_next_def it_ok_def)
next
  case (Some k)
  let ?b = "it_next_bucket it"
  let ?c = "buckets hm ! ?b"
  have b: "?b < length (buckets hm)" and k: "k \<in> fst ` set ?c"
    and ver: "it_loose_version it = hm_loose_version hm" using assms(2) Some by (auto simp: it_ok_def)
  have d: "distinct (map fst ?c)" using table_okD(4) [OF assms(1) b] by (simp add: chain_ok_def)
  obtain v es where e: "dropWhile (\<lambda>e. fst e \<noteq> k) ?c = (k, v) # es" using dropWhile_key [OF k] by blast
  have rest: "it_rest hm it = (k, v) # es @ concat (drop (Suc ?b) (buckets hm))"
    using Some e by (simp add: it_rest_def)
  show ?thesis
  proof (cases es)
    case (Cons e' es')
    note n = dropWhile_next [OF d, of k "(k, v)" e' es'] 
    show ?thesis using e n ver Some b bucket_get [OF assms(1) b] unfolding rest Cons
      by (auto simp: hash_map_it2_next_def it_ok_def it_rest_def)
  next
    case Nil
    obtain f where f: "first_elt hm [Suc ?b..<length (buckets hm)] = Some f"
      and f': "case f of None \<Rightarrow> concat (drop (Suc ?b) (buckets hm)) = []
        | Some (j, k) \<Rightarrow> j < length (buckets hm) \<and> buckets hm ! j \<noteq> [] \<and> k = fst (hd (buckets hm ! j)) \<and>
         concat (drop (Suc ?b) (buckets hm)) = buckets hm ! j @ concat (drop (Suc j) (buckets hm))"
      using first_elt_ok [OF assms(1), of "Suc ?b"] b by auto
    have len: "unat (v_size (hm_tbl hm)) = length (buckets hm)" using table_okD(1) [OF assms(1)] by simp
    show ?thesis
    proof (cases f)
      case None
      then show ?thesis using e ver Some Nil f f' bucket_get [OF assms(1) b] unfolding rest
        by (simp add: hash_map_it2_next_def it_ok_def it_rest_def len)
    next
      case (Some jk)
      then obtain j k' where jk: "f = Some (j, k')" by (cases jk) auto
      then show ?thesis using e ver \<open>it_next_elt it = Some k\<close> Nil f f' bucket_get [OF assms(1) b]
        dropWhile_hd [of "buckets hm ! j"] unfolding rest
        by (simp add: hash_map_it2_next_def it_ok_def it_rest_def len)
    qed
  qed
qed

lemma entries_ok:
  assumes "table_ok hm" and "it_ok hm it" and "length (it_rest hm it) < n"
  shows "hash_map_entries n hm it = Some (it_rest hm it)"
  using assms(2,3)
proof (induction n arbitrary: it)
  case (Suc n)
  show ?case
  proof (cases "it_rest hm it")
    case Nil
    then show ?thesis using it2_next_ok [OF assms(1) Suc.prems(1)] by simp
  next
    case (Cons e es)
    then obtain it' where "hash_map_it2_next hm it = Some (True, it')" "it_elt it' = Some e"
        "it_ok hm it'" "it_rest hm it' = es"
      using it2_next_ok [OF assms(1) Suc.prems(1)] by auto
    then show ?thesis using Suc.IH [of it'] Suc.prems(2) Cons by simp
  qed
qed simp

lemma it2_create_ok:
  assumes "table_ok hm"
  shows "\<exists>it. hash_map_it2_create hm = Some it \<and> it_ok hm it \<and> it_rest hm it = concat (buckets hm)"
proof -
  obtain f where "first_elt hm [0..<length (buckets hm)] = Some f"
    and "case f of None \<Rightarrow> concat (buckets hm) = []
        | Some (j, k) \<Rightarrow> j < length (buckets hm) \<and> buckets hm ! j \<noteq> [] \<and> k = fst (hd (buckets hm ! j)) \<and>
         concat (buckets hm) = buckets hm ! j @ concat (drop (Suc j) (buckets hm))"
    using first_elt_ok [OF assms le0, unfolded drop_0] by blast
  then show ?thesis using table_okD(1) [OF assms]
    by (auto simp: hash_map_it2_create_def it_ok_def it_rest_def dropWhile_hd split: option.splits prod.splits)
qed

lemma distinct_concat_buckets:
  assumes "\<And>i. i < length css \<Longrightarrow> distinct (map fst (css ! i))"
    and "\<And>i e. i < length css \<Longrightarrow> e \<in> set (css ! i) \<Longrightarrow> h (fst e) = i"
  shows "distinct (map fst (concat css))"
  using assms
proof (induction css arbitrary: h)
  case (Cons c css)
  have "distinct (map fst (concat css))"
    using Cons.prems(1) [of "Suc i" for i] Cons.prems(2) [of "Suc i" for i]
    by (intro Cons.IH [of "\<lambda>k. h k - 1"]) fastforce+
  moreover have "fst ` set c \<inter> fst ` set (concat css) = {}"
  proof (rule ccontr)
    assume "fst ` set c \<inter> fst ` set (concat css) \<noteq> {}"
    then obtain k where k: "k \<in> fst ` set c" "k \<in> fst ` set (concat css)" by blast
    from k(1) obtain e where "e \<in> set c" "k = fst e" by (rule imageE)
    moreover from k(2) obtain e' d where "d \<in> set css" "e' \<in> set d" "k = fst e'"
      unfolding set_concat by blast
    ultimately have e: "e \<in> set c" "d \<in> set css" "e' \<in> set d" "fst e = fst e'" by simp_all
    then obtain j where "j < length css" "css ! j = d" by (meson in_set_conv_nth)
    then show False using Cons.prems(2) [of 0 e] Cons.prems(2) [of "Suc j" e'] e by simp
  qed
  ultimately show ?case using Cons.prems(1) [of 0] by simp
qed simp

lemma entries_map:
  assumes "table_ok hm"
  shows "distinct (map fst (concat (buckets hm)))" "map_of (concat (buckets hm)) = hm_map hm"
proof -
  have ui: "unat (of_nat i :: u64) = i" if "i < length (buckets hm)" for i
    using that table_okD(1) [OF assms] by (intro unat_of_nat_less [of _ "v_size (hm_tbl hm)"]) simp
  note c = table_okD(4) [OF assms, unfolded chain_ok_def]
  show d: "distinct (map fst (concat (buckets hm)))"
    using c ui by (intro distinct_concat_buckets [where h = "\<lambda>k. unat (the (hash hm k))"]) auto
  show "map_of (concat (buckets hm)) = hm_map hm"
  proof
    fix k
    have "map_of (concat (buckets hm)) k = Some v \<longleftrightarrow> hm_map hm k = Some v" for v
    proof
      assume "map_of (concat (buckets hm)) k = Some v"
      then obtain i where i: "i < length (buckets hm)" "(k, v) \<in> set (buckets hm ! i)"
        by (metis UN_E in_set_conv_nth map_of_SomeD set_concat)
      then show "hm_map hm k = Some v" using c [OF i(1)] ui [OF i(1)] hm_map_bucket [of hm k "of_nat i"] by auto
    next
      assume h: "hm_map hm k = Some v"
      then obtain j where j: "hash hm k = Some j" by (auto simp: hm_map_def split: option.splits)
      then have "(k, v) \<in> set (buckets hm ! unat j)" using h hm_map_bucket [OF j] by (simp add: map_of_SomeD)
      then have "(k, v) \<in> set (concat (buckets hm))" using hash_bound [OF assms j] by auto
      then show "map_of (concat (buckets hm)) k = Some v" using d by simp
    qed
    then show "map_of (concat (buckets hm)) k = hm_map hm k"
      by (cases "hm_map hm k"; cases "map_of (concat (buckets hm)) k") auto
  qed
qed

lemma size_card:
  assumes "hash_map_ok hm"
  shows "hash_map_size hm = of_nat (card (dom (hm_map hm)))"
proof -
  have t: "table_ok hm" using assms by (simp add: hash_map_ok_def)
  note e = entries_map [OF t]
  have "dom (hm_map hm) = set (map fst (concat (buckets hm)))"
    using e(2) dom_map_of_conv_image_fst [of "concat (buckets hm)"] by simp
  then have "card (dom (hm_map hm)) = length (concat (buckets hm))"
    using distinct_card [OF e(1)] by simp
  then show ?thesis using assms by (simp add: hash_map_ok_def hash_map_size_def)
qed

section \<open>The map interface\<close>

text \<open>
  What the clients of the table rely on: a lookup returns what the abstract map holds, and
  insertion and removal succeed and change the abstract map at their key only. The argument of
  type \<open>'m\<close> is what \<^verbatim>\<open>malloc\<close> answers during an insertion.
\<close>

datatype ('m, 'k, 'v) map_op = Insert 'm 'k 'v | Erase 'k

text \<open>What a finite map does for one call: an insertion that finds no memory for a new element ends the
  process, and every other call updates the map.\<close>

fun map_op_spec :: "('m \<Rightarrow> bool) \<Rightarrow> ('m, 'k, 'v) map_op \<Rightarrow> ('k \<Rightarrow> 'v option) \<Rightarrow> ('k \<Rightarrow> 'v option) option" where
  "map_op_spec pool (Insert m k v) f = (if pool m \<or> f k \<noteq> None then Some (f(k \<mapsto> v)) else None)"
| "map_op_spec pool (Erase k) f = Some (f(k := None))"

locale map_impl =
  fixes pool :: "'m \<Rightarrow> bool"
    and find :: "'s \<Rightarrow> 'k \<Rightarrow> 'v option option"
    and insert :: "'m \<Rightarrow> 's \<Rightarrow> 'k \<Rightarrow> 'v \<Rightarrow> (int \<times> 's) option"
    and erase :: "'s \<Rightarrow> 'k \<Rightarrow> ('v option \<times> 's) option"
    and inv :: "'s \<Rightarrow> bool"
    and abs :: "'s \<Rightarrow> 'k \<Rightarrow> 'v option"
  assumes find_abs: "inv s \<Longrightarrow> find s k = Some (abs s k)"
    and insert_abs: "inv s \<Longrightarrow> pool m \<or> abs s k \<noteq> None \<Longrightarrow>
      \<exists>r s'. insert m s k v = Some (r, s') \<and> inv s' \<and> abs s' = (abs s)(k \<mapsto> v)"
    and insert_none: "inv s \<Longrightarrow> \<not> pool m \<Longrightarrow> abs s k = None \<Longrightarrow> insert m s k v = None"
    and erase_abs: "inv s \<Longrightarrow> \<exists>s'. erase s k = Some (abs s k, s') \<and> inv s' \<and> abs s' = (abs s)(k := None)"
begin

fun step :: "('m, 'k, 'v) map_op \<Rightarrow> 's \<Rightarrow> 's option" where
  "step (Insert m k v) s = map_option snd (insert m s k v)"
| "step (Erase k) s = map_option snd (erase s k)"

lemma step_abs:
  assumes "inv s"
  shows "case map_op_spec pool x (abs s) of None \<Rightarrow> step x s = None
    | Some f \<Rightarrow> \<exists>s'. step x s = Some s' \<and> inv s' \<and> abs s' = f"
proof (cases x)
  case (Insert m k v)
  then show ?thesis using insert_abs [OF assms, of m k v] insert_none [OF assms, of m k v] by auto
next
  case (Erase k)
  then show ?thesis using erase_abs [OF assms, of k] by auto
qed

lemma run_find:
  assumes "inv s"
  shows "case run (map_op_spec pool) ops (abs s) of None \<Rightarrow> run step ops s = None
    | Some f \<Rightarrow> \<exists>s'. run step ops s = Some s' \<and> inv s' \<and> abs s' = f \<and> (\<forall>k. find s' k = Some (f k))"
  using assms
proof (induction ops arbitrary: s)
  case Nil
  then show ?case using find_abs by simp
next
  case (Cons x ops)
  show ?case
  proof (cases "map_op_spec pool x (abs s)")
    case None
    then show ?thesis using step_abs [OF Cons.prems, of x] by simp
  next
    case (Some f)
    then obtain s' where "step x s = Some s'" "inv s'" "abs s' = f"
      using step_abs [OF Cons.prems, of x] by auto
    then show ?thesis using Cons.IH [of s'] Some by (simp split: option.splits)
  qed
qed

end

lemma hash_map_insert_no_pool:
  assumes "hash_map_ok hm" and "key_ok hm k"
  shows "hm_map hm k = None \<Longrightarrow> hash_map_insert False mem hm k v = None"
    and "hm_map hm k \<noteq> None \<Longrightarrow> hash_map_insert False mem hm k v = hash_map_insert True mem hm k v"
proof -
  obtain i where i: "hash hm k = Some i" using assms(2) by (auto simp: key_ok_def)
  have t: "table_ok hm" using assms(1) by (simp add: hash_map_ok_def)
  show "hm_map hm k = None \<Longrightarrow> hash_map_insert False mem hm k v = None"
    and "hm_map hm k \<noteq> None \<Longrightarrow> hash_map_insert False mem hm k v = hash_map_insert True mem hm k v"
    using i bucket_access [OF t i] hm_map_bucket [OF i, symmetric]
    by (cases "hm_map hm k"; simp add: hash_map_insert_def chain_search_key_eq chain_elt_create_def)+
qed

definition ptr_map_ok :: "'v hash_map \<Rightarrow> bool" where
  "ptr_map_ok hm \<longleftrightarrow> hash_map_ok hm \<and> hm_type hm = TPtr"

definition str_map_ok :: "'v hash_map \<Rightarrow> bool" where
  "str_map_ok hm \<longleftrightarrow> hash_map_ok hm \<and> hm_type hm = TStr"

lemma key_ok_ptr [simp]: "hm_type hm = TPtr \<Longrightarrow> key_ok hm (KPtr p)"
  and key_ok_str [simp]: "hm_type hm = TStr \<Longrightarrow> key_ok hm (KStr s)"
  by (simp_all add: key_ok_def hash_def)

lemma hash_eq_type:
  assumes "hash hm' = hash hm"
  shows "hm_type hm' = hm_type hm"
  using fun_cong [OF assms, of "KPtr 0"] by (cases "hm_type hm"; cases "hm_type hm'") (simp_all add: hash_def)

interpretation ptr_map: map_impl fst
  "\<lambda>hm k. hash_map_find_val hm (KPtr k)"
  "\<lambda>(pool, mem) hm k v. hash_map_insert pool mem hm (KPtr k) v"
  "\<lambda>hm k. hash_map_erase hm (KPtr k)"
  ptr_map_ok "\<lambda>hm k. hm_map hm (KPtr k)"
proof
  fix s :: "'v hash_map" and k v and m :: "bool \<times> hm_mem"
  assume "ptr_map_ok s"
  then have s: "hash_map_ok s" "hm_type s = TPtr" and k: "key_ok s (KPtr k)"
    by (simp_all add: ptr_map_ok_def)
  show "hash_map_find_val s (KPtr k) = Some (hm_map s (KPtr k))" using find_val_eq [OF s(1) k] .
  show "\<exists>r s'. (case m of (pool, mem) \<Rightarrow> \<lambda>hm k v. hash_map_insert pool mem hm (KPtr k) v) s k v = Some (r, s') \<and>
      ptr_map_ok s' \<and> (\<lambda>k. hm_map s' (KPtr k)) = (\<lambda>k. hm_map s (KPtr k))(k \<mapsto> v)"
    if "fst m \<or> hm_map s (KPtr k) \<noteq> None"
    using hash_map_insert_ok [OF s(1) k, of "snd m" v] hash_map_insert_no_pool(2) [OF s(1) k, of "snd m" v] s(2) that
    by (cases m; cases "fst m") (auto simp: ptr_map_ok_def fun_upd_def)
  show "(case m of (pool, mem) \<Rightarrow> \<lambda>hm k v. hash_map_insert pool mem hm (KPtr k) v) s k v = None"
    if "\<not> fst m" "hm_map s (KPtr k) = None"
    using hash_map_insert_no_pool(1) [OF s(1) k that(2), of "snd m" v] that(1) by (cases m) simp
  show "\<exists>s'. hash_map_erase s (KPtr k) = Some (hm_map s (KPtr k), s') \<and> ptr_map_ok s' \<and>
      (\<lambda>k. hm_map s' (KPtr k)) = (\<lambda>k. hm_map s (KPtr k))(k := None)"
  proof -
    obtain s' where "hash_map_erase s (KPtr k) = Some (hm_map s (KPtr k), s')" "hash_map_ok s'"
        "hm_map s' = (hm_map s)(KPtr k := None)" "hash s' = hash s"
      using hash_map_erase_ok [OF s(1) k] by blast
    then show ?thesis using hash_eq_type [of s' s] s(2) by (simp add: ptr_map_ok_def fun_upd_def)
  qed
qed

interpretation str_map: map_impl fst
  "\<lambda>hm k. hash_map_find_val hm (KStr k)"
  "\<lambda>(pool, mem) hm k v. hash_map_insert pool mem hm (KStr k) v"
  "\<lambda>hm k. hash_map_erase hm (KStr k)"
  str_map_ok "\<lambda>hm k. hm_map hm (KStr k)"
proof
  fix s :: "'v hash_map" and k v and m :: "bool \<times> hm_mem"
  assume "str_map_ok s"
  then have s: "hash_map_ok s" "hm_type s = TStr" and k: "key_ok s (KStr k)"
    by (simp_all add: str_map_ok_def)
  show "hash_map_find_val s (KStr k) = Some (hm_map s (KStr k))" using find_val_eq [OF s(1) k] .
  show "\<exists>r s'. (case m of (pool, mem) \<Rightarrow> \<lambda>hm k v. hash_map_insert pool mem hm (KStr k) v) s k v = Some (r, s') \<and>
      str_map_ok s' \<and> (\<lambda>k. hm_map s' (KStr k)) = (\<lambda>k. hm_map s (KStr k))(k \<mapsto> v)"
    if "fst m \<or> hm_map s (KStr k) \<noteq> None"
    using hash_map_insert_ok [OF s(1) k, of "snd m" v] hash_map_insert_no_pool(2) [OF s(1) k, of "snd m" v] s(2) that
    by (cases m; cases "fst m") (auto simp: str_map_ok_def fun_upd_def)
  show "(case m of (pool, mem) \<Rightarrow> \<lambda>hm k v. hash_map_insert pool mem hm (KStr k) v) s k v = None"
    if "\<not> fst m" "hm_map s (KStr k) = None"
    using hash_map_insert_no_pool(1) [OF s(1) k that(2), of "snd m" v] that(1) by (cases m) simp
  show "\<exists>s'. hash_map_erase s (KStr k) = Some (hm_map s (KStr k), s') \<and> str_map_ok s' \<and>
      (\<lambda>k. hm_map s' (KStr k)) = (\<lambda>k. hm_map s (KStr k))(k := None)"
  proof -
    obtain s' where "hash_map_erase s (KStr k) = Some (hm_map s (KStr k), s')" "hash_map_ok s'"
        "hm_map s' = (hm_map s)(KStr k := None)" "hash s' = hash s"
      using hash_map_erase_ok [OF s(1) k] by blast
    then show ?thesis using hash_eq_type [of s' s] s(2) by (simp add: str_map_ok_def fun_upd_def)
  qed
qed

section \<open>Properties\<close>

text \<open>C23. A table with string keys implements a finite map, growth and rehashing included: for every
  sequence of insertions and removals from \<^verbatim>\<open>hash_map_create_str\<close>, and whatever the memory
  allocations of each insertion answer (of the new element, and of the arrays when the table wants to
  grow), the process ends exactly when some insertion of a key that is not present finds no memory for
  its element. Otherwise the sequence succeeds and every lookup then returns what the same sequence
  leaves in a map.\<close>

theorem hash_map_str_refines_map:
  assumes "hash_map_create_str mem = Some (hm :: 'v hash_map)"
  shows "case run (map_op_spec fst) ops Map.empty of
      None \<Rightarrow> run str_map.step ops hm = None
    | Some f \<Rightarrow> \<exists>hm'. run str_map.step ops hm = Some hm' \<and> hash_map_ok hm' \<and>
        (\<forall>k. hash_map_find_val hm' (KStr k) = Some (f k))"
proof -
  have "str_map_ok hm" "hm_map hm = Map.empty"
    using create_size_type_ok [OF assms [unfolded hash_map_create_str_def]] by (simp_all add: str_map_ok_def)
  then show ?thesis using str_map.run_find [of hm ops] by (auto simp: str_map_ok_def split: option.splits)
qed

theorem hash_map_str_refines_map_witness:
  "\<exists>hm hm'. hash_map_create_str (True, True, True) = Some hm \<and>
    run str_map.step [Insert (True, True, True, True) ''a'' (1 :: nat), Insert (True, False, True, True) ''b'' 2,
      Insert (False, True, True, True) ''b'' 3, Erase ''a''] hm = Some hm' \<and>
    hash_map_find_val hm' (KStr ''b'') = Some (Some 3) \<and>
    run str_map.step [Insert (True, True, True, True) ''a'' 1, Insert (False, True, True, True) ''b'' 2] hm = None"
proof -
  obtain hm :: "nat hash_map" where hm: "hash_map_create_str (True, True, True) = Some hm"
    by (simp add: hash_map_create_str_def hash_map_create_size_type_def vector_create_size_def
        vector_create_elts_def)
  then show ?thesis
    using hash_map_str_refines_map [OF hm, of "[Insert (True, True, True, True) ''a'' 1,
      Insert (True, False, True, True) ''b'' 2, Insert (False, True, True, True) ''b'' 3, Erase ''a'']"]
      hash_map_str_refines_map [OF hm, of "[Insert (True, True, True, True) ''a'' 1,
      Insert (False, True, True, True) ''b'' 2]"] by auto
qed

text \<open>C34. \<^verbatim>\<open>hash_map_insert\<close> on a well-formed table of either key type: it updates the value
  of a present key and returns 1, or adds the key and returns 0; the table stays well-formed with
  the right element count, also through the automatic resize and when the resize finds no memory.
  When the element pool is exhausted the insertion of a new key ends the process (the code meant
  to return \<^verbatim>\<open>-ENOMEM\<close>) while an update still works.\<close>

theorem hash_map_insert_spec:
  assumes "hash_map_ok hm" and "key_ok hm k"
  shows "(\<exists>r hm'. hash_map_insert True mem hm k v = Some (r, hm') \<and> hash_map_ok hm' \<and>
      hm_map hm' = (hm_map hm)(k \<mapsto> v) \<and> r = (if hm_map hm k = None then 0 else 1)) \<and>
    (hash_map_insert False mem hm k v = None \<longleftrightarrow> hm_map hm k = None)"
proof -
  have "hash_map_insert False mem hm k v = None \<longleftrightarrow> hm_map hm k = None"
    using hash_map_insert_no_pool [OF assms, of mem v] hash_map_insert_ok [OF assms, of mem v] by fastforce
  then show ?thesis using hash_map_insert_ok [OF assms, of mem v] by blast
qed

definition sample_map :: "nat hash_map" where
  "sample_map = \<lparr>hm_size = 0, hm_auto_resize = True,
     hm_tbl = \<lparr>v_size = 53, v_capacity = 53, v_elts = replicate 53 []\<rparr>,
     hm_type = TPtr, hm_version = 0, hm_loose_version = 0\<rparr>"

lemma sample_map_ok: "hash_map_ok sample_map" "hm_map sample_map = Map.empty" "hm_type sample_map = TPtr"
proof -
  have "hash_map_create_ptr (True, True, True) = Some sample_map" by code_simp
  note create_size_type_ok [OF this [unfolded hash_map_create_ptr_def]]
  then show "hash_map_ok sample_map" "hm_map sample_map = Map.empty" "hm_type sample_map = TPtr" by auto
qed

theorem hash_map_insert_spec_witness:
  "(\<exists>hm'. hash_map_insert True (False, False, False) sample_map (KPtr 7) 5 = Some (0, hm') \<and>
     hm_map hm' = [KPtr 7 \<mapsto> 5]) \<and>
   hash_map_insert False (True, True, True) sample_map (KPtr 7) 5 = None"
  using hash_map_insert_spec [of sample_map "KPtr 7" "(False, False, False)" 5]
    hash_map_insert_spec [of sample_map "KPtr 7" "(True, True, True)" 5]
  by (auto simp: sample_map_ok)

text \<open>C35. \<^verbatim>\<open>hash_map_change_key\<close> moves the value to the new key, and refuses with
  \<^verbatim>\<open>-EEXIST\<close> or \<^verbatim>\<open>-ENOENT\<close>, changing nothing, when the new key is taken or the old
  key is absent.\<close>

theorem hash_map_change_key_spec:
  assumes "hash_map_ok hm" and "key_ok hm oldk" and "key_ok hm newk"
  shows "\<exists>r hm'. hash_map_change_key hm oldk newk = Some (r, hm') \<and> hash_map_ok hm' \<and>
    (if hm_map hm newk \<noteq> None then r = - EEXIST \<and> hm' = hm
     else case hm_map hm oldk of
       None \<Rightarrow> r = - ENOENT \<and> hm' = hm
     | Some v \<Rightarrow> r = 0 \<and> hm_map hm' = (hm_map hm)(oldk := None, newk \<mapsto> v))"
  using hash_map_change_key_ok [OF assms] .

theorem hash_map_change_key_spec_witness:
  "\<exists>r hm'. hash_map_change_key sample_map (KPtr 1) (KPtr 2) = Some (r, hm') \<and> r = - ENOENT"
  using hash_map_change_key_spec [of sample_map "KPtr 1" "KPtr 2"]
  by (auto simp: sample_map_ok)

text \<open>C36. Iteration terminates and is complete: on a well-formed table, calling
  \<^verbatim>\<open>hash_map_it2_next\<close> until it returns false visits every entry exactly once, in one more
  call than there are entries, with no failed assertion.\<close>

theorem hash_map_iteration_complete:
  assumes "hash_map_ok hm"
  shows "\<exists>it es. hash_map_it2_create hm = Some it \<and>
    hash_map_entries (Suc (length es)) hm it = Some es \<and> distinct (map fst es) \<and>
    of_nat (length es) = hash_map_size hm \<and> map_of es = hm_map hm"
proof -
  have t: "table_ok hm" using assms by (simp add: hash_map_ok_def)
  obtain it where it: "hash_map_it2_create hm = Some it" "it_ok hm it"
      "it_rest hm it = concat (buckets hm)" using it2_create_ok [OF t] by blast
  have "distinct (map fst (concat (buckets hm))) \<and> map_of (concat (buckets hm)) = hm_map hm"
    using entries_map [OF t] by simp
  moreover have "hash_map_entries (Suc (length (concat (buckets hm)))) hm it = Some (concat (buckets hm))"
    using entries_ok [OF t it(2), of "Suc (length (concat (buckets hm)))"] it(3) by simp
  moreover have "of_nat (length (concat (buckets hm))) = hash_map_size hm"
    using assms by (simp add: hash_map_ok_def hash_map_size_def)
  ultimately show ?thesis using it(1) by blast
qed

theorem hash_map_iteration_complete_witness:
  "\<exists>it es. hash_map_it2_create sample_map = Some it \<and> hash_map_entries 1 sample_map it = Some es \<and> es = []"
proof -
  obtain it es where "hash_map_it2_create sample_map = Some it"
      "hash_map_entries (Suc (length es)) sample_map it = Some es" "map_of es = hm_map sample_map"
    using hash_map_iteration_complete [of sample_map] sample_map_ok(1) by blast
  moreover from this(3) have "es = []" using sample_map_ok(2) by simp
  ultimately show ?thesis by auto
qed

end
