(* ===== verification/Hash_Iter.thy ===== *)
theory Hash_Iter
  imports Hash_Map
begin

text \<open>
  The older iterator of \<^verbatim>\<open>hash_map.c\<close>, which keeps the current element instead of the next one. It visits the
  same entries in the same order as the current iterator.
\<close>

section \<open>The iterator\<close>

text \<open>The element is written as its key, as in the other iterator.\<close>

record hash_map_it =
  ito_bucket :: nat
  ito_elt :: "hkey option"
  ito_version :: u64

definition hash_map_it_init :: "'v hash_map \<Rightarrow> hash_map_it" where
  "hash_map_it_init hm = \<lparr>ito_bucket = 0, ito_elt = None, ito_version = hm_version hm\<rparr>"

text \<open>The first element of the first chain of \<open>is\<close> that has one; \<^verbatim>\<open>no_elt\<close> is \<open>None\<close>.\<close>

definition it_goto :: "'v hash_map \<Rightarrow> nat list \<Rightarrow> hash_map_it \<Rightarrow> ((hkey \<times> 'v) option \<times> hash_map_it) option" where
  "it_goto hm is it = do {
     f \<leftarrow> first_elt hm is;
     case f of
       None \<Rightarrow> Some (None, it)
     | Some (i, k) \<Rightarrow> do {
         chain \<leftarrow> vector_elt (hm_tbl hm) (of_nat i);
         Some (Some (hd chain), it\<lparr>ito_bucket := i, ito_elt := Some k\<rparr>)
       }
   }"

definition hash_map_elt_next :: "'v hash_map \<Rightarrow> hash_map_it \<Rightarrow> ((hkey \<times> 'v) option \<times> hash_map_it) option" where
  "hash_map_elt_next hm it = do {
     check (ito_version it = hm_version hm);
     if ito_bucket it = 0 \<and> ito_elt it = None then it_goto hm [0..<unat (v_size (hm_tbl hm))] it
     else do {
       k \<leftarrow> ito_elt it;
       chain \<leftarrow> vector_elt (hm_tbl hm) (of_nat (ito_bucket it));
       case dropWhile (\<lambda>e. fst e \<noteq> k) chain of
         [] \<Rightarrow> None
       | e # es \<Rightarrow>
           if es \<noteq> [] then Some (Some (hd es), it\<lparr>ito_elt := Some (fst (hd es))\<rparr>)
           else it_goto hm [Suc (ito_bucket it)..<unat (v_size (hm_tbl hm))] it
     }
   }"

definition hash_map_val_next :: "'v hash_map \<Rightarrow> hash_map_it \<Rightarrow> ('v option \<times> hash_map_it) option" where
  "hash_map_val_next hm it = do { (e, it) \<leftarrow> hash_map_elt_next hm it; Some (map_option snd e, it) }"

text \<open>The entries visited with at most \<open>n\<close> calls.\<close>

primrec hash_map_elts :: "nat \<Rightarrow> 'v hash_map \<Rightarrow> hash_map_it \<Rightarrow> (hkey \<times> 'v) list option" where
  "hash_map_elts 0 hm it = None"
| "hash_map_elts (Suc n) hm it = do {
     (e, it) \<leftarrow> hash_map_elt_next hm it;
     case e of None \<Rightarrow> Some [] | Some e \<Rightarrow> do { es \<leftarrow> hash_map_elts n hm it; Some (e # es) }
   }"

section \<open>What is left to visit\<close>

definition it_after :: "'v hash_map \<Rightarrow> hash_map_it \<Rightarrow> (hkey \<times> 'v) list" where
  "it_after hm it = (case ito_elt it of
     None \<Rightarrow> concat (buckets hm)
   | Some k \<Rightarrow> tl (dropWhile (\<lambda>e. fst e \<noteq> k) (buckets hm ! ito_bucket it)) @ concat (drop (Suc (ito_bucket it)) (buckets hm)))"

definition ito_ok :: "'v hash_map \<Rightarrow> hash_map_it \<Rightarrow> bool" where
  "ito_ok hm it \<longleftrightarrow> ito_version it = hm_version hm \<and> (ito_elt it = None \<longrightarrow> ito_bucket it = 0) \<and>
     (\<forall>k. ito_elt it = Some k \<longrightarrow> ito_bucket it < length (buckets hm) \<and> k \<in> fst ` set (buckets hm ! ito_bucket it))"

definition visits :: "'v hash_map \<Rightarrow> hash_map_it \<Rightarrow> (hkey \<times> 'v) list \<Rightarrow> ((hkey \<times> 'v) option \<times> hash_map_it) option \<Rightarrow> bool" where
  "visits hm it rest r \<longleftrightarrow> (case rest of
     [] \<Rightarrow> r = Some (None, it)
   | e # es \<Rightarrow> \<exists>it'. r = Some (Some e, it') \<and> ito_ok hm it' \<and> it_after hm it' = es)"

lemma it_goto_ok:
  assumes "table_ok hm" and "ito_ok hm it" and "i \<le> length (buckets hm)"
  shows "visits hm it (concat (drop i (buckets hm))) (it_goto hm [i..<length (buckets hm)] it)"
proof -
  obtain f where f: "first_elt hm [i..<length (buckets hm)] = Some f"
    "case f of None \<Rightarrow> concat (drop i (buckets hm)) = []
      | Some (j, k) \<Rightarrow> j < length (buckets hm) \<and> buckets hm ! j \<noteq> [] \<and> k = fst (hd (buckets hm ! j)) \<and>
         concat (drop i (buckets hm)) = buckets hm ! j @ concat (drop (Suc j) (buckets hm))"
    using first_elt_ok [OF assms(1,3)] by blast
  show ?thesis
  proof (cases f)
    case None
    then show ?thesis using f by (simp add: visits_def it_goto_def del: concat_eq_Nil_conv)
  next
    case (Some jk)
    then obtain j where j: "f = Some (j, fst (hd (buckets hm ! j)))" "j < length (buckets hm)" "buckets hm ! j \<noteq> []"
        "concat (drop i (buckets hm)) = buckets hm ! j @ concat (drop (Suc j) (buckets hm))" using f(2) by (cases jk) auto
    let ?it = "it\<lparr>ito_bucket := j, ito_elt := Some (fst (hd (buckets hm ! j)))\<rparr>"
    have "it_goto hm [i..<length (buckets hm)] it = Some (Some (hd (buckets hm ! j)), ?it)"
      using f(1) j(1) bucket_get [OF assms(1) j(2)] by (simp add: it_goto_def)
    moreover have "ito_ok hm ?it" "it_after hm ?it = tl (buckets hm ! j) @ concat (drop (Suc j) (buckets hm))"
      using assms(2) j(2,3) dropWhile_hd [OF j(3)] by (simp_all add: ito_ok_def it_after_def)
    moreover have "concat (drop i (buckets hm)) = hd (buckets hm ! j) # tl (buckets hm ! j) @ concat (drop (Suc j) (buckets hm))"
      using j(3,4) by simp
    ultimately show ?thesis by (simp add: visits_def)
  qed
qed

lemma elt_next_ok:
  assumes t: "table_ok hm" and i: "ito_ok hm it"
  shows "visits hm it (it_after hm it) (hash_map_elt_next hm it)"
proof -
  have len: "unat (v_size (hm_tbl hm)) = length (buckets hm)" using table_okD(1) [OF t] by simp
  have v: "ito_version it = hm_version hm" using i by (simp add: ito_ok_def)
  show ?thesis
  proof (cases "ito_elt it")
    case None
    then show ?thesis using it_goto_ok [OF t i le0] i v by (simp add: hash_map_elt_next_def it_after_def ito_ok_def len)
  next
    case (Some k)
    let ?b = "ito_bucket it"
    have b: "?b < length (buckets hm)" and k: "k \<in> fst ` set (buckets hm ! ?b)" using i Some by (auto simp: ito_ok_def)
    have d: "distinct (map fst (buckets hm ! ?b))" using table_okD(4) [OF t b] by (simp add: chain_ok_def)
    obtain w es where e: "dropWhile (\<lambda>e. fst e \<noteq> k) (buckets hm ! ?b) = (k, w) # es" using dropWhile_key [OF k] by blast
    note g = bucket_get [OF t b]
    show ?thesis
    proof (cases es)
      case Nil
      then show ?thesis using it_goto_ok [OF t i, of "Suc ?b"] b e g v Some by (simp add: hash_map_elt_next_def it_after_def len)
    next
      case (Cons e' es')
      note n = dropWhile_next [OF d e [unfolded Cons]]
      have "ito_ok hm (it\<lparr>ito_elt := Some (fst e')\<rparr>)" "it_after hm (it\<lparr>ito_elt := Some (fst e')\<rparr>) = es' @ concat (drop (Suc ?b) (buckets hm))"
        using i b n by (simp_all add: ito_ok_def it_after_def)
      then show ?thesis using Cons e g v Some by (simp add: hash_map_elt_next_def it_after_def visits_def)
    qed
  qed
qed

text \<open>The entries of both iterators.\<close>

lemma hash_map_elts_ok:
  assumes "table_ok hm" and "ito_ok hm it" and "length (it_after hm it) < n"
  shows "hash_map_elts n hm it = Some (it_after hm it)"
  using assms(2,3)
proof (induction n arbitrary: it)
  case (Suc n)
  note v = elt_next_ok [OF assms(1) Suc.prems(1), unfolded visits_def]
  show ?case
  proof (cases "it_after hm it")
    case (Cons e es)
    then obtain it' where "hash_map_elt_next hm it = Some (Some e, it')" "ito_ok hm it'" "it_after hm it' = es" using v by auto
    then show ?thesis using Suc.IH [of it'] Suc.prems(2) Cons by simp
  qed (use v in simp)
qed simp

lemma hash_map_iterators_agree:
  assumes "hash_map_ok hm"
  shows "\<exists>it es. hash_map_it2_create hm = Some it \<and> hash_map_entries (Suc (length es)) hm it = Some es \<and>
    hash_map_elts (Suc (length es)) hm (hash_map_it_init hm) = Some es"
proof -
  have t: "table_ok hm" using assms by (simp add: hash_map_ok_def)
  obtain it where it: "hash_map_it2_create hm = Some it" "it_ok hm it" "it_rest hm it = concat (buckets hm)" using it2_create_ok [OF t] by blast
  have "ito_ok hm (hash_map_it_init hm)" "it_after hm (hash_map_it_init hm) = concat (buckets hm)"
    by (simp_all add: ito_ok_def it_after_def hash_map_it_init_def)
  then show ?thesis using it entries_ok [OF t it(2)] hash_map_elts_ok [OF t] by (metis lessI)
qed

end
