(* ===== verification/Dcache.thy ===== *)
theory Dcache
  imports Hash_Map
begin

text \<open>
  The directory entry cache of \<^verbatim>\<open>dcache.c\<close>: cached directories by inode number, the
  entries of each by name, the free entries of each, and the intrusive list that orders the
  directories from the least to the most recently used.

  A directory in the cache is named by its inode number (no two have the same), which stands for
  the address of its \<^verbatim>\<open>struct mdirectory\<close>; the objects are in \<open>dc_mdirs\<close>. The field
  \<^verbatim>\<open>lru_polder\<close> is the address of the pointer that points at the directory:
  \<open>Oldest\<close> is \<^verbatim>\<open>&dcache.lru_oldest\<close> and \<open>Newer i\<close> is
  \<^verbatim>\<open>&mdir->lru_newer\<close> of directory \<open>i\<close>. Following a pointer to a directory that is not
  there ends the process. Memory that is only released leaves no trace in the state.
\<close>

abbreviation (input) NMDIRS_MAX :: u64 where "NMDIRS_MAX \<equiv> 1024"
abbreviation (input) DCACHE_FREE_NONE :: u64 where "DCACHE_FREE_NONE \<equiv> UINT64_MAX"

record mdirent =
  md_name :: string
  md_off :: u64
  md_ino :: u64
  md_ino_generation :: u64
  md_rec_len :: u16
  md_file_type :: u8

datatype plink = Oldest | Newer u64

record mdirectory =
  dirents :: "mdirent hash_map"
  free_dirents :: "(u64 \<times> u16) list"
  mdir_ino :: u64
  lru_polder :: plink
  lru_newer :: "u64 option"

record dcache =
  directories :: "u64 hash_map option"
  lru_oldest :: "u64 option"
  lru_newest :: "u64 option"
  dc_mdirs :: "u64 \<Rightarrow> mdirectory option"

text \<open>What \<^verbatim>\<open>malloc\<close> answers while a directory is added: for the object, for its table,
  for the element of the directory table and for a resize of that table.\<close>

type_synonym dc_mem = "bool \<times> hm_mem \<times> bool \<times> hm_mem"

section \<open>Pointers\<close>

definition mdir_get :: "dcache \<Rightarrow> u64 \<Rightarrow> mdirectory option" where
  "mdir_get dc i = dc_mdirs dc i"

definition mdir_put :: "u64 \<Rightarrow> mdirectory \<Rightarrow> dcache \<Rightarrow> dcache" where
  "mdir_put i d dc = dc\<lparr>dc_mdirs := (dc_mdirs dc)(i \<mapsto> d)\<rparr>"

text \<open>\<^verbatim>\<open>*polder = p\<close>\<close>

fun set_link :: "plink \<Rightarrow> u64 option \<Rightarrow> dcache \<Rightarrow> dcache option" where
  "set_link Oldest p dc = Some (dc\<lparr>lru_oldest := p\<rparr>)"
| "set_link (Newer i) p dc = do { d \<leftarrow> mdir_get dc i; Some (mdir_put i (d\<lparr>lru_newer := p\<rparr>) dc) }"

definition set_polder :: "u64 \<Rightarrow> plink \<Rightarrow> dcache \<Rightarrow> dcache option" where
  "set_polder i l dc = do { d \<leftarrow> mdir_get dc i; Some (mdir_put i (d\<lparr>lru_polder := l\<rparr>) dc) }"

section \<open>Directories\<close>

definition mdirectory_touch :: "u64 \<Rightarrow> dcache \<Rightarrow> dcache option" where
  "mdirectory_touch mdir dc = do {
     check (lru_newest dc \<noteq> None \<and> lru_oldest dc \<noteq> None);
     d \<leftarrow> mdir_get dc mdir;
     case lru_newer d of
       None \<Rightarrow> Some dc
     | Some newer \<Rightarrow> do {
         dc \<leftarrow> set_polder newer (lru_polder d) dc;
         dc \<leftarrow> set_link (lru_polder d) (Some newer) dc;
         newest \<leftarrow> lru_newest dc;
         dc \<leftarrow> set_polder mdir (Newer newest) dc;
         dc \<leftarrow> set_link (Newer newest) (Some mdir) dc;
         dc \<leftarrow> set_link (Newer mdir) None dc;
         Some (dc\<lparr>lru_newest := Some mdir\<rparr>)
       }
   }"

definition mdirectory_rem :: "u64 \<Rightarrow> dcache \<Rightarrow> dcache option" where
  "mdirectory_rem mdir dc = do {
     d \<leftarrow> mdir_get dc mdir;
     tbl \<leftarrow> directories dc;
     (v, tbl) \<leftarrow> hash_map_erase tbl (KPtr (mdir_ino d));
     let dc = dc\<lparr>directories := Some tbl\<rparr>;
     dc \<leftarrow> (case lru_newer d of
         Some newer \<Rightarrow> set_polder newer (lru_polder d) dc
       | None \<Rightarrow> Some (dc\<lparr>lru_newest := (case lru_polder d of Oldest \<Rightarrow> None | Newer i \<Rightarrow> Some i)\<rparr>));
     dc \<leftarrow> set_link (lru_polder d) (lru_newer d) dc;
     Some (dc\<lparr>dc_mdirs := (dc_mdirs dc)(mdir := None)\<rparr>)
   }"

definition mdirectory_add :: "dc_mem \<Rightarrow> u64 \<Rightarrow> dcache \<Rightarrow> (u64 option \<times> dcache) option" where
  "mdirectory_add mem ino dc = do {
     tbl \<leftarrow> directories dc;
     dc \<leftarrow> (if hash_map_size tbl = NMDIRS_MAX
           then do { oldest \<leftarrow> lru_oldest dc; mdirectory_rem oldest dc }
           else Some dc);
     if \<not> fst mem then Some (None, dc)
     else case hash_map_create_str (fst (snd mem)) of
       None \<Rightarrow> Some (None, dc)
     | Some dirs \<Rightarrow> do {
         tbl \<leftarrow> directories dc;
         (r, tbl) \<leftarrow> hash_map_insert (fst (snd (snd mem))) (snd (snd (snd mem))) tbl (KPtr ino) ino;
         let dc = dc\<lparr>directories := Some tbl\<rparr>;
         if r < 0 then Some (None, dc)
         else do {
           let polder = (case lru_newest dc of Some n \<Rightarrow> Newer n | None \<Rightarrow> Oldest);
           let dc = mdir_put ino \<lparr>dirents = dirs, free_dirents = [], mdir_ino = ino,
                      lru_polder = polder, lru_newer = None\<rparr> dc;
           dc \<leftarrow> set_link polder (Some ino) dc;
           Some (Some ino, dc\<lparr>lru_newest := Some ino\<rparr>)
         }
       }
   }"

section \<open>The interface\<close>

definition dcache_init :: "hm_mem \<Rightarrow> dcache \<Rightarrow> (int \<times> dcache) option" where
  "dcache_init mem dc = do {
     check (directories dc = None);
     case hash_map_create_size_ptr mem NMDIRS_MAX False of
       None \<Rightarrow> Some (- ENOMEM, dc)
     | Some tbl \<Rightarrow> Some (0, dc\<lparr>directories := Some tbl, lru_newest := None, lru_oldest := None\<rparr>)
   }"

text \<open>The loop of \<^verbatim>\<open>dcache_destroy\<close>, which erases the entry it stands on; \<open>n\<close> bounds the calls.\<close>

primrec dcache_destroy_loop :: "nat \<Rightarrow> u64 hash_map_it2 \<Rightarrow> dcache \<Rightarrow> dcache option" where
  "dcache_destroy_loop 0 it dc = None"
| "dcache_destroy_loop (Suc n) it dc = do {
     tbl \<leftarrow> directories dc;
     (more, it) \<leftarrow> hash_map_it2_next tbl it;
     if \<not> more then Some dc
     else do {
       e \<leftarrow> it_elt it;
       dc \<leftarrow> mdirectory_rem (snd e) dc;
       dcache_destroy_loop n it dc
     }
   }"

definition dcache_destroy :: "nat \<Rightarrow> dcache \<Rightarrow> dcache option" where
  "dcache_destroy n dc = do {
     tbl \<leftarrow> directories dc;
     it \<leftarrow> hash_map_it2_create tbl;
     dc \<leftarrow> dcache_destroy_loop n it dc;
     Some (dc\<lparr>directories := None, lru_newest := None, lru_oldest := None\<rparr>)
   }"

definition find_dir :: "dcache \<Rightarrow> u64 \<Rightarrow> u64 option option" where
  "find_dir dc ino = do { tbl \<leftarrow> directories dc; hash_map_find_val tbl (KPtr ino) }"

definition dcache_has_dir :: "dcache \<Rightarrow> u64 \<Rightarrow> bool option" where
  "dcache_has_dir dc ino = do { v \<leftarrow> find_dir dc ino; Some (v \<noteq> None) }"

definition dcache_add_dir :: "dc_mem \<Rightarrow> u64 \<Rightarrow> dcache \<Rightarrow> (int \<times> dcache) option" where
  "dcache_add_dir mem ino dc = do {
     v \<leftarrow> find_dir dc ino;
     check (v = None);
     (mdir, dc) \<leftarrow> mdirectory_add mem ino dc;
     Some (if mdir = None then - ENOMEM else 0, dc)
   }"

definition dcache_rem_dir :: "u64 \<Rightarrow> dcache \<Rightarrow> dcache option" where
  "dcache_rem_dir ino dc = do {
     v \<leftarrow> find_dir dc ino;
     mdir \<leftarrow> v;
     mdirectory_rem mdir dc
   }"

text \<open>\<open>dup\<close>: whether the copy of the entry and of its name get memory.\<close>

definition dcache_add_dirent ::
  "bool \<Rightarrow> bool \<Rightarrow> hm_mem \<Rightarrow> u64 \<Rightarrow> mdirent \<Rightarrow> dcache \<Rightarrow> (int \<times> dcache) option" where
  "dcache_add_dirent dup pool mem parent_ino mdo dc = do {
     v \<leftarrow> find_dir dc parent_ino;
     mdir \<leftarrow> v;
     dc \<leftarrow> mdirectory_touch mdir dc;
     if \<not> dup then Some (- ENOMEM, dc)
     else do {
       d \<leftarrow> mdir_get dc mdir;
       (r, tbl) \<leftarrow> hash_map_insert pool mem (dirents d) (KStr (md_name mdo)) mdo;
       let dc = mdir_put mdir (d\<lparr>dirents := tbl\<rparr>) dc;
       if r < 0 then Some (r, dc)
       else do { check (r = 0); Some (0, dc) }
     }
   }"

definition dcache_get_dirent :: "u64 \<Rightarrow> string \<Rightarrow> dcache \<Rightarrow> (mdirent option \<times> dcache) option" where
  "dcache_get_dirent parent_ino name dc = do {
     v \<leftarrow> find_dir dc parent_ino;
     mdir \<leftarrow> v;
     dc \<leftarrow> mdirectory_touch mdir dc;
     d \<leftarrow> mdir_get dc mdir;
     md \<leftarrow> hash_map_find_val (dirents d) (KStr name);
     Some (md, dc)
   }"

definition dcache_rem_dirent :: "u64 \<Rightarrow> string \<Rightarrow> dcache \<Rightarrow> (int \<times> dcache) option" where
  "dcache_rem_dirent parent_ino name dc = do {
     v \<leftarrow> find_dir dc parent_ino;
     mdir \<leftarrow> v;
     dc \<leftarrow> mdirectory_touch mdir dc;
     d \<leftarrow> mdir_get dc mdir;
     (md, tbl) \<leftarrow> hash_map_erase (dirents d) (KStr name);
     let dc = mdir_put mdir (d\<lparr>dirents := tbl\<rparr>) dc;
     Some (if md = None then - EINVAL else 0, dc)
   }"

definition dcache_add_free :: "bool \<Rightarrow> u64 \<Rightarrow> u64 \<Rightarrow> u16 \<Rightarrow> dcache \<Rightarrow> (int \<times> dcache) option" where
  "dcache_add_free mem parent_ino off rec_len dc = do {
     v \<leftarrow> find_dir dc parent_ino;
     mdir \<leftarrow> v;
     check (off \<noteq> DCACHE_FREE_NONE);
     d \<leftarrow> mdir_get dc mdir;
     Some (if \<not> mem then (- ENOMEM, dc)
           else (0, mdir_put mdir (d\<lparr>free_dirents := (off, rec_len) # free_dirents d\<rparr>) dc))
   }"

text \<open>The search of \<^verbatim>\<open>dcache_take_free\<close>: the offset found and the list without it.\<close>

fun take_first_free :: "u16 \<Rightarrow> (u64 \<times> u16) list \<Rightarrow> (u64 \<times> (u64 \<times> u16) list) option" where
  "take_first_free m [] = None"
| "take_first_free m ((off, len) # fs) =
     (if m \<le> len then Some (off, fs)
      else map_option (\<lambda>(off', fs'). (off', (off, len) # fs')) (take_first_free m fs))"

definition dcache_take_free :: "u64 \<Rightarrow> u16 \<Rightarrow> dcache \<Rightarrow> (u64 \<times> dcache) option" where
  "dcache_take_free parent_ino min_rec_len dc = do {
     v \<leftarrow> find_dir dc parent_ino;
     mdir \<leftarrow> v;
     d \<leftarrow> mdir_get dc mdir;
     Some (case take_first_free min_rec_len (free_dirents d) of
         None \<Rightarrow> (DCACHE_FREE_NONE, dc)
       | Some (off, fs) \<Rightarrow> (off, mdir_put mdir (d\<lparr>free_dirents := fs\<rparr>) dc))
   }"

section \<open>Invariant\<close>

text \<open>
  The intrusive list, most recently used first: in \<open>lru_links m B p rs q\<close> the directories \<open>rs\<close>
  follow the link \<open>B\<close>, which holds \<open>p\<close>, and the last link holds \<open>q\<close>.
\<close>

fun elink :: "plink \<Rightarrow> u64 list \<Rightarrow> plink" where
  "elink B [] = B"
| "elink B (x # rs) = Newer x"

fun lru_links :: "(u64 \<Rightarrow> mdirectory option) \<Rightarrow> plink \<Rightarrow> u64 option \<Rightarrow> u64 list \<Rightarrow> u64 option \<Rightarrow> bool" where
  "lru_links m B p [] q = (p = q)"
| "lru_links m B p (x # rs) q =
     (case m x of None \<Rightarrow> False
      | Some d \<Rightarrow> lru_newer d = q \<and> lru_polder d = elink B rs \<and> lru_links m B p rs (Some x))"

definition mdir_data :: "mdirectory \<Rightarrow> mdirent hash_map \<times> (u64 \<times> u16) list \<times> u64" where
  "mdir_data d = (dirents d, free_dirents d, mdir_ino d)"

definition dc_data :: "dcache \<Rightarrow> u64 \<Rightarrow> (mdirent hash_map \<times> (u64 \<times> u16) list \<times> u64) option" where
  "dc_data dc i = map_option mdir_data (dc_mdirs dc i)"

definition lru_ok :: "dcache \<Rightarrow> u64 list \<Rightarrow> bool" where
  "lru_ok dc rs \<longleftrightarrow> distinct rs \<and> lru_links (dc_mdirs dc) Oldest (lru_oldest dc) rs None \<and>
     lru_newest dc = (case rs of [] \<Rightarrow> None | x # _ \<Rightarrow> Some x)"

definition dirs_ok :: "dcache \<Rightarrow> u64 set \<Rightarrow> bool" where
  "dirs_ok dc A \<longleftrightarrow>
     (\<exists>tbl. directories dc = Some tbl \<and> ptr_map_ok tbl \<and>
        (\<forall>i. hm_map tbl (KPtr i) = (if i \<in> A then Some i else None))) \<and>
     dom (dc_data dc) = A \<and>
     (\<forall>i t f j. dc_data dc i = Some (t, f, j) \<longrightarrow> j = i \<and> str_map_ok t)"

definition dcache_inv :: "dcache \<Rightarrow> u64 list \<Rightarrow> bool" where
  "dcache_inv dc rs \<longleftrightarrow> lru_ok dc rs \<and> dirs_ok dc (set rs) \<and> length rs \<le> 1024"

text \<open>The entries and the free entries of a cached directory.\<close>

definition dc_entries :: "dcache \<Rightarrow> u64 \<Rightarrow> string \<Rightarrow> mdirent option" where
  "dc_entries dc i name =
     (case dc_data dc i of None \<Rightarrow> None | Some (t, f, j) \<Rightarrow> hm_map t (KStr name))"

definition dc_free :: "dcache \<Rightarrow> u64 \<Rightarrow> (u64 \<times> u16) list" where
  "dc_free dc i = (case dc_data dc i of None \<Rightarrow> [] | Some (t, f, j) \<Rightarrow> f)"

section \<open>The list of directories\<close>

declare set_link.simps [simp del]

lemma dc_data_simps [simp]:
  "dc_data (dc\<lparr>lru_newest := p\<rparr>) = dc_data dc"
  "dc_data (dc\<lparr>lru_oldest := p\<rparr>) = dc_data dc"
  "dc_data (dc\<lparr>directories := t\<rparr>) = dc_data dc"
  "dc_data (dc\<lparr>dc_mdirs := (dc_mdirs dc)(x := None)\<rparr>) = (dc_data dc)(x := None)"
  "dc_data (mdir_put x d dc) = (dc_data dc)(x \<mapsto> mdir_data d)"
  by (simp_all add: dc_data_def mdir_put_def fun_eq_iff)

lemma lru_links_append:
  "lru_links m B p (as @ bs) q \<longleftrightarrow> (\<exists>r. lru_links m B p bs r \<and> lru_links m (elink B bs) r as q)"
proof (induction as arbitrary: q)
  case (Cons x as)
  have "elink B (as @ bs) = elink (elink B bs) as" by (cases as) auto
  then show ?case using Cons by (auto split: option.splits)
qed simp

lemma lru_links_frame:
  "lru_links m B p rs q \<Longrightarrow> p' = p \<Longrightarrow> \<forall>z \<in> set rs. m' z = m z \<Longrightarrow> lru_links m' B p' rs q"
  by (induction rs arbitrary: q) (auto split: option.splits)

lemma set_link_end:
  assumes "lru_links (dc_mdirs dc) Oldest (lru_oldest dc) rs q" and "distinct rs"
  shows "\<exists>dc'. set_link (elink Oldest rs) q' dc = Some dc' \<and>
    lru_links (dc_mdirs dc') Oldest (lru_oldest dc') rs q' \<and> dc_data dc' = dc_data dc \<and>
    (\<forall>z. z \<notin> set rs \<longrightarrow> dc_mdirs dc' z = dc_mdirs dc z) \<and>
    directories dc' = directories dc \<and> lru_newest dc' = lru_newest dc"
proof (cases rs)
  case Nil
  then show ?thesis by (auto simp: dc_data_def set_link.simps)
next
  case (Cons x xs)
  then obtain d where d: "dc_mdirs dc x = Some d" "lru_polder d = elink Oldest xs"
      "lru_links (dc_mdirs dc) Oldest (lru_oldest dc) xs (Some x)"
    using assms(1) by (auto split: option.splits)
  let ?m = "(dc_mdirs dc)(x \<mapsto> d\<lparr>lru_newer := q'\<rparr>)"
  have "lru_links ?m Oldest (lru_oldest dc) xs (Some x)"
    using assms(2) Cons by (intro lru_links_frame [OF d(3)]) auto
  then show ?thesis using Cons d
    by (auto simp: set_link.simps mdir_get_def mdir_put_def dc_data_def mdir_data_def fun_eq_iff)
qed

lemma set_polder_eq:
  assumes "dc_mdirs dc x = Some d"
  shows "set_polder x l dc = Some (dc\<lparr>dc_mdirs := (dc_mdirs dc)(x \<mapsto> d\<lparr>lru_polder := l\<rparr>)\<rparr>)"
  using assms by (simp add: set_polder_def mdir_get_def mdir_put_def)

lemma set_link_Newer_eq:
  assumes "dc_mdirs dc x = Some d"
  shows "set_link (Newer x) p dc = Some (dc\<lparr>dc_mdirs := (dc_mdirs dc)(x \<mapsto> d\<lparr>lru_newer := p\<rparr>)\<rparr>)"
  using assms by (simp add: set_link.simps mdir_get_def mdir_put_def)

text \<open>Unlinking \<open>x\<close>, whose next newer directory is \<open>y\<close>.\<close>

lemma unlink_middle:
  assumes "lru_links (dc_mdirs dc) Oldest (lru_oldest dc) (bs @ y # x # as) None"
    and "distinct (bs @ y # x # as)"
  obtains d dc1 dc2 where "dc_mdirs dc x = Some d" "lru_newer d = Some y"
    "set_polder y (lru_polder d) dc = Some dc1"
    "set_link (lru_polder d) (Some y) dc1 = Some dc2"
    "lru_links (dc_mdirs dc2) Oldest (lru_oldest dc2) (bs @ y # as) None"
    "dc_data dc2 = dc_data dc" "dc_mdirs dc2 x = Some d"
    "directories dc2 = directories dc" "lru_newest dc2 = lru_newest dc"
proof -
  let ?m = "dc_mdirs dc"
  obtain d dy where d: "?m x = Some d" "lru_newer d = Some y" "lru_polder d = elink Oldest as"
      "lru_links ?m Oldest (lru_oldest dc) as (Some x)"
    and dy: "?m y = Some dy" "lru_polder dy = Newer x" "lru_links ?m (Newer y) (lru_newer dy) bs None"
    using assms(1) by (auto simp: lru_links_append split: option.splits)
  let ?dc1 = "dc\<lparr>dc_mdirs := ?m(y \<mapsto> dy\<lparr>lru_polder := elink Oldest as\<rparr>)\<rparr>"
  have 1: "set_polder y (lru_polder d) dc = Some ?dc1" using set_polder_eq [OF dy(1)] d(3) by simp
  have as1: "lru_links (dc_mdirs ?dc1) Oldest (lru_oldest ?dc1) as (Some x)"
    using assms(2) by (intro lru_links_frame [OF d(4)]) auto
  obtain dc2 where 2: "set_link (elink Oldest as) (Some y) ?dc1 = Some dc2"
      "lru_links (dc_mdirs dc2) Oldest (lru_oldest dc2) as (Some y)" "dc_data dc2 = dc_data ?dc1"
      "\<forall>z. z \<notin> set as \<longrightarrow> dc_mdirs dc2 z = dc_mdirs ?dc1 z"
      "directories dc2 = directories ?dc1" "lru_newest dc2 = lru_newest ?dc1"
    using set_link_end [OF as1, of "Some y"] assms(2) by auto
  have "dc_mdirs dc2 y = Some (dy\<lparr>lru_polder := elink Oldest as\<rparr>)" using 2(4) assms(2) by auto
  moreover have "lru_links (dc_mdirs dc2) (Newer y) (lru_newer dy) bs None"
    using 2(4) assms(2) by (intro lru_links_frame [OF dy(3)]) auto
  ultimately have "lru_links (dc_mdirs dc2) Oldest (lru_oldest dc2) (bs @ y # as) None"
    using 2(2) by (auto simp: lru_links_append)
  moreover have "dc_data ?dc1 = dc_data dc" using dy(1) by (auto simp: dc_data_def mdir_data_def fun_eq_iff)
  moreover have "dc_mdirs dc2 x = Some d" using 2(4) assms(2) d(1) by auto
  ultimately show thesis using that [OF d(1,2) 1] 2 d(3) by simp
qed

lemma touch_lru:
  assumes "lru_ok dc rs" and "x \<in> set rs"
  shows "\<exists>dc'. mdirectory_touch x dc = Some dc' \<and> lru_ok dc' (x # remove1 x rs) \<and>
    dc_data dc' = dc_data dc \<and> directories dc' = directories dc"
proof -
  have d: "distinct rs" and l: "lru_links (dc_mdirs dc) Oldest (lru_oldest dc) rs None"
    and n: "lru_newest dc = (case rs of [] \<Rightarrow> None | x # _ \<Rightarrow> Some x)"
    using assms(1) by (auto simp: lru_ok_def)
  have newest: "lru_newest dc \<noteq> None" using n assms(2) by (cases rs) auto
  have oldest: "lru_oldest dc \<noteq> None" using l assms(2)
    by (cases rs rule: rev_cases) (auto simp: lru_links_append split: option.splits)
  obtain us as where rs: "rs = us @ x # as" using assms(2) by (meson split_list)
  show ?thesis
  proof (cases us rule: rev_cases)
    case Nil
    then show ?thesis using l d n rs newest oldest
      by (auto simp: mdirectory_touch_def mdir_get_def lru_ok_def split: option.splits)
  next
    case (snoc bs y)
    then have rs': "rs = bs @ y # x # as" using rs by simp
    obtain e dc1 dc2 where u: "dc_mdirs dc x = Some e" "lru_newer e = Some y"
      "set_polder y (lru_polder e) dc = Some dc1" "set_link (lru_polder e) (Some y) dc1 = Some dc2"
      "lru_links (dc_mdirs dc2) Oldest (lru_oldest dc2) (bs @ y # as) None"
      "dc_data dc2 = dc_data dc" "dc_mdirs dc2 x = Some e"
      "directories dc2 = directories dc" "lru_newest dc2 = lru_newest dc"
      using unlink_middle [OF l [unfolded rs'] d [unfolded rs']] by blast
    obtain w ws where ws: "bs @ y # as = w # ws" by (cases bs) auto
    have nw: "lru_newest dc2 = Some w" using n u(9) rs' ws by (cases bs) auto
    have x: "x \<noteq> w" "x \<notin> set ws" "w \<notin> set ws" and dws: "distinct (w # ws)"
    proof -
      have "x \<notin> set (w # ws)" "distinct (w # ws)" using d rs' unfolding ws [symmetric] by auto
      then show "x \<noteq> w" "x \<notin> set ws" "w \<notin> set ws" "distinct (w # ws)" by auto
    qed
    let ?dc3 = "dc2\<lparr>dc_mdirs := (dc_mdirs dc2)(x \<mapsto> e\<lparr>lru_polder := Newer w\<rparr>)\<rparr>"
    have 3: "set_polder x (Newer w) dc2 = Some ?dc3" using set_polder_eq [OF u(7)] .
    have l3: "lru_links (dc_mdirs ?dc3) Oldest (lru_oldest ?dc3) (w # ws) None"
      using x by (intro lru_links_frame [OF u(5) [unfolded ws]]) auto
    obtain dc4 where 4: "set_link (Newer w) (Some x) ?dc3 = Some dc4"
        "lru_links (dc_mdirs dc4) Oldest (lru_oldest dc4) (w # ws) (Some x)"
        "dc_data dc4 = dc_data ?dc3" "dc_mdirs dc4 x = Some (e\<lparr>lru_polder := Newer w\<rparr>)"
        "directories dc4 = directories dc2"
      using set_link_end [OF l3 dws, of "Some x"] x by auto
    let ?dc5 = "dc4\<lparr>dc_mdirs := (dc_mdirs dc4)(x \<mapsto> e\<lparr>lru_polder := Newer w, lru_newer := None\<rparr>)\<rparr>"
    have 5: "set_link (Newer x) None dc4 = Some ?dc5" using set_link_Newer_eq [OF 4(4), of None] by simp
    have l5: "lru_links (dc_mdirs ?dc5) Oldest (lru_oldest ?dc5) (w # ws) (Some x)"
      using x by (intro lru_links_frame [OF 4(2)]) auto
    have data: "dc_data ?dc5 = dc_data dc"
      using 4(3,4) u(6,1) by (auto simp: dc_data_def mdir_data_def fun_eq_iff split: if_splits)
    have "remove1 x rs = w # ws" using d ws by (simp add: rs' remove1_append)
    then have "lru_ok (?dc5\<lparr>lru_newest := Some x\<rparr>) (x # remove1 x rs)"
      using l5 x dws by (simp add: lru_ok_def)
    moreover have "mdirectory_touch x dc = Some (?dc5\<lparr>lru_newest := Some x\<rparr>)"
      using newest oldest u(1-4) nw 3 4(1) 5 by (simp add: mdirectory_touch_def mdir_get_def)
    moreover have "dc_data (?dc5\<lparr>lru_newest := Some x\<rparr>) = dc_data dc" using data by simp
    ultimately show ?thesis using 4(5) u(8) by simp
  qed
qed


lemma unlink_lru:
  assumes "lru_ok dc rs" and "x \<in> set rs"
  obtains d dc' where "dc_mdirs dc x = Some d"
    "do { dc \<leftarrow> (case lru_newer d of
             Some newer \<Rightarrow> set_polder newer (lru_polder d) dc
           | None \<Rightarrow> Some (dc\<lparr>lru_newest := (case lru_polder d of Oldest \<Rightarrow> None | Newer i \<Rightarrow> Some i)\<rparr>));
         set_link (lru_polder d) (lru_newer d) dc } = Some dc'"
    "lru_ok (dc'\<lparr>dc_mdirs := (dc_mdirs dc')(x := None)\<rparr>) (remove1 x rs)"
    "dc_data dc' = dc_data dc" "directories dc' = directories dc"
proof -
  have d: "distinct rs" and l: "lru_links (dc_mdirs dc) Oldest (lru_oldest dc) rs None"
    and n: "lru_newest dc = (case rs of [] \<Rightarrow> None | x # _ \<Rightarrow> Some x)"
    using assms(1) by (auto simp: lru_ok_def)
  obtain us as where rs: "rs = us @ x # as" using assms(2) by (meson split_list)
  show thesis
  proof (cases us rule: rev_cases)
    case Nil
    obtain e where e: "dc_mdirs dc x = Some e" "lru_newer e = None" "lru_polder e = elink Oldest as"
        "lru_links (dc_mdirs dc) Oldest (lru_oldest dc) as (Some x)"
      using l rs Nil by (auto split: option.splits)
    let ?n = "case as of [] \<Rightarrow> None | y # _ \<Rightarrow> Some y"
    have p: "(case lru_polder e of Oldest \<Rightarrow> None | Newer i \<Rightarrow> Some i) = ?n" using e(3) by (cases as) auto
    let ?dc1 = "dc\<lparr>lru_newest := ?n\<rparr>"
    have das: "distinct as" "x \<notin> set as" using d rs Nil by auto
    have l1: "lru_links (dc_mdirs ?dc1) Oldest (lru_oldest ?dc1) as (Some x)" using e(4) by simp
    obtain dc2 where 2: "set_link (elink Oldest as) None ?dc1 = Some dc2"
        "lru_links (dc_mdirs dc2) Oldest (lru_oldest dc2) as None" "dc_data dc2 = dc_data ?dc1"
        "directories dc2 = directories dc" "lru_newest dc2 = ?n"
      using set_link_end [OF l1 das(1), of None] by auto
    have l2: "lru_links ((dc_mdirs dc2)(x := None)) Oldest (lru_oldest dc2) as None"
      using das by (intro lru_links_frame [OF 2(2)]) auto
    show thesis
    proof (rule that [of e dc2])
      show "lru_ok (dc2\<lparr>dc_mdirs := (dc_mdirs dc2)(x := None)\<rparr>) (remove1 x rs)"
        using das l2 2(5) rs Nil by (simp add: lru_ok_def)
      show "dc_data dc2 = dc_data dc" using 2(3) by simp
    qed (use e 2 p in simp_all)
  next
    case (snoc bs y)
    then have rs': "rs = bs @ y # x # as" using rs by simp
    obtain e dc1 dc2 where u: "dc_mdirs dc x = Some e" "lru_newer e = Some y"
      "set_polder y (lru_polder e) dc = Some dc1" "set_link (lru_polder e) (Some y) dc1 = Some dc2"
      "lru_links (dc_mdirs dc2) Oldest (lru_oldest dc2) (bs @ y # as) None"
      "dc_data dc2 = dc_data dc" "directories dc2 = directories dc" "lru_newest dc2 = lru_newest dc"
      using unlink_middle [OF l [unfolded rs'] d [unfolded rs']] by blast
    have l2: "lru_links ((dc_mdirs dc2)(x := None)) Oldest (lru_oldest dc2) (bs @ y # as) None"
      using d rs' by (intro lru_links_frame [OF u(5)]) auto
    have "remove1 x rs = bs @ y # as" using d rs' by (simp add: remove1_append)
    moreover have "lru_newest dc2 = (case bs @ y # as of [] \<Rightarrow> None | x # _ \<Rightarrow> Some x)"
      using n u(8) rs' by (cases bs) auto
    moreover have "distinct (bs @ y # as)" using d rs' by auto
    ultimately show thesis using that [of e dc2] u l2 by (simp add: lru_ok_def)
  qed
qed

lemma link_lru:
  assumes "lru_ok dc rs" and "x \<notin> set rs"
  shows "\<exists>dc'. set_link (case lru_newest dc of Some n \<Rightarrow> Newer n | None \<Rightarrow> Oldest) (Some x)
      (mdir_put x (d\<lparr>lru_polder := (case lru_newest dc of Some n \<Rightarrow> Newer n | None \<Rightarrow> Oldest),
                     lru_newer := None\<rparr>) dc) = Some dc' \<and>
    lru_ok (dc'\<lparr>lru_newest := Some x\<rparr>) (x # rs) \<and>
    dc_data dc' = (dc_data dc)(x \<mapsto> mdir_data d) \<and> directories dc' = directories dc"
proof -
  have dis: "distinct rs" and l: "lru_links (dc_mdirs dc) Oldest (lru_oldest dc) rs None"
    and n: "lru_newest dc = (case rs of [] \<Rightarrow> None | x # _ \<Rightarrow> Some x)"
    using assms(1) by (auto simp: lru_ok_def)
  have p: "(case lru_newest dc of Some n \<Rightarrow> Newer n | None \<Rightarrow> Oldest) = elink Oldest rs"
    using n by (cases rs) auto
  let ?d = "d\<lparr>lru_polder := elink Oldest rs, lru_newer := None\<rparr>"
  let ?dc1 = "mdir_put x ?d dc"
  have l1: "lru_links (dc_mdirs ?dc1) Oldest (lru_oldest ?dc1) rs None"
    using assms(2) by (intro lru_links_frame [OF l]) (auto simp: mdir_put_def)
  obtain dc2 where 2: "set_link (elink Oldest rs) (Some x) ?dc1 = Some dc2"
      "lru_links (dc_mdirs dc2) Oldest (lru_oldest dc2) rs (Some x)" "dc_data dc2 = dc_data ?dc1"
      "dc_mdirs dc2 x = dc_mdirs ?dc1 x" "directories dc2 = directories ?dc1"
    using set_link_end [OF l1 dis, of "Some x"] assms(2) by auto
  have "dc_data ?dc1 = (dc_data dc)(x \<mapsto> mdir_data d)"
    by (auto simp: dc_data_def mdir_put_def mdir_data_def fun_eq_iff)
  then show ?thesis using 2 p dis assms(2) by (simp add: lru_ok_def mdir_put_def)
qed


section \<open>Operations on the cache\<close>

lemma lru_ok_directories [simp]: "lru_ok (dc\<lparr>directories := t\<rparr>) rs = lru_ok dc rs"
  by (simp add: lru_ok_def)

lemma dirs_ok_data:
  "dc_data dc' = dc_data dc \<Longrightarrow> directories dc' = directories dc \<Longrightarrow> dirs_ok dc' A = dirs_ok dc A"
  by (simp add: dirs_ok_def)

lemma dcache_invD:
  assumes "dcache_inv dc rs"
  shows "lru_ok dc rs" "dirs_ok dc (set rs)" "distinct rs" "length rs \<le> 1024"
  using assms by (auto simp: dcache_inv_def lru_ok_def)

lemma find_dir_ok:
  assumes "dirs_ok dc A"
  shows "find_dir dc i = Some (if i \<in> A then Some i else None)"
proof -
  obtain tbl where t: "directories dc = Some tbl" "ptr_map_ok tbl"
      "\<forall>i. hm_map tbl (KPtr i) = (if i \<in> A then Some i else None)"
    using assms by (auto simp: dirs_ok_def)
  then show ?thesis using ptr_map.find_abs [OF t(2), of i] by (simp add: find_dir_def)
qed

lemma touch_ok:
  assumes "dcache_inv dc rs" and "x \<in> set rs"
  shows "\<exists>dc'. mdirectory_touch x dc = Some dc' \<and> dcache_inv dc' (x # remove1 x rs) \<and>
    dc_data dc' = dc_data dc \<and> directories dc' = directories dc"
proof -
  note i = dcache_invD [OF assms(1)]
  obtain dc' where t: "mdirectory_touch x dc = Some dc'" "lru_ok dc' (x # remove1 x rs)"
      "dc_data dc' = dc_data dc" "directories dc' = directories dc"
    using touch_lru [OF i(1) assms(2)] by blast
  have "set (x # remove1 x rs) = set rs" using i(3) assms(2) by (auto simp: set_remove1_eq)
  moreover have "length (x # remove1 x rs) = length rs"
    using assms(2) by (simp add: length_remove1) (metis Suc_pred length_pos_if_in_set)
  ultimately show ?thesis using t i dirs_ok_data [OF t(3,4)] by (simp add: dcache_inv_def)
qed

lemma rem_ok:
  assumes "dcache_inv dc rs" and "x \<in> set rs"
  shows "\<exists>dc'. mdirectory_rem x dc = Some dc' \<and> dcache_inv dc' (remove1 x rs) \<and>
    dc_data dc' = (dc_data dc)(x := None)"
proof -
  note i = dcache_invD [OF assms(1)]
  obtain tbl where t: "directories dc = Some tbl" "ptr_map_ok tbl"
      "\<forall>i. hm_map tbl (KPtr i) = (if i \<in> set rs then Some i else None)"
    and data: "dom (dc_data dc) = set rs"
      "\<forall>i t f j. dc_data dc i = Some (t, f, j) \<longrightarrow> j = i \<and> str_map_ok t"
    using i(2) by (auto simp: dirs_ok_def)
  obtain tbl' where t': "hash_map_erase tbl (KPtr x) = Some (hm_map tbl (KPtr x), tbl')"
      "ptr_map_ok tbl'" "(\<lambda>k. hm_map tbl' (KPtr k)) = (\<lambda>k. hm_map tbl (KPtr k))(x := None)"
    using ptr_map.erase_abs [OF t(2), of x] by auto
  let ?dc1 = "dc\<lparr>directories := Some tbl'\<rparr>"
  have lru: "lru_ok ?dc1 rs" using i(1) by simp
  obtain d dc2 where u: "dc_mdirs ?dc1 x = Some d"
    "do { dc \<leftarrow> (case lru_newer d of
             Some newer \<Rightarrow> set_polder newer (lru_polder d) ?dc1
           | None \<Rightarrow> Some (?dc1\<lparr>lru_newest := (case lru_polder d of Oldest \<Rightarrow> None | Newer i \<Rightarrow> Some i)\<rparr>));
         set_link (lru_polder d) (lru_newer d) dc } = Some dc2"
    "lru_ok (dc2\<lparr>dc_mdirs := (dc_mdirs dc2)(x := None)\<rparr>) (remove1 x rs)"
    "dc_data dc2 = dc_data ?dc1" "directories dc2 = directories ?dc1"
    using unlink_lru [OF lru assms(2)] by blast
  have "dc_data dc x = Some (dirents d, free_dirents d, mdir_ino d)"
    using u(1) by (simp add: dc_data_def mdir_data_def)
  then have ino: "mdir_ino d = x" using data(2) by blast
  let ?dc3 = "dc2\<lparr>dc_mdirs := (dc_mdirs dc2)(x := None)\<rparr>"
  have d3: "dc_data ?dc3 = (dc_data dc)(x := None)" using u(4) by simp
  have A: "set (remove1 x rs) = set rs - {x}" using i(3) by (simp add: set_remove1_eq)
  have m: "hm_map tbl' (KPtr k) = (if k \<in> set rs - {x} then Some k else None)" for k
    using fun_cong [OF t'(3), of k] t(3) by auto
  have "dirs_ok ?dc3 (set (remove1 x rs))"
    unfolding dirs_ok_def d3 A using m t'(2) data u(5) by auto
  then have "dcache_inv ?dc3 (remove1 x rs)"
    using u(3) i(4) assms(2) by (simp add: dcache_inv_def length_remove1)
  moreover have "mdirectory_rem x dc = Some ?dc3"
    using u(1,2) t(1) t'(1) ino
    by (simp add: mdirectory_rem_def mdir_get_def) (auto simp: bind_Some_eq split: option.splits)
  ultimately show ?thesis using d3 by blast
qed

lemma directories_size:
  assumes "dcache_inv dc rs"
  obtains tbl where "directories dc = Some tbl" "ptr_map_ok tbl"
    "\<forall>i. hm_map tbl (KPtr i) = (if i \<in> set rs then Some i else None)"
    "hash_map_size tbl = of_nat (length rs)"
proof -
  note i = dcache_invD [OF assms]
  obtain tbl where t: "directories dc = Some tbl" "ptr_map_ok tbl"
      "\<forall>i. hm_map tbl (KPtr i) = (if i \<in> set rs then Some i else None)"
    using i(2) by (auto simp: dirs_ok_def)
  have "hm_map tbl k \<noteq> None \<longleftrightarrow> k \<in> KPtr ` set rs" for k
    using t(2,3) by (cases k) (auto simp: hm_map_def hash_def ptr_map_ok_def)
  then have "dom (hm_map tbl) = KPtr ` set rs" by (auto simp: dom_def)
  then have "card (dom (hm_map tbl)) = length rs"
    using i(3) by (simp add: card_image inj_on_def distinct_card)
  then show thesis using that [OF t] size_card [of tbl] t(2) by (simp add: ptr_map_ok_def)
qed

lemma oldest_last:
  assumes "lru_ok dc rs" and "rs \<noteq> []"
  shows "lru_oldest dc = Some (last rs)"
  using assms by (cases rs rule: rev_cases) (auto simp: lru_ok_def lru_links_append split: option.splits)

lemma remove1_last: "distinct rs \<Longrightarrow> rs \<noteq> [] \<Longrightarrow> remove1 (last rs) rs = butlast rs"
  by (cases rs rule: rev_cases) (auto simp: remove1_append)

text \<open>The directories that stay when one is added.\<close>

definition lru_keep :: "u64 list \<Rightarrow> u64 list" where
  "lru_keep rs = (if length rs = 1024 then butlast rs else rs)"

definition dc_mem_ok :: "dc_mem \<Rightarrow> bool" where
  "dc_mem_ok mem \<longleftrightarrow> fst mem \<and> (hash_map_create_str (fst (snd mem)) :: mdirent hash_map option) \<noteq> None"

lemma evict_ok:
  assumes "dcache_inv dc rs" and "directories dc = Some tbl"
  shows "\<exists>dc'. (if hash_map_size tbl = NMDIRS_MAX
      then do { oldest \<leftarrow> lru_oldest dc; mdirectory_rem oldest dc } else Some dc) = Some dc' \<and>
    dcache_inv dc' (lru_keep rs) \<and> length (lru_keep rs) < 1024 \<and>
    dc_data dc' = dc_data dc |` set (lru_keep rs)"
proof -
  note i = dcache_invD [OF assms(1)]
  have sz: "hash_map_size tbl = of_nat (length rs)"
    using directories_size [OF assms(1)] assms(2) by (metis option.inject)
  have full: "hash_map_size tbl = NMDIRS_MAX \<longleftrightarrow> length rs = 1024"
  proof -
    have "unat (of_nat (length rs) :: u64) = length rs"
      using i(4) unat_of_nat_less [of "length rs" "NMDIRS_MAX"] by simp
    then show ?thesis unfolding sz word_unat_eq_iff by simp
  qed
  have dom: "dom (dc_data dc) = set rs" using i(2) by (simp add: dirs_ok_def)
  show ?thesis
  proof (cases "length rs = 1024")
    case False
    moreover have "dc_data dc |` set rs = dc_data dc" 
      by (intro ext) (metis dom domIff restrict_in restrict_out)
    ultimately show ?thesis using assms(1) i(4) full by (simp add: lru_keep_def)
  next
    case True
    then have ne: "rs \<noteq> []" by auto
    obtain dc' where r: "mdirectory_rem (last rs) dc = Some dc'" "dcache_inv dc' (butlast rs)"
        "dc_data dc' = (dc_data dc)(last rs := None)"
      using rem_ok [OF assms(1), of "last rs"] remove1_last [OF i(3) ne] ne by auto
    have "(dc_data dc)(last rs := None) = dc_data dc |` set (butlast rs)"
    proof
      fix k
      have "k \<in> set rs \<longleftrightarrow> k = last rs \<or> k \<in> set (butlast rs)" "last rs \<notin> set (butlast rs)"
        using ne i(3) by (cases rs rule: rev_cases; auto)+
      then show "((dc_data dc)(last rs := None)) k = (dc_data dc |` set (butlast rs)) k"
        using dom by (auto simp: restrict_map_def)
    qed
    then show ?thesis using True full r oldest_last [OF i(1) ne] by (simp add: lru_keep_def)
  qed
qed

lemma add_dir_ok:
  assumes "dcache_inv dc rs" and "ino \<notin> set rs" and "fst (snd (snd mem))"
  shows "\<exists>dc'. dcache_add_dir mem ino dc = Some (if dc_mem_ok mem then 0 else - ENOMEM, dc') \<and>
    dcache_inv dc' (if dc_mem_ok mem then ino # lru_keep rs else lru_keep rs) \<and>
    (\<forall>i \<in> set (lru_keep rs). dc_data dc' i = dc_data dc i) \<and>
    (dc_mem_ok mem \<longrightarrow> dc_entries dc' ino = Map.empty \<and> dc_free dc' ino = [])"
proof -
  obtain tbl where tbl: "directories dc = Some tbl" using directories_size [OF assms(1)] by blast
  obtain dc1 where e: "(if hash_map_size tbl = NMDIRS_MAX
      then do { oldest \<leftarrow> lru_oldest dc; mdirectory_rem oldest dc } else Some dc) = Some dc1"
    "dcache_inv dc1 (lru_keep rs)" "length (lru_keep rs) < 1024"
    "dc_data dc1 = dc_data dc |` set (lru_keep rs)"
    using evict_ok [OF assms(1) tbl] by blast
  have keep: "set (lru_keep rs) \<subseteq> set rs" by (auto simp: lru_keep_def dest: in_set_butlastD)
  have f: "find_dir dc ino = Some None" using find_dir_ok [OF dcache_invD(2) [OF assms(1)]] assms(2) by simp
  show ?thesis
  proof (cases "dc_mem_ok mem")
    case False
    then have "mdirectory_add mem ino dc = Some (None, dc1)"
      using tbl e(1) by (simp add: mdirectory_add_def dc_mem_ok_def split: option.splits)
    then show ?thesis using False f e(2,4) by (simp add: dcache_add_dir_def)
  next
    case True
    then obtain dirs :: "mdirent hash_map" where m: "fst mem" "hash_map_create_str (fst (snd mem)) = Some dirs"
      by (auto simp: dc_mem_ok_def)
    note dirs = create_size_type_ok [OF m(2) [unfolded hash_map_create_str_def]]
    note i1 = dcache_invD [OF e(2)]
    obtain t1 where t1: "directories dc1 = Some t1" "ptr_map_ok t1"
        "\<forall>i. hm_map t1 (KPtr i) = (if i \<in> set (lru_keep rs) then Some i else None)"
      using directories_size [OF e(2)] by blast
    have k1: "hash_map_ok t1" "key_ok t1 (KPtr ino)" using t1(2) by (simp_all add: ptr_map_ok_def)
    obtain r t2 where t2: "hash_map_insert True (snd (snd (snd mem))) t1 (KPtr ino) ino = Some (r, t2)"
        "hash_map_ok t2" "hm_map t2 = (hm_map t1)(KPtr ino \<mapsto> ino)" "hm_type t2 = hm_type t1" "r \<ge> 0"
      using hash_map_insert_ok [OF k1, of "snd (snd (snd mem))" ino] by auto
    let ?dc2 = "dc1\<lparr>directories := Some t2\<rparr>"
    let ?d = "\<lparr>dirents = dirs, free_dirents = [], mdir_ino = ino, lru_polder = Oldest, lru_newer = None\<rparr>"
    let ?p = "case lru_newest ?dc2 of Some n \<Rightarrow> Newer n | None \<Rightarrow> Oldest"
    have l2: "lru_ok ?dc2 (lru_keep rs)" using i1(1) by simp
    have n2: "ino \<notin> set (lru_keep rs)" using keep assms(2) by blast
    obtain dc3 where l3: "set_link ?p (Some ino) (mdir_put ino (?d\<lparr>lru_polder := ?p, lru_newer := None\<rparr>) ?dc2) = Some dc3"
        "lru_ok (dc3\<lparr>lru_newest := Some ino\<rparr>) (ino # lru_keep rs)"
        "dc_data dc3 = (dc_data ?dc2)(ino \<mapsto> mdir_data ?d)" "directories dc3 = directories ?dc2"
      using link_lru [OF l2 n2, of ?d] by blast
    let ?dc4 = "dc3\<lparr>lru_newest := Some ino\<rparr>"
    have d4: "dc_data ?dc4 = (dc_data dc1)(ino \<mapsto> (dirs, [], ino))" using l3(3) by (simp add: mdir_data_def)
    have "dirs_ok ?dc4 (set (ino # lru_keep rs))"
      unfolding dirs_ok_def d4 using t2 t1 l3(4) i1(2) dirs by (auto simp: dirs_ok_def ptr_map_ok_def str_map_ok_def)
    then have inv: "dcache_inv ?dc4 (ino # lru_keep rs)" using l3(2) e(3) by (simp add: dcache_inv_def)
    have "mdirectory_add mem ino dc = Some (Some ino, ?dc4)"
      using tbl e(1) m t1(1) t2(1,5) l3(1) assms(3) by (simp add: mdirectory_add_def Let_def)
    moreover have "\<forall>i \<in> set (lru_keep rs). dc_data ?dc4 i = dc_data dc i"
      unfolding d4 e(4) using n2 by auto
    moreover have "dc_entries ?dc4 ino = Map.empty" "dc_free ?dc4 ino = []"
      unfolding dc_entries_def dc_free_def d4 using dirs(2) by (auto simp: fun_eq_iff)
    ultimately show ?thesis using True f inv by (simp add: dcache_add_dir_def)
  qed
qed


lemma mdir_put_ok:
  assumes "dcache_inv dc rs" and "dc_mdirs dc x = Some d"
    and "lru_polder d' = lru_polder d" "lru_newer d' = lru_newer d" "mdir_ino d' = mdir_ino d"
    and "str_map_ok (dirents d')"
  shows "dcache_inv (mdir_put x d' dc) rs"
proof -
  note i = dcache_invD [OF assms(1)]
  have "lru_links ((dc_mdirs dc)(x \<mapsto> d')) B p ys q = lru_links (dc_mdirs dc) B p ys q" for B p ys q
    using assms(2-4) by (induction ys arbitrary: q) (auto split: option.splits)
  then have "lru_ok (mdir_put x d' dc) rs" using i(1) by (simp add: lru_ok_def mdir_put_def)
  moreover have x: "dc_data dc x = Some (mdir_data d)" using assms(2) by (simp add: dc_data_def)
  moreover have "mdir_ino d = x" using i(2) x by (auto simp: dirs_ok_def mdir_data_def)
  moreover have "directories (mdir_put x d' dc) = directories dc" by (simp add: mdir_put_def)
  ultimately show ?thesis using assms(5,6) i(2,4)
    by (auto simp: dcache_inv_def dirs_ok_def mdir_data_def)
qed

lemma cached_dir:
  assumes "dcache_inv dc rs" and "x \<in> set rs"
  obtains d where "mdir_get dc x = Some d" "dc_mdirs dc x = Some d" "str_map_ok (dirents d)"
    "dc_entries dc x = (\<lambda>n. hm_map (dirents d) (KStr n))" "dc_free dc x = free_dirents d"
proof -
  have "dirs_ok dc (set rs)" using assms(1) by (simp add: dcache_inv_def)
  then obtain t f j where "dc_data dc x = Some (t, f, j)" "str_map_ok t"
    using assms(2) unfolding dirs_ok_def by (metis domIff option.exhaust prod_cases3)
  then show thesis using that
    by (auto simp: dc_data_def mdir_data_def mdir_get_def dc_entries_def dc_free_def fun_eq_iff)
qed

lemma touched:
  assumes "dcache_inv dc rs" and "x \<in> set rs"
  obtains dc' d where "find_dir dc x = Some (Some x)" "mdirectory_touch x dc = Some dc'"
    "dcache_inv dc' (x # remove1 x rs)" "dc_data dc' = dc_data dc"
    "mdir_get dc' x = Some d" "dc_mdirs dc' x = Some d" "str_map_ok (dirents d)"
    "dc_entries dc x = (\<lambda>n. hm_map (dirents d) (KStr n))"
proof -
  obtain dc' where t: "mdirectory_touch x dc = Some dc'" "dcache_inv dc' (x # remove1 x rs)"
      "dc_data dc' = dc_data dc" using touch_ok [OF assms] by blast
  obtain d where d: "mdir_get dc' x = Some d" "dc_mdirs dc' x = Some d" "str_map_ok (dirents d)"
      "dc_entries dc' x = (\<lambda>n. hm_map (dirents d) (KStr n))" using cached_dir [OF t(2)] by auto
  have "dc_entries dc' x = dc_entries dc x" using t(3) by (simp add: dc_entries_def fun_eq_iff)
  then show thesis using that t d find_dir_ok [OF dcache_invD(2) [OF assms(1)]] assms(2) by simp
qed

lemma get_dirent_ok:
  assumes "dcache_inv dc rs" and "x \<in> set rs"
  shows "\<exists>dc'. dcache_get_dirent x name dc = Some (dc_entries dc x name, dc') \<and>
    dcache_inv dc' (x # remove1 x rs) \<and> dc_data dc' = dc_data dc"
proof -
  obtain dc' d where t: "find_dir dc x = Some (Some x)" "mdirectory_touch x dc = Some dc'"
    "dcache_inv dc' (x # remove1 x rs)" "dc_data dc' = dc_data dc"
    "mdir_get dc' x = Some d" "str_map_ok (dirents d)"
    "dc_entries dc x = (\<lambda>n. hm_map (dirents d) (KStr n))"
    using touched [OF assms] by metis
  then show ?thesis using str_map.find_abs [OF t(6), of name] by (simp add: dcache_get_dirent_def)
qed

lemma add_dirent_ok:
  assumes "dcache_inv dc rs" and "x \<in> set rs" and "dc_entries dc x (md_name md) = None"
  shows "\<exists>dc'. dcache_add_dirent True True mem x md dc = Some (0, dc') \<and>
    dcache_inv dc' (x # remove1 x rs) \<and>
    dc_entries dc' x = (dc_entries dc x)(md_name md \<mapsto> md) \<and> dc_free dc' x = dc_free dc x \<and>
    (\<forall>i. i \<noteq> x \<longrightarrow> dc_data dc' i = dc_data dc i)"
proof -
  obtain dc1 d where t: "find_dir dc x = Some (Some x)" "mdirectory_touch x dc = Some dc1"
    "dcache_inv dc1 (x # remove1 x rs)" "dc_data dc1 = dc_data dc"
    "mdir_get dc1 x = Some d" "dc_mdirs dc1 x = Some d" "str_map_ok (dirents d)"
    "dc_entries dc x = (\<lambda>n. hm_map (dirents d) (KStr n))"
    using touched [OF assms(1,2)] by metis
  have k: "hash_map_ok (dirents d)" "key_ok (dirents d) (KStr (md_name md))"
    using t(7) by (simp_all add: str_map_ok_def)
  obtain tbl where i: "hash_map_insert True mem (dirents d) (KStr (md_name md)) md = Some (0, tbl)"
      "hash_map_ok tbl" "hm_map tbl = (hm_map (dirents d))(KStr (md_name md) \<mapsto> md)"
      "hm_type tbl = hm_type (dirents d)"
    using hash_map_insert_ok [OF k, of mem md] assms(3) t(8) by auto
  let ?dc = "mdir_put x (d\<lparr>dirents := tbl\<rparr>) dc1"
  have "dcache_inv ?dc (x # remove1 x rs)"
    using i t(7) by (intro mdir_put_ok [OF t(3,6)]) (simp_all add: str_map_ok_def)
  moreover have "dc_entries ?dc x = (dc_entries dc x)(md_name md \<mapsto> md)"
    using i(3) t(8) by (auto simp: dc_entries_def mdir_data_def fun_eq_iff)
  moreover have "dc_data dc x = Some (mdir_data d)" using t(4,6) by (metis dc_data_def option.simps(9))
  ultimately show ?thesis using t(1,2,4,5) i(1)
    by (auto simp: dcache_add_dirent_def Let_def dc_free_def mdir_data_def)
qed

lemma rem_dirent_ok:
  assumes "dcache_inv dc rs" and "x \<in> set rs"
  shows "\<exists>dc'. dcache_rem_dirent x name dc =
      Some (if dc_entries dc x name = None then - EINVAL else 0, dc') \<and>
    dcache_inv dc' (x # remove1 x rs) \<and>
    dc_entries dc' x = (dc_entries dc x)(name := None) \<and> dc_free dc' x = dc_free dc x \<and>
    (\<forall>i. i \<noteq> x \<longrightarrow> dc_data dc' i = dc_data dc i)"
proof -
  obtain dc1 d where t: "find_dir dc x = Some (Some x)" "mdirectory_touch x dc = Some dc1"
    "dcache_inv dc1 (x # remove1 x rs)" "dc_data dc1 = dc_data dc"
    "mdir_get dc1 x = Some d" "dc_mdirs dc1 x = Some d" "str_map_ok (dirents d)"
    "dc_entries dc x = (\<lambda>n. hm_map (dirents d) (KStr n))"
    using touched [OF assms] by metis
  obtain tbl where i: "hash_map_erase (dirents d) (KStr name) = Some (hm_map (dirents d) (KStr name), tbl)"
      "str_map_ok tbl" "(\<lambda>k. hm_map tbl (KStr k)) = (\<lambda>k. hm_map (dirents d) (KStr k))(name := None)"
    using str_map.erase_abs [OF t(7), of name] by auto
  let ?dc = "mdir_put x (d\<lparr>dirents := tbl\<rparr>) dc1"
  have "dcache_inv ?dc (x # remove1 x rs)"
    using i by (intro mdir_put_ok [OF t(3,6)]) simp_all
  moreover have "dc_entries ?dc x = (dc_entries dc x)(name := None)"
    using i(3) t(8) by (simp add: dc_entries_def mdir_data_def fun_eq_iff)
  moreover have "dc_data dc x = Some (mdir_data d)" using t(4,6) by (metis dc_data_def option.simps(9))
  ultimately show ?thesis using t(1,2,4,5,8) i(1)
    by (auto simp: dcache_rem_dirent_def Let_def dc_free_def mdir_data_def)
qed

lemma find_dir_absent:
  assumes "dcache_inv dc rs" and "x \<notin> set rs"
  shows "find_dir dc x = Some None"
  using find_dir_ok [OF dcache_invD(2) [OF assms(1)]] assms(2) by simp

lemma take_first_free_eq:
  "take_first_free m fs =
    (case dropWhile (\<lambda>f. snd f < m) fs of
       [] \<Rightarrow> None
     | f # gs \<Rightarrow> Some (fst f, takeWhile (\<lambda>f. snd f < m) fs @ gs))"
proof (induction fs)
  case (Cons f fs)
  then show ?case by (cases f; cases "dropWhile (\<lambda>f. snd f < m) fs") (auto simp: not_le simp del: dropWhile_eq_Nil_conv)
qed simp

section \<open>Runs of operations\<close>

datatype dc_op =
    AddDir dc_mem u64 | RemDir u64
  | AddDirent bool bool hm_mem u64 mdirent | GetDirent u64 string | RemDirent u64 string
  | AddFree bool u64 u64 u16 | TakeFree u64 u16

fun dcache_step :: "dc_op \<Rightarrow> dcache \<Rightarrow> dcache option" where
  "dcache_step (AddDir mem ino) dc = map_option snd (dcache_add_dir mem ino dc)"
| "dcache_step (RemDir ino) dc = dcache_rem_dir ino dc"
| "dcache_step (AddDirent dup pool mem ino md) dc = map_option snd (dcache_add_dirent dup pool mem ino md dc)"
| "dcache_step (GetDirent ino name) dc = map_option snd (dcache_get_dirent ino name dc)"
| "dcache_step (RemDirent ino name) dc = map_option snd (dcache_rem_dirent ino name dc)"
| "dcache_step (AddFree mem ino off len) dc = map_option snd (dcache_add_free mem ino off len dc)"
| "dcache_step (TakeFree ino len) dc = map_option snd (dcache_take_free ino len dc)"

lemma add_dir_keeps:
  assumes "dcache_inv dc rs" and "dcache_add_dir mem ino dc = Some (r, dc')"
  shows "\<exists>rs'. dcache_inv dc' rs'"
proof (cases "ino \<in> set rs")
  case True
  then show ?thesis using assms find_dir_ok [OF dcache_invD(2) [OF assms(1)]] by (simp add: dcache_add_dir_def)
next
  case False
  show ?thesis
  proof (cases "fst (snd (snd mem))")
    case True
    then show ?thesis using add_dir_ok [OF assms(1) False True] assms(2) by auto
  next
    case np: False
    obtain tbl where tbl: "directories dc = Some tbl" using directories_size [OF assms(1)] by blast
    obtain dc1 where e: "(if hash_map_size tbl = NMDIRS_MAX
        then do { oldest \<leftarrow> lru_oldest dc; mdirectory_rem oldest dc } else Some dc) = Some dc1"
      "dcache_inv dc1 (lru_keep rs)"
      using evict_ok [OF assms(1) tbl] by blast
    obtain t1 where t1: "directories dc1 = Some t1" "ptr_map_ok t1"
        "\<forall>i. hm_map t1 (KPtr i) = (if i \<in> set (lru_keep rs) then Some i else None)"
      using directories_size [OF e(2)] by blast
    have "ino \<notin> set (lru_keep rs)" using False by (auto simp: lru_keep_def dest: in_set_butlastD)
    then have "hash_map_insert False (snd (snd (snd mem))) t1 (KPtr ino) ino = None"
      using t1 by (intro hash_map_insert_no_pool(1)) (simp_all add: ptr_map_ok_def)
    then have "dc' = dc1" using assms(2) find_dir_absent [OF assms(1) False] tbl e(1) t1(1) np
      by (auto simp: dcache_add_dir_def mdirectory_add_def split: if_splits option.splits)
    then show ?thesis using e(2) by blast
  qed
qed

lemma add_dirent_keeps:
  assumes "dcache_inv dc rs" and "dcache_add_dirent dup pool mem x md dc = Some (r, dc')"
  shows "\<exists>rs'. dcache_inv dc' rs'"
proof (cases "x \<in> set rs")
  case False
  then show ?thesis using assms find_dir_absent [OF assms(1)] by (simp add: dcache_add_dirent_def)
next
  case True
  obtain dc1 d where t: "find_dir dc x = Some (Some x)" "mdirectory_touch x dc = Some dc1"
    "dcache_inv dc1 (x # remove1 x rs)" "mdir_get dc1 x = Some d" "dc_mdirs dc1 x = Some d"
    "str_map_ok (dirents d)"
    using touched [OF assms(1) True] by metis
  show ?thesis
  proof (cases dup)
    case False
    then show ?thesis using assms(2) t by (auto simp: dcache_add_dirent_def)
  next
    case dup: True
    have k: "hash_map_ok (dirents d)" "key_ok (dirents d) (KStr (md_name md))"
      using t(6) by (simp_all add: str_map_ok_def)
    obtain r' tbl where i: "hash_map_insert pool mem (dirents d) (KStr (md_name md)) md = Some (r', tbl)"
      and dc': "dc' = mdir_put x (d\<lparr>dirents := tbl\<rparr>) dc1" and "r' \<le> 0"
      using assms(2) t dup by (auto simp: dcache_add_dirent_def Let_def bind_Some_eq split: if_splits)
    have pool
    proof (rule ccontr)
      assume "\<not> pool"
      then have "hm_map (dirents d) (KStr (md_name md)) \<noteq> None" 
        using i hash_map_insert_no_pool(1) [OF k, of mem md] by auto
      then obtain w where "hm_map (dirents d) (KStr (md_name md)) = Some w" by blast
      moreover obtain j where j: "hash (dirents d) (KStr (md_name md)) = Some j" using k(2) by (auto simp: key_ok_def)
      ultimately have "r' = 1"
        using i bucket_access [OF _ j] hm_map_bucket [OF j, symmetric] k(1)
        by (simp add: hash_map_insert_def chain_search_key_eq hash_map_ok_def)
      then show False using \<open>r' \<le> 0\<close> by simp
    qed
    then have "str_map_ok tbl"
      using hash_map_insert_ok [OF k, of mem md] i t(6) by (auto simp: str_map_ok_def)
    then have "dcache_inv dc' (x # remove1 x rs)"
      unfolding dc' by (intro mdir_put_ok [OF t(3,5)]) simp_all
    then show ?thesis by blast
  qed
qed

lemma dcache_step_inv:
  assumes "dcache_inv dc rs" and "dcache_step op dc = Some dc'"
  shows "\<exists>rs'. dcache_inv dc' rs'"
proof (cases op)
  case (AddDir mem ino)
  then show ?thesis using assms add_dir_keeps by fastforce
next
  case (RemDir ino)
  then have "ino \<in> set rs" using assms(2) find_dir_absent [OF assms(1), of ino]
    by (cases "ino \<in> set rs") (simp_all add: dcache_rem_dir_def)
  then show ?thesis using RemDir assms rem_ok [OF assms(1)] find_dir_ok [OF dcache_invD(2) [OF assms(1)], of ino]
    by (fastforce simp: dcache_rem_dir_def)
next
  case (AddDirent dup pool mem ino md)
  then show ?thesis using assms add_dirent_keeps by fastforce
next
  case (GetDirent ino name)
  then have "ino \<in> set rs" using assms(2) find_dir_absent [OF assms(1), of ino]
    by (cases "ino \<in> set rs") (simp_all add: dcache_get_dirent_def)
  then show ?thesis using GetDirent assms(2) get_dirent_ok [OF assms(1), of ino name] by auto
next
  case (RemDirent ino name)
  then have "ino \<in> set rs" using assms(2) find_dir_absent [OF assms(1), of ino]
    by (cases "ino \<in> set rs") (simp_all add: dcache_rem_dirent_def)
  then show ?thesis using RemDirent assms(2) rem_dirent_ok [OF assms(1), of ino name] by auto
next
  case (AddFree mem ino off len)
  then have x: "ino \<in> set rs" using assms(2) find_dir_absent [OF assms(1), of ino]
    by (cases "ino \<in> set rs") (simp_all add: dcache_add_free_def)
  obtain d where d: "mdir_get dc ino = Some d" "dc_mdirs dc ino = Some d" "str_map_ok (dirents d)"
    using cached_dir [OF assms(1) x] by metis
  have "dcache_inv (mdir_put ino (d\<lparr>free_dirents := fs\<rparr>) dc) rs" for fs
    using d(3) by (intro mdir_put_ok [OF assms(1) d(2)]) simp_all
  then show ?thesis using AddFree assms d(1) x find_dir_ok [OF dcache_invD(2) [OF assms(1)], of ino]
    by (auto simp: dcache_add_free_def split: if_splits)
next
  case (TakeFree ino len)
  then have x: "ino \<in> set rs" using assms(2) find_dir_absent [OF assms(1), of ino]
    by (cases "ino \<in> set rs") (simp_all add: dcache_take_free_def)
  obtain d where d: "mdir_get dc ino = Some d" "dc_mdirs dc ino = Some d" "str_map_ok (dirents d)"
    using cached_dir [OF assms(1) x] by metis
  have keep: "dcache_inv (mdir_put ino (d\<lparr>free_dirents := fs\<rparr>) dc) rs" for fs
    using d(3) by (intro mdir_put_ok [OF assms(1) d(2)]) simp_all
  have "dc' = dc \<or> (\<exists>fs. dc' = mdir_put ino (d\<lparr>free_dirents := fs\<rparr>) dc)"
    using TakeFree assms(2) d(1) x find_dir_ok [OF dcache_invD(2) [OF assms(1)], of ino]
    by (auto simp: dcache_take_free_def split: option.splits)
  then show ?thesis using keep assms(1) by blast
qed

lemma dcache_init_ok:
  assumes "dcache_init mem dc = Some (0, dc')" and "dc_mdirs dc = Map.empty"
  shows "dcache_inv dc' []"
proof -
  obtain tbl where t: "hash_map_create_size_ptr mem NMDIRS_MAX False = Some tbl"
      "dc' = dc\<lparr>directories := Some tbl, lru_newest := None, lru_oldest := None\<rparr>"
    using assms(1) by (auto simp: dcache_init_def split: option.splits)
  note c = create_size_type_ok [OF t(1) [unfolded hash_map_create_size_ptr_def]]
  have "dc_data dc = Map.empty" using assms(2) by (auto simp: dc_data_def)
  then show ?thesis using c by (simp add: t(2) dcache_inv_def lru_ok_def dirs_ok_def ptr_map_ok_def)
qed

section \<open>Properties\<close>

definition no_dcache :: dcache where
  "no_dcache = \<lparr>directories = None, lru_oldest = None, lru_newest = None, dc_mdirs = Map.empty\<rparr>"

abbreviation (input) mem_ok :: dc_mem where
  "mem_ok \<equiv> (True, (True, True, True), True, (True, True, True))"

text \<open>C24. The cache stays well-formed: after \<^verbatim>\<open>dcache_init\<close>, any sequence of calls that does not
  end the process leaves an intact list of at most 1024 directories, each of them in the table
  under its inode number with a well-formed table of entries, and nothing else in the table,
  whatever \<^verbatim>\<open>malloc\<close> answers in each call.\<close>

theorem dcache_run_inv:
  assumes "dcache_init mem no_dcache = Some (0, dc)" and "run dcache_step ops dc = Some dc'"
  shows "\<exists>rs. dcache_inv dc' rs"
proof (rule run_invariant [OF _ _ assms(2)])
  show "\<exists>rs. dcache_inv dc rs" using dcache_init_ok [OF assms(1)] by (auto simp: no_dcache_def)
  show "\<exists>rs. dcache_inv t' rs" if "\<exists>rs. dcache_inv t rs" "dcache_step x t = Some t'" for x t t'
    using that dcache_step_inv by blast
qed

theorem dcache_run_inv_witness:
  "\<exists>dc dc' rs. dcache_init (True, True, True) no_dcache = Some (0, dc) \<and>
    run dcache_step [AddDir mem_ok 1, AddDir mem_ok 7, GetDirent 1 ''a'', RemDir 7] dc = Some dc' \<and>
    dcache_inv dc' rs"
proof -
  obtain dc where i: "dcache_init (True, True, True) no_dcache = Some (0, dc)"
    by (simp add: dcache_init_def no_dcache_def hash_map_create_size_ptr_def hash_map_create_size_type_def
        vector_create_size_def vector_create_elts_def)
  have "(case dcache_init (True, True, True) no_dcache of None \<Rightarrow> False
    | Some (r, dc) \<Rightarrow> run dcache_step [AddDir mem_ok 1, AddDir mem_ok 7, GetDirent 1 ''a'', RemDir 7] dc \<noteq> None)"
    by code_simp
  then obtain dc' where r: "run dcache_step [AddDir mem_ok 1, AddDir mem_ok 7, GetDirent 1 ''a'', RemDir 7] dc = Some dc'"
    using i by auto
  from dcache_run_inv [OF i r] show ?thesis using i r by blast
qed


text \<open>C25. Adding a directory to a cache whose directories are \<open>rs\<close>, most recently used first:
  when the cache is full exactly the least recently used directory goes, every other directory
  keeps its contents, and the new one is empty and the most recently used. On a failed allocation
  the call returns \<^verbatim>\<open>-ENOMEM\<close>, but the eviction has already happened. The most recently used
  directory always survives, so two directories used in a row are both cached, which rename
  relies on.\<close>

theorem dcache_add_dir_evicts_lru:
  assumes "dcache_inv dc rs" and "ino \<notin> set rs" and "fst (snd (snd mem))"
  shows "\<exists>dc' r. dcache_add_dir mem ino dc = Some (r, dc') \<and>
    r = (if dc_mem_ok mem then 0 else - ENOMEM) \<and>
    (let kept = (if length rs = 1024 then butlast rs else rs) in
      dcache_inv dc' (if r = 0 then ino # kept else kept) \<and>
      (\<forall>i \<in> set kept. dc_entries dc' i = dc_entries dc i \<and> dc_free dc' i = dc_free dc i) \<and>
      (rs \<noteq> [] \<longrightarrow> dcache_has_dir dc' (hd rs) = Some True) \<and>
      (r = 0 \<longrightarrow> dcache_has_dir dc' ino = Some True \<and> dc_entries dc' ino = Map.empty))"
proof -
  obtain dc' where a: "dcache_add_dir mem ino dc = Some (if dc_mem_ok mem then 0 else - ENOMEM, dc')"
    "dcache_inv dc' (if dc_mem_ok mem then ino # lru_keep rs else lru_keep rs)"
    "\<forall>i \<in> set (lru_keep rs). dc_data dc' i = dc_data dc i"
    "dc_mem_ok mem \<longrightarrow> dc_entries dc' ino = Map.empty \<and> dc_free dc' ino = []"
    using add_dir_ok [OF assms] by blast
  have hd: "hd rs \<in> set (lru_keep rs)" if "rs \<noteq> []"
  proof (cases rs)
    case (Cons x xs)
    then show ?thesis by (cases xs) (auto simp: lru_keep_def)
  qed (use that in simp)
  have has: "dcache_has_dir dc' i = Some (i \<in> set (if dc_mem_ok mem then ino # lru_keep rs else lru_keep rs))" for i
    using find_dir_ok [OF dcache_invD(2) [OF a(2)]] by (simp add: dcache_has_dir_def)
  have "dc_entries dc' i = dc_entries dc i \<and> dc_free dc' i = dc_free dc i" if "i \<in> set (lru_keep rs)" for i
    using a(3) that by (simp add: dc_entries_def dc_free_def fun_eq_iff)
  then show ?thesis using a has hd by (auto simp: Let_def simp flip: lru_keep_def)
qed

definition one_dir :: dcache where
  "one_dir = snd (the (dcache_add_dir mem_ok 1 (snd (the (dcache_init (True, True, True) no_dcache)))))"

lemma one_dir_inv: "dcache_inv one_dir [1]"
proof -
  obtain dc where i: "dcache_init (True, True, True) no_dcache = Some (0, dc)"
    by (simp add: dcache_init_def no_dcache_def hash_map_create_size_ptr_def hash_map_create_size_type_def
        vector_create_size_def vector_create_elts_def)
  have "dcache_inv dc []" using dcache_init_ok [OF i] by (simp add: no_dcache_def)
  moreover have "dc_mem_ok mem_ok"
    by (simp add: dc_mem_ok_def hash_map_create_str_def hash_map_create_size_type_def
        vector_create_size_def vector_create_elts_def)
  ultimately show ?thesis using add_dir_ok [of dc "[]" 1 mem_ok] i
    by (auto simp: one_dir_def lru_keep_def)
qed

theorem dcache_add_dir_evicts_lru_witness:
  "\<exists>dc' r. dcache_add_dir mem_ok 7 one_dir = Some (r, dc') \<and> dcache_has_dir dc' 1 = Some True"
proof -
  have "(7 :: u64) \<notin> set [1]" by simp
  from dcache_add_dir_evicts_lru [OF one_dir_inv this, of mem_ok]
  show ?thesis by (simp add: Let_def) blast
qed

text \<open>C33. Entries of a cached directory form a map by name: adding an absent name stores the entry
  (returning 0), a lookup then finds it, removing it deletes it and returns 0, removing an absent
  name returns \<^verbatim>\<open>-EINVAL\<close>; the entries and free entries of all other directories stay, and
  each call makes the directory the most recently used.\<close>

theorem dcache_dirent_map:
  assumes "dcache_inv dc rs" and "x \<in> set rs" and "dc_entries dc x (md_name md) = None"
  shows "\<exists>dc1 dc2 dc3.
    dcache_add_dirent True True mem x md dc = Some (0, dc1) \<and>
    dcache_get_dirent x name dc1 = Some (((dc_entries dc x)(md_name md \<mapsto> md)) name, dc2) \<and>
    dcache_rem_dirent x (md_name md) dc2 = Some (0, dc3) \<and>
    dc_entries dc3 = dc_entries dc \<and> dc_free dc3 = dc_free dc \<and>
    dcache_inv dc3 (x # remove1 x rs) \<and>
    (\<exists>dc4. dcache_rem_dirent x (md_name md) dc3 = Some (- EINVAL, dc4) \<and> dc_entries dc4 = dc_entries dc)"
proof -
  have mv: "x \<in> set (x # remove1 x rs)" "x # remove1 x (x # remove1 x rs) = x # remove1 x rs" by simp_all
  obtain dc1 where 1: "dcache_add_dirent True True mem x md dc = Some (0, dc1)"
    "dcache_inv dc1 (x # remove1 x rs)" "dc_entries dc1 x = (dc_entries dc x)(md_name md \<mapsto> md)"
    "dc_free dc1 x = dc_free dc x" "\<forall>i. i \<noteq> x \<longrightarrow> dc_data dc1 i = dc_data dc i"
    using add_dirent_ok [OF assms] by blast
  obtain dc2 where 2: "dcache_get_dirent x name dc1 = Some (dc_entries dc1 x name, dc2)"
      "dcache_inv dc2 (x # remove1 x rs)" "dc_data dc2 = dc_data dc1"
    using get_dirent_ok [OF 1(2) mv(1), of name] unfolding mv(2) by blast
  have e2: "dc_entries dc2 = dc_entries dc1" "dc_free dc2 = dc_free dc1"
    using 2(3) by (simp_all add: dc_entries_def dc_free_def fun_eq_iff)
  obtain dc3 where 3: "dcache_rem_dirent x (md_name md) dc2 = Some (0, dc3)"
    "dcache_inv dc3 (x # remove1 x rs)" "dc_entries dc3 x = (dc_entries dc2 x)(md_name md := None)"
    "dc_free dc3 x = dc_free dc2 x" "\<forall>i. i \<noteq> x \<longrightarrow> dc_data dc3 i = dc_data dc2 i"
    using rem_dirent_ok [OF 2(2) mv(1), of "md_name md"] 1(3) e2 unfolding mv(2) by auto
  have oth: "dc_data dc3 i = dc_data dc i" if "i \<noteq> x" for i using that 1(5) 2(3) 3(5) by simp
  have x3: "dc_entries dc3 x = dc_entries dc x"
    using 3(3) 1(3) e2(1) assms(3) by (simp add: fun_upd_idem)
  have f3: "dc_entries dc3 = dc_entries dc"
  proof
    fix i show "dc_entries dc3 i = dc_entries dc i"
      using x3 oth by (cases "i = x") (simp_all add: dc_entries_def fun_eq_iff)
  qed
  have g3: "dc_free dc3 = dc_free dc"
  proof
    fix i show "dc_free dc3 i = dc_free dc i"
      using oth 3(4) e2 1(4) by (cases "i = x") (simp_all add: dc_free_def)
  qed
  have n3: "dc_entries dc3 x (md_name md) = None" using 3(3) by simp
  obtain dc4 where 4: "dcache_rem_dirent x (md_name md) dc3 = Some (- EINVAL, dc4)"
    "dc_entries dc4 x = (dc_entries dc3 x)(md_name md := None)" "\<forall>i. i \<noteq> x \<longrightarrow> dc_data dc4 i = dc_data dc3 i"
    using rem_dirent_ok [OF 3(2) mv(1), of "md_name md"] n3 by auto
  have "dc_entries dc4 = dc_entries dc3"
  proof
    fix i show "dc_entries dc4 i = dc_entries dc3 i"
      using 4(2,3) n3 by (cases "i = x") (simp_all add: dc_entries_def fun_eq_iff fun_upd_idem)
  qed
  then show ?thesis using 1(1,3) 2(1) 3(1,2) f3 g3 4(1) by simp
qed

definition sample_mdirent :: mdirent where
  "sample_mdirent = \<lparr>md_name = ''a'', md_off = 16, md_ino = 9, md_ino_generation = 1, md_rec_len = 16, md_file_type = 1\<rparr>"

theorem dcache_dirent_map_witness:
  "\<exists>dc1 dc2. dcache_add_dirent True True (True, True, True) 1 sample_mdirent one_dir = Some (0, dc1) \<and>
    dcache_get_dirent 1 ''a'' dc1 = Some (Some sample_mdirent, dc2)"
proof -
  have "dc_entries one_dir 1 (md_name sample_mdirent) = None" by code_simp
  from dcache_dirent_map [OF one_dir_inv _ this, of "(True, True, True)" "''a''"]
  show ?thesis by (auto simp: sample_mdirent_def)
qed

text \<open>\<^verbatim>\<open>dcache_take_free\<close> takes the first free entry that is long enough (the most recently
  added one comes first): it returns its offset and removes just it, or returns
  \<^verbatim>\<open>DCACHE_FREE_NONE\<close> and changes nothing when every free entry is too short.\<close>

lemma dcache_take_free_first_fit:
  assumes "dcache_inv dc rs" and "x \<in> set rs"
  shows "(\<forall>f \<in> set (dc_free dc x). snd f < m) \<and> dcache_take_free x m dc = Some (DCACHE_FREE_NONE, dc) \<or>
    (\<exists>short off len rest dc'. dc_free dc x = short @ (off, len) # rest \<and>
      (\<forall>f \<in> set short. snd f < m) \<and> m \<le> len \<and>
      dcache_take_free x m dc = Some (off, dc') \<and> dc_free dc' x = short @ rest \<and>
      dcache_inv dc' rs \<and> dc_entries dc' x = dc_entries dc x)"
proof -
  obtain d where d: "mdir_get dc x = Some d" "dc_mdirs dc x = Some d" "str_map_ok (dirents d)"
      "dc_entries dc x = (\<lambda>n. hm_map (dirents d) (KStr n))" "dc_free dc x = free_dirents d"
    using cached_dir [OF assms] by metis
  have f: "find_dir dc x = Some (Some x)" using find_dir_ok [OF dcache_invD(2) [OF assms(1)]] assms(2) by simp
  let ?long = "dropWhile (\<lambda>f. snd f < m) (free_dirents d)"
  let ?short = "takeWhile (\<lambda>f. snd f < m) (free_dirents d)"
  show ?thesis
  proof (cases ?long)
    case Nil
    then have "take_first_free m (free_dirents d) = None"
      by (simp add: take_first_free_eq del: dropWhile_eq_Nil_conv)
    then show ?thesis using Nil d f by (simp add: dcache_take_free_def)
  next
    case (Cons g rest)
    let ?dc = "mdir_put x (d\<lparr>free_dirents := ?short @ rest\<rparr>) dc"
    have "free_dirents d = ?short @ (fst g, snd g) # rest" using Cons by (metis prod.collapse takeWhile_dropWhile_id)
    moreover have "\<forall>f \<in> set ?short. snd f < m" by (meson set_takeWhileD)
    moreover have "m \<le> snd g" using Cons by (metis hd_dropWhile leI list.distinct(1) list.sel(1))
    moreover have "dcache_take_free x m dc = Some (fst g, ?dc)"
      using Cons d f by (simp add: dcache_take_free_def take_first_free_eq)
    moreover have "dc_free ?dc x = ?short @ rest" by (simp add: dc_free_def mdir_data_def)
    moreover have "dcache_inv ?dc rs" using d(3) by (intro mdir_put_ok [OF assms(1) d(2)]) simp_all
    moreover have "dc_entries ?dc x = dc_entries dc x" using d(4) by (simp add: dc_entries_def mdir_data_def fun_eq_iff)
    ultimately show ?thesis using d(5) by metis
  qed
qed

end
