(* ===== verification/Disk_Manager.thy ===== *)
theory Disk_Manager
  imports Prelude
begin

text \<open>
  The manager of the backing file, \<^verbatim>\<open>diskmanager.c\<close>, with the prefetch cache kept in the
  table of \<^verbatim>\<open>lru_hash_map.cpp\<close>. All transfers are whole blocks of 4096 bytes at
  multiples of 4096, so the file is the list of its blocks. A prefetch buffer is a list of blocks;
  an entry of the prefetch table is a pointer into a buffer, written as the buffer's number and
  the index of the block in it. \<open>None\<close> is the end of the process: a failed assertion (a short
  read or write), a read through a pointer into released memory, or the release of a pointer that
  \<^verbatim>\<open>malloc\<close> did not return. Opening the file and \<^verbatim>\<open>malloc\<close> of a prefetch buffer
  succeed.
\<close>

abbreviation (input) READ_PREFETCH_BLOCK_COUNT :: u64 where "READ_PREFETCH_BLOCK_COUNT \<equiv> 2304"
abbreviation (input) DISK_BLOCK_SIZE :: u64 where "DISK_BLOCK_SIZE \<equiv> 4096"
abbreviation (input) DISK_SIZE :: u64 where "DISK_SIZE \<equiv> 1073741824"

record disk_manager =
  dm_file :: "block list"
  totalBlockCount :: u64
  currentDiskBlockNumber :: u64
  freeList :: "u64 list"
  prefetch_map :: "u64 \<Rightarrow> (nat \<times> nat) option"
  prefetch_bufs :: "nat \<Rightarrow> block list option"
  next_buf :: nat

section \<open>The table of \<open>lru_hash_map.cpp\<close>\<close>

text \<open>\<^verbatim>\<open>std::unordered_map::insert\<close> keeps the value of a present key.\<close>

definition lru_hash_map_insert :: "(u64 \<Rightarrow> 'p option) \<Rightarrow> u64 \<Rightarrow> 'p \<Rightarrow> u64 \<Rightarrow> 'p option" where
  "lru_hash_map_insert m blockno node = (if m blockno = None then m(blockno \<mapsto> node) else m)"

definition lru_hash_map_find :: "(u64 \<Rightarrow> 'p option) \<Rightarrow> u64 \<Rightarrow> 'p option" where
  "lru_hash_map_find m blockno = m blockno"

definition lru_hash_map_erase :: "(u64 \<Rightarrow> 'p option) \<Rightarrow> u64 \<Rightarrow> u64 \<Rightarrow> 'p option" where
  "lru_hash_map_erase m blockno = m(blockno := None)"

section \<open>The file\<close>

definition zero_block :: block where "zero_block = (\<lambda>_. 0)"

text \<open>A position in the file from a block number: the offset wraps around in 64 bits and is
  then a signed \<^verbatim>\<open>off_t\<close>.\<close>

definition disk_pos :: "u64 \<Rightarrow> nat option" where
  "disk_pos blockNumber = (let off = unat (blockNumber * DISK_BLOCK_SIZE) in
     if off < 2 ^ 63 then Some (off div 4096) else None)"

definition pwrite_block :: "block list \<Rightarrow> nat \<Rightarrow> block \<Rightarrow> block list" where
  "pwrite_block f n b =
     (if n < length f then f[n := b] else f @ replicate (n - length f) zero_block @ [b])"

definition pread_blocks :: "block list \<Rightarrow> nat \<Rightarrow> nat \<Rightarrow> block list option" where
  "pread_blocks f n count = (if count = 0 then Some []
     else if n + count \<le> length f then Some (take count (drop n f)) else None)"

definition initializeDiskManager :: "block list \<Rightarrow> u64 \<Rightarrow> u64 \<Rightarrow> disk_manager" where
  "initializeDiskManager file sz blockSize =
     \<lparr>dm_file = file, totalBlockCount = sz div blockSize, currentDiskBlockNumber = 0, freeList = [],
      prefetch_map = Map.empty, prefetch_bufs = Map.empty, next_buf = 0\<rparr>"

section \<open>Free blocks\<close>

text \<open>\<^verbatim>\<open>findFreeBlock\<close> and \<^verbatim>\<open>writeBlock\<close> return \<^verbatim>\<open>int\<close>: the number is cut
  to 32 bits and sign-extended when it becomes \<^verbatim>\<open>uint64_t\<close> again.\<close>

definition as_int :: "u64 \<Rightarrow> u64" where
  "as_int n = scast (ucast n :: u32)"

definition addBlockToFreeList :: "u64 \<Rightarrow> disk_manager \<Rightarrow> disk_manager" where
  "addBlockToFreeList blockNumber dm = dm\<lparr>freeList := blockNumber # freeList dm\<rparr>"

definition getBlockFromFreeList :: "disk_manager \<Rightarrow> u64 \<times> disk_manager" where
  "getBlockFromFreeList dm =
     (case freeList dm of
        [] \<Rightarrow> (- 1, dm)
      | bNumber # rest \<Rightarrow> (bNumber, dm\<lparr>freeList := rest\<rparr>))"

definition findFreeBlock :: "disk_manager \<Rightarrow> u64 \<times> disk_manager" where
  "findFreeBlock dm =
     (if totalBlockCount dm - 1 \<le> currentDiskBlockNumber dm then
        (let (n, dm) = getBlockFromFreeList dm in (as_int n, dm))
      else (as_int (currentDiskBlockNumber dm),
            dm\<lparr>currentDiskBlockNumber := currentDiskBlockNumber dm + 1\<rparr>))"

section \<open>Reading and writing\<close>

text \<open>The loop that enters the blocks of a prefetch buffer into the table.\<close>

primrec prefetch_insert :: "nat list \<Rightarrow> u64 \<Rightarrow> nat \<Rightarrow> (u64 \<Rightarrow> (nat \<times> nat) option) \<Rightarrow> u64 \<Rightarrow> (nat \<times> nat) option" where
  "prefetch_insert [] blockNumber buf m = m"
| "prefetch_insert (i # is) blockNumber buf m =
     prefetch_insert is blockNumber buf (lru_hash_map_insert m (blockNumber + of_nat i) (buf, i))"

text \<open>
  \<open>buf\<close> says whether the caller's buffer is not \<^verbatim>\<open>NULL\<close>, \<open>junk\<close> is what a new prefetch buffer
  holds. The result is the return value and the contents of the caller's buffer. The terminating
  zero that the code writes behind the 4096 bytes is outside of what is modelled.
\<close>

definition readBlocksWithPrefetch ::
  "bool \<Rightarrow> block \<Rightarrow> u64 \<Rightarrow> disk_manager \<Rightarrow> (int \<times> block \<times> disk_manager) option" where
  "readBlocksWithPrefetch buf junk blockNumber dm =
     (if \<not> buf then Some (- 1, junk, dm)
      else case lru_hash_map_find (prefetch_map dm) blockNumber of
        Some (b, i) \<Rightarrow> do {
          blocks \<leftarrow> prefetch_bufs dm b;
          Some (1, blocks ! i, dm)
        }
      | None \<Rightarrow> do {
          let maxPrefetch =
            (if currentDiskBlockNumber dm - 1 < blockNumber + READ_PREFETCH_BLOCK_COUNT - 1
             then currentDiskBlockNumber dm - blockNumber
             else READ_PREFETCH_BLOCK_COUNT);
          pos \<leftarrow> disk_pos blockNumber;
          tempbuf \<leftarrow> pread_blocks (dm_file dm) pos (unat (maxPrefetch * DISK_BLOCK_SIZE) div 4096);
          check (length tempbuf = unat maxPrefetch);
          let data = (case tempbuf of [] \<Rightarrow> junk | x # _ \<Rightarrow> x);
          Some (1, data,
            dm\<lparr>prefetch_map := prefetch_insert [0..<unat maxPrefetch] blockNumber (next_buf dm) (prefetch_map dm),
               prefetch_bufs := (prefetch_bufs dm)(next_buf dm \<mapsto> tempbuf),
               next_buf := Suc (next_buf dm)\<rparr>)
        })"

definition readBlock :: "u64 \<Rightarrow> disk_manager \<Rightarrow> (int \<times> block) option" where
  "readBlock blockNumber dm = do {
     pos \<leftarrow> disk_pos blockNumber;
     blocks \<leftarrow> pread_blocks (dm_file dm) pos 1;
     Some (1, hd blocks)
   }"

definition writeBlock :: "block \<Rightarrow> disk_manager \<Rightarrow> (u64 \<times> disk_manager) option" where
  "writeBlock buf dm = (
     let (blockNumber, dm) = findFreeBlock dm in
     if blockNumber = - 1 then Some (- 1, dm)
     else do {
       pos \<leftarrow> disk_pos blockNumber;
       Some (as_int blockNumber, dm\<lparr>dm_file := pwrite_block (dm_file dm) pos buf\<rparr>)
     })"

text \<open>
  \<^verbatim>\<open>writeBlocksInBulk\<close>: the result is the list of block numbers, of which those after a failure
  to find a free block keep what the caller's array \<open>ret\<close> held.
\<close>

fun writeBlocksInBulk :: "block list \<Rightarrow> u64 list \<Rightarrow> disk_manager \<Rightarrow> (u64 list \<times> disk_manager) option" where
  "writeBlocksInBulk [] ret dm = Some (ret, dm)"
| "writeBlocksInBulk (buf # bufs) [] dm = None"
| "writeBlocksInBulk (buf # bufs) (r # ret) dm = (
     let (blockNumber, dm) = findFreeBlock dm in
     if blockNumber = - 1 then Some (r # ret, dm)
     else do {
       pos \<leftarrow> disk_pos blockNumber;
       (ret, dm) \<leftarrow> writeBlocksInBulk bufs ret (dm\<lparr>dm_file := pwrite_block (dm_file dm) pos buf\<rparr>);
       Some (blockNumber # ret, dm)
     })"

text \<open>\<open>fill\<close> is the byte the code takes from the address of an empty string.\<close>

definition freeBlock :: "u8 \<Rightarrow> u64 \<Rightarrow> disk_manager \<Rightarrow> (int \<times> disk_manager) option" where
  "freeBlock fill blockNumber dm = do {
     pos \<leftarrow> disk_pos blockNumber;
     let dm = dm\<lparr>dm_file := pwrite_block (dm_file dm) pos (\<lambda>_. fill)\<rparr>;
     dm \<leftarrow> (case lru_hash_map_find (prefetch_map dm) blockNumber of
         None \<Rightarrow> Some dm
       | Some (b, i) \<Rightarrow> do {
           check (i = 0 \<and> prefetch_bufs dm b \<noteq> None);
           Some (dm\<lparr>prefetch_map := lru_hash_map_erase (prefetch_map dm) blockNumber,
                    prefetch_bufs := (prefetch_bufs dm)(b := None)\<rparr>)
         });
     Some (1, addBlockToFreeList blockNumber dm)
   }"

section \<open>Invariant and contents\<close>

text \<open>
  While no block is freed (the file system never calls \<^verbatim>\<open>freeBlock\<close>): the file has exactly the
  blocks that were allocated, and each entry of the prefetch table points at a copy of its block.
\<close>

definition disk_ok :: "disk_manager \<Rightarrow> bool" where
  "disk_ok dm \<longleftrightarrow> freeList dm = [] \<and> unat (totalBlockCount dm) \<le> 2 ^ 31 \<and>
     length (dm_file dm) = unat (currentDiskBlockNumber dm) \<and>
     currentDiskBlockNumber dm < totalBlockCount dm \<and>
     (\<forall>n b i. prefetch_map dm n = Some (b, i) \<longrightarrow>
        n < currentDiskBlockNumber dm \<and>
        (\<exists>blocks. prefetch_bufs dm b = Some blocks \<and> i < length blocks \<and> blocks ! i = dm_file dm ! unat n)) \<and>
     (\<forall>b. next_buf dm \<le> b \<longrightarrow> prefetch_bufs dm b = None)"

definition disk_map :: "disk_manager \<Rightarrow> u64 \<Rightarrow> block option" where
  "disk_map dm n = (if n < currentDiskBlockNumber dm then Some (dm_file dm ! unat n) else None)"

section \<open>Lemmas\<close>

lemma as_int_small:
  assumes "unat n < 2 ^ 31"
  shows "as_int n = n"
proof -
  have "uint n < 2 ^ 31" using assms by (metis of_nat_less_numeral_power_cancel_iff uint_nat)
  then have "sint (ucast n :: u32) = uint n"
    using signed_take_bit_int_eq_self [of 31 "uint n"] order_trans [OF _ uint_ge_0 [of n], of "- (2 ^ 31)"]
    by (simp add: signed_ucast_eq)
  then show ?thesis by (simp add: as_int_def scast_eq)
qed


lemma as_int_minus_1 [simp]: "as_int (- 1) = - 1"
  by code_simp

lemma disk_pos_small:
  assumes "unat n < 2 ^ 31"
  shows "disk_pos n = Some (unat n)"
proof -
  have "unat (n * 4096) = unat n * 4096" using assms by (simp add: unat_word_ariths)
  then show ?thesis using assms by (simp add: disk_pos_def Let_def)
qed

lemma disk_okD:
  assumes "disk_ok dm"
  shows "freeList dm = []" "unat (totalBlockCount dm) \<le> 2 ^ 31"
    "length (dm_file dm) = unat (currentDiskBlockNumber dm)"
    "unat (currentDiskBlockNumber dm) < unat (totalBlockCount dm)"
    "unat (currentDiskBlockNumber dm) < 2 ^ 31"
  using assms by (auto simp: disk_ok_def word_less_nat_alt)

text \<open>No block is left: the last one of the file is never handed out.\<close>

definition disk_full :: "disk_manager \<Rightarrow> bool" where
  "disk_full dm \<longleftrightarrow> unat (totalBlockCount dm) \<le> unat (currentDiskBlockNumber dm) + 1"

lemma findFreeBlock_ok:
  assumes "disk_ok dm"
  shows "findFreeBlock dm =
    (if disk_full dm then (- 1, dm)
     else (currentDiskBlockNumber dm, dm\<lparr>currentDiskBlockNumber := currentDiskBlockNumber dm + 1\<rparr>))"
proof -
  note d = disk_okD [OF assms]
  have "totalBlockCount dm \<noteq> 0" using d(4) by auto
  then have "unat (totalBlockCount dm - 1) = unat (totalBlockCount dm) - 1" by (simp add: unat_minus_one)
  then have "totalBlockCount dm - 1 \<le> currentDiskBlockNumber dm \<longleftrightarrow> disk_full dm"
    using d(4) by (auto simp: disk_full_def word_le_nat_alt)
  then show ?thesis using d by (simp add: findFreeBlock_def getBlockFromFreeList_def as_int_small)
qed

lemma disk_ok_append:
  assumes "disk_ok dm" and "\<not> disk_full dm"
  shows "disk_ok (dm\<lparr>currentDiskBlockNumber := currentDiskBlockNumber dm + 1, dm_file := dm_file dm @ [b]\<rparr>)"
    "disk_map (dm\<lparr>currentDiskBlockNumber := currentDiskBlockNumber dm + 1, dm_file := dm_file dm @ [b]\<rparr>) =
       (disk_map dm)(currentDiskBlockNumber dm \<mapsto> b)"
proof -
  note d = disk_okD [OF assms(1)]
  let ?c = "currentDiskBlockNumber dm"
  have c: "unat (?c + 1) = unat ?c + 1"
    using unat_add_1_less [of ?c "totalBlockCount dm"] d(4) by simp
  have less: "n < ?c + 1 \<longleftrightarrow> n < ?c \<or> n = ?c" for n
    using c by (auto simp: word_less_nat_alt less_Suc_eq)
  have "?c + 1 < totalBlockCount dm" using assms(2) c by (simp add: disk_full_def word_less_nat_alt)
  moreover have "(dm_file dm @ [b]) ! unat n = dm_file dm ! unat n" if "n < ?c" for n
    using that d(3) by (simp add: nth_append word_less_nat_alt)
  ultimately show "disk_ok (dm\<lparr>currentDiskBlockNumber := ?c + 1, dm_file := dm_file dm @ [b]\<rparr>)"
    using assms(1) c less by (fastforce simp: disk_ok_def)
  show "disk_map (dm\<lparr>currentDiskBlockNumber := ?c + 1, dm_file := dm_file dm @ [b]\<rparr>) = (disk_map dm)(?c \<mapsto> b)"
    using d(3) less by (auto simp: disk_map_def fun_eq_iff nth_append word_less_nat_alt)
qed

lemma writeBlock_ok:
  assumes "disk_ok dm"
  shows "writeBlock b dm = (if disk_full dm then Some (- 1, dm)
    else Some (currentDiskBlockNumber dm,
      dm\<lparr>currentDiskBlockNumber := currentDiskBlockNumber dm + 1, dm_file := dm_file dm @ [b]\<rparr>))"
proof -
  note d = disk_okD [OF assms]
  have "currentDiskBlockNumber dm \<noteq> - 1" using d(5) by (auto simp: unat_minus_1)
  then show ?thesis using d
    by (simp add: writeBlock_def findFreeBlock_ok [OF assms] disk_pos_small pwrite_block_def as_int_small)
qed

lemma prefetch_insert_cases:
  "prefetch_insert is n b m k = Some (b', i) \<Longrightarrow>
    m k = Some (b', i) \<or> b' = b \<and> i \<in> set is \<and> k = n + of_nat i"
proof (induction "is" arbitrary: m)
  case (Cons j js)
  then have "prefetch_insert js n b (lru_hash_map_insert m (n + of_nat j) (b, j)) k = Some (b', i)" by simp
  from Cons.IH [OF this] show ?case
    by (auto simp: lru_hash_map_insert_def split: if_splits)
qed simp

lemma readBlocksWithPrefetch_ok:
  assumes "disk_ok dm" and "disk_map dm n = Some b"
  shows "\<exists>dm'. readBlocksWithPrefetch True junk n dm = Some (1, b, dm') \<and> disk_ok dm' \<and>
    disk_map dm' = disk_map dm \<and> disk_full dm' = disk_full dm"
proof -
  note d = disk_okD [OF assms(1)]
  let ?c = "currentDiskBlockNumber dm"
  have n: "n < ?c" and b: "b = dm_file dm ! unat n" using assms(2) by (auto simp: disk_map_def split: if_splits)
  have n': "unat n < unat ?c" using n by (simp add: word_less_nat_alt)
  show ?thesis
  proof (cases "prefetch_map dm n")
    case (Some p)
    obtain buf i where p: "p = (buf, i)" by (cases p)
    then obtain blocks where "prefetch_bufs dm buf = Some blocks" "blocks ! i = dm_file dm ! unat n"
      using Some assms(1) unfolding disk_ok_def by metis
    then show ?thesis using Some p assms(1) b
      by (simp add: readBlocksWithPrefetch_def lru_hash_map_find_def)
  next
    case None
    define m where "m = (if ?c - 1 < n + 2304 - 1 then ?c - n else 2304)"
    have c1: "unat (?c - 1) = unat ?c - 1" using n' by (intro unat_minus_one) auto
    have c2: "unat (n + 2304 - 1) = unat n + 2303" using d(5) n' by (simp add: unat_word_ariths)
    have c3: "unat (?c - n) = unat ?c - unat n" using n by (simp add: unat_sub order_less_imp_le)
    have m: "0 < unat m" "unat n + unat m \<le> unat ?c"
      using c1 c2 c3 n' by (auto simp: m_def word_less_nat_alt)
    have m4: "unat (m * 4096) div 4096 = unat m" using m d(5) by (simp add: unat_word_ariths)
    let ?buf = "take (unat m) (drop (unat n) (dm_file dm))"
    have buf: "pread_blocks (dm_file dm) (unat n) (unat m) = Some ?buf" "length ?buf = unat m"
      using m d(3) by (auto simp: pread_blocks_def)
    have nth: "?buf ! i = dm_file dm ! (unat n + i)" if "i < unat m" for i using that m d(3) by simp
    obtain x xs where x: "?buf = x # xs" using buf(2) m(1) by (cases ?buf) auto
    then have "x = b" using nth [of 0] m(1) b by simp
    let ?dm = "dm\<lparr>prefetch_map := prefetch_insert [0..<unat m] n (next_buf dm) (prefetch_map dm),
       prefetch_bufs := (prefetch_bufs dm)(next_buf dm \<mapsto> ?buf), next_buf := Suc (next_buf dm)\<rparr>"
    have r: "readBlocksWithPrefetch True junk n dm = Some (1, b, ?dm)"
      unfolding readBlocksWithPrefetch_def Let_def m_def [symmetric] using None d(5) n' m4 buf x \<open>x = b\<close>
      by (simp add: lru_hash_map_find_def disk_pos_small)
    have "disk_ok ?dm" unfolding disk_ok_def
    proof (intro conjI allI impI)
      fix k b' i assume "prefetch_map ?dm k = Some (b', i)"
      then consider "prefetch_map dm k = Some (b', i)"
        | "b' = next_buf dm" "i < unat m" "k = n + of_nat i" using prefetch_insert_cases by fastforce
      then have "k < ?c \<and> (\<exists>blocks. prefetch_bufs ?dm b' = Some blocks \<and> i < length blocks \<and>
          blocks ! i = dm_file dm ! unat k)"
      proof cases
        case 1
        then obtain blocks where bl: "k < ?c" "prefetch_bufs dm b' = Some blocks" "i < length blocks"
            "blocks ! i = dm_file dm ! unat k" using assms(1) unfolding disk_ok_def by metis
        moreover have "b' \<noteq> next_buf dm" using assms(1) bl(2) unfolding disk_ok_def by (metis order_refl option.distinct(1))
        ultimately show ?thesis by simp
      next
        case 2
        have "unat k = unat n + i" using 2 m d(5) by (simp add: unat_word_ariths unat_of_nat)
        then show ?thesis using 2 m nth [of i] buf(2) by (simp add: word_less_nat_alt)
      qed
      then show "k < currentDiskBlockNumber ?dm"
        and "\<exists>blocks. prefetch_bufs ?dm b' = Some blocks \<and> i < length blocks \<and> blocks ! i = dm_file ?dm ! unat k"
        by simp_all
    qed (use assms(1) in \<open>auto simp: disk_ok_def\<close>)
    then show ?thesis using r by (auto simp: disk_map_def disk_full_def fun_eq_iff)
  qed
qed

lemma writeBlocksInBulk_ok:
  assumes "disk_ok dm" and "length ret = length bufs"
  shows "\<exists>ns dm'. writeBlocksInBulk bufs ret dm = Some (ns, dm') \<and> disk_ok dm' \<and> length ns = length bufs \<and>
    totalBlockCount dm' = totalBlockCount dm \<and>
    (let k = min (length bufs) (unat (totalBlockCount dm) - 1 - unat (currentDiskBlockNumber dm)) in
      dm_file dm' = dm_file dm @ take k bufs \<and>
      take k ns = map (\<lambda>i. currentDiskBlockNumber dm + of_nat i) [0..<k] \<and> drop k ns = drop k ret)"
  using assms
proof (induction bufs arbitrary: ret dm)
  case Nil
  then show ?case by simp
next
  case (Cons buf bufs)
  then obtain r rs where ret: "ret = r # rs" by (cases ret) auto
  note d = disk_okD [OF Cons.prems(1)]
  let ?c = "currentDiskBlockNumber dm"
  show ?case
  proof (cases "disk_full dm")
    case True
    then have "unat (totalBlockCount dm) - 1 - unat ?c = 0" by (simp add: disk_full_def)
    then show ?thesis using True Cons.prems ret
      by (simp add: findFreeBlock_ok [OF Cons.prems(1)])
  next
    case False
    have ne: "?c \<noteq> - 1" using d(5) by (auto simp: unat_minus_1)
    let ?dm = "dm\<lparr>currentDiskBlockNumber := ?c + 1, dm_file := dm_file dm @ [buf]\<rparr>"
    have ok: "disk_ok ?dm" by (rule disk_ok_append(1) [OF Cons.prems(1) False])
    have c: "unat (?c + 1) = unat ?c + 1"
      using unat_add_1_less [of ?c "totalBlockCount dm"] d(4) by simp
    define k where "k = min (length bufs) (unat (totalBlockCount dm) - 1 - unat (?c + 1))"
    have k: "min (length (buf # bufs)) (unat (totalBlockCount dm) - 1 - unat ?c) = Suc k"
      using False by (simp add: k_def c disk_full_def)
    obtain ns dm' where w: "writeBlocksInBulk bufs rs ?dm = Some (ns, dm')" "disk_ok dm'"
        "length ns = length bufs" "totalBlockCount dm' = totalBlockCount dm"
        "dm_file dm' = dm_file dm @ buf # take k bufs"
        "take k ns = map (\<lambda>i. ?c + 1 + of_nat i) [0..<k]" "drop k ns = drop k rs"
      using Cons.IH [OF ok, of rs] Cons.prems(2) ret by (auto simp: Let_def k_def)
    have up: "map (\<lambda>i. ?c + of_nat i) [0..<Suc k] = ?c # map (\<lambda>i. ?c + 1 + of_nat i) [0..<k]"
      by (simp add: upt_conv_Cons map_Suc_upt [symmetric] comp_def add.assoc del: upt_Suc)
    have "writeBlocksInBulk (buf # bufs) ret dm = Some (?c # ns, dm')"
      using False ne d w(1) ret
      by (simp add: findFreeBlock_ok [OF Cons.prems(1)] disk_pos_small pwrite_block_def)
    then show ?thesis unfolding Let_def k up using w ret by simp
  qed
qed

section \<open>The interface of a block store\<close>

text \<open>
  What the eviction and the loading of blocks rely on: a write goes to a block that was not in
  use and changes no other, a full store says so and stays as it is, and a read returns what was
  written.
\<close>

datatype store_op = Write block | Read u64

locale block_store =
  fixes store :: "block \<Rightarrow> 's \<Rightarrow> (u64 \<times> 's) option"
    and load :: "u64 \<Rightarrow> 's \<Rightarrow> (int \<times> block \<times> 's) option"
    and inv :: "'s \<Rightarrow> bool"
    and full :: "'s \<Rightarrow> bool"
    and abs :: "'s \<Rightarrow> u64 \<Rightarrow> block option"
  assumes write_fresh: "inv s \<Longrightarrow> \<not> full s \<Longrightarrow>
      \<exists>n s'. store b s = Some (n, s') \<and> n \<noteq> - 1 \<and> inv s' \<and> abs s n = None \<and> abs s' = (abs s)(n \<mapsto> b)"
    and write_full: "inv s \<Longrightarrow> full s \<Longrightarrow> store b s = Some (- 1, s)"
    and read_abs: "inv s \<Longrightarrow> abs s n = Some b \<Longrightarrow>
      \<exists>s'. load n s = Some (1, b, s') \<and> inv s' \<and> abs s' = abs s"
begin

fun step :: "store_op \<Rightarrow> 's \<Rightarrow> 's option" where
  "step (Write b) s = map_option snd (store b s)"
| "step (Read n) s = (if abs s n = None then None else map_option (snd \<circ> snd) (load n s))"

lemma step_keeps:
  assumes "inv s" and "step x s = Some s'"
  shows "inv s' \<and> (\<forall>n b. abs s n = Some b \<longrightarrow> abs s' n = Some b)"
proof (cases x)
  case (Write b)
  show ?thesis
  proof (cases "full s")
    case True
    then show ?thesis using assms Write write_full [OF assms(1) True] by simp
  next
    case False
    then show ?thesis using assms(2) Write write_fresh [OF assms(1) False, of b] by auto
  qed
next
  case (Read n)
  then show ?thesis using assms(2) read_abs [OF assms(1)] by (fastforce split: if_splits)
qed

lemma run_keeps:
  assumes "inv s" and "abs s n = Some b" and "run step ops s = Some s'"
  shows "inv s' \<and> abs s' n = Some b"
  using run_invariant [where P = "\<lambda>t. inv t \<and> abs t n = Some b", OF _ _ assms(3)] step_keeps assms(1,2)
  by blast

lemma write_run_read:
  assumes "inv s" and "\<not> full s"
  shows "\<exists>n s'. store b s = Some (n, s') \<and> n \<noteq> - 1 \<and> abs s n = None \<and>
    (\<forall>ops t. run step ops s' = Some t \<longrightarrow> (\<exists>t'. load n t = Some (1, b, t')))"
proof -
  obtain n s' where w: "store b s = Some (n, s')" "n \<noteq> - 1" "inv s'" "abs s n = None"
      "abs s' = (abs s)(n \<mapsto> b)" using write_fresh [OF assms] by blast
  have "\<exists>t'. load n t = Some (1, b, t')" if "run step ops s' = Some t" for ops t
    using run_keeps [OF w(3) _ that, of n b] w(5) read_abs by fastforce
  then show ?thesis using w by blast
qed

end

interpretation disk: block_store writeBlock "readBlocksWithPrefetch True junk" disk_ok disk_full disk_map
proof
  fix s b n
  assume s: "disk_ok s"
  show "\<exists>n s'. writeBlock b s = Some (n, s') \<and> n \<noteq> - 1 \<and> disk_ok s' \<and> disk_map s n = None \<and>
      disk_map s' = (disk_map s)(n \<mapsto> b)" if "\<not> disk_full s"
  proof -
    have "currentDiskBlockNumber s \<noteq> - 1" using disk_okD(5) [OF s] by (auto simp: unat_minus_1)
    then show ?thesis using that disk_ok_append [OF s that] by (simp add: writeBlock_ok [OF s] disk_map_def)
  qed
  show "writeBlock b s = Some (- 1, s)" if "disk_full s" using that by (simp add: writeBlock_ok [OF s])
  show "\<exists>s'. readBlocksWithPrefetch True junk n s = Some (1, b, s') \<and> disk_ok s' \<and> disk_map s' = disk_map s"
    if "disk_map s n = Some b" using readBlocksWithPrefetch_ok [OF s that] by blast
qed

section \<open>Properties\<close>

definition fresh_disk :: disk_manager where
  "fresh_disk = initializeDiskManager [] DISK_SIZE DISK_BLOCK_SIZE"

lemma fresh_disk_ok: "disk_ok fresh_disk" "\<not> disk_full fresh_disk"
  by (simp_all add: fresh_disk_def initializeDiskManager_def disk_ok_def disk_full_def)

text \<open>C18. The disk keeps what was evicted: while the disk is not full, \<^verbatim>\<open>writeBlock\<close> picks a block
  number that is not in use, and after any further sequence of writes and (prefetching) reads of
  allocated blocks, \<^verbatim>\<open>readBlocksWithPrefetch\<close> of that number succeeds and returns the data
  written: the prefetch table never holds a stale copy.\<close>

theorem disk_write_then_read:
  assumes "disk_ok dm" and "\<not> disk_full dm"
  shows "\<exists>n dm'. writeBlock b dm = Some (n, dm') \<and> n \<noteq> - 1 \<and> disk_map dm n = None \<and>
    (\<forall>ops dm2. run (disk.step junk) ops dm' = Some dm2 \<longrightarrow>
      (\<exists>dm3. readBlocksWithPrefetch True junk n dm2 = Some (1, b, dm3)))"
  using disk.write_run_read [OF assms] .

theorem disk_write_then_read_witness:
  "\<exists>n dm'. writeBlock (\<lambda>_. 7) fresh_disk = Some (n, dm') \<and>
    (\<exists>dm3. readBlocksWithPrefetch True zero_block n dm' = Some (1, \<lambda>_. 7, dm3))"
proof -
  obtain n dm' where "writeBlock (\<lambda>_. 7) fresh_disk = Some (n, dm')"
    "\<forall>ops dm2. run (disk.step zero_block) ops dm' = Some dm2 \<longrightarrow>
      (\<exists>dm3. readBlocksWithPrefetch True zero_block n dm2 = Some (1, \<lambda>_. 7, dm3))"
    using disk_write_then_read [OF fresh_disk_ok, of "\<lambda>_. 7" zero_block] by blast
  moreover have "run (disk.step zero_block) [] dm' = Some dm'" by simp
  ultimately show ?thesis by blast
qed

text \<open>C31. \<^verbatim>\<open>writeBlocksInBulk\<close> stores as many of the blocks as there is room for, in order, at
  consecutive numbers from the current position, of \<open>total - 1\<close> blocks in all (the last block of
  the file is never used). When the room runs out it returns silently: the remaining entries of
  the caller's array keep whatever they held.\<close>

theorem writeBlocksInBulk_prefix:
  assumes "disk_ok dm" and "length ret = length bufs"
  shows "\<exists>ns dm'. writeBlocksInBulk bufs ret dm = Some (ns, dm') \<and> disk_ok dm' \<and>
    (let k = min (length bufs) (unat (totalBlockCount dm) - 1 - unat (currentDiskBlockNumber dm)) in
      dm_file dm' = dm_file dm @ take k bufs \<and>
      ns = map (\<lambda>i. currentDiskBlockNumber dm + of_nat i) [0..<k] @ drop k ret)"
proof -
  let ?k = "min (length bufs) (unat (totalBlockCount dm) - 1 - unat (currentDiskBlockNumber dm))"
  obtain ns dm' where w: "writeBlocksInBulk bufs ret dm = Some (ns, dm')" "disk_ok dm'"
      "dm_file dm' = dm_file dm @ take ?k bufs"
      "take ?k ns = map (\<lambda>i. currentDiskBlockNumber dm + of_nat i) [0..<?k]" "drop ?k ns = drop ?k ret"
    using writeBlocksInBulk_ok [OF assms] by (auto simp: Let_def)
  have "ns = map (\<lambda>i. currentDiskBlockNumber dm + of_nat i) [0..<?k] @ drop ?k ret"
    by (metis append_take_drop_id w(4) w(5))
  then show ?thesis using w(1-3) unfolding Let_def by blast
qed

theorem writeBlocksInBulk_prefix_witness:
  "\<exists>ns dm'. writeBlocksInBulk [\<lambda>_. 1, \<lambda>_. 2] [77, 88]
      (initializeDiskManager [] 8192 DISK_BLOCK_SIZE) = Some (ns, dm') \<and> ns = [0, 88]"
proof -
  have "disk_ok (initializeDiskManager [] 8192 DISK_BLOCK_SIZE)"
    by (simp add: initializeDiskManager_def disk_ok_def)
  from writeBlocksInBulk_prefix [OF this, of "[77, 88]" "[\<lambda>_. 1, \<lambda>_. 2]"]
  show ?thesis by (auto simp: Let_def initializeDiskManager_def)
qed

text \<open>On a disk manager that starts on an empty file, as \<^verbatim>\<open>main\<close> leaves it, every read fails its assertion.\<close>

lemma read_truncated: "readBlocksWithPrefetch True junk n (initializeDiskManager [] sz blockSize) = None"
proof -
  have "\<not> (- 1 :: u64) < x" for x using word_order.extremum [of x] by (simp add: not_less)
  then show ?thesis
    by (simp add: readBlocksWithPrefetch_def initializeDiskManager_def lru_hash_map_find_def
        pread_blocks_def disk_pos_def Let_def)
qed

end
