(* ===== verification/Lru.thy ===== *)
theory Lru
  imports Disk_Manager "HOL-Library.Multiset"
begin

text \<open>
  The bookkeeping of \<^verbatim>\<open>anti_cache_manager.c\<close>: the staging queue that file system calls fill,
  the list of resident blocks ordered by use, and the table from block numbers to list nodes
  (\<^verbatim>\<open>lru_hash_map.cpp\<close>). Nodes live in a heap: an address that is not in the heap was never
  allocated or has been released, and following it, or \<^verbatim>\<open>NULL\<close>, ends the process (\<open>None\<close>).
  The mutexes make each operation one step. Moving the blocks to disk is in
  \<open>Blocks\<close>.
\<close>

type_synonym addr = nat

record lru_node =
  ln_blockno :: u64
  ln_prev :: "addr option"
  ln_next :: "addr option"

record anti_cache =
  ac_heap :: "addr \<Rightarrow> lru_node option"
  ac_fresh :: addr
  q_num :: u64
  q_head :: "addr option"
  q_tail :: "addr option"
  lru_num :: u64
  lru_head :: "addr option"
  lru_tail :: "addr option"
  lru_map :: "u64 \<Rightarrow> addr option"

abbreviation (input) ANTI_CACHE_EVICTION_THRESHOLD :: u64 where
  "ANTI_CACHE_EVICTION_THRESHOLD \<equiv> 10240"

section \<open>Heap access\<close>

definition set_prev :: "addr option \<Rightarrow> addr option \<Rightarrow> anti_cache \<Rightarrow> anti_cache option" where
  "set_prev p v s = do {
     a \<leftarrow> p;
     n \<leftarrow> ac_heap s a;
     Some (s\<lparr>ac_heap := (ac_heap s)(a \<mapsto> n\<lparr>ln_prev := v\<rparr>)\<rparr>)
   }"

definition set_next :: "addr option \<Rightarrow> addr option \<Rightarrow> anti_cache \<Rightarrow> anti_cache option" where
  "set_next p v s = do {
     a \<leftarrow> p;
     n \<leftarrow> ac_heap s a;
     Some (s\<lparr>ac_heap := (ac_heap s)(a \<mapsto> n\<lparr>ln_next := v\<rparr>)\<rparr>)
   }"

definition free_node :: "addr \<Rightarrow> anti_cache \<Rightarrow> anti_cache option" where
  "free_node a s = do {
     n \<leftarrow> ac_heap s a;
     Some (s\<lparr>ac_heap := (ac_heap s)(a := None)\<rparr>)
   }"

section \<open>Initialisation\<close>

text \<open>\<^verbatim>\<open>lru_init\<close> does not set \<^verbatim>\<open>_num_elements\<close>: \<open>junk\<close> is what the new memory holds.\<close>

definition lru_init :: "u64 \<Rightarrow> anti_cache \<Rightarrow> anti_cache" where
  "lru_init junk s = s\<lparr>lru_num := junk, lru_head := None, lru_tail := None, lru_map := Map.empty\<rparr>"

definition lru_staging_queue_init :: "anti_cache \<Rightarrow> anti_cache" where
  "lru_staging_queue_init s = s\<lparr>q_num := 0, q_head := None, q_tail := None\<rparr>"

definition anti_cache_manager_init :: "u64 \<Rightarrow> anti_cache \<Rightarrow> anti_cache" where
  "anti_cache_manager_init junk s = lru_staging_queue_init (lru_init junk s)"

section \<open>The staging queue\<close>

definition lru_staging_queue_push :: "addr \<Rightarrow> anti_cache \<Rightarrow> anti_cache option" where
  "lru_staging_queue_push node s = do {
     s \<leftarrow> (if q_head s = None then Some (s\<lparr>q_head := Some node, q_tail := Some node\<rparr>)
           else do {
             s \<leftarrow> set_next (q_tail s) (Some node) s;
             s \<leftarrow> set_prev (Some node) (q_tail s) s;
             Some (s\<lparr>q_tail := Some node\<rparr>)
           });
     Some (s\<lparr>q_num := q_num s + 1\<rparr>)
   }"

definition lru_staging_queue_pop :: "anti_cache \<Rightarrow> (addr option \<times> anti_cache) option" where
  "lru_staging_queue_pop s =
     (case q_head s of
        None \<Rightarrow> Some (None, s)
      | Some node \<Rightarrow> do {
          s \<leftarrow> (if q_head s = q_tail s then Some (s\<lparr>q_head := None, q_tail := None\<rparr>)
                else do {
                  n \<leftarrow> ac_heap s node;
                  s \<leftarrow> Some (s\<lparr>q_head := ln_next n\<rparr>);
                  set_prev (q_head s) None s
                });
          Some (Some node, s\<lparr>q_num := q_num s - 1\<rparr>)
        })"

text \<open>
  The assertion compares with \<^verbatim>\<open>1 << 63\<close>, a shift of an \<^verbatim>\<open>int\<close> by more than its width,
  which the compiler evaluates to 0: it always holds.
\<close>

definition anti_cache_manager_access :: "u64 \<Rightarrow> anti_cache \<Rightarrow> anti_cache option" where
  "anti_cache_manager_access blockno s = do {
     let a = ac_fresh s;
     let s = s\<lparr>ac_heap := (ac_heap s)(a \<mapsto> \<lparr>ln_blockno = blockno, ln_prev = None, ln_next = None\<rparr>),
               ac_fresh := a + 1\<rparr>;
     lru_staging_queue_push a s
   }"

section \<open>The list of resident blocks\<close>

text \<open>
  The two link manipulations of \<^verbatim>\<open>lru_push\<close>: taking a node that is not the head out of the
  list, and putting a node in front of the head.
\<close>

definition lru_unlink :: "addr \<Rightarrow> anti_cache \<Rightarrow> anti_cache option" where
  "lru_unlink node_p s = do {
     np \<leftarrow> ac_heap s node_p;
     check (ln_prev np \<noteq> None);
     s \<leftarrow> set_next (ln_prev np) (ln_next np) s;
     if ln_next np \<noteq> None then set_prev (ln_next np) (ln_prev np) s
     else Some (s\<lparr>lru_tail := ln_prev np\<rparr>)
   }"

definition lru_link_front :: "addr \<Rightarrow> anti_cache \<Rightarrow> anti_cache option" where
  "lru_link_front node s = do {
     s \<leftarrow> set_next (Some node) (lru_head s) s;
     s \<leftarrow> set_prev (lru_head s) (Some node) s;
     let s = s\<lparr>lru_head := Some node\<rparr>;
     set_prev (lru_head s) None s
   }"

definition lru_push :: "addr \<Rightarrow> anti_cache \<Rightarrow> anti_cache option" where
  "lru_push node s = do {
     s \<leftarrow> set_prev (Some node) None s;
     s \<leftarrow> set_next (Some node) None s;
     n \<leftarrow> ac_heap s node;
     if lru_num s = 0 then
       Some (s\<lparr>lru_head := Some node, lru_tail := Some node,
              lru_map := lru_hash_map_insert (lru_map s) (ln_blockno n) node, lru_num := lru_num s + 1\<rparr>)
     else (case lru_hash_map_find (lru_map s) (ln_blockno n) of
       Some node_p \<Rightarrow>
         if lru_head s = Some node_p then Some s
         else do { s \<leftarrow> lru_unlink node_p s; lru_link_front node_p s }
     | None \<Rightarrow> do {
         s \<leftarrow> lru_link_front node s;
         Some (s\<lparr>lru_map := lru_hash_map_insert (lru_map s) (ln_blockno n) node, lru_num := lru_num s + 1\<rparr>)
       })
   }"

definition lru_pop :: "anti_cache \<Rightarrow> (addr option \<times> anti_cache) option" where
  "lru_pop s =
     (if lru_num s = 0 then Some (None, s)
      else if lru_num s = 1 then
        Some (lru_tail s, s\<lparr>lru_tail := None, lru_head := None, lru_num := 0\<rparr>)
      else do {
        node \<leftarrow> lru_tail s;
        n \<leftarrow> ac_heap s node;
        let s = s\<lparr>lru_tail := ln_prev n\<rparr>;
        s \<leftarrow> set_next (lru_tail s) None s;
        Some (Some node, s\<lparr>lru_map := lru_hash_map_erase (lru_map s) (ln_blockno n), lru_num := lru_num s - 1\<rparr>)
      })"

definition delete_lru_entry :: "u64 \<Rightarrow> anti_cache \<Rightarrow> anti_cache option" where
  "delete_lru_entry block_num s =
     (case lru_hash_map_find (lru_map s) block_num of
        None \<Rightarrow> Some s
      | Some node \<Rightarrow> do {
          n \<leftarrow> ac_heap s node;
          s \<leftarrow> (if ln_prev n = None \<and> ln_next n = None then Some (s\<lparr>lru_head := None, lru_tail := None\<rparr>)
                else if ln_prev n = None then do {
                  s \<leftarrow> set_prev (ln_next n) None s;
                  Some (s\<lparr>lru_head := ln_next n\<rparr>)
                } else if ln_next n = None then do {
                  s \<leftarrow> set_next (ln_prev n) None s;
                  Some (s\<lparr>lru_tail := ln_prev n\<rparr>)
                } else do {
                  s \<leftarrow> set_next (ln_prev n) (ln_next n) s;
                  set_prev (ln_next n) (ln_prev n) s
                });
          s \<leftarrow> free_node node s;
          Some (s\<lparr>lru_map := lru_hash_map_erase (lru_map s) block_num\<rparr>)
        })"

primrec anti_cache_manager_delete_lru_entries :: "u64 list \<Rightarrow> anti_cache \<Rightarrow> anti_cache option" where
  "anti_cache_manager_delete_lru_entries [] s = Some s"
| "anti_cache_manager_delete_lru_entries (b # bs) s =
     do { s \<leftarrow> delete_lru_entry b s; anti_cache_manager_delete_lru_entries bs s }"

section \<open>One round of the manager\<close>

text \<open>The loop of \<^verbatim>\<open>anti_cache_manager_update_lru\<close>; \<open>n\<close> bounds the number of iterations.\<close>

primrec update_lru_loop :: "nat \<Rightarrow> anti_cache \<Rightarrow> (nat \<times> anti_cache) option" where
  "update_lru_loop 0 s = None"
| "update_lru_loop (Suc n) s = do {
     (node, s) \<leftarrow> lru_staging_queue_pop s;
     case node of
       None \<Rightarrow> Some (0, s)
     | Some a \<Rightarrow> do {
         s \<leftarrow> lru_push a s;
         (added, s) \<leftarrow> update_lru_loop n s;
         Some (Suc added, s)
       }
   }"

definition anti_cache_manager_update_lru :: "nat \<Rightarrow> anti_cache \<Rightarrow> (nat \<times> anti_cache) option" where
  "anti_cache_manager_update_lru fuel s = update_lru_loop fuel s"

text \<open>
  The collection of victims in \<^verbatim>\<open>anti_cache_manager_evict_blocks\<close>: the node is popped before
  the loop and again at the end of each iteration; \<open>k\<close> is \<^verbatim>\<open>evicted_blocks_count - i\<close>.
\<close>

primrec collect_victims :: "nat \<Rightarrow> addr option \<Rightarrow> anti_cache \<Rightarrow> (u64 list \<times> anti_cache) option" where
  "collect_victims 0 node s = Some ([], s)"
| "collect_victims (Suc k) node s =
     (case node of
        None \<Rightarrow> Some ([], s)
      | Some a \<Rightarrow> do {
          n \<leftarrow> ac_heap s a;
          s \<leftarrow> free_node a s;
          (node, s) \<leftarrow> lru_pop s;
          (bs, s) \<leftarrow> collect_victims k node s;
          Some (ln_blockno n # bs, s)
        })"

text \<open>The number of blocks to evict, the block numbers collected and the state before they are
  moved to disk.\<close>

definition evict_victims :: "anti_cache \<Rightarrow> (u64 \<times> u64 list \<times> anti_cache) option" where
  "evict_victims s =
     (if ANTI_CACHE_EVICTION_THRESHOLD < lru_num s then do {
        let count = lru_num s - ANTI_CACHE_EVICTION_THRESHOLD;
        (node, s) \<leftarrow> lru_pop s;
        (bs, s) \<leftarrow> collect_victims (unat count) node s;
        Some (count, bs, s)
      } else Some (0, [], s))"

section \<open>Doubly linked lists\<close>

fun hdo :: "addr list \<Rightarrow> addr option \<Rightarrow> addr option" where
  "hdo [] q = q"
| "hdo (a # as) q = Some a"

definition lasto :: "addr list \<Rightarrow> addr option \<Rightarrow> addr option" where
  "lasto as p = (if as = [] then p else Some (last as))"

text \<open>\<open>dll h p as q\<close>: the nodes \<open>as\<close> are linked in order, the first points back to \<open>p\<close> and the
  last on to \<open>q\<close>.\<close>

fun dll :: "(addr \<Rightarrow> lru_node option) \<Rightarrow> addr option \<Rightarrow> addr list \<Rightarrow> addr option \<Rightarrow> bool" where
  "dll h p [] q = True"
| "dll h p (a # as) q =
     (case h a of None \<Rightarrow> False
      | Some n \<Rightarrow> ln_prev n = p \<and> ln_next n = hdo as q \<and> dll h (Some a) as q)"

lemma lasto_simps [simp]:
  "lasto [] p = p" "lasto (as @ [a]) p = Some a" "lasto (a # as) p = lasto as (Some a)"
  by (simp_all add: lasto_def)

lemma lasto_append [simp]: "lasto (as @ bs) p = lasto bs (lasto as p)"
  by (simp add: lasto_def)

lemma hdo_append [simp]: "hdo (as @ bs) q = hdo as (hdo bs q)"
  by (cases as) auto

lemma dll_append: "dll h p (as @ bs) q \<longleftrightarrow> dll h p as (hdo bs q) \<and> dll h (lasto as p) bs q"
  by (induction as arbitrary: p) (auto split: option.splits)

lemma dll_frame: "dll h p as q \<Longrightarrow> \<forall>a \<in> set as. h' a = h a \<Longrightarrow> dll h' p as q"
  by (induction as arbitrary: p) (auto split: option.splits)

lemma dll_node: "dll h p as q \<Longrightarrow> a \<in> set as \<Longrightarrow> h a \<noteq> None"
  by (induction as arbitrary: p) (auto split: option.splits)

text \<open>The back pointer of the first node, the forward pointer of the last.\<close>

lemma dll_set_first:
  assumes "dll h p (a # as) q" and "h a = Some n" and "a \<notin> set as"
  shows "dll (h(a \<mapsto> n\<lparr>ln_prev := p'\<rparr>)) p' (a # as) q"
  using assms dll_frame [of h "Some a" as q "h(a \<mapsto> n\<lparr>ln_prev := p'\<rparr>)"] by auto

lemma dll_set_last:
  assumes "dll h p (as @ [a]) q" and "h a = Some n" and "a \<notin> set as"
  shows "dll (h(a \<mapsto> n\<lparr>ln_next := q'\<rparr>)) p (as @ [a]) q'"
  using assms dll_frame [of h p as "Some a" "h(a \<mapsto> n\<lparr>ln_next := q'\<rparr>)"] by (auto simp: dll_append)

lemma dll_last_next:
  assumes "dll h p (as @ [a]) q"
  obtains n where "h a = Some n" "ln_next n = q" "ln_prev n = lasto as p"
  using assms by (auto simp: dll_append split: option.splits)

section \<open>Invariants\<close>

definition bno :: "(addr \<Rightarrow> lru_node option) \<Rightarrow> addr \<Rightarrow> u64" where
  "bno h a = (case h a of None \<Rightarrow> 0 | Some n \<Rightarrow> ln_blockno n)"

text \<open>The block numbers of the resident list, most recently used first, and of the queue.\<close>

definition lru_list :: "anti_cache \<Rightarrow> addr list \<Rightarrow> bool" where
  "lru_list s xs \<longleftrightarrow> distinct xs \<and> dll (ac_heap s) None xs None \<and>
     lru_head s = hdo xs None \<and> lru_tail s = lasto xs None"

text \<open>The list and its table, without the element count, which deletions leave behind.\<close>

definition lru_linked :: "anti_cache \<Rightarrow> addr list \<Rightarrow> bool" where
  "lru_linked s xs \<longleftrightarrow> lru_list s xs \<and> distinct (map (bno (ac_heap s)) xs) \<and>
     (\<forall>b a. lru_map s b = Some a \<longleftrightarrow> a \<in> set xs \<and> bno (ac_heap s) a = b)"

definition lru_inv :: "anti_cache \<Rightarrow> addr list \<Rightarrow> bool" where
  "lru_inv s xs \<longleftrightarrow> lru_list s xs \<and> length xs < 2 ^ 64 \<and> lru_num s = of_nat (length xs) \<and>
     distinct (map (bno (ac_heap s)) xs) \<and>
     (\<forall>b a. lru_map s b = Some a \<longleftrightarrow> a \<in> set xs \<and> bno (ac_heap s) a = b)"

definition queue_inv :: "anti_cache \<Rightarrow> addr list \<Rightarrow> bool" where
  "queue_inv s ys \<longleftrightarrow> distinct ys \<and> dll (ac_heap s) None ys None \<and>
     q_head s = hdo ys None \<and> q_tail s = lasto ys None \<and> q_num s = of_nat (length ys)"

definition heap_inv :: "anti_cache \<Rightarrow> bool" where
  "heap_inv s \<longleftrightarrow> (\<forall>a \<ge> ac_fresh s. ac_heap s a = None)"

definition ac_linked :: "anti_cache \<Rightarrow> addr list \<Rightarrow> addr list \<Rightarrow> bool" where
  "ac_linked s xs ys \<longleftrightarrow> heap_inv s \<and> lru_linked s xs \<and> queue_inv s ys \<and> set xs \<inter> set ys = {}"

definition ac_inv :: "anti_cache \<Rightarrow> addr list \<Rightarrow> addr list \<Rightarrow> bool" where
  "ac_inv s xs ys \<longleftrightarrow> heap_inv s \<and> lru_inv s xs \<and> queue_inv s ys \<and> set xs \<inter> set ys = {}"

lemma lru_inv_linked: "lru_inv s xs \<longleftrightarrow> lru_linked s xs \<and> length xs < 2 ^ 64 \<and> lru_num s = of_nat (length xs)"
  by (auto simp: lru_inv_def lru_linked_def)

lemma ac_inv_linked: "ac_inv s xs ys \<longleftrightarrow> ac_linked s xs ys \<and> length xs < 2 ^ 64 \<and> lru_num s = of_nat (length xs)"
  by (auto simp: ac_inv_def ac_linked_def lru_inv_linked)

section \<open>Heap updates\<close>

lemma set_prev_eq:
  "ac_heap s a = Some n \<Longrightarrow> set_prev (Some a) v s = Some (s\<lparr>ac_heap := (ac_heap s)(a \<mapsto> n\<lparr>ln_prev := v\<rparr>)\<rparr>)"
  by (simp add: set_prev_def)

lemma set_next_eq:
  "ac_heap s a = Some n \<Longrightarrow> set_next (Some a) v s = Some (s\<lparr>ac_heap := (ac_heap s)(a \<mapsto> n\<lparr>ln_next := v\<rparr>)\<rparr>)"
  by (simp add: set_next_def)

lemma bno_upd [simp]:
  "h a = Some n \<Longrightarrow> bno (h(a \<mapsto> n\<lparr>ln_prev := v\<rparr>)) = bno h"
  "h a = Some n \<Longrightarrow> bno (h(a \<mapsto> n\<lparr>ln_next := v\<rparr>)) = bno h"
  "h a = Some n \<Longrightarrow> bno (h(a \<mapsto> n\<lparr>ln_prev := v, ln_next := w\<rparr>)) = bno h"
  by (auto simp: bno_def fun_eq_iff)

section \<open>The staging queue\<close>

lemma queue_push_ok:
  assumes "queue_inv s ys" and "ac_heap s a = Some \<lparr>ln_blockno = b, ln_prev = None, ln_next = None\<rparr>"
    and "a \<notin> set ys"
  shows "\<exists>h. lru_staging_queue_push a s = Some (s\<lparr>ac_heap := h, q_num := q_num s + 1,
      q_head := hdo (ys @ [a]) None, q_tail := Some a\<rparr>) \<and>
    dll h None (ys @ [a]) None \<and> bno h = bno (ac_heap s) \<and>
    (\<forall>z. z \<notin> set (ys @ [a]) \<longrightarrow> h z = ac_heap s z)"
proof (cases ys rule: rev_cases)
  case Nil
  then show ?thesis using assms by (auto simp: lru_staging_queue_push_def queue_inv_def intro!: exI [of _ "ac_heap s"])
next
  case (snoc zs t)
  let ?h = "ac_heap s"
  have d: "dll ?h None (zs @ [t]) None" "t \<notin> set zs" "a \<noteq> t" "a \<notin> set zs"
    using assms(1,3) snoc by (auto simp: queue_inv_def)
  obtain n where n: "?h t = Some n" using dll_last_next [OF d(1)] by metis
  let ?h1 = "?h(t \<mapsto> n\<lparr>ln_next := Some a\<rparr>)"
  let ?h2 = "?h1(a \<mapsto> \<lparr>ln_blockno = b, ln_prev = Some t, ln_next = None\<rparr>)"
  have "dll ?h1 None (zs @ [t]) (Some a)" using dll_set_last [OF d(1) n d(2)] .
  then have "dll ?h2 None (zs @ [t]) (Some a)" by (rule dll_frame) (use d in auto)
  then have l: "dll ?h2 None (ys @ [a]) None" unfolding snoc by (subst dll_append) simp
  have "bno ?h2 = bno ?h" using assms(2) n d(3) by (auto simp: bno_def fun_eq_iff)
  moreover have "q_head s \<noteq> None" using assms(1) snoc by (cases zs) (auto simp: queue_inv_def)
  moreover have "q_tail s = Some t" "q_head s = hdo (ys @ [a]) None"
    using assms(1) snoc by (auto simp: queue_inv_def)
  ultimately show ?thesis using l n assms(2) d
    by (auto simp: lru_staging_queue_push_def set_next_def set_prev_def snoc intro!: exI [of _ ?h2])
qed

lemma queue_pop_ok:
  assumes "queue_inv s (a # ys)"
  shows "\<exists>h. lru_staging_queue_pop s = Some (Some a, s\<lparr>ac_heap := h, q_num := q_num s - 1,
      q_head := hdo ys None, q_tail := lasto ys None\<rparr>) \<and>
    dll h None ys None \<and> bno h = bno (ac_heap s) \<and>
    (\<forall>z. z \<notin> set ys \<longrightarrow> h z = ac_heap s z) \<and> h a \<noteq> None"
proof (cases ys)
  case Nil
  then show ?thesis using assms
    by (auto simp: lru_staging_queue_pop_def queue_inv_def intro!: exI [of _ "ac_heap s"] split: option.splits)
next
  case (Cons b zs)
  let ?h = "ac_heap s"
  have d: "dll ?h None (a # b # zs) None" "distinct (a # b # zs)" using assms Cons by (auto simp: queue_inv_def)
  obtain n m where n: "?h a = Some n" "ln_next n = Some b" and m: "?h b = Some m" "dll ?h (Some a) (b # zs) None"
    using d(1) by (auto split: option.splits)
  let ?h1 = "?h(b \<mapsto> m\<lparr>ln_prev := None\<rparr>)"
  have l: "dll ?h1 None (b # zs) None" using dll_set_first [OF m(2,1)] d(2) by auto
  have "lasto (b # zs) None \<noteq> Some a" using d(2) by (auto simp: lasto_def split: if_splits)
  then have "q_head s \<noteq> q_tail s" "q_head s = Some a" "q_tail s = lasto ys None"
    using assms Cons by (auto simp: queue_inv_def)
  then show ?thesis using l n m d Cons
    by (auto simp: lru_staging_queue_pop_def set_prev_def intro!: exI [of _ ?h1])
qed

section \<open>The resident list\<close>

text \<open>What an update of links in the list leaves alone.\<close>

definition same_nodes :: "addr set \<Rightarrow> anti_cache \<Rightarrow> anti_cache \<Rightarrow> bool" where
  "same_nodes A s s' \<longleftrightarrow> bno (ac_heap s') = bno (ac_heap s) \<and>
     (\<forall>z. z \<notin> A \<longrightarrow> ac_heap s' z = ac_heap s z) \<and>
     (\<forall>z. ac_heap s' z = None \<longleftrightarrow> ac_heap s z = None) \<and>
     ac_fresh s' = ac_fresh s \<and> q_num s' = q_num s \<and> q_head s' = q_head s \<and> q_tail s' = q_tail s"

text \<open>The list without its counter and table; \<open>lru_links_only\<close>: only links of the nodes in \<open>A\<close>
  and the ends of the list change.\<close>

definition lru_links_only :: "addr set \<Rightarrow> anti_cache \<Rightarrow> anti_cache \<Rightarrow> bool" where
  "lru_links_only A s s' \<longleftrightarrow> same_nodes A s s' \<and> lru_map s' = lru_map s \<and> lru_num s' = lru_num s"

lemma same_nodes_trans:
  "lru_links_only A s s' \<Longrightarrow> lru_links_only A s' s'' \<Longrightarrow> lru_links_only A s s''"
  by (simp add: lru_links_only_def same_nodes_def)

lemma lru_links_only_mono: "lru_links_only A s s' \<Longrightarrow> A \<subseteq> B \<Longrightarrow> lru_links_only B s s'"
  unfolding lru_links_only_def same_nodes_def by blast

lemma lru_unlink_ok:
  assumes "lru_list s (ws @ w # p # vs)"
  shows "\<exists>s'. lru_unlink p s = Some s' \<and> lru_list s' (ws @ w # vs) \<and>
    lru_links_only (set (ws @ w # vs)) s s'"
proof -
  let ?h = "ac_heap s"
  have d: "distinct (ws @ w # p # vs)" and l: "dll ?h None (ws @ [w]) (Some p)" "dll ?h (Some w) (p # vs) None"
    and hd: "lru_head s = hdo (ws @ w # p # vs) None" and tl: "lru_tail s = lasto (ws @ w # p # vs) None"
    using assms by (auto simp: lru_list_def dll_append split: option.splits)
  obtain np where np: "?h p = Some np" "ln_prev np = Some w" "ln_next np = hdo vs None" "dll ?h (Some p) vs None"
    using l(2) by (auto split: option.splits)
  obtain nw where nw: "?h w = Some nw" using dll_last_next [OF l(1)] by metis
  let ?h1 = "?h(w \<mapsto> nw\<lparr>ln_next := hdo vs None\<rparr>)"
  have l1: "dll ?h1 None (ws @ [w]) (hdo vs None)" using dll_set_last [OF l(1) nw] d by auto
  have hd': "hdo (ws @ w # vs) None = lru_head s" using hd by (cases ws) auto
  show ?thesis
  proof (cases vs)
    case Nil
    have "lru_unlink p s = Some (s\<lparr>ac_heap := ?h1, lru_tail := Some w\<rparr>)"
      using np nw Nil by (simp add: lru_unlink_def set_next_def)
    then show ?thesis using l1 Nil d hd' nw by (auto simp: lru_list_def lru_links_only_def same_nodes_def)
  next
    case (Cons v vs')
    obtain nv where nv: "?h v = Some nv" using np(4) Cons by (auto split: option.splits)
    have dv: "v \<noteq> w" "v \<noteq> p" "v \<notin> set ws" "v \<notin> set vs'" "w \<notin> set vs'" using d Cons by auto
    let ?h2 = "?h1(v \<mapsto> nv\<lparr>ln_prev := Some w\<rparr>)"
    have "dll ?h1 (Some p) (v # vs') None" by (rule dll_frame [OF np(4) [unfolded Cons]]) (use dv in auto)
    then have "dll ?h2 (Some w) (v # vs') None" using dll_set_first [of ?h1 "Some p" v vs' None nv "Some w"] nv dv by auto
    moreover have "dll ?h1 None (ws @ [w]) (Some v)" using l1 by (simp add: Cons)
    then have "dll ?h2 None (ws @ [w]) (Some v)" by (rule dll_frame) (use dv in auto)
    ultimately have l2: "dll ?h2 None (ws @ w # vs) None"
      using Cons dll_append [of ?h2 None "ws @ [w]" "v # vs'" None] by simp
    have b: "bno ?h2 = bno ?h" using nw nv dv by (auto simp: bno_def fun_eq_iff)
    have t: "lasto (ws @ w # vs) None = lru_tail s" using tl Cons by (simp add: lasto_def)
    have "lru_unlink p s = Some (s\<lparr>ac_heap := ?h2\<rparr>)"
      using np nw nv dv Cons by (simp add: lru_unlink_def set_next_def set_prev_def)
    then show ?thesis using l2 d hd' t b nw nv Cons by (auto simp: lru_list_def lru_links_only_def same_nodes_def)
  qed
qed

lemma lru_link_front_ok:
  assumes "lru_list s (y # zs)" and "p \<notin> set (y # zs)" and "ac_heap s p = Some np"
  shows "\<exists>s'. lru_link_front p s = Some s' \<and> lru_list s' (p # y # zs) \<and>
    lru_links_only (set (p # y # zs)) s s'"
proof -
  let ?h = "ac_heap s"
  have d: "distinct (y # zs)" and l: "dll ?h None (y # zs) None" and hd: "lru_head s = Some y"
    and tl: "lru_tail s = lasto zs (Some y)"
    using assms(1) by (auto simp: lru_list_def split: option.splits)
  obtain ny where ny: "?h y = Some ny" using l by (auto split: option.splits)
  let ?h1 = "?h(y \<mapsto> ny\<lparr>ln_prev := Some p\<rparr>)"
  let ?h3 = "?h1(p \<mapsto> np\<lparr>ln_next := Some y, ln_prev := None\<rparr>)"
  have "dll ?h1 (Some p) (y # zs) None" using dll_set_first [OF l ny] d by auto
  then have "dll ?h3 (Some p) (y # zs) None" by (rule dll_frame) (use assms(2) in auto)
  then have l3: "dll ?h3 None (p # y # zs) None" by simp
  have b: "bno ?h3 = bno ?h" using ny assms(2,3) by (auto simp: bno_def fun_eq_iff)
  have "?h(p \<mapsto> np\<lparr>ln_next := Some y\<rparr>, y \<mapsto> ny\<lparr>ln_prev := Some p\<rparr>,
      p \<mapsto> np\<lparr>ln_next := Some y, ln_prev := None\<rparr>) = ?h3" by (auto simp: fun_eq_iff)
  then have "lru_link_front p s = Some (s\<lparr>ac_heap := ?h3, lru_head := Some p\<rparr>)"
    using ny hd assms(2,3) by (simp add: lru_link_front_def set_next_def set_prev_def)
  then show ?thesis using l3 b d assms(2,3) tl ny
    by (auto simp: lru_list_def lru_links_only_def same_nodes_def)
qed

lemma lru_num_eq:
  assumes "lru_inv s xs"
  shows "lru_num s = 0 \<longleftrightarrow> xs = []" and "lru_num s = 1 \<longleftrightarrow> length xs = 1"
    and "unat (lru_num s) = length xs"
proof -
  have u: "unat (lru_num s) = length xs" using assms by (simp add: lru_inv_def unat_of_nat)
  show "unat (lru_num s) = length xs" by (rule u)
  show "lru_num s = 0 \<longleftrightarrow> xs = []" using u by (metis length_0_conv unat_eq_0)
  show "lru_num s = 1 \<longleftrightarrow> length xs = 1" using u by (metis unat_1 unat_inject)
qed

lemma lru_inv_links:
  assumes "lru_inv s xs" and "lru_links_only A s s'" and "lru_list s' xs'" and "mset xs' = mset xs"
  shows "lru_inv s' xs'"
proof -
  have "set xs' = set xs" "length xs' = length xs" using assms(4) by (metis set_mset_mset, metis size_mset)
  moreover have "distinct (map (bno (ac_heap s)) xs')"
    using assms(1,4) by (metis lru_inv_def mset_map distinct_count_atmost_1 mset_eq_imp_distinct_iff)
  ultimately show ?thesis using assms by (auto simp: lru_inv_def lru_links_only_def same_nodes_def)
qed

definition lru_front :: "anti_cache \<Rightarrow> addr \<Rightarrow> addr list \<Rightarrow> addr list" where
  "lru_front s a xs = (case lru_map s (bno (ac_heap s) a) of None \<Rightarrow> a # xs | Some p \<Rightarrow> p # remove1 p xs)"

lemma move_front_ok:
  assumes "lru_inv s xs" and "p \<in> set xs"
  shows "\<exists>s'. (if lru_head s = Some p then Some s else do { s \<leftarrow> lru_unlink p s; lru_link_front p s }) = Some s' \<and>
    lru_inv s' (p # remove1 p xs) \<and> lru_links_only (set xs) s s'"
proof -
  have l: "lru_list s xs" and d: "distinct xs" using assms(1) by (auto simp: lru_inv_def lru_list_def)
  obtain us vs where xs: "xs = us @ p # vs" using assms(2) by (meson split_list)
  show ?thesis
  proof (cases us rule: rev_cases)
    case Nil
    then show ?thesis using xs l assms(1)
      by (auto simp: lru_list_def lru_links_only_def same_nodes_def)
  next
    case (snoc ws w)
    then have xs': "xs = ws @ w # p # vs" using xs by simp
    obtain s1 where s1: "lru_unlink p s = Some s1" "lru_list s1 (ws @ w # vs)"
        "lru_links_only (set (ws @ w # vs)) s s1"
      using lru_unlink_ok [OF l [unfolded xs']] by blast
    obtain y zs where y: "ws @ w # vs = y # zs" by (cases ws) auto
    have np: "p \<notin> set (y # zs)" using d xs' unfolding y [symmetric] by auto
    have "ac_heap s p \<noteq> None" using l assms(2) dll_node by (auto simp: lru_list_def)
    then obtain n where "ac_heap s1 p = Some n" using s1(3)
      by (metis lru_links_only_def same_nodes_def not_None_eq)
    then obtain s2 where s2: "lru_link_front p s1 = Some s2" "lru_list s2 (p # y # zs)"
        "lru_links_only (set (p # y # zs)) s1 s2"
      using lru_link_front_ok [OF s1(2) [unfolded y] np] by blast
    have st: "set (p # y # zs) = set xs" unfolding set_simps(2) [of p] y [symmetric] by (auto simp: xs')
    have lo: "lru_links_only (set xs) s s2"
      using same_nodes_trans [OF lru_links_only_mono [OF s1(3)] lru_links_only_mono [OF s2(3)], of "set xs"]
        st y by auto
    have m: "mset (p # y # zs) = mset xs" unfolding y [symmetric] by (simp add: xs')
    have "lru_inv s2 (p # y # zs)" using lru_inv_links [OF assms(1) lo s2(2) m] .
    moreover have "p # remove1 p xs = p # y # zs" using d y by (simp add: xs' remove1_append)
    moreover have "lru_head s \<noteq> Some p" using l xs' d by (cases ws) (auto simp: lru_list_def)
    ultimately show ?thesis using s1(1) s2(1) lo by simp
  qed
qed

lemma add_front_ok:
  assumes "lru_inv s xs" and "a \<notin> set xs" and "ac_heap s a = Some n" and "length xs + 1 < 2 ^ 64"
    and "lru_map s (bno (ac_heap s) a) = None" and "lru_list s' (a # xs)" and "same_nodes A s s'"
    and "lru_map s' = lru_hash_map_insert (lru_map s) (bno (ac_heap s) a) a" and "lru_num s' = lru_num s + 1"
  shows "lru_inv s' (a # xs)"
proof -
  have map: "\<forall>b c. lru_map s b = Some c \<longleftrightarrow> c \<in> set xs \<and> bno (ac_heap s) c = b"
    using assms(1) by (simp add: lru_inv_def)
  have na: "bno (ac_heap s) a \<notin> bno (ac_heap s) ` set xs" using assms(5) map by (metis imageE option.distinct(1))
  have m': "lru_map s' = (lru_map s)(bno (ac_heap s) a \<mapsto> a)"
    using assms(5,8) by (simp add: lru_hash_map_insert_def)
  have "lru_map s' b = Some c \<longleftrightarrow> c \<in> set (a # xs) \<and> bno (ac_heap s) c = b" for b c
    using na map unfolding m' by (cases "b = bno (ac_heap s) a") (auto, metis imageI)
  then show ?thesis using assms(1,4,6,7,9) na
    by (simp add: lru_inv_def same_nodes_def)
qed

lemma lru_push_ok:
  assumes "lru_inv s xs" and "a \<notin> set xs" and "ac_heap s a = Some n" and "length xs + 1 < 2 ^ 64"
  shows "\<exists>s'. lru_push a s = Some s' \<and> lru_inv s' (lru_front s a xs) \<and> same_nodes (insert a (set xs)) s s'"
proof -
  define s1 where "s1 = s\<lparr>ac_heap := (ac_heap s)(a \<mapsto> n\<lparr>ln_prev := None, ln_next := None\<rparr>)\<rparr>"
  have h1: "ac_heap s1 a = Some (n\<lparr>ln_prev := None, ln_next := None\<rparr>)" by (simp add: s1_def)
  have ln: "ln_blockno n = bno (ac_heap s) a" using assms(3) by (simp add: bno_def)
  have b1: "bno (ac_heap s1) = bno (ac_heap s)" using assms(3) by (simp add: s1_def)
  have lo: "lru_links_only {a} s s1" using assms(3) b1 by (auto simp: lru_links_only_def same_nodes_def s1_def)
  have "lru_list s1 xs"
    using assms(1,2) dll_frame [of "ac_heap s" None xs None "ac_heap s1"] by (auto simp: s1_def lru_inv_def lru_list_def)
  then have i1: "lru_inv s1 xs" using lru_inv_links [OF assms(1) lo] by simp
  have m1: "lru_map s1 = lru_map s" "lru_num s1 = lru_num s" by (simp_all add: s1_def)
  have start: "lru_push a s = (if lru_num s1 = 0 then
       Some (s1\<lparr>lru_head := Some a, lru_tail := Some a,
              lru_map := lru_hash_map_insert (lru_map s1) (bno (ac_heap s) a) a, lru_num := lru_num s1 + 1\<rparr>)
     else (case lru_map s (bno (ac_heap s) a) of
       Some p \<Rightarrow> (if lru_head s1 = Some p then Some s1 else do { s \<leftarrow> lru_unlink p s1; lru_link_front p s })
     | None \<Rightarrow> do { s \<leftarrow> lru_link_front a s1;
         Some (s\<lparr>lru_map := lru_hash_map_insert (lru_map s) (bno (ac_heap s1) a) a, lru_num := lru_num s + 1\<rparr>) }))"
    using assms(3) ln b1
    by (cases "lru_map s (bno (ac_heap s) a)")
       (simp_all add: lru_push_def set_prev_eq set_next_eq s1_def lru_hash_map_find_def)
  have sub: "same_nodes (insert a (set xs)) s s'" if "lru_links_only (insert a (set xs)) s1 s'" for s'
    using same_nodes_trans [OF lru_links_only_mono [OF lo] that] by (simp add: lru_links_only_def)
  show ?thesis
  proof (cases "lru_map s (bno (ac_heap s) a)")
    case (Some p)
    then have p: "p \<in> set xs" using assms(1) by (auto simp: lru_inv_def)
    then have "lru_num s1 \<noteq> 0" using lru_num_eq(1) [OF i1] by auto
    then show ?thesis unfolding start lru_front_def Some
      using move_front_ok [OF i1 p] sub [OF lru_links_only_mono [OF _ subset_insertI]] by auto
  next
    case None
    note add = add_front_ok [OF i1 assms(2) h1 assms(4)]
    show ?thesis
    proof (cases xs)
      case Nil
      let ?s = "s1\<lparr>lru_head := Some a, lru_tail := Some a,
              lru_map := lru_hash_map_insert (lru_map s1) (bno (ac_heap s) a) a, lru_num := lru_num s1 + 1\<rparr>"
      have "lru_list ?s [a]" using h1 by (simp add: lru_list_def)
      moreover have sn: "same_nodes (insert a (set xs)) s1 ?s" by (simp add: same_nodes_def)
      ultimately have "lru_inv ?s (a # xs)" using add [where s' = ?s and A = "insert a (set xs)"] None Nil b1 m1 by simp
      moreover have "same_nodes (insert a (set xs)) s ?s" using sn lo by (auto simp: same_nodes_def lru_links_only_def)
      ultimately show ?thesis unfolding start lru_front_def None using lru_num_eq(1) [OF i1] Nil by simp
    next
      case (Cons y zs)
      obtain s2 where s2: "lru_link_front a s1 = Some s2" "lru_list s2 (a # xs)" "lru_links_only (set (a # xs)) s1 s2"
        using lru_link_front_ok [of s1 y zs a] i1 assms(2) h1 Cons by (auto simp: lru_inv_def)
      let ?s = "s2\<lparr>lru_map := lru_hash_map_insert (lru_map s2) (bno (ac_heap s1) a) a, lru_num := lru_num s2 + 1\<rparr>"
      have "lru_inv ?s (a # xs)"
        using add [where s' = ?s and A = "set (a # xs)"] s2(2,3) None b1 m1 by (simp add: lru_list_def lru_links_only_def same_nodes_def)
      moreover have "same_nodes (insert a (set xs)) s ?s" using sub [of s2] s2(3) by (simp add: same_nodes_def)
      ultimately show ?thesis unfolding start lru_front_def None using s2(1) lru_num_eq(1) [OF i1] Cons by simp
    qed
  qed
qed


lemma lru_pop_ok:
  assumes "lru_inv s (zs @ [t])" and "zs \<noteq> []"
  shows "\<exists>s'. lru_pop s = Some (Some t, s') \<and> lru_inv s' zs \<and> same_nodes (set zs) s s'"
proof -
  obtain ws w where zs: "zs = ws @ [w]" using assms(2) by (meson rev_exhaust)
  let ?h = "ac_heap s"
  have i: "distinct (ws @ [w, t])" "dll ?h None (ws @ [w]) (Some t)" "dll ?h (Some w) [t] None"
    "lru_head s = hdo (ws @ [w, t]) None" "lru_tail s = Some t" "lru_num s = of_nat (length (ws @ [w, t]))"
    "length (ws @ [w, t]) < 2 ^ 64" "distinct (map (bno ?h) (ws @ [w, t]))"
    "\<forall>b a. lru_map s b = Some a \<longleftrightarrow> a \<in> set (ws @ [w, t]) \<and> bno ?h a = b"
    using assms(1) zs dll_append [of ?h None "ws @ [w]" "[t]" None]
    by (auto simp: lru_inv_def lru_list_def)
  obtain nt where nt: "?h t = Some nt" "ln_prev nt = Some w" using i(3) by (auto split: option.splits)
  obtain nw where nw: "?h w = Some nw" using dll_last_next [OF i(2)] by metis
  let ?h1 = "?h(w \<mapsto> nw\<lparr>ln_next := None\<rparr>)"
  have l1: "dll ?h1 None (ws @ [w]) None" using dll_set_last [OF i(2) nw] i(1) by auto
  have n: "lru_num s \<noteq> 0" "lru_num s \<noteq> 1" using lru_num_eq [OF assms(1)] zs by auto
  let ?s = "s\<lparr>ac_heap := ?h1, lru_tail := Some w,
      lru_map := lru_hash_map_erase (lru_map s) (ln_blockno nt), lru_num := lru_num s - 1\<rparr>"
  have r: "lru_pop s = Some (Some t, ?s)"
    using n i(5) nt nw by (simp add: lru_pop_def set_next_def)
  have b: "ln_blockno nt = bno ?h t" using nt by (simp add: bno_def)
  have nb: "bno ?h t \<notin> bno ?h ` set (ws @ [w])" using i(8) by auto
  have "lru_map ?s c = Some a \<longleftrightarrow> a \<in> set (ws @ [w]) \<and> bno ?h a = c" for c a
    using i(9) nb b by (auto simp: lru_hash_map_erase_def image_iff)
  moreover have "hdo (ws @ [w]) None = hdo (ws @ [w, t]) None" by (cases ws) auto
  ultimately have "lru_inv ?s zs" unfolding zs using l1 i nw
    by (auto simp: lru_inv_def lru_list_def)
  moreover have "same_nodes (set zs) s ?s" using nw zs by (auto simp: same_nodes_def)
  ultimately show ?thesis using r by blast
qed

lemma lru_linked_frame:
  assumes "lru_linked s xs" and "\<forall>z \<in> set xs. ac_heap s' z = ac_heap s z"
    and "lru_head s' = lru_head s" "lru_tail s' = lru_tail s" "lru_map s' = lru_map s"
  shows "lru_linked s' xs"
proof -
  have b: "bno (ac_heap s') z = bno (ac_heap s) z" if "z \<in> set xs" for z using that assms(2) by (simp add: bno_def)
  then have m: "map (bno (ac_heap s')) xs = map (bno (ac_heap s)) xs" by simp
  have "distinct (map (bno (ac_heap s')) xs)" unfolding m using assms(1) by (simp add: lru_linked_def)
  moreover have "dll (ac_heap s') None xs None"
    using assms(1,2) by (auto simp: lru_linked_def lru_list_def intro: dll_frame)
  ultimately show ?thesis using assms b by (auto simp: lru_linked_def lru_list_def)
qed

lemma lru_inv_frame:
  assumes "lru_inv s xs" and "\<forall>z \<in> set xs. ac_heap s' z = ac_heap s z"
    and "lru_num s' = lru_num s" "lru_head s' = lru_head s" "lru_tail s' = lru_tail s" "lru_map s' = lru_map s"
  shows "lru_inv s' xs"
  using assms lru_linked_frame [of s xs s'] by (simp add: lru_inv_linked)

lemma queue_inv_frame:
  assumes "queue_inv s ys" and "\<forall>z \<in> set ys. ac_heap s' z = ac_heap s z"
    and "q_num s' = q_num s" "q_head s' = q_head s" "q_tail s' = q_tail s"
  shows "queue_inv s' ys"
  using assms dll_frame [of "ac_heap s" None ys None "ac_heap s'"] by (auto simp: queue_inv_def)

lemma map_remove1_inj:
  "distinct (map f xs) \<Longrightarrow> p \<in> set xs \<Longrightarrow> map f (remove1 p xs) = remove1 (f p) (map f xs)"
  by (induction xs) (auto simp: image_iff)

text \<open>The effect of an access on the block numbers, most recently used first.\<close>

definition touch_block :: "u64 \<Rightarrow> u64 list \<Rightarrow> u64 list" where
  "touch_block b bs = b # remove1 b bs"

lemma lru_front_blocks:
  assumes "lru_inv s xs"
  shows "map (bno (ac_heap s)) (lru_front s a xs) =
    touch_block (bno (ac_heap s) a) (map (bno (ac_heap s)) xs)"
proof (cases "lru_map s (bno (ac_heap s) a)")
  case None
  then have "bno (ac_heap s) a \<notin> bno (ac_heap s) ` set xs"
    using assms by (metis imageE lru_inv_def option.distinct(1))
  then show ?thesis using None by (simp add: lru_front_def touch_block_def remove1_idem)
next
  case (Some p)
  then have "p \<in> set xs" "bno (ac_heap s) p = bno (ac_heap s) a" "distinct (map (bno (ac_heap s)) xs)"
    using assms by (auto simp: lru_inv_def)
  then show ?thesis using Some by (simp add: lru_front_def touch_block_def map_remove1_inj)
qed

lemma lru_front_set: "lru_inv s xs \<Longrightarrow> set (lru_front s a xs) \<subseteq> insert a (set xs)"
  "lru_inv s xs \<Longrightarrow> length (lru_front s a xs) \<le> length xs + 1"
  using set_remove1_subset length_remove1
  by (fastforce simp: lru_front_def lru_inv_def split: option.splits,
      fastforce simp: lru_front_def lru_inv_def length_remove1 split: option.splits)

lemma update_lru_ok:
  assumes "ac_inv s xs ys" and "length xs + length ys < 2 ^ 64" and "length ys < n"
  shows "\<exists>s' xs'. update_lru_loop n s = Some (length ys, s') \<and> ac_inv s' xs' [] \<and>
    map (bno (ac_heap s')) xs' =
      fold touch_block (map (bno (ac_heap s)) ys) (map (bno (ac_heap s)) xs)"
  using assms
proof (induction n arbitrary: s xs ys)
  case (Suc n)
  have inv: "heap_inv s" "lru_inv s xs" "queue_inv s ys" "set xs \<inter> set ys = {}"
    using Suc.prems(1) by (auto simp: ac_inv_def)
  show ?case
  proof (cases ys)
    case Nil
    then have "lru_staging_queue_pop s = Some (None, s)"
      using inv(3) by (simp add: lru_staging_queue_pop_def queue_inv_def)
    then show ?thesis using Nil Suc.prems(1) by auto
  next
    case (Cons a ys')
    obtain h where q: "lru_staging_queue_pop s = Some (Some a, s\<lparr>ac_heap := h, q_num := q_num s - 1,
          q_head := hdo ys' None, q_tail := lasto ys' None\<rparr>)"
        "dll h None ys' None" "bno h = bno (ac_heap s)" "\<forall>z. z \<notin> set ys' \<longrightarrow> h z = ac_heap s z" "h a \<noteq> None"
      using queue_pop_ok inv(3) Cons by blast
    let ?s1 = "s\<lparr>ac_heap := h, q_num := q_num s - 1, q_head := hdo ys' None, q_tail := lasto ys' None\<rparr>"
    have dis: "a \<notin> set xs" "set xs \<inter> set ys' = {}" "a \<notin> set ys'" "distinct ys'"
      using inv(3,4) Cons by (auto simp: queue_inv_def)
    have i1: "lru_inv ?s1 xs" by (rule lru_inv_frame [OF inv(2)]) (use q(4) dis in auto)
    have q1: "queue_inv ?s1 ys'" using q(2) inv(3) Cons by (auto simp: queue_inv_def)
    obtain n1 where n1: "ac_heap ?s1 a = Some n1" using q(5) by auto
    obtain s2 where s2: "lru_push a ?s1 = Some s2" "lru_inv s2 (lru_front ?s1 a xs)"
        "same_nodes (insert a (set xs)) ?s1 s2"
      using lru_push_ok [OF i1 dis(1) n1] Suc.prems(2) Cons by auto
    let ?xs2 = "lru_front ?s1 a xs"
    have q2: "queue_inv s2 ys'" by (rule queue_inv_frame [OF q1]) (use s2(3) dis in \<open>auto simp: same_nodes_def\<close>)
    have "heap_inv s2"
    proof -
      have ys: "h z \<noteq> None \<and> ac_heap s z \<noteq> None" if "z \<in> set ys'" for z
        using dll_node [OF q(2) that] dll_node [of "ac_heap s" None ys None z] that inv(3) Cons
        by (simp add: queue_inv_def)
      have "\<forall>z. ac_heap ?s1 z = None \<longleftrightarrow> ac_heap s z = None"
      proof
        fix z show "ac_heap ?s1 z = None \<longleftrightarrow> ac_heap s z = None"
          using ys [of z] q(4) by (cases "z \<in> set ys'") auto
      qed
      then show ?thesis using inv(1) s2(3) by (simp add: heap_inv_def same_nodes_def)
    qed
    then have i2: "ac_inv s2 ?xs2 ys'"
      using s2(2) q2 lru_front_set(1) [OF i1, of a] dis by (auto simp: ac_inv_def)
    have len: "length ?xs2 + length ys' < 2 ^ 64" using lru_front_set(2) [OF i1, of a] Suc.prems(2) Cons by simp
    obtain s' xs' where r: "update_lru_loop n s2 = Some (length ys', s')" "ac_inv s' xs' []"
        "map (bno (ac_heap s')) xs' = fold touch_block (map (bno (ac_heap s2)) ys') (map (bno (ac_heap s2)) ?xs2)"
      using Suc.IH [OF i2 len] Suc.prems(3) Cons by auto
    have b2: "bno (ac_heap s2) = bno (ac_heap s)" using s2(3) q(3) by (simp add: same_nodes_def)
    have "map (bno (ac_heap s)) ?xs2 = touch_block (bno (ac_heap s) a) (map (bno (ac_heap s)) xs)"
      using lru_front_blocks [OF i1, of a] q(3) by simp
    then show ?thesis using r q(1) s2(1) b2 Cons by auto
  qed
qed simp

lemma collect_victims_ok:
  assumes "lru_inv s xs" and "a \<notin> set xs" and "ac_heap s a \<noteq> None" and "k < length xs"
  shows "\<exists>s'. collect_victims k (Some a) s =
      Some (take k (bno (ac_heap s) a # rev (map (bno (ac_heap s)) xs)), s') \<and>
    lru_inv s' (take (length xs - k) xs) \<and>
    map (bno (ac_heap s')) (take (length xs - k) xs) = map (bno (ac_heap s)) (take (length xs - k) xs)"
  using assms
proof (induction k arbitrary: s xs a)
  case 0
  then show ?case by simp
next
  case (Suc k)
  obtain n where n: "ac_heap s a = Some n" using Suc.prems(3) by auto
  let ?s1 = "s\<lparr>ac_heap := (ac_heap s)(a := None)\<rparr>"
  have i1: "lru_inv ?s1 xs" by (rule lru_inv_frame [OF Suc.prems(1)]) (use Suc.prems(2) in auto)
  have b1: "map (bno (ac_heap ?s1)) zs = map (bno (ac_heap s)) zs" if "set zs \<subseteq> set xs" for zs
    using that Suc.prems(2) by (auto simp: bno_def)
  obtain zs t where xs: "xs = zs @ [t]" "zs \<noteq> []"
  proof (cases xs rule: rev_cases)
    case (snoc zs t)
    moreover from this have "zs \<noteq> []" using Suc.prems(4) by auto
    ultimately show thesis using that by blast
  qed (use Suc.prems(4) in simp)
  obtain s2 where p: "lru_pop ?s1 = Some (Some t, s2)" "lru_inv s2 zs" "same_nodes (set zs) ?s1 s2"
    using lru_pop_ok [OF i1 [unfolded xs(1)] xs(2)] by blast
  have t: "t \<notin> set zs" "ac_heap s2 t \<noteq> None"
  proof -
    show "t \<notin> set zs" using i1 xs(1) by (simp add: lru_inv_def lru_list_def)
    have "ac_heap ?s1 t \<noteq> None" using i1 xs(1) dll_node [of "ac_heap ?s1" None xs None t]
      by (simp add: lru_inv_def lru_list_def)
    then show "ac_heap s2 t \<noteq> None" using p(3) by (metis same_nodes_def)
  qed
  have b2: "bno (ac_heap s2) = bno (ac_heap ?s1)" using p(3) by (simp add: same_nodes_def)
  have k: "k < length zs" using Suc.prems(4) xs by simp
  obtain s' where r: "collect_victims k (Some t) s2 =
      Some (take k (bno (ac_heap s2) t # rev (map (bno (ac_heap s2)) zs)), s')"
      "lru_inv s' (take (length zs - k) zs)"
      "map (bno (ac_heap s')) (take (length zs - k) zs) = map (bno (ac_heap s2)) (take (length zs - k) zs)"
    using Suc.IH [OF p(2) t k] by blast
  have tk: "take (length xs - Suc k) xs = take (length zs - k) zs" using xs(1) k by simp
  have rv: "bno (ac_heap s2) t # rev (map (bno (ac_heap s2)) zs) = rev (map (bno (ac_heap s)) xs)"
    using b1 [of xs] by (simp add: xs(1) b2)
  have "free_node a s = Some ?s1" "ln_blockno n = bno (ac_heap s) a" using n by (simp_all add: free_node_def bno_def)
  then have "collect_victims (Suc k) (Some a) s =
      Some (take (Suc k) (bno (ac_heap s) a # rev (map (bno (ac_heap s)) xs)), s')"
    using n p(1) r(1) rv by simp
  moreover have "map (bno (ac_heap s')) (take (length zs - k) zs) = map (bno (ac_heap s)) (take (length zs - k) zs)"
    using r(3) b2 b1 [of "take (length zs - k) zs"] set_take_subset [of "length zs - k" zs] xs(1) by auto
  ultimately show ?case using r(2) tk by auto
qed

section \<open>The queue interface\<close>

lemma allocated_below:
  assumes "ac_linked s xs ys" and "a \<in> set xs \<union> set ys"
  shows "a < ac_fresh s"
proof -
  have "ac_heap s a \<noteq> None"
    using assms dll_node by (fastforce simp: ac_linked_def lru_linked_def lru_list_def queue_inv_def)
  then show ?thesis using assms(1) by (auto simp: ac_linked_def heap_inv_def not_le [symmetric])
qed

lemma access_linked:
  assumes "ac_linked s xs ys"
  shows "\<exists>s' a. anti_cache_manager_access b s = Some s' \<and> ac_linked s' xs (ys @ [a]) \<and>
    map (bno (ac_heap s')) (ys @ [a]) = map (bno (ac_heap s)) ys @ [b] \<and>
    map (bno (ac_heap s')) xs = map (bno (ac_heap s)) xs \<and> lru_num s' = lru_num s \<and> lru_map s' = lru_map s"
proof -
  let ?a = "ac_fresh s"
  let ?n = "\<lparr>ln_blockno = b, ln_prev = None, ln_next = None\<rparr>"
  let ?s1 = "s\<lparr>ac_heap := (ac_heap s)(?a \<mapsto> ?n), ac_fresh := ?a + 1\<rparr>"
  have new: "?a \<notin> set xs" "?a \<notin> set ys" using allocated_below [OF assms] by blast+
  have inv: "heap_inv s" "lru_linked s xs" "queue_inv s ys" "set xs \<inter> set ys = {}"
    using assms by (auto simp: ac_linked_def)
  have q1: "queue_inv ?s1 ys" by (rule queue_inv_frame [OF inv(3)]) (use new in auto)
  have l1: "lru_linked ?s1 xs" by (rule lru_linked_frame [OF inv(2)]) (use new in auto)
  obtain h where p: "lru_staging_queue_push ?a ?s1 = Some (?s1\<lparr>ac_heap := h, q_num := q_num ?s1 + 1,
      q_head := hdo (ys @ [?a]) None, q_tail := Some ?a\<rparr>)"
    "dll h None (ys @ [?a]) None" "bno h = bno (ac_heap ?s1)"
    "\<forall>z. z \<notin> set (ys @ [?a]) \<longrightarrow> h z = ac_heap ?s1 z"
    using queue_push_ok [OF q1, of ?a b] new by auto
  let ?s2 = "?s1\<lparr>ac_heap := h, q_num := q_num ?s1 + 1, q_head := hdo (ys @ [?a]) None, q_tail := Some ?a\<rparr>"
  have l2: "lru_linked ?s2 xs" by (rule lru_linked_frame [OF l1]) (use p(4) inv(4) new in auto)
  have q2: "queue_inv ?s2 (ys @ [?a])" using p(2) inv(3) new by (simp add: queue_inv_def)
  have h2: "heap_inv ?s2"
    unfolding heap_inv_def
  proof (intro allI impI)
    fix z assume "ac_fresh ?s2 \<le> z"
    then have z: "ac_fresh s < z" by simp
    then have "z \<notin> set (ys @ [?a])" using allocated_below [OF assms, of z] by auto
    then show "ac_heap ?s2 z = None" using p(4) z inv(1) by (simp add: heap_inv_def)
  qed
  have "bno h z = bno (ac_heap s) z" if "z \<in> set xs \<union> set ys" for z
    using p(3) that new by (auto simp: bno_def)
  moreover have "bno h ?a = b" using p(3) by (simp add: bno_def)
  ultimately have "map (bno h) (ys @ [?a]) = map (bno (ac_heap s)) ys @ [b]" "map (bno h) xs = map (bno (ac_heap s)) xs"
    by simp_all
  moreover have "ac_linked ?s2 xs (ys @ [?a])" using l2 q2 h2 inv(4) new by (simp add: ac_linked_def)
  ultimately show ?thesis using p(1) by (auto simp: anti_cache_manager_access_def Let_def)
qed

lemma queue_pop_linked:
  assumes "ac_linked s xs (a # ys)"
  shows "\<exists>s'. lru_staging_queue_pop s = Some (Some a, s') \<and> ac_linked s' xs ys \<and> bno (ac_heap s') = bno (ac_heap s) \<and>
    ac_heap s' a \<noteq> None \<and> lru_num s' = lru_num s \<and> lru_map s' = lru_map s \<and> lru_head s' = lru_head s \<and> lru_tail s' = lru_tail s"
proof -
  have q: "queue_inv s (a # ys)" "lru_linked s xs" "heap_inv s" "set xs \<inter> set (a # ys) = {}"
    using assms by (auto simp: ac_linked_def)
  obtain h where p: "lru_staging_queue_pop s = Some (Some a, s\<lparr>ac_heap := h, q_num := q_num s - 1,
        q_head := hdo ys None, q_tail := lasto ys None\<rparr>)"
      "dll h None ys None" "bno h = bno (ac_heap s)" "\<forall>z. z \<notin> set ys \<longrightarrow> h z = ac_heap s z" "h a \<noteq> None"
    using queue_pop_ok [OF q(1)] by blast
  let ?s = "s\<lparr>ac_heap := h, q_num := q_num s - 1, q_head := hdo ys None, q_tail := lasto ys None\<rparr>"
  have "lru_linked ?s xs" by (rule lru_linked_frame [OF q(2)]) (use p(4) q(4) in auto)
  moreover have "heap_inv ?s" unfolding heap_inv_def
  proof (intro allI impI)
    fix z assume "ac_fresh ?s \<le> z"
    moreover from this have "z \<notin> set ys" using allocated_below [OF assms, of z] by auto
    ultimately show "ac_heap ?s z = None" using p(4) q(3) by (simp add: heap_inv_def)
  qed
  moreover have "queue_inv ?s ys" using p(2) q(1) by (simp add: queue_inv_def)
  ultimately have "ac_linked ?s xs ys" using q(4) by (auto simp: ac_linked_def)
  then show ?thesis using p(1,3,5) by auto
qed

text \<open>What the manager relies on: the staging queue is first-in first-out.\<close>

locale fifo =
  fixes enq :: "'a \<Rightarrow> 's \<Rightarrow> 's option"
    and deq :: "'s \<Rightarrow> ('a option \<times> 's) option"
    and holds :: "'s \<Rightarrow> 'a list \<Rightarrow> bool"
  assumes enq_holds: "holds s xs \<Longrightarrow> \<exists>s'. enq x s = Some s' \<and> holds s' (xs @ [x])"
    and deq_holds: "holds s (x # xs) \<Longrightarrow> \<exists>s'. deq s = Some (Some x, s') \<and> holds s' xs"
    and deq_empty: "holds s [] \<Longrightarrow> deq s = Some (None, s)"
begin

primrec enq_all :: "'a list \<Rightarrow> 's \<Rightarrow> 's option" where
  "enq_all [] s = Some s"
| "enq_all (x # xs) s = Option.bind (enq x s) (enq_all xs)"

primrec drain :: "nat \<Rightarrow> 's \<Rightarrow> 'a list option" where
  "drain 0 s = None"
| "drain (Suc n) s = do {
     (x, s) \<leftarrow> deq s;
     case x of None \<Rightarrow> Some [] | Some y \<Rightarrow> map_option (Cons y) (drain n s)
   }"

lemma enq_all_holds:
  assumes "holds s xs"
  shows "\<exists>s'. enq_all ys s = Some s' \<and> holds s' (xs @ ys)"
  using assms
proof (induction ys arbitrary: s xs)
  case (Cons y ys)
  obtain s1 where "enq y s = Some s1" "holds s1 (xs @ [y])" using enq_holds [OF Cons.prems] by blast
  then show ?case using Cons.IH [of s1 "xs @ [y]"] by auto
qed simp

lemma drain_holds: "holds s xs \<Longrightarrow> length xs < n \<Longrightarrow> drain n s = Some xs"
proof (induction n arbitrary: s xs)
  case (Suc n)
  show ?case
  proof (cases xs)
    case Nil
    then show ?thesis using deq_empty Suc.prems(1) by simp
  next
    case (Cons x ys)
    then obtain s1 where "deq s = Some (Some x, s1)" "holds s1 ys" using deq_holds Suc.prems(1) by blast
    then show ?thesis using Suc.IH Suc.prems(2) Cons by simp
  qed
qed simp

lemma fifo_order:
  assumes "holds s xs"
  shows "\<exists>s'. enq_all ys s = Some s' \<and> drain (Suc (length xs + length ys)) s' = Some (xs @ ys)"
  using enq_all_holds [OF assms, of ys] drain_holds by fastforce

end

definition staged_pop :: "anti_cache \<Rightarrow> (u64 option \<times> anti_cache) option" where
  "staged_pop s = do {
     (a, s) \<leftarrow> lru_staging_queue_pop s;
     Some (map_option (bno (ac_heap s)) a, s)
   }"

text \<open>The calls of the file system rely on the links only: the queue holds \<open>bs\<close>, whatever the element count of the resident
  list is.\<close>

definition staged :: "anti_cache \<Rightarrow> u64 list \<Rightarrow> bool" where
  "staged s bs \<longleftrightarrow> (\<exists>xs ys. ac_linked s xs ys \<and> map (bno (ac_heap s)) ys = bs)"

interpretation staging: fifo anti_cache_manager_access staged_pop staged
proof
  fix s bs b
  show "\<exists>s'. anti_cache_manager_access b s = Some s' \<and> staged s' (bs @ [b])" if "staged s bs"
    using that access_linked [of s _ _ b] unfolding staged_def by metis
  show "\<exists>s'. staged_pop s = Some (Some b, s') \<and> staged s' bs" if st: "staged s (b # bs)"
  proof -
    obtain xs a ys where i: "ac_linked s xs (a # ys)" "bno (ac_heap s) a = b" "map (bno (ac_heap s)) ys = bs"
      using st by (auto simp: staged_def)
    obtain s' where "lru_staging_queue_pop s = Some (Some a, s')" "ac_linked s' xs ys" "bno (ac_heap s') = bno (ac_heap s)"
      using queue_pop_linked [OF i(1)] by blast
    then show ?thesis using i(2,3) unfolding staged_def staged_pop_def by fastforce
  qed
  show "staged_pop s = Some (None, s)" if "staged s []"
    using that by (auto simp: staged_def staged_pop_def ac_linked_def queue_inv_def lru_staging_queue_pop_def)
qed

section \<open>Deleting entries\<close>

text \<open>The part of a deletion that takes the node out of the list.\<close>

lemma delete_links_ok:
  assumes "lru_list s (us @ p # vs)" and "ac_heap s p = Some n"
  shows "\<exists>s'. (if ln_prev n = None \<and> ln_next n = None then Some (s\<lparr>lru_head := None, lru_tail := None\<rparr>)
        else if ln_prev n = None then do { s \<leftarrow> set_prev (ln_next n) None s; Some (s\<lparr>lru_head := ln_next n\<rparr>) }
        else if ln_next n = None then do { s \<leftarrow> set_next (ln_prev n) None s; Some (s\<lparr>lru_tail := ln_prev n\<rparr>) }
        else do { s \<leftarrow> set_next (ln_prev n) (ln_next n) s; set_prev (ln_next n) (ln_prev n) s }) = Some s' \<and>
    lru_list s' (us @ vs) \<and> lru_links_only (set (us @ vs)) s s'"
proof -
  let ?h = "ac_heap s"
  have d: "distinct (us @ p # vs)" and l: "dll ?h (lasto us None) (p # vs) None"
    and hd: "lru_head s = hdo (us @ p # vs) None" and tl: "lru_tail s = lasto (us @ p # vs) None"
    using assms(1) by (auto simp: lru_list_def dll_append split: option.splits)
  have n: "ln_prev n = lasto us None" "ln_next n = hdo vs None" "dll ?h (Some p) vs None" using l assms(2) by auto
  show ?thesis
  proof (cases us rule: rev_cases)
    case Nil
    show ?thesis
    proof (cases vs)
      case Nil
      then show ?thesis using \<open>us = []\<close> n by (auto simp: lru_list_def lru_links_only_def same_nodes_def)
    next
      case (Cons v vs')
      obtain nv where nv: "?h v = Some nv" using n(3) Cons by (auto split: option.splits)
      let ?h1 = "?h(v \<mapsto> nv\<lparr>ln_prev := None\<rparr>)"
      have "dll ?h1 None (v # vs') None" using dll_set_first [OF n(3) [unfolded Cons] nv] d Cons by auto
      then have "lru_list (s\<lparr>ac_heap := ?h1, lru_head := Some v\<rparr>) (us @ vs)" using d tl Cons \<open>us = []\<close> by (simp add: lru_list_def)
      moreover have "lru_links_only (set (us @ vs)) s (s\<lparr>ac_heap := ?h1, lru_head := Some v\<rparr>)"
        using nv Cons by (auto simp: lru_links_only_def same_nodes_def)
      ultimately show ?thesis using n nv Cons \<open>us = []\<close> by (simp add: set_prev_def)
    qed
  next
    case (snoc ws w)
    then have "lru_list s (ws @ w # p # vs)" using assms(1) by simp
    from lru_unlink_ok [OF this] obtain s' where s': "lru_unlink p s = Some s'" "lru_list s' (us @ vs)" "lru_links_only (set (us @ vs)) s s'"
      using snoc by auto
    have "ln_prev n = Some w" using n(1) snoc by simp
    then show ?thesis using s' assms(2) by (cases "ln_next n") (auto simp: lru_unlink_def)
  qed
qed

text \<open>A deletion keeps the links and forgets to count.\<close>

lemma delete_lru_entry_ok:
  assumes "ac_linked s xs ys"
  shows "\<exists>s' zs. delete_lru_entry b s = Some s' \<and> ac_linked s' zs ys \<and> lru_num s' = lru_num s \<and>
    map (bno (ac_heap s')) zs = removeAll b (map (bno (ac_heap s)) xs) \<and> map (bno (ac_heap s')) ys = map (bno (ac_heap s)) ys"
proof (cases "lru_map s b")
  case None
  have "lru_map s b = Some a \<longleftrightarrow> a \<in> set xs \<and> bno (ac_heap s) a = b" for a using assms by (simp add: ac_linked_def lru_linked_def)
  then have "b \<notin> bno (ac_heap s) ` set xs" using None by auto
  then have "removeAll b (map (bno (ac_heap s)) xs) = map (bno (ac_heap s)) xs" by (simp add: removeAll_id)
  then show ?thesis using None assms by (auto simp: delete_lru_entry_def lru_hash_map_find_def)
next
  case (Some p)
  have inv: "heap_inv s" "lru_linked s xs" "queue_inv s ys" "set xs \<inter> set ys = {}" using assms by (auto simp: ac_linked_def)
  have p: "p \<in> set xs" "bno (ac_heap s) p = b" and l: "lru_list s xs" and db: "distinct (map (bno (ac_heap s)) xs)"
    and mp: "\<And>b a. lru_map s b = Some a \<longleftrightarrow> a \<in> set xs \<and> bno (ac_heap s) a = b"
    using inv(2) Some by (auto simp: lru_linked_def)
  obtain us vs where xs: "xs = us @ p # vs" using p(1) by (meson split_list)
  obtain n where n: "ac_heap s p = Some n" using l p(1) dll_node [of "ac_heap s" None xs None p] by (auto simp: lru_list_def)
  obtain s1 where s1: "(if ln_prev n = None \<and> ln_next n = None then Some (s\<lparr>lru_head := None, lru_tail := None\<rparr>)
        else if ln_prev n = None then do { s \<leftarrow> set_prev (ln_next n) None s; Some (s\<lparr>lru_head := ln_next n\<rparr>) }
        else if ln_next n = None then do { s \<leftarrow> set_next (ln_prev n) None s; Some (s\<lparr>lru_tail := ln_prev n\<rparr>) }
        else do { s \<leftarrow> set_next (ln_prev n) (ln_next n) s; set_prev (ln_next n) (ln_prev n) s }) = Some s1"
      "lru_list s1 (us @ vs)" "lru_links_only (set (us @ vs)) s s1" using delete_links_ok [OF l [unfolded xs] n] by blast
  have sn: "bno (ac_heap s1) = bno (ac_heap s)" "\<And>z. z \<notin> set (us @ vs) \<Longrightarrow> ac_heap s1 z = ac_heap s z"
      "\<And>z. ac_heap s1 z = None \<longleftrightarrow> ac_heap s z = None" "ac_fresh s1 = ac_fresh s" "q_num s1 = q_num s" "q_head s1 = q_head s"
      "q_tail s1 = q_tail s" "lru_map s1 = lru_map s" "lru_num s1 = lru_num s"
    using s1(3) by (auto simp: lru_links_only_def same_nodes_def)
  let ?s = "s1\<lparr>ac_heap := (ac_heap s1)(p := None), lru_map := (lru_map s1)(b := None)\<rparr>"
  have d: "p \<notin> set (us @ vs)" "distinct (us @ vs)" using l xs by (auto simp: lru_list_def)
  have bn: "bno (ac_heap ?s) z = bno (ac_heap s) z" if "z \<noteq> p" for z using that sn(1) by (simp add: bno_def fun_eq_iff)
  have nb: "b \<notin> bno (ac_heap s) ` set (us @ vs)" using db p(2) xs by auto
  then have nb': "bno (ac_heap s) a \<noteq> b" if "a \<in> set (us @ vs)" for a using that by blast
  have m: "map (bno (ac_heap ?s)) (us @ vs) = map (bno (ac_heap s)) (us @ vs)" by (rule map_cong [OF refl], rule bn) (use d(1) in auto)
  have "lru_list ?s (us @ vs)" using s1(2) d dll_frame [of "ac_heap s1" None "us @ vs" None "ac_heap ?s"] by (auto simp: lru_list_def)
  moreover have "distinct (map (bno (ac_heap ?s)) (us @ vs))" unfolding m using db xs by simp
  moreover have "lru_map ?s c = Some a \<longleftrightarrow> a \<in> set (us @ vs) \<and> bno (ac_heap ?s) a = c" for c a
    using mp [of c a] sn(8) bn [of a] nb' [of a] d(1) p(2) xs by (cases "a = p") auto
  ultimately have "lru_linked ?s (us @ vs)" by (simp add: lru_linked_def)
  moreover have "queue_inv ?s ys" by (rule queue_inv_frame [OF inv(3)]) (use sn inv(4) xs in auto)
  moreover have "heap_inv ?s" using inv(1) sn(3,4) by (simp add: heap_inv_def)
  ultimately have "ac_linked ?s (us @ vs) ys" using inv(4) xs by (auto simp: ac_linked_def)
  moreover have "delete_lru_entry b s = Some ?s"
    using Some n s1(1) sn(3) [of p] sn(8) by (auto simp: delete_lru_entry_def lru_hash_map_find_def lru_hash_map_erase_def free_node_def)
  moreover have "removeAll b (map (bno (ac_heap s)) xs) = map (bno (ac_heap s)) (us @ vs)" using nb p(2) by (simp add: xs removeAll_id image_Un)
  moreover have "map (bno (ac_heap ?s)) ys = map (bno (ac_heap s)) ys" by (rule map_cong [OF refl], rule bn) (use inv(4) p(1) in auto)
  ultimately show ?thesis using m sn(9) by auto
qed

lemma delete_staged:
  assumes "staged s bs"
  shows "\<exists>s'. delete_lru_entry b s = Some s' \<and> staged s' bs"
  using assms delete_lru_entry_ok [of s _ _ b] unfolding staged_def by metis

lemma delete_lru_entries_ok:
  assumes "ac_linked s xs ys"
  shows "\<exists>s' zs. anti_cache_manager_delete_lru_entries bs s = Some s' \<and> ac_linked s' zs ys \<and> lru_num s' = lru_num s \<and>
    map (bno (ac_heap s')) zs = filter (\<lambda>b. b \<notin> set bs) (map (bno (ac_heap s)) xs) \<and> map (bno (ac_heap s')) ys = map (bno (ac_heap s)) ys"
  using assms
proof (induction bs arbitrary: s xs)
  case (Cons b bs)
  obtain s1 zs where s1: "delete_lru_entry b s = Some s1" "ac_linked s1 zs ys" "lru_num s1 = lru_num s"
      "map (bno (ac_heap s1)) zs = removeAll b (map (bno (ac_heap s)) xs)" "map (bno (ac_heap s1)) ys = map (bno (ac_heap s)) ys"
    using delete_lru_entry_ok [OF Cons.prems] by blast
  obtain s' ws where s': "anti_cache_manager_delete_lru_entries bs s1 = Some s'" "ac_linked s' ws ys" "lru_num s' = lru_num s1"
      "map (bno (ac_heap s')) ws = filter (\<lambda>b. b \<notin> set bs) (map (bno (ac_heap s1)) zs)"
      "map (bno (ac_heap s')) ys = map (bno (ac_heap s1)) ys" using Cons.IH [OF s1(2)] by blast
  have "filter (\<lambda>c. c \<notin> set bs) (removeAll b cs) = filter (\<lambda>c. c \<notin> set (b # bs)) cs" for cs by (induction cs) auto
  then show ?case using s1 s' by (intro exI [of _ s'] exI [of _ ws]) simp
qed auto

section \<open>Properties\<close>

text \<open>A manager whose memory for the element count holds \<open>junk\<close>.\<close>

definition new_cache :: "u64 \<Rightarrow> anti_cache" where
  "new_cache junk = anti_cache_manager_init junk \<lparr>ac_heap = Map.empty, ac_fresh = 0, q_num = 0, q_head = None,
     q_tail = None, lru_num = 0, lru_head = None, lru_tail = None, lru_map = Map.empty\<rparr>"

lemma new_cache_linked: "ac_linked (new_cache junk) [] []" "lru_num (new_cache junk) = junk"
  by (simp_all add: new_cache_def anti_cache_manager_init_def lru_init_def lru_staging_queue_init_def
      ac_linked_def heap_inv_def lru_linked_def lru_list_def queue_inv_def)

lemma new_cache_inv: "ac_inv (new_cache 0) [] []"
  using new_cache_linked [of 0] by (simp add: ac_inv_linked)

lemma fold_touch: "fold touch_block bs [] = rev (remdups bs)"
proof (induction bs rule: rev_induct)
  case (snoc b bs)
  have "touch_block b (rev (remdups bs)) = rev (remdups (bs @ [b]))"
  proof -
    have "remdups (bs @ [b]) = removeAll b (remdups bs) @ [b]"
      by (induction bs) auto
    moreover have "remove1 b (rev (remdups bs)) = rev (removeAll b (remdups bs))"
      by (simp add: distinct_remove1_removeAll removeAll_filter_not_eq rev_filter)
    ultimately show ?thesis by (simp add: touch_block_def)
  qed
  then show ?case using snoc by simp
qed simp

lemma accesses_linked:
  assumes "ac_linked s xs ys"
  shows "\<exists>s' ys'. staging.enq_all bs s = Some s' \<and> ac_linked s' xs ys' \<and> lru_num s' = lru_num s \<and> lru_map s' = lru_map s \<and>
    map (bno (ac_heap s')) ys' = map (bno (ac_heap s)) ys @ bs \<and>
    map (bno (ac_heap s')) xs = map (bno (ac_heap s)) xs"
  using assms
proof (induction bs arbitrary: s ys)
  case (Cons b bs)
  obtain s1 a where a: "anti_cache_manager_access b s = Some s1" "ac_linked s1 xs (ys @ [a])"
    "map (bno (ac_heap s1)) (ys @ [a]) = map (bno (ac_heap s)) ys @ [b]"
    "map (bno (ac_heap s1)) xs = map (bno (ac_heap s)) xs" "lru_num s1 = lru_num s" "lru_map s1 = lru_map s"
    using access_linked [OF Cons.prems] by blast
  obtain s' ys' where r: "staging.enq_all bs s1 = Some s'" "ac_linked s' xs ys'" "lru_num s' = lru_num s1" "lru_map s' = lru_map s1"
      "map (bno (ac_heap s')) ys' = map (bno (ac_heap s1)) (ys @ [a]) @ bs"
      "map (bno (ac_heap s')) xs = map (bno (ac_heap s1)) xs"
    using Cons.IH [OF a(2)] by blast
  have "staging.enq_all (b # bs) s = Some s'" using a(1) r(1) by simp
  moreover have "map (bno (ac_heap s')) ys' = map (bno (ac_heap s)) ys @ b # bs" using r(5) a(3) by simp
  ultimately show ?case using r(2,3,4,6) a(4,5,6) by metis
qed auto

text \<open>An empty list with a count that is not zero: the first staged node makes \<^verbatim>\<open>lru_push\<close> write through the null head.\<close>

lemma update_lru_null_head:
  assumes "ac_linked s [] ys" and "ys \<noteq> []" and "lru_num s \<noteq> 0"
  shows "update_lru_loop fuel s = None"
proof (cases fuel)
  case (Suc n)
  obtain a ys' where ys: "ys = a # ys'" using assms(2) by (cases ys) auto
  obtain s1 where s1: "lru_staging_queue_pop s = Some (Some a, s1)" "ac_linked s1 [] ys'" "ac_heap s1 a \<noteq> None" "lru_num s1 = lru_num s"
    using queue_pop_linked [OF assms(1) [unfolded ys]] by blast
  have e: "lru_head s1 = None" "lru_map s1 = Map.empty"
  proof -
    have l: "lru_list s1 []" "\<And>b a. lru_map s1 b \<noteq> Some a" using s1(2) by (auto simp: ac_linked_def lru_linked_def)
    then show "lru_head s1 = None" by (simp add: lru_list_def)
    show "lru_map s1 = Map.empty" using l(2) by (metis (mono_tags, lifting) ext not_None_eq)
  qed
  have "lru_push a s1 = None"
    using s1(3,4) assms(3) e by (auto simp: lru_push_def set_prev_def set_next_def lru_hash_map_find_def lru_link_front_def)
  then show ?thesis using Suc s1(1) by simp
qed simp

text \<open>C19. A round of the manager orders blocks by recency: after \<^verbatim>\<open>anti_cache_manager_init\<close> and any sequence of accesses,
  \<^verbatim>\<open>anti_cache_manager_update_lru\<close> (with fuel for one more iteration than there are staged
  nodes) returns the number of accesses, empties the queue, and leaves a list that holds each
  accessed block once, the most recently accessed first, with the table pointing at exactly its
  nodes and the right count. This is so when the memory of the element count, which \<^verbatim>\<open>lru_init\<close> leaves as \<^verbatim>\<open>malloc\<close>
  returned it (\<open>junk\<close>), happens to hold zero. With any other value the first round with an access ends the process, however
  much fuel it has.\<close>

theorem update_lru_orders_by_recency:
  assumes "length bs < 2 ^ 64"
  shows "\<exists>s. staging.enq_all bs (new_cache junk) = Some s \<and>
    (if junk = 0 \<or> bs = [] then \<exists>s' xs. anti_cache_manager_update_lru (Suc (length bs)) s = Some (length bs, s') \<and>
       ac_linked s' xs [] \<and> map (bno (ac_heap s')) xs = rev (remdups bs) \<and> lru_num s' = junk + of_nat (length xs)
     else \<forall>fuel. anti_cache_manager_update_lru fuel s = None)"
proof -
  obtain s ys where a: "staging.enq_all bs (new_cache junk) = Some s" "ac_linked s [] ys" "lru_num s = junk"
      "map (bno (ac_heap s)) ys = bs"
    using accesses_linked [OF new_cache_linked(1) [of junk], of bs] new_cache_linked(2) [of junk] by auto
  have len: "length ys = length bs" using a(4) by (metis length_map)
  show ?thesis
  proof (cases "junk = 0 \<or> bs = []")
    case True
    have "\<exists>s' xs. anti_cache_manager_update_lru (Suc (length bs)) s = Some (length bs, s') \<and>
       ac_linked s' xs [] \<and> map (bno (ac_heap s')) xs = rev (remdups bs) \<and> lru_num s' = junk + of_nat (length xs)"
    proof (cases "bs = []")
      case True
      then have "lru_staging_queue_pop s = Some (None, s)"
        using a(2,4) by (simp add: lru_staging_queue_pop_def ac_linked_def queue_inv_def)
      then show ?thesis using True a by (auto simp: anti_cache_manager_update_lru_def intro!: exI [of _ "[]"])
    next
      case False
      then have "ac_inv s [] ys" using a(2,3) True by (simp add: ac_inv_linked)
      from update_lru_ok [OF this, of "Suc (length bs)"] show ?thesis using len assms a(4) False True
        by (auto simp: anti_cache_manager_update_lru_def fold_touch ac_inv_linked)
    qed
    then show ?thesis using a(1) True by auto
  next
    case False
    then have "ys \<noteq> []" using a(4) by auto
    then have "anti_cache_manager_update_lru fuel s = None" for fuel
      using update_lru_null_head [OF a(2)] a(3) False by (simp add: anti_cache_manager_update_lru_def)
    then show ?thesis using a(1) False by auto
  qed
qed

theorem update_lru_orders_by_recency_witness:
  "(\<exists>s s' xs. staging.enq_all [4, 5, 4] (new_cache 0) = Some s \<and>
     anti_cache_manager_update_lru 4 s = Some (3, s') \<and> map (bno (ac_heap s')) xs = [4, 5]) \<and>
   (\<exists>s. staging.enq_all [4, 5, 4] (new_cache 7) = Some s \<and> anti_cache_manager_update_lru 4 s = None)"
proof -
  have len: "length [4 :: u64, 5, 4] < 2 ^ 64" by simp
  have e: "Suc (length [4 :: u64, 5, 4]) = 4" "length [4 :: u64, 5, 4] = 3" "Suc 3 = 4"
    "rev (remdups [4 :: u64, 5, 4]) = [4, 5]" by simp_all
  have "\<exists>s s' xs. staging.enq_all [4, 5, 4] (new_cache 0) = Some s \<and>
      anti_cache_manager_update_lru 4 s = Some (3, s') \<and> map (bno (ac_heap s')) xs = [4, 5]"
    using update_lru_orders_by_recency [OF len, of 0] by (simp only: simp_thms if_True e) (elim exE conjE, intro exI conjI)
  moreover have "\<exists>s. staging.enq_all [4, 5, 4] (new_cache 7) = Some s \<and> anti_cache_manager_update_lru 4 s = None"
    using update_lru_orders_by_recency [OF len, of 7] by auto
  ultimately show ?thesis by blast
qed



lemma many_blocks:
  assumes "n < 2 ^ 32"
  shows "\<exists>s xs. lru_inv s xs \<and> length xs = n \<and> rev (map (bno (ac_heap s)) xs) = map of_nat [0..<n]"
proof -
  let ?bs = "map of_nat [0..<n] :: u64 list"
  have inv: "unat (of_nat x :: u64) = x" if "x < n" for x using that assms by (simp add: unat_of_nat)
  have "inj_on (of_nat :: nat \<Rightarrow> u64) {0..<n}" by (rule inj_on_inverseI [of _ unat]) (simp add: inv)
  then have d: "distinct ?bs" by (simp add: distinct_map)
  obtain s ys where "staging.enq_all ?bs (new_cache 0) = Some s" "ac_linked s [] ys" "lru_num s = 0" and m: "map (bno (ac_heap s)) ys = ?bs"
    using accesses_linked [OF new_cache_linked(1) [of 0], of ?bs] new_cache_linked(2) [of 0] by auto
  then have a: "ac_inv s [] ys" by (simp add: ac_inv_linked)
  have "length ys = n" using arg_cong [OF m, of length] by simp
  then obtain s' xs where "ac_inv s' xs []" "map (bno (ac_heap s')) xs = fold touch_block ?bs []"
    using update_lru_ok [OF a, of "Suc n"] m assms by auto
  moreover have "fold touch_block ?bs [] = rev ?bs" using d by (simp only: fold_touch distinct_remdups_id)
  ultimately have r: "lru_inv s' xs" "map (bno (ac_heap s')) xs = rev ?bs" by (simp_all add: ac_inv_def)
  moreover have "length xs = n" using arg_cong [OF r(2), of length] by simp
  moreover have "rev (map (bno (ac_heap s')) xs) = ?bs" using r(2) by simp
  ultimately show ?thesis by blast
qed


text \<open>C30. Deleting list entries does not update the element count: when the resident blocks are all deleted (which
  \<^verbatim>\<open>free_block\<close> does with the blocks of a file), \<^verbatim>\<open>anti_cache_manager_delete_lru_entries\<close> succeeds and leaves an empty list and
  table but the old count. Then the next access of any block is staged, and the round that moves it to the list ends the
  process: \<^verbatim>\<open>lru_push\<close> takes the list for not empty and writes through its null head. The count alone is at fault: with a
  count of zero the same round succeeds and the list has the block.\<close>

theorem delete_then_push_null_head:
  assumes "ac_inv s xs []" and "xs \<noteq> []" and "bno (ac_heap s) ` set xs \<subseteq> set bs"
  shows "\<exists>s1 s2. anti_cache_manager_delete_lru_entries bs s = Some s1 \<and> lru_head s1 = None \<and> lru_map s1 = Map.empty \<and>
    lru_num s1 = of_nat (length xs) \<and> lru_num s1 \<noteq> 0 \<and> anti_cache_manager_access c s1 = Some s2 \<and>
    (\<forall>fuel. anti_cache_manager_update_lru fuel s2 = None) \<and>
    (\<exists>s3 a. anti_cache_manager_update_lru 2 (s2\<lparr>lru_num := 0\<rparr>) = Some (1, s3) \<and> ac_inv s3 [a] [] \<and> bno (ac_heap s3) a = c)"
proof -
  have l: "ac_linked s xs []" "length xs < 2 ^ 64" "lru_num s = of_nat (length xs)" using assms(1) by (auto simp: ac_inv_linked)
  obtain s1 zs where s1: "anti_cache_manager_delete_lru_entries bs s = Some s1" "ac_linked s1 zs []" "lru_num s1 = lru_num s"
      "map (bno (ac_heap s1)) zs = filter (\<lambda>b. b \<notin> set bs) (map (bno (ac_heap s)) xs)" using delete_lru_entries_ok [OF l(1)] by blast
  have "filter (\<lambda>b. b \<notin> set bs) (map (bno (ac_heap s)) xs) = []" using assms(3) by (auto simp: filter_empty_conv)
  then have z: "zs = []" using s1(4) by simp
  have nz: "lru_num s1 \<noteq> 0" using lru_num_eq(1) [of s xs] assms(1,2) s1(3) by (simp add: ac_inv_def)
  have e: "lru_head s1 = None" "lru_map s1 = Map.empty"
    using s1(2) unfolding z by (auto simp: ac_linked_def lru_linked_def lru_list_def fun_eq_iff)
  obtain s2 y where s2: "anti_cache_manager_access c s1 = Some s2" "ac_linked s2 [] [y]" "bno (ac_heap s2) y = c" "lru_num s2 = lru_num s1"
    using access_linked [OF s1(2) [unfolded z], of c] by auto
  have "anti_cache_manager_update_lru fuel s2 = None" for fuel
    using update_lru_null_head [OF s2(2)] s2(4) nz by (simp add: anti_cache_manager_update_lru_def)
  moreover have "\<exists>s3 a. anti_cache_manager_update_lru 2 (s2\<lparr>lru_num := 0\<rparr>) = Some (1, s3) \<and> ac_inv s3 [a] [] \<and> bno (ac_heap s3) a = c"
  proof -
    have "ac_inv (s2\<lparr>lru_num := 0\<rparr>) [] [y]"
      using s2(2) by (simp add: ac_inv_linked ac_linked_def heap_inv_def lru_linked_def lru_list_def queue_inv_def)
    then obtain s3 ws where w: "update_lru_loop 2 (s2\<lparr>lru_num := 0\<rparr>) = Some (1, s3)" "ac_inv s3 ws []" "map (bno (ac_heap s3)) ws = [c]"
      using update_lru_ok [of "s2\<lparr>lru_num := 0\<rparr>" "[]" "[y]" 2] s2(3) by (auto simp: touch_block_def)
    then obtain a where "ws = [a]" "bno (ac_heap s3) a = c" by (cases ws) auto
    then show ?thesis using w(1,2) by (auto simp: anti_cache_manager_update_lru_def)
  qed
  ultimately show ?thesis using s1(1,3) e l(3) nz s2(1) by auto
qed

theorem delete_then_push_null_head_witness:
  "\<exists>s s1 s2. staging.enq_all [4, 5] (new_cache 0) = Some s \<and>
    (\<exists>s'. anti_cache_manager_update_lru 3 s = Some (2, s') \<and> anti_cache_manager_delete_lru_entries [5, 4] s' = Some s1) \<and>
    anti_cache_manager_access 6 s1 = Some s2 \<and> anti_cache_manager_update_lru 2 s2 = None"
proof -
  obtain s ys where a: "staging.enq_all [4, 5] (new_cache 0) = Some s" "ac_linked s [] ys" "lru_num s = 0" "map (bno (ac_heap s)) ys = [4, 5]"
    using accesses_linked [OF new_cache_linked(1) [of 0], of "[4, 5]"] new_cache_linked(2) [of 0] by auto
  have len: "length ys = 2" using arg_cong [OF a(4), of length] by simp
  have "ac_inv s [] ys" using a(2,3) by (simp add: ac_inv_linked)
  then obtain s' xs where u: "update_lru_loop 3 s = Some (2, s')" "ac_inv s' xs []" "map (bno (ac_heap s')) xs = [5, 4]"
    using update_lru_ok [of s "[]" ys 3] len a(4) by (auto simp: touch_block_def)
  have "xs \<noteq> []" using u(3) by auto
  moreover have "bno (ac_heap s') ` set xs \<subseteq> set [5, 4]" using arg_cong [OF u(3), of set] by simp
  ultimately obtain s1 s2 where "anti_cache_manager_delete_lru_entries [5, 4] s' = Some s1" "anti_cache_manager_access 6 s1 = Some s2"
      "\<forall>fuel. anti_cache_manager_update_lru fuel s2 = None"
    using delete_then_push_null_head [OF u(2), of "[5, 4]" 6] by blast
  then show ?thesis using a(1) u(1) by (auto simp: anti_cache_manager_update_lru_def)
qed

end
