(* ===== verification/Block_Tree.thy ===== *)
theory Block_Tree
  imports Structs
begin

text \<open>
  The arithmetic of the block trees of \<^verbatim>\<open>bpfs.c\<close>: how many blocks a tree of some height
  can hold, which height a number of blocks needs, and the setters and getters of a tree root.
  \<^verbatim>\<open>tree_height\<close> is a loop that need not end, so it is a partial function: \<open>None\<close> says that
  the loop runs forever.
\<close>

section \<open>Roots\<close>

text \<open>A root is a block and the offset of the \<^verbatim>\<open>struct bpfs_tree_root\<close> in it.\<close>

definition ha_set_addr :: "block \<Rightarrow> nat \<Rightarrow> u64 \<Rightarrow> block option" where
  "ha_set_addr b a addr = do {
     check (addr \<le> BPFS_TREE_ROOT_MAX_ADDR);
     Some (set_root_ha b a (mk_ha (ha_height (root_ha b a)) addr))
   }"

definition ha_set :: "block \<Rightarrow> nat \<Rightarrow> u64 \<Rightarrow> u64 \<Rightarrow> block option" where
  "ha_set b a height addr = do {
     check (height \<le> BPFS_TREE_MAX_HEIGHT);
     check (addr \<le> BPFS_TREE_ROOT_MAX_ADDR);
     Some (set_root_ha b a (mk_ha height addr))
   }"

definition tree_root_height :: "block \<Rightarrow> nat \<Rightarrow> u64" where
  "tree_root_height b a =
     (if root_nbytes b a = 0 then BPFS_BLOCKNO_INVALID else ha_height (root_ha b a))"

definition tree_root_addr :: "block \<Rightarrow> nat \<Rightarrow> u64" where
  "tree_root_addr b a =
     (if root_nbytes b a = 0 then BPFS_BLOCKNO_INVALID else ha_addr (root_ha b a))"

section \<open>Capacity and height\<close>

primrec max_nblocks_loop :: "nat \<Rightarrow> u64 \<Rightarrow> u64" where
  "max_nblocks_loop 0 max_nblocks = max_nblocks"
| "max_nblocks_loop (Suc height) max_nblocks =
     max_nblocks_loop height (max_nblocks * BPFS_BLOCKNOS_PER_INDIR)"

definition tree_max_nblocks :: "u64 \<Rightarrow> u64" where
  "tree_max_nblocks height = max_nblocks_loop (unat height) 1"

partial_function (option) tree_height_loop :: "u64 \<Rightarrow> u64 \<Rightarrow> u64 \<Rightarrow> u64 option" where
  "tree_height_loop nblocks max_nblocks height =
     (if max_nblocks < nblocks
      then tree_height_loop nblocks (max_nblocks * BPFS_BLOCKNOS_PER_INDIR) (height + 1)
      else Some height)"

declare tree_height_loop.simps [code]

definition tree_height :: "u64 \<Rightarrow> u64 option" where
  "tree_height nblocks = tree_height_loop nblocks 1 0"

section \<open>Lemmas\<close>

lemma max_nblocks_loop_eq: "max_nblocks_loop h m = m * 512 ^ h"
  by (induction h arbitrary: m) (simp_all add: mult.assoc)

lemma unat_pow_512:
  assumes "k \<le> 7"
  shows "unat ((512 :: u64) ^ k) = 512 ^ k"
proof -
  have "(512 :: nat) ^ k \<le> 512 ^ 7" using assms by (intro power_increasing) auto
  then have "(512 :: nat) ^ k < 2 ^ LENGTH(64)" by simp
  then have "unat (of_nat (512 ^ k) :: u64) = 512 ^ k" by (subst unat_of_nat) simp
  then show ?thesis by simp
qed

lemma pow_512_wraps: "k \<ge> 8 \<Longrightarrow> (512 :: u64) ^ k = 0"
proof -
  assume "k \<ge> 8"
  then have "(512 :: u64) ^ k = 512 ^ (k - 8) * 512 ^ 8"
    by (metis le_add_diff_inverse2 power_add)
  moreover have "(512 :: u64) ^ 8 = 0" by code_simp
  ultimately show ?thesis by (simp only: mult_zero_right)
qed

lemma unat_tree_max_nblocks:
  "height \<le> BPFS_TREE_MAX_HEIGHT \<Longrightarrow> unat (tree_max_nblocks height) = 512 ^ unat height"
  by (simp add: tree_max_nblocks_def max_nblocks_loop_eq unat_pow_512 word_le_nat_alt)

text \<open>The loop only sees powers of 512 and, once the product has wrapped around, zero.\<close>

lemma tree_height_loop_least:
  assumes "k \<le> h" and "h \<le> 7" and "unat n \<le> 512 ^ h" and "\<And>j. j < h \<Longrightarrow> 512 ^ j < unat n"
  shows "tree_height_loop n (512 ^ k) (of_nat k) = Some (of_nat h)"
  using assms(1)
proof (induction "h - k" arbitrary: k)
  case 0
  then have "k = h" using 0 by simp
  moreover have "\<not> 512 ^ h < n" using assms(2,3) by (simp add: word_less_nat_alt unat_pow_512)
  ultimately show ?case by (subst tree_height_loop.simps) simp
next
  case (Suc x)
  then have lt: "k < h" by simp
  then have "(512 :: u64) ^ k < n" using assms(2,4) by (simp add: word_less_nat_alt unat_pow_512)
  moreover have "tree_height_loop n (512 ^ Suc k) (of_nat (Suc k)) = Some (of_nat h)"
    using Suc lt by (intro Suc.hyps) auto
  ultimately show ?case
    by (subst tree_height_loop.simps) (simp add: mult.commute add.commute)
qed

lemma tree_height_loop_diverges:
  assumes "tree_height_loop n m i = Some r" and "m = 512 ^ k"
  shows "unat n \<le> 2 ^ 63"
proof -
  have "\<forall>k. m = 512 ^ k \<longrightarrow> unat n \<le> 2 ^ 63"
  proof (rule tree_height_loop.raw_induct [OF _ assms(1)], intro allI impI)
    fix loop n m i r k
    assume IH: "\<And>n m i r. loop n m i = Some r \<Longrightarrow> \<forall>k. m = 512 ^ k \<longrightarrow> unat n \<le> 2 ^ 63"
      and eq: "(if m < n then loop n (m * 512) (i + 1) else Some i) = Some r"
      and k: "m = (512 :: u64) ^ k"
    show "unat n \<le> 2 ^ 63"
    proof (cases "m < n")
      case True
      then have "loop n (m * 512) (i + 1) = Some r" using eq by simp
      moreover have "m * 512 = 512 ^ Suc k" using k by simp
      ultimately show ?thesis using IH by blast
    next
      case False
      have "unat m \<le> 2 ^ 63"
      proof (cases "k \<le> 7")
        case True
        then have "(512 :: nat) ^ k \<le> 512 ^ 7" by (intro power_increasing) auto
        then show ?thesis using k True by (simp add: unat_pow_512)
      next
        case False
        then show ?thesis using k pow_512_wraps [of k] by simp
      qed
      with False show ?thesis by (simp add: word_less_nat_alt)
    qed
  qed
  then show ?thesis using assms(2) by blast
qed

lemma tree_height_total:
  assumes "unat n \<le> 2 ^ 63"
  obtains h where "tree_height n = Some (of_nat h)" "h \<le> 7" "unat n \<le> 512 ^ h"
    "\<And>j. j < h \<Longrightarrow> 512 ^ j < unat n"
proof -
  define h where "h = (LEAST h. unat n \<le> 512 ^ h)"
  have "unat n \<le> 512 ^ 7" using assms by simp
  then have le: "unat n \<le> 512 ^ h" and 7: "h \<le> 7"
    unfolding h_def by (rule LeastI, rule Least_le)
  have lt: "512 ^ j < unat n" if "j < h" for j
    using not_less_Least [OF that [unfolded h_def]] by simp
  have "tree_height n = Some (of_nat h)"
    using tree_height_loop_least [of 0 h n] le 7 lt by (simp add: tree_height_def)
  then show thesis using le 7 lt that by blast
qed

lemma unat_NBLOCKS_FOR_NBYTES:
  assumes "unat n + 4095 < 2 ^ 64"
  shows "unat (NBLOCKS_FOR_NBYTES n) = (unat n + 4095) div 4096"
proof -
  have "n + 4096 - 1 = n + 4095" by simp
  moreover have "unat (n + 4095) = unat n + 4095" using assms by (simp add: unat_word_ariths)
  ultimately show ?thesis by (simp only: NBLOCKS_FOR_NBYTES_def unat_div) simp
qed

lemma NBLOCKS_FOR_NBYTES_bound: "unat (NBLOCKS_FOR_NBYTES n) \<le> 2 ^ 52"
proof -
  have "unat (n + 4096 - 1) < 2 ^ 64" using unat_bounded [of "n + 4096 - 1"] by simp
  then show ?thesis by (simp add: NBLOCKS_FOR_NBYTES_def unat_div)
qed

section \<open>Properties\<close>

text \<open>C17. \<^verbatim>\<open>tree_height\<close> ends exactly for at most \<open>2\<^sup>6\<^sup>3\<close> blocks (beyond that the capacity
  wraps around to zero and the loop runs forever), and then returns the least height whose tree
  holds that many blocks: \<^verbatim>\<open>tree_max_nblocks\<close> of the result, computed with the code's
  wrapping multiplication, is at least the argument, and no lower tree is large enough.\<close>

theorem tree_height_least:
  "(tree_height n = None \<longleftrightarrow> 2 ^ 63 < unat n) \<and>
   (\<forall>h. tree_height n = Some h \<longleftrightarrow>
      unat n \<le> 2 ^ 63 \<and> h \<le> BPFS_TREE_MAX_HEIGHT \<and> n \<le> tree_max_nblocks h \<and>
      (\<nexists>j. j < h \<and> n \<le> tree_max_nblocks j))"
proof (cases "unat n \<le> 2 ^ 63")
  case False
  then have "tree_height n = None"
    using tree_height_loop_diverges [of n 1 0 _ 0] by (cases "tree_height n") (auto simp: tree_height_def)
  with False show ?thesis by simp
next
  case True
  obtain h where h: "tree_height n = Some (of_nat h)" "h \<le> 7" "unat n \<le> 512 ^ h"
    and least: "\<And>j. j < h \<Longrightarrow> 512 ^ j < unat n" using tree_height_total [OF True] by blast
  have u: "unat (of_nat h :: u64) = h" using h(2) by (simp add: unat_of_nat)
  have cap: "n \<le> tree_max_nblocks j \<longleftrightarrow> unat n \<le> 512 ^ unat j" if "j \<le> 7" for j
    using that by (simp add: word_le_nat_alt unat_tree_max_nblocks)
  have uniq: "x = of_nat h" if "x \<le> 7" "n \<le> tree_max_nblocks x" "\<nexists>j. j < x \<and> n \<le> tree_max_nblocks j" for x
  proof -
    have "\<not> unat x < h" using least that(1,2) cap [of x] by fastforce
    moreover have "\<not> of_nat h < x" 
      using that(3) cap [of "of_nat h"] h(2,3) u by (auto simp: word_le_nat_alt)
    ultimately have "unat x = h" using u by (simp add: word_less_nat_alt)
    then show ?thesis using u by (simp flip: unat_inject)
  qed
  have le7: "(of_nat h :: u64) \<le> 7" using h(2) u by (simp add: word_le_nat_alt)
  have none: "\<nexists>j. j < of_nat h \<and> n \<le> tree_max_nblocks j"
  proof (rule notI, elim exE)
    fix j
    assume j: "j < of_nat h \<and> n \<le> tree_max_nblocks j"
    then have "unat j < h" "j \<le> 7" using u le7 by (auto simp: word_less_nat_alt word_le_nat_alt)
    with j least [of "unat j"] cap [of j] show False by simp
  qed
  have holds: "n \<le> tree_max_nblocks (of_nat h)" using cap [OF le7] h(3) u by simp
  have "tree_height n = Some x \<longleftrightarrow> x = of_nat h" for x using h(1) by auto
  then have "\<forall>x. tree_height n = Some x \<longleftrightarrow>
      unat n \<le> 2 ^ 63 \<and> x \<le> 7 \<and> n \<le> tree_max_nblocks x \<and> (\<nexists>j. j < x \<and> n \<le> tree_max_nblocks j)"
    using True le7 holds none uniq by metis
  then show ?thesis using h(1) True by simp
qed

text \<open>C26. For a file size \<^verbatim>\<open>tree_height(NBLOCKS_FOR_NBYTES(nbytes))\<close> always ends, with a
  height of at most 6, and unless the rounding wraps around the tree has room for the bytes. But
  the capacity in bytes, which the callers compute as
  \<^verbatim>\<open>BPFS_BLOCK_SIZE * tree_max_nblocks(height)\<close>, is right only up to height 5: from height 6
  on the product wraps around to zero.\<close>

theorem tree_height_of_size:
  "\<exists>h. tree_height (NBLOCKS_FOR_NBYTES n) = Some h \<and> h \<le> 6 \<and>
     (unat n + 4095 < 2 ^ 64 \<longrightarrow> unat n \<le> 4096 * unat (tree_max_nblocks h)) \<and>
     (h \<le> 5 \<longrightarrow> unat (BPFS_BLOCK_SIZE * tree_max_nblocks h) = 4096 * unat (tree_max_nblocks h)) \<and>
     (h = 6 \<longrightarrow> BPFS_BLOCK_SIZE * tree_max_nblocks h = 0)"
proof -
  have b: "unat (NBLOCKS_FOR_NBYTES n) \<le> 2 ^ 52" by (rule NBLOCKS_FOR_NBYTES_bound)
  then obtain h where h: "tree_height (NBLOCKS_FOR_NBYTES n) = Some (of_nat h)" "h \<le> 7"
      "unat (NBLOCKS_FOR_NBYTES n) \<le> 512 ^ h" "\<And>j. j < h \<Longrightarrow> 512 ^ j < unat (NBLOCKS_FOR_NBYTES n)"
    using tree_height_total [of "NBLOCKS_FOR_NBYTES n"] by auto
  have "h \<le> 6"
  proof (rule ccontr)
    assume "\<not> h \<le> 6"
    then show False using h(4) [of 6] b by simp
  qed
  then have u: "unat (of_nat h :: u64) = h" by (simp add: unat_of_nat)
  have cap: "unat (tree_max_nblocks (of_nat h)) = 512 ^ h"
    using \<open>h \<le> 6\<close> u by (simp add: unat_tree_max_nblocks word_le_nat_alt)
  have "unat n \<le> 4096 * 512 ^ h" if "unat n + 4095 < 2 ^ 64"
  proof -
    have "unat n \<le> 4096 * ((unat n + 4095) div 4096)" by (simp add: dividend_less_times_div)
    then show ?thesis using unat_NBLOCKS_FOR_NBYTES [OF that] h(3) by linarith
  qed
  moreover have "unat (4096 * tree_max_nblocks (of_nat h)) = 4096 * 512 ^ h" if "h \<le> 5"
  proof -
    have "(512 :: nat) ^ h \<le> 512 ^ 5" using that by (intro power_increasing) auto
    then show ?thesis using cap by (simp add: unat_word_ariths)
  qed
  moreover have "4096 * tree_max_nblocks 6 = 0"
    by (simp add: tree_max_nblocks_def max_nblocks_loop_eq)
  moreover have "of_nat h \<le> (5 :: u64) \<longleftrightarrow> h \<le> 5" "of_nat h \<le> (6 :: u64)"
    using u \<open>h \<le> 6\<close> by (simp_all add: word_le_nat_alt)
  ultimately show ?thesis using h(1) cap by (intro exI [of _ "of_nat h"]) auto
qed

text \<open>A file of two blocks and a byte has a tree of height 1, which holds 512 blocks.\<close>

theorem tree_height_of_size_witness:
  "\<exists>h. tree_height (NBLOCKS_FOR_NBYTES 8193) = Some h \<and> h \<le> 6 \<and> 8193 \<le> 4096 * unat (tree_max_nblocks h)"
  using tree_height_of_size [of 8193] by auto

text \<open>C32. The setters of a tree root change its height and address and nothing else: what
  \<^verbatim>\<open>ha_set\<close> and \<^verbatim>\<open>ha_set_addr\<close> stored is read back, the size of the file and every byte
  outside of the eight bytes of the field are kept, so that the one word is the commit point.\<close>

theorem ha_set_round_trip:
  assumes "ha_set b a h x = Some b'"
  shows "root_nbytes b' a = root_nbytes b a \<and>
    (root_nbytes b a = 0 \<or> tree_root_height b' a = h \<and> tree_root_addr b' a = x) \<and>
    (\<forall>i. i < a \<or> a + 8 \<le> i \<longrightarrow> b' i = b i) \<and>
    (\<forall>y. y \<le> BPFS_TREE_ROOT_MAX_ADDR \<longrightarrow>
      ha_set_addr b' a y = ha_set b a h y)"
proof -
  have hx: "h \<le> 7" "x \<le> BPFS_TREE_ROOT_MAX_ADDR" and b': "b' = put_u64 b a (mk_ha h x)"
    using assms by (auto simp: ha_set_def set_root_ha_def)
  have "h AND 7 = h"
  proof -
    have "unat h < 2 ^ 3" using hx by (simp add: word_le_nat_alt)
    then have "take_bit 3 h = h" 
      by (metis take_bit_nat_eq_self unat_inject unsigned_take_bit_eq)
    then show ?thesis by (simp add: take_bit_eq_mask mask_3)
  qed
  then have ht: "ha_height (mk_ha h x) = h" by (simp add: ha_height_mk_ha)
  have "put_u64 (put_u64 b a v) a w = put_u64 b a w" for v w
    by (simp add: put_u64_def store_le_def fun_eq_iff)
  then have "ha_set_addr b' a y = ha_set b a h y" if "y \<le> BPFS_TREE_ROOT_MAX_ADDR" for y
    using that hx ht by (simp add: ha_set_addr_def ha_set_def set_root_ha_def b' root_ha_def access_simps)
  then show ?thesis using hx ht b'
    by (simp add: tree_root_height_def tree_root_addr_def root_ha_def root_nbytes_def access_simps)
qed

text \<open>The setters on a root of one block, of height 0, that grows to height 1.\<close>

theorem ha_set_round_trip_witness:
  "root_nbytes ((\<lambda>_. 1)(0 := 0)) 0 \<noteq> 0 \<and>
   (\<exists>b'. ha_set ((\<lambda>_. 1)(0 := 0)) 0 1 9 = Some b' \<and> tree_root_height b' 0 = 1 \<and>
      tree_root_addr b' 0 = 9)"
proof -
  have n: "root_nbytes ((\<lambda>_. 1)(0 := 0)) 0 \<noteq> 0" by code_simp
  obtain b' where b': "ha_set ((\<lambda>_. 1)(0 := 0)) 0 1 9 = Some b'" by (simp add: ha_set_def)
  show ?thesis using n b' ha_set_round_trip [OF b'] by auto
qed

end
