(* ===== verification/Blocks.thy ===== *)
theory Blocks
  imports Block_Tree Bitmap Disk_Manager Lru
begin

text \<open>
  Blocks of \<^verbatim>\<open>bpfs.c\<close>: allocation through the block bitmap, access by block number (which
  brings a block that was evicted to disk back into memory), the copy-on-write functions, the
  offsets of inodes, and the part of \<^verbatim>\<open>anti_cache_manager.c\<close> that moves blocks to disk.

  A pointer into the memory is a block number together with an offset: \<^verbatim>\<open>get_block\<close> returns the
  number of the block its result points at, and \<open>mem\<close>, \<open>put_mem\<close> are the access through that
  pointer, which ends the process outside of the memory. The build is the default one,
  \<^verbatim>\<open>MODE_BPFS\<close>, in which the \<^verbatim>\<open>indirect_cow\<close> functions do nothing.
\<close>

section \<open>State\<close>

record fs =
  bpram :: "block list"
  block_alloc :: bitmap
  inode_alloc :: bitmap
  dm :: disk_manager
  ac :: anti_cache
  indir_mapping :: "u64 list"
  current_indir_pointer :: u64
  cow_nbytes :: u64
  cow_nblocks :: u64
  tree_nblocks_nblocks :: u64
  heap_junk :: block

definition mem :: "u64 \<Rightarrow> fs \<Rightarrow> block option" where
  "mem n s = (if n \<noteq> 0 \<and> unat n \<le> length (bpram s) then Some (bpram s ! (unat n - 1)) else None)"

definition put_mem :: "u64 \<Rightarrow> block \<Rightarrow> fs \<Rightarrow> fs option" where
  "put_mem n b s = (if n \<noteq> 0 \<and> unat n \<le> length (bpram s)
     then Some (s\<lparr>bpram := (bpram s)[unat n - 1 := b]\<rparr>) else None)"

text \<open>\<^verbatim>\<open>bpfs_super\<close> is the first block in this commit mode.\<close>

definition get_super :: "fs \<Rightarrow> block option" where
  "get_super s = mem BPFS_BLOCKNO_SUPER s"

section \<open>Block allocation\<close>

abbreviation (input) disk_bit :: u64 where "disk_bit \<equiv> push_bit 63 1"

definition init_block_allocations :: "fs \<Rightarrow> (int \<times> fs) option" where
  "init_block_allocations s = do {
     super \<leftarrow> get_super s;
     (r, bm) \<leftarrow> bitmap_init True (block_alloc s) (super_nblocks super);
     Some (r, s\<lparr>block_alloc := bm\<rparr>)
   }"

definition alloc_block :: "fs \<Rightarrow> (u64 \<times> fs) option" where
  "alloc_block s = do {
     (no, bm) \<leftarrow> bitmap_alloc (block_alloc s);
     let s = s\<lparr>block_alloc := bm\<rparr>;
     if no = bm_ntotal bm then Some (BPFS_BLOCKNO_INVALID, s)
     else do {
       check (BPFS_BLOCKNO_FIRST_ALLOC \<le> no + 1);
       Some (no + 1, s)
     }
   }"

definition unfree_block :: "u64 \<Rightarrow> fs \<Rightarrow> fs option" where
  "unfree_block blockno s = do {
     check (blockno \<noteq> BPFS_BLOCKNO_INVALID);
     bm \<leftarrow> bitmap_unfree (block_alloc s) (blockno - 1);
     Some (s\<lparr>block_alloc := bm\<rparr>)
   }"

definition set_block :: "u64 \<Rightarrow> fs \<Rightarrow> fs option" where
  "set_block blockno s =
     (if blockno AND disk_bit \<noteq> 0 then Some s
      else do {
        check (blockno \<noteq> BPFS_BLOCKNO_INVALID);
        bm \<leftarrow> bitmap_set (block_alloc s) (blockno - 1);
        Some (s\<lparr>block_alloc := bm\<rparr>)
      })"

definition free_block :: "u64 \<Rightarrow> fs \<Rightarrow> fs option" where
  "free_block blockno s =
     (if blockno AND disk_bit \<noteq> 0 then Some s
      else do {
        check (blockno \<noteq> BPFS_BLOCKNO_INVALID);
        check (BPFS_BLOCKNO_FIRST_ALLOC \<le> blockno);
        bm \<leftarrow> bitmap_free (block_alloc s) (blockno - 1);
        a \<leftarrow> anti_cache_manager_delete_lru_entries [blockno] (ac s);
        Some (s\<lparr>block_alloc := bm, ac := a\<rparr>)
      })"

definition unalloc_block :: "u64 \<Rightarrow> fs \<Rightarrow> fs option" where
  "unalloc_block blockno s = do {
     check (blockno \<noteq> BPFS_BLOCKNO_INVALID);
     check (BPFS_BLOCKNO_FIRST_ALLOC \<le> blockno);
     bm \<leftarrow> bitmap_unalloc (block_alloc s) (blockno - 1);
     Some (s\<lparr>block_alloc := bm\<rparr>)
   }"

definition abort_blocks :: "fs \<Rightarrow> fs option" where
  "abort_blocks s = do {
     bm \<leftarrow> bitmap_abort (Some (heap_junk s)) (block_alloc s);
     Some (s\<lparr>block_alloc := bm\<rparr>)
   }"

definition commit_blocks :: "fs \<Rightarrow> fs option" where
  "commit_blocks s = do {
     bm \<leftarrow> bitmap_commit (block_alloc s);
     Some (s\<lparr>block_alloc := bm\<rparr>)
   }"

section \<open>Access by block number\<close>

text \<open>The loop over the entries of an indirect block that replaces the first entry \<open>old\<close>.\<close>

definition replace_addr :: "u64 \<Rightarrow> u64 \<Rightarrow> block \<Rightarrow> block option" where
  "replace_addr old new indir =
     map_option (\<lambda>j. set_indir_addr indir (of_nat j) new)
       (find (\<lambda>j. indir_addr indir (of_nat j) = old) [0..<512])"

text \<open>
  \<^verbatim>\<open>get_block\<close> calls itself for the indirect block of an evicted block. It is a partial function:
  the recursion does not end when that indirect block is itself on disk (and then every level
  allocates a block, until there is none).
\<close>

partial_function (option) get_block :: "u64 \<Rightarrow> fs \<Rightarrow> (u64 \<times> fs) option" where
  "get_block blockno s = do {
     check (blockno \<noteq> BPFS_BLOCKNO_INVALID);
     if blockno AND disk_bit \<noteq> 0 then do {
       (r, buf, d) \<leftarrow> readBlocksWithPrefetch True (heap_junk s) (blockno XOR disk_bit) (dm s);
       check (r = 1);
       (new_block, s) \<leftarrow> alloc_block (s\<lparr>dm := d\<rparr>);
       s \<leftarrow> put_mem new_block buf s;
       (p, s) \<leftarrow> get_block (current_indir_pointer s) s;
       indir \<leftarrow> mem p s;
       indir \<leftarrow> replace_addr blockno new_block indir;
       s \<leftarrow> put_mem p indir s;
       a \<leftarrow> anti_cache_manager_access new_block (ac s);
       Some (new_block, s\<lparr>ac := a\<rparr>)
     }
     else Some (blockno, s)
   }"

declare get_block.simps [code]

definition get_block_from_disk :: "u64 \<Rightarrow> u64 \<Rightarrow> fs \<Rightarrow> (u64 \<times> fs) option" where
  "get_block_from_disk blockno indir_pointer s =
     (if blockno AND disk_bit \<noteq> 0 then do {
        (r, buf, d) \<leftarrow> readBlocksWithPrefetch True (heap_junk s) (blockno XOR disk_bit) (dm s);
        check (r = 1);
        (new_block, s) \<leftarrow> alloc_block (s\<lparr>dm := d\<rparr>);
        s \<leftarrow> put_mem new_block buf s;
        (p, s) \<leftarrow> get_block indir_pointer s;
        indir \<leftarrow> mem p s;
        indir \<leftarrow> replace_addr blockno new_block indir;
        s \<leftarrow> put_mem p indir s;
        Some (new_block, s)
      }
      else Some (- 1, s))"

section \<open>Copy on write\<close>

text \<open>The sizes are \<^verbatim>\<open>unsigned\<close>; \<^verbatim>\<open>off + size\<close> is computed in 32 bits.\<close>

definition cow_block :: "u64 \<Rightarrow> u32 \<Rightarrow> u32 \<Rightarrow> u32 \<Rightarrow> fs \<Rightarrow> (u64 \<times> fs) option" where
  "cow_block old_blockno off sz valid s = do {
     let e = unat (off + sz);
     check (off + sz \<le> 4096);
     check (valid \<le> 4096);
     (new_blockno, s) \<leftarrow> alloc_block s;
     if new_blockno = BPFS_BLOCKNO_INVALID then Some (BPFS_BLOCKNO_INVALID, s)
     else do {
       (po, s) \<leftarrow> get_block old_blockno s;
       (pn, s) \<leftarrow> get_block new_blockno s;
       old_block \<leftarrow> mem po s;
       new_block \<leftarrow> mem pn s;
       let new_block = blk_copy new_block 0 old_block 0 (unat off);
       let s = s\<lparr>cow_nbytes := cow_nbytes s + ucast off\<rparr>;
       let copy_end = (e < unat valid);
       let new_block = (if copy_end then blk_copy new_block e old_block e (unat valid - e) else new_block);
       let s = (if copy_end then s\<lparr>cow_nbytes := cow_nbytes s + of_nat (unat valid - e)\<rparr> else s);
       let s = (if off \<noteq> 0 \<or> copy_end then s\<lparr>cow_nblocks := cow_nblocks s + 1\<rparr> else s);
       s \<leftarrow> put_mem pn new_block s;
       s \<leftarrow> free_block old_blockno s;
       Some (new_blockno, s)
     }
   }"

definition cow_block_hole :: "u32 \<Rightarrow> u32 \<Rightarrow> u32 \<Rightarrow> fs \<Rightarrow> (u64 \<times> fs) option" where
  "cow_block_hole off sz valid s = do {
     let e = unat (off + sz);
     check (off + sz \<le> 4096);
     check (valid \<le> 4096);
     (blockno, s) \<leftarrow> alloc_block s;
     if blockno = BPFS_BLOCKNO_INVALID then Some (BPFS_BLOCKNO_INVALID, s)
     else do {
       (p, s) \<leftarrow> get_block blockno s;
       block \<leftarrow> mem p s;
       let block = blk_fill block 0 0 (unat off);
       let block = (if e < unat valid then blk_fill block e 0 (unat valid - e) else block);
       s \<leftarrow> put_mem p block s;
       Some (blockno, s)
     }
   }"

definition cow_block_entire :: "u64 \<Rightarrow> fs \<Rightarrow> (u64 \<times> fs) option" where
  "cow_block_entire old_blockno s = do {
     (new_blockno, s) \<leftarrow> alloc_block s;
     if new_blockno = BPFS_BLOCKNO_INVALID then Some (BPFS_BLOCKNO_INVALID, s)
     else do {
       (po, s) \<leftarrow> get_block old_blockno s;
       (pn, s) \<leftarrow> get_block new_blockno s;
       old_block \<leftarrow> mem po s;
       new_block \<leftarrow> mem pn s;
       s \<leftarrow> put_mem pn (blk_copy new_block 0 old_block 0 4096) s;
       s \<leftarrow> free_block old_blockno
         (s\<lparr>cow_nbytes := cow_nbytes s + BPFS_BLOCK_SIZE, cow_nblocks := cow_nblocks s + 1\<rparr>);
       Some (new_blockno, s)
     }
   }"

section \<open>Inode allocation\<close>

definition get_inode_root :: "fs \<Rightarrow> (u64 \<times> fs) option" where
  "get_inode_root s = do {
     super \<leftarrow> get_super s;
     get_block (super_inode_root_addr super) s
   }"

definition init_inode_allocations :: "fs \<Rightarrow> (int \<times> fs) option" where
  "init_inode_allocations s = do {
     (p, s) \<leftarrow> get_inode_root s;
     inode_root \<leftarrow> mem p s;
     (r, bm) \<leftarrow> bitmap_init True (inode_alloc s)
       (NBLOCKS_FOR_NBYTES (root_nbytes inode_root 0) * BPFS_INODES_PER_BLOCK);
     Some (r, s\<lparr>inode_alloc := bm\<rparr>)
   }"

definition set_inode :: "u64 \<Rightarrow> fs \<Rightarrow> (bool \<times> fs) option" where
  "set_inode ino s = do {
     check (ino \<noteq> BPFS_INO_INVALID);
     (was_set, bm) \<leftarrow> bitmap_ensure_set (inode_alloc s) (ino - 1);
     Some (was_set, s\<lparr>inode_alloc := bm\<rparr>)
   }"

definition free_inode :: "u64 \<Rightarrow> fs \<Rightarrow> fs option" where
  "free_inode ino s = do {
     check (ino \<noteq> BPFS_INO_INVALID);
     bm \<leftarrow> bitmap_free (inode_alloc s) (ino - 1);
     Some (s\<lparr>inode_alloc := bm\<rparr>)
   }"

definition abort_inodes :: "fs \<Rightarrow> fs option" where
  "abort_inodes s = do {
     bm \<leftarrow> bitmap_abort (Some (heap_junk s)) (inode_alloc s);
     Some (s\<lparr>inode_alloc := bm\<rparr>)
   }"

definition commit_inodes :: "fs \<Rightarrow> fs option" where
  "commit_inodes s = do {
     bm \<leftarrow> bitmap_commit (inode_alloc s);
     Some (s\<lparr>inode_alloc := bm\<rparr>)
   }"

text \<open>Every error branch of \<^verbatim>\<open>get_inode_offset\<close> starts with \<^verbatim>\<open>assert(0)\<close>.\<close>

definition get_inode_offset :: "u64 \<Rightarrow> fs \<Rightarrow> (u64 \<times> fs) option" where
  "get_inode_offset ino s = do {
     check (ino \<noteq> BPFS_INO_INVALID);
     let no = ino - 1;
     check (no < bm_ntotal (inode_alloc s));
     let offset = no * of_nat SIZEOF_INODE;
     (p, s) \<leftarrow> get_inode_root s;
     inode_root \<leftarrow> mem p s;
     check (offset + of_nat SIZEOF_INODE \<le> root_nbytes inode_root 0);
     Some (offset, s)
   }"

definition bpfs_abort :: "fs \<Rightarrow> fs option" where
  "bpfs_abort s = do { s \<leftarrow> abort_blocks s; abort_inodes s }"

definition bpfs_commit :: "fs \<Rightarrow> fs option" where
  "bpfs_commit s = do { s \<leftarrow> commit_blocks s; commit_inodes s }"

section \<open>Eviction\<close>

definition indir_of :: "u64 \<Rightarrow> fs \<Rightarrow> u64 option" where
  "indir_of n s = (if unat n < length (indir_mapping s) then Some (indir_mapping s ! unat n) else None)"

text \<open>The pointer in the indirect block is redirected; \<open>True\<close> when it was found.\<close>

definition redirect :: "u64 \<Rightarrow> u64 \<Rightarrow> fs \<Rightarrow> (bool \<times> fs) option" where
  "redirect block_num blockno s = do {
     i \<leftarrow> indir_of block_num s;
     (p, s) \<leftarrow> get_block i s;
     indir \<leftarrow> mem p s;
     case replace_addr block_num blockno indir of
       None \<Rightarrow> Some (False, s)
     | Some indir \<Rightarrow> do { s \<leftarrow> put_mem p indir s; Some (True, s) }
   }"

definition anti_cache_manager_evict_to_disk :: "u64 \<Rightarrow> fs \<Rightarrow> fs option" where
  "anti_cache_manager_evict_to_disk arg s = do {
     let block_num = as_int arg;
     i \<leftarrow> indir_of block_num s;
     if i \<noteq> 0 then do {
       (p, s) \<leftarrow> get_block block_num s;
       buf \<leftarrow> mem p s;
       (newpos, d) \<leftarrow> writeBlock buf (dm s);
       let blockno = newpos OR disk_bit;
       check (blockno XOR disk_bit = newpos);
       (found, s) \<leftarrow> redirect block_num blockno (s\<lparr>dm := d\<rparr>);
       if found then free_block block_num s else Some s
     } else Some s
   }"

primrec collect_blocks :: "u64 list \<Rightarrow> fs \<Rightarrow> (block list \<times> fs) option" where
  "collect_blocks [] s = Some ([], s)"
| "collect_blocks (block_num # rest) s = do {
     i \<leftarrow> indir_of block_num s;
     check (i \<noteq> 0);
     (p, s) \<leftarrow> get_block block_num s;
     buf \<leftarrow> mem p s;
     (bufs, s) \<leftarrow> collect_blocks rest s;
     Some (buf # bufs, s)
   }"

primrec redirect_all :: "(u64 \<times> u64) list \<Rightarrow> fs \<Rightarrow> fs option" where
  "redirect_all [] s = Some s"
| "redirect_all (x # rest) s = do {
     (found, s) \<leftarrow> redirect (fst x) (snd x OR disk_bit) s;
     redirect_all rest s
   }"

definition anti_cache_manager_bulk_evict_to_disk :: "u64 list \<Rightarrow> fs \<Rightarrow> fs option" where
  "anti_cache_manager_bulk_evict_to_disk block_num_arr s = do {
     (block_data_arr, s) \<leftarrow> collect_blocks block_num_arr s;
     let ret = map (\<lambda>i. get_u64 (heap_junk s) (8 * i)) [0..<length block_num_arr];
     (disk_block_num_arr, d) \<leftarrow> writeBlocksInBulk block_data_arr ret (dm s);
     redirect_all (zip block_num_arr disk_block_num_arr) (s\<lparr>dm := d\<rparr>)
   }"

text \<open>When fewer blocks than announced were collected, the rest of the array is uninitialised.\<close>

definition anti_cache_manager_evict_blocks :: "fs \<Rightarrow> (u64 \<times> fs) option" where
  "anti_cache_manager_evict_blocks s = do {
     (count, victims, a) \<leftarrow> evict_victims (ac s);
     let s = s\<lparr>ac := a\<rparr>;
     if count = 0 then Some (0, s)
     else do {
       check (length victims = unat count);
       s \<leftarrow> anti_cache_manager_bulk_evict_to_disk victims s;
       Some (count, s)
     }
   }"

text \<open>One iteration of the loop of the manager's thread.\<close>

definition anti_cache_manager_main :: "fs \<Rightarrow> fs option" where
  "anti_cache_manager_main s = do {
     (added, a) \<leftarrow> anti_cache_manager_update_lru (Suc (unat (q_num (ac s)))) (ac s);
     (evicted, s) \<leftarrow> anti_cache_manager_evict_blocks (s\<lparr>ac := a\<rparr>);
     Some s
   }"

section \<open>Memory\<close>

definition resident :: "u64 \<Rightarrow> fs \<Rightarrow> bool" where
  "resident n s \<longleftrightarrow> n \<noteq> 0 \<and> unat n \<le> length (bpram s) \<and> n AND disk_bit = 0"

lemma mem_eq_Some: "mem n s = Some b \<longleftrightarrow> n \<noteq> 0 \<and> unat n \<le> length (bpram s) \<and> b = bpram s ! (unat n - 1)"
  by (auto simp: mem_def)

lemma put_mem_eq_Some:
  "put_mem n b s = Some s' \<longleftrightarrow>
     n \<noteq> 0 \<and> unat n \<le> length (bpram s) \<and> s' = s\<lparr>bpram := (bpram s)[unat n - 1 := b]\<rparr>"
  by (auto simp: put_mem_def)

lemma unat_pos: "(n :: 'a::len word) \<noteq> 0 \<longleftrightarrow> 0 < unat n"
  by (simp add: unat_gt_0)

lemma mem_put_mem:
  assumes "put_mem n b s = Some s'"
  shows "mem m s' = (if m = n then Some b else mem m s)"
proof -
  have "unat m - 1 = unat n - 1 \<longleftrightarrow> m = n" if "m \<noteq> 0" "n \<noteq> 0"
  proof -
    have "0 < unat m" "0 < unat n" using that by (simp_all add: unat_pos)
    then have "unat m - 1 = unat n - 1 \<longleftrightarrow> unat m = unat n" by linarith
    then show ?thesis by simp
  qed
  then show ?thesis using assms by (auto simp: mem_def put_mem_eq_Some nth_list_update unat_pos)
qed

lemma resident_put_mem:
  "put_mem n b s = Some s' \<Longrightarrow> resident m s' = resident m s"
  by (auto simp: put_mem_eq_Some resident_def)

lemma resident_mem: "resident n s \<Longrightarrow> \<exists>b. mem n s = Some b"
  by (simp add: resident_def mem_def)

lemma resident_put: "resident n s \<Longrightarrow> \<exists>s'. put_mem n b s = Some s'"
  by (simp add: resident_def put_mem_def)

lemma mem_update [simp]:
  "mem n (s\<lparr>block_alloc := x1\<rparr>) = mem n s" "mem n (s\<lparr>dm := x2\<rparr>) = mem n s"
  "mem n (s\<lparr>ac := x3\<rparr>) = mem n s" "mem n (s\<lparr>cow_nbytes := x4\<rparr>) = mem n s"
  "mem n (s\<lparr>cow_nblocks := x4\<rparr>) = mem n s" "mem n (s\<lparr>inode_alloc := x1\<rparr>) = mem n s"
  "mem n (s\<lparr>indir_mapping := x5\<rparr>) = mem n s" "mem n (s\<lparr>current_indir_pointer := x4\<rparr>) = mem n s"
  by (simp_all add: mem_def)

lemma resident_update [simp]:
  "resident n (s\<lparr>block_alloc := x1\<rparr>) = resident n s" "resident n (s\<lparr>dm := x2\<rparr>) = resident n s"
  "resident n (s\<lparr>ac := x3\<rparr>) = resident n s" "resident n (s\<lparr>cow_nbytes := x4\<rparr>) = resident n s"
  "resident n (s\<lparr>cow_nblocks := x4\<rparr>) = resident n s" "resident n (s\<lparr>inode_alloc := x1\<rparr>) = resident n s"
  "resident n (s\<lparr>indir_mapping := x5\<rparr>) = resident n s"
  "resident n (s\<lparr>current_indir_pointer := x4\<rparr>) = resident n s"
  by (simp_all add: resident_def)

lemma disk_bit_small:
  assumes "unat n < 2 ^ 63"
  shows "n AND disk_bit = 0"
proof -
  have "\<not> bit n 63"
  proof
    assume "bit n 63"
    then have "bit (unat n) 63" by (simp add: bit_unsigned_iff)
    then show False using assms by (simp add: bit_iff_odd)
  qed
  then show ?thesis using and_push_bit_1_eq_0 by blast
qed

lemma get_block_resident [simp]:
  "n \<noteq> 0 \<Longrightarrow> n AND disk_bit = 0 \<Longrightarrow> get_block n s = Some (n, s)"
  by (subst get_block.simps) simp

section \<open>Well-formed allocation state\<close>

text \<open>The bitmap covers exactly the memory, and the two super blocks are in use.\<close>

definition blocks_ok :: "fs \<Rightarrow> bool" where
  "blocks_ok s \<longleftrightarrow> bitmap_inv_fixed (block_alloc s) \<and>
     unat (bm_ntotal (block_alloc s)) = length (bpram s) \<and> length (bpram s) < 2 ^ 63 \<and>
     0 \<in> bitmap_persistent (block_alloc s) \<and> 1 \<in> bitmap_persistent (block_alloc s)"

definition blocks_full :: "fs \<Rightarrow> bool" where
  "blocks_full s \<longleftrightarrow> bitmap_used (block_alloc s) = {..<unat (bm_ntotal (block_alloc s))}"

text \<open>\<open>n\<close> was free in \<open>s\<close> and \<open>s'\<close> differs from \<open>s\<close> only in that \<open>n\<close> is now staged as allocated.\<close>

definition allocated :: "u64 \<Rightarrow> fs \<Rightarrow> fs \<Rightarrow> bool" where
  "allocated n s s' \<longleftrightarrow> resident n s \<and> 3 \<le> unat n \<and> unat n - 1 \<notin> bitmap_used (block_alloc s) \<and>
     s' = s\<lparr>block_alloc := block_alloc s'\<rparr> \<and>
     bitmap_used (block_alloc s') = insert (unat n - 1) (bitmap_used (block_alloc s)) \<and>
     bm_allocs (block_alloc s') = (n - 1) # bm_allocs (block_alloc s) \<and>
     bm_frees (block_alloc s') = bm_frees (block_alloc s)"

lemma alloc_block_ok:
  assumes "blocks_ok s"
  shows "\<exists>n s'. alloc_block s = Some (n, s') \<and> blocks_ok s' \<and>
    (if blocks_full s then n = 0 \<and> s' = s else allocated n s s')"
proof (cases "blocks_full s")
  case True
  have "bitmap_core (block_alloc s)" using assms by (simp add: blocks_ok_def bitmap_inv_fixed_def bitmap_inv_def)
  from bitmap_alloc_full [OF this] True have "alloc_block s = Some (0, s)"
    by (simp add: blocks_full_def alloc_block_def)
  with assms True show ?thesis by simp
next
  case False
  let ?bm = "block_alloc s"
  have inv: "bitmap_inv ?bm" "bitmap_core ?bm"
    using assms by (simp_all add: blocks_ok_def bitmap_inv_fixed_def bitmap_inv_def)
  obtain no bm' where no: "bitmap_alloc ?bm = Some (no, bm')" "no < bm_ntotal ?bm"
      "unat no \<notin> bitmap_used ?bm" "bitmap_used bm' = insert (unat no) (bitmap_used ?bm)"
      "bm_allocs bm' = no # bm_allocs ?bm" "bm_frees bm' = bm_frees ?bm"
      "bm_ntotal bm' = bm_ntotal ?bm" "bm_prev_ntotal bm' = bm_prev_ntotal ?bm"
    using bitmap_alloc_free_index [OF inv(2)] False unfolding blocks_full_def by blast
  have "bitmap_inv bm'" "bitmap_persistent bm' = bitmap_persistent ?bm"
    using bitmap_alloc_step [OF inv(1) no(1)] by blast+
  then have ok: "blocks_ok (s\<lparr>block_alloc := bm'\<rparr>)"
    using assms no(4,7,8) by (simp add: blocks_ok_def bitmap_inv_fixed_def)
  have two: "2 \<le> unat no" using no(3) assms
    by (cases "unat no = 0 \<or> unat no = 1") (auto simp: blocks_ok_def bitmap_persistent_def)
  have lt: "unat no < length (bpram s)" "length (bpram s) < 2 ^ 63"
    using no(2) assms by (simp_all add: blocks_ok_def word_less_nat_alt)
  then have u: "unat (no + 1) = unat no + 1" by (simp add: unat_word_ariths)
  then have "no + 1 \<noteq> 0" using unat_pos [of "no + 1"] by simp
  moreover have "(no + 1) AND disk_bit = 0" using lt u by (intro disk_bit_small) simp
  ultimately have "allocated (no + 1) s (s\<lparr>block_alloc := bm'\<rparr>)"
    using u lt two no by (simp add: allocated_def resident_def)
  moreover have "alloc_block s = Some (no + 1, s\<lparr>block_alloc := bm'\<rparr>)"
    using no(1,2,7) u two by (auto simp: alloc_block_def word_le_nat_alt Let_def)
  ultimately show ?thesis using ok False by auto
qed

text \<open>The blocks in use with their contents, and what is left of them when the staged changes are
  dropped.\<close>

definition used_blocks :: "fs \<Rightarrow> (nat \<times> block) set" where
  "used_blocks s = (\<lambda>i. (i, bpram s ! i)) ` bitmap_used (block_alloc s)"

definition persistent_blocks :: "fs \<Rightarrow> (nat \<times> block) set" where
  "persistent_blocks s = (\<lambda>i. (i, bpram s ! i)) ` bitmap_persistent (block_alloc s)"

definition blocks_clean :: "fs \<Rightarrow> bool" where
  "blocks_clean s = bitmap_clean (block_alloc s)"

definition staged_block :: "u64 \<Rightarrow> fs \<Rightarrow> bool" where
  "staged_block n s \<longleftrightarrow> resident n s \<and> n - 1 \<in> set (bm_allocs (block_alloc s))"

text \<open>\<open>s'\<close> is well-formed and keeps the persistent blocks of \<open>s\<close>.\<close>

definition keeps :: "fs \<Rightarrow> fs \<Rightarrow> bool" where
  "keeps s s' \<longleftrightarrow> blocks_ok s' \<and> persistent_blocks s' = persistent_blocks s"

lemma keeps_trans: "keeps s s' \<Longrightarrow> keeps s' s'' \<Longrightarrow> keeps s s''"
  by (simp add: keeps_def)

lemma unat_pred: "n \<noteq> 0 \<Longrightarrow> unat (n - 1) = unat (n :: u64) - 1"
  by (simp add: unat_minus_one)

lemma blocks_update [simp]:
  "blocks_ok (s\<lparr>cow_nbytes := x\<rparr>) = blocks_ok s" "blocks_ok (s\<lparr>cow_nblocks := x\<rparr>) = blocks_ok s"
  "blocks_ok (s\<lparr>ac := a\<rparr>) = blocks_ok s"
  "persistent_blocks (s\<lparr>cow_nbytes := x\<rparr>) = persistent_blocks s"
  "persistent_blocks (s\<lparr>cow_nblocks := x\<rparr>) = persistent_blocks s"
  "persistent_blocks (s\<lparr>ac := a\<rparr>) = persistent_blocks s"
  "staged_block n (s\<lparr>cow_nbytes := x\<rparr>) = staged_block n s" "staged_block n (s\<lparr>cow_nblocks := x\<rparr>) = staged_block n s"
  "staged_block n (s\<lparr>ac := a\<rparr>) = staged_block n s"
  by (simp_all add: blocks_ok_def persistent_blocks_def staged_block_def)

lemma alloc_block_keeps:
  assumes "blocks_ok s" and "alloc_block s = Some (n, s')"
  shows "keeps s s' \<and> (n = 0 \<or> staged_block n s')"
proof (cases "blocks_full s")
  case True
  with assms show ?thesis using alloc_block_ok [OF assms(1)] by (auto simp: keeps_def)
next
  case False
  then have a: "allocated n s s'" "blocks_ok s'" using alloc_block_ok [OF assms(1)] assms(2) by auto
  then have n: "n \<noteq> 0" "unat (n - 1) = unat n - 1" by (auto simp: allocated_def resident_def unat_pred)
  have "bitmap_persistent (block_alloc s') = bitmap_persistent (block_alloc s)"
    using a(1) n by (auto simp: bitmap_persistent_def allocated_def)
  moreover have "bpram s' = bpram s" "resident n s'"
    using a(1) unfolding allocated_def by (metis fs.select_convs(1) fs.surjective fs.update_convs(2),
      metis resident_update(1))
  ultimately show ?thesis using a by (simp add: keeps_def persistent_blocks_def staged_block_def allocated_def)
qed

lemma put_staged_keeps:
  assumes "blocks_ok s" and "staged_block n s" and "put_mem n b s = Some s'"
  shows "keeps s s' \<and> staged_block n s'"
proof -
  have s': "s' = s\<lparr>bpram := (bpram s)[unat n - 1 := b]\<rparr>" and n: "unat (n - 1) = unat n - 1"
    using assms(3) by (auto simp: put_mem_eq_Some unat_pred)
  have "unat n - 1 \<notin> bitmap_persistent (block_alloc s)"
    using assms(2) imageI [of "n - 1" "set (bm_allocs (block_alloc s))" unat]
    by (auto simp: staged_block_def bitmap_persistent_def n)
  then have "persistent_blocks s' = persistent_blocks s"
    unfolding persistent_blocks_def s' by (intro image_cong) (simp, metis fs.select_convs(1) fs.surjective fs.update_convs(1) nth_list_update_neq)
  then show ?thesis using assms s' by (simp add: keeps_def blocks_ok_def staged_block_def resident_def)
qed

lemma free_block_keeps:
  assumes "blocks_ok s" and "free_block n s = Some s'"
  shows "keeps s s' \<and> bpram s' = bpram s"
proof (cases "n AND disk_bit = 0")
  case False
  with assms show ?thesis by (simp add: free_block_def keeps_def)
next
  case True
  with assms(2) obtain bm a where f: "bitmap_free (block_alloc s) (n - 1) = Some bm"
      "s' = s\<lparr>block_alloc := bm, ac := a\<rparr>"
    by (auto simp: free_block_def bind_Some_eq)
  with bitmap_free_step [OF _ f(1)] assms(1) show ?thesis
    by (simp add: keeps_def blocks_ok_def persistent_blocks_def bitmap_inv_fixed_def)
qed

lemma free_block_live:
  assumes "blocks_ok s" and "n AND disk_bit = 0" and "3 \<le> unat n"
    and "unat n - 1 \<in> bitmap_used (block_alloc s)" and "n - 1 \<notin> set (bm_frees (block_alloc s))"
    and "delete_lru_entry n (ac s) = Some a"
  shows "free_block n s =
    Some (s\<lparr>block_alloc := (block_alloc s)\<lparr>bm_frees := (n - 1) # bm_frees (block_alloc s)\<rparr>, ac := a\<rparr>)"
proof -
  have n: "n \<noteq> 0" using assms(3) unat_pos [of n] by simp
  then have u: "unat (n - 1) \<in> bitmap_used (block_alloc s)" using assms(4) by (simp add: unat_pred)
  have "bitmap_core (block_alloc s)" using assms(1) by (simp add: blocks_ok_def bitmap_inv_fixed_def bitmap_inv_def)
  from bitmap_byte_used [OF this u] have "bitmap_free (block_alloc s) (n - 1) =
      Some ((block_alloc s)\<lparr>bm_frees := (n - 1) # bm_frees (block_alloc s)\<rparr>)"
    using assms(5) by (auto simp: bitmap_free_def staged_list_freshly_alloced_def check_def)
  then show ?thesis using assms(2,3,6) n by (auto simp: free_block_def word_le_nat_alt)
qed

text \<open>The copy that \<^verbatim>\<open>cow_block\<close> makes, and its result for a block in memory.\<close>

definition cow_copy :: "block \<Rightarrow> block \<Rightarrow> nat \<Rightarrow> nat \<Rightarrow> nat \<Rightarrow> block" where
  "cow_copy new old off e valid = (let b = blk_copy new 0 old 0 off in
     if e < valid then blk_copy b e old e (valid - e) else b)"

lemma alloc_block_mem:
  assumes "blocks_ok s" and "alloc_block s = Some (n, s')" and "n \<noteq> 0"
  shows "bpram s' = bpram s" "ac s' = ac s" "staged_block n s'" "blocks_ok s'" "allocated n s s'"
proof -
  have a: "allocated n s s'" using alloc_block_ok [OF assms(1)] assms(2,3) by (auto split: if_splits)
  then show "bpram s' = bpram s" "ac s' = ac s" "allocated n s s'" unfolding allocated_def
    by (metis fs.select_convs(1) fs.surjective fs.update_convs(2),
        metis fs.select_convs(5) fs.surjective fs.update_convs(2), simp)
  show "staged_block n s'" "blocks_ok s'" using alloc_block_keeps [OF assms(1,2)] assms(3) by (simp_all add: keeps_def)
qed

lemma cow_block_resident:
  assumes "blocks_ok s" and "old AND disk_bit = 0" and "alloc_block s = Some (n, s1)" and "n \<noteq> 0"
  shows "cow_block old off sz valid s = Some (m, s') \<longleftrightarrow>
    m = n \<and> off + sz \<le> 4096 \<and> valid \<le> 4096 \<and> (\<exists>b b' nb nbl s2. mem old s = Some b \<and> mem n s = Some b' \<and>
      nb = cow_nbytes s1 + ucast off + (if unat (off + sz) < unat valid then of_nat (unat valid - unat (off + sz)) else 0) \<and>
      nbl = (if off \<noteq> 0 \<or> unat (off + sz) < unat valid then cow_nblocks s1 + 1 else cow_nblocks s1) \<and>
      put_mem n (cow_copy b' b (unat off) (unat (off + sz)) (unat valid))
        (s1\<lparr>cow_nbytes := nb, cow_nblocks := nbl\<rparr>) = Some s2 \<and> free_block old s2 = Some s')"
proof -
  note a = alloc_block_mem [OF assms(1,3,4)]
  have n: "n AND disk_bit = 0" using a(3) by (simp add: staged_block_def resident_def)
  have m: "mem k s1 = mem k s" for k using a(1) by (simp add: mem_def)
  have upd: "s1\<lparr>cow_nbytes := cow_nbytes s1\<rparr> = s1" "s1\<lparr>cow_nblocks := cow_nblocks s1\<rparr> = s1"
    "s1\<lparr>cow_nbytes := x, cow_nblocks := cow_nblocks s1\<rparr> = s1\<lparr>cow_nbytes := x\<rparr>" for x by simp_all
  show ?thesis
  proof (cases "old = 0")
    case True
    have "cow_block 0 off sz valid s = None"
      using assms(3,4) by (auto simp: cow_block_def Let_def get_block.simps [of 0] check_def)
    with True show ?thesis by (simp add: mem_def)
  next
    case False
    show ?thesis
      using assms(2-4) n m False
      by (cases "unat (off + sz) < unat valid"; cases "off = 0")
         (auto simp: cow_block_def Let_def bind_Some_eq cow_copy_def add.assoc upd)
  qed
qed

lemma cow_block_entire_resident:
  assumes "blocks_ok s" and "old AND disk_bit = 0" and "alloc_block s = Some (n, s1)" and "n \<noteq> 0"
  shows "cow_block_entire old s = Some (m, s') \<longleftrightarrow>
    m = n \<and> (\<exists>b b' s2. mem old s = Some b \<and> mem n s = Some b' \<and>
      put_mem n (blk_copy b' 0 b 0 4096) s1 = Some s2 \<and>
      free_block old (s2\<lparr>cow_nbytes := cow_nbytes s1 + 4096, cow_nblocks := cow_nblocks s1 + 1\<rparr>) = Some s')"
proof -
  note a = alloc_block_mem [OF assms(1,3,4)]
  have n: "n AND disk_bit = 0" using a(3) by (simp add: staged_block_def resident_def)
  have m: "mem k s1 = mem k s" for k using a(1) by (simp add: mem_def)
  show ?thesis
  proof (cases "old = 0")
    case True
    have "cow_block_entire 0 s = None"
      using assms(3,4) by (simp add: cow_block_entire_def get_block.simps [of 0])
    with True show ?thesis by (simp add: mem_def)
  next
    case False
    show ?thesis using assms(2-4) n m False
      by (auto simp: cow_block_entire_def bind_Some_eq put_mem_eq_Some)
  qed
qed

lemma cow_block_hole_resident:
  assumes "blocks_ok s" and "alloc_block s = Some (n, s1)" and "n \<noteq> 0"
  shows "cow_block_hole off sz valid s = Some (m, s') \<longleftrightarrow>
    m = n \<and> off + sz \<le> 4096 \<and> valid \<le> 4096 \<and> (\<exists>b'. mem n s = Some b' \<and>
      put_mem n (cow_copy b' zero_block (unat off) (unat (off + sz)) (unat valid)) s1 = Some s')"
proof -
  note a = alloc_block_mem [OF assms(1-3)]
  have n: "n AND disk_bit = 0" using a(3) by (simp add: staged_block_def resident_def)
  have m: "mem k s1 = mem k s" for k using a(1) by (simp add: mem_def)
  have fill: "blk_fill b i 0 l = blk_copy b i zero_block i l" for b i l
    by (simp add: blk_fill_def blk_copy_def zero_block_def)
  show ?thesis using assms(2,3) n m
    by (auto simp: cow_block_hole_def Let_def bind_Some_eq cow_copy_def fill)
qed

lemma put_free_keeps:
  assumes "blocks_ok s" and "alloc_block s = Some (n, s1)" and "n \<noteq> 0"
    and "put_mem n b (s1\<lparr>cow_nbytes := x, cow_nblocks := y\<rparr>) = Some s2"
  shows "keeps s s2 \<and> staged_block n s2"
  using put_staged_keeps [OF _ _ assms(4)] alloc_block_keeps [OF assms(1,2)] assms(3) by (simp add: keeps_def)

lemma cow_keeps:
  assumes "blocks_ok s" and "old AND disk_bit = 0"
  shows "cow_block old off sz valid s = Some (n, s') \<Longrightarrow> keeps s s'"
    and "cow_block_entire old s = Some (n, s') \<Longrightarrow> keeps s s'"
    and "cow_block_hole off sz valid s = Some (n, s') \<Longrightarrow> keeps s s'"
proof -
  obtain k s1 where a: "alloc_block s = Some (k, s1)" using alloc_block_ok [OF assms(1)] by blast
  have k: "keeps s s1" using alloc_block_keeps [OF assms(1) a] by simp
  have s1: "s1\<lparr>cow_nbytes := cow_nbytes s1, cow_nblocks := cow_nblocks s1\<rparr> = s1" by simp
  show "keeps s s'" if c: "cow_block old off sz valid s = Some (n, s')"
  proof (cases "k = 0")
    case True
    then show ?thesis using c a k by (simp add: cow_block_def Let_def bind_Some_eq)
  next
    case False
    with c cow_block_resident [OF assms a False, of off sz valid] obtain b x y s2 where
      "put_mem k b (s1\<lparr>cow_nbytes := x, cow_nblocks := y\<rparr>) = Some s2" "free_block old s2 = Some s'"
      by blast
    then show ?thesis using put_free_keeps [OF assms(1) a False] free_block_keeps
      by (meson keeps_def keeps_trans)
  qed
  show "keeps s s'" if c: "cow_block_entire old s = Some (n, s')"
  proof (cases "k = 0")
    case True
    then show ?thesis using c a k by (simp add: cow_block_entire_def)
  next
    case False
    with c cow_block_entire_resident [OF assms a False] obtain b s2 x y where
      p: "put_mem k b s1 = Some s2" and f: "free_block old (s2\<lparr>cow_nbytes := x, cow_nblocks := y\<rparr>) = Some s'"
      by blast
    have "keeps s s2" using put_free_keeps [OF assms(1) a False] p s1 by metis
    then have "keeps s (s2\<lparr>cow_nbytes := x, cow_nblocks := y\<rparr>)" by (simp add: keeps_def)
    then show ?thesis using free_block_keeps [OF _ f] by (meson keeps_def keeps_trans)
  qed
  show "keeps s s'" if c: "cow_block_hole off sz valid s = Some (n, s')"
  proof (cases "k = 0")
    case True
    then show ?thesis using c a k by (simp add: cow_block_hole_def Let_def)
  next
    case False
    with c cow_block_hole_resident [OF assms(1) a False] obtain b where "put_mem k b s1 = Some s'" by blast
    then show ?thesis using put_free_keeps [OF assms(1) a False] s1 by metis
  qed
qed

section \<open>Transactions\<close>

text \<open>What the file system does to blocks in memory within a transaction; \<open>Fill\<close> is the write of new
  data into a block that the transaction allocated. A block is copied when it is in memory: the crawler fetches an evicted block before
  it calls its callback.\<close>

datatype block_op = Alloc_block | Free_block u64 | Cow u64 u32 u32 u32 | Cow_entire u64
  | Cow_hole u32 u32 u32 | Fill u64 block

fun block_step :: "block_op \<Rightarrow> fs \<Rightarrow> fs option" where
  "block_step Alloc_block s = map_option snd (alloc_block s)"
| "block_step (Free_block n) s = free_block n s"
| "block_step (Cow n off sz valid) s =
     (if n AND disk_bit = 0 then map_option snd (cow_block n off sz valid s) else None)"
| "block_step (Cow_entire n) s =
     (if n AND disk_bit = 0 then map_option snd (cow_block_entire n s) else None)"
| "block_step (Cow_hole off sz valid) s = map_option snd (cow_block_hole off sz valid s)"
| "block_step (Fill n b) s = (if n - 1 \<in> set (bm_allocs (block_alloc s)) \<and> n AND disk_bit = 0
     then put_mem n b s else None)"

lemma block_step_keeps:
  assumes "blocks_ok s" and "block_step x s = Some s'"
  shows "keeps s s'"
proof (cases x)
  case Alloc_block
  then show ?thesis using assms alloc_block_keeps by auto
next
  case (Free_block n)
  then show ?thesis using assms free_block_keeps by auto
next
  case (Cow n off sz valid)
  then show ?thesis using assms cow_keeps(1) [OF assms(1)] by (auto split: if_splits)
next
  case (Cow_entire n)
  then show ?thesis using assms cow_keeps(2) [OF assms(1)] by (auto split: if_splits)
next
  case (Cow_hole off sz valid)
  then show ?thesis using assms cow_keeps(3) [OF assms(1), of 0] by auto
next
  case (Fill n b)
  then have "put_mem n b s = Some s'" "staged_block n s"
    using assms(2) by (auto simp: staged_block_def resident_def put_mem_eq_Some split: if_splits)
  then show ?thesis using put_staged_keeps [OF assms(1)] by blast
qed

lemma abort_blocks_ok:
  assumes "blocks_ok s"
  shows "\<exists>s'. abort_blocks s = Some s' \<and> blocks_clean s' \<and> used_blocks s' = persistent_blocks s \<and>
    blocks_ok s' \<and> bpram s' = bpram s"
proof -
  have "bitmap_inv (block_alloc s)" "bm_prev_ntotal (block_alloc s) = 0"
    using assms by (simp_all add: blocks_ok_def bitmap_inv_fixed_def)
  from bitmap_abort_fixed_size [OF this, of "Some (heap_junk s)"] obtain bm where
    bm: "bitmap_abort (Some (heap_junk s)) (block_alloc s) = Some bm" "bitmap_inv bm" "bitmap_clean bm"
      "bitmap_used bm = bitmap_persistent (block_alloc s)" "bm_ntotal bm = bm_ntotal (block_alloc s)"
    by blast
  then have "bitmap_persistent bm = bitmap_used bm" by (simp add: bitmap_persistent_def bitmap_clean_def)
  with bm assms show ?thesis
    by (simp add: abort_blocks_def blocks_clean_def used_blocks_def persistent_blocks_def
        bitmap_inv_fixed_def bitmap_clean_def blocks_ok_def)
qed

interpretation cow_store: staged_store block_step abort_blocks blocks_ok blocks_clean used_blocks
  persistent_blocks
proof
  fix s s' x assume a: "blocks_ok s" "block_step x s = Some s'"
  show "blocks_ok s'" "persistent_blocks s' = persistent_blocks s"
    using block_step_keeps [OF a] by (simp_all add: keeps_def)
next
  fix s assume "blocks_ok s"
  then show "\<exists>s'. abort_blocks s = Some s' \<and> blocks_ok s' \<and> blocks_clean s' \<and> used_blocks s' = persistent_blocks s"
    using abort_blocks_ok by blast
next
  fix s assume "blocks_clean s"
  then show "persistent_blocks s = used_blocks s"
    by (simp add: blocks_clean_def persistent_blocks_def used_blocks_def bitmap_clean_def bitmap_persistent_def)
qed

section \<open>Eviction and return\<close>

text \<open>Block \<open>i\<close> is in memory and points at \<open>v\<close> in slot \<open>j\<close> only.\<close>

definition points_to :: "fs \<Rightarrow> u64 \<Rightarrow> nat \<Rightarrow> u64 \<Rightarrow> bool" where
  "points_to s i j v \<longleftrightarrow> resident i s \<and> j < 512 \<and>
     (\<exists>b. mem i s = Some b \<and> (\<forall>k < 512. indir_addr b (of_nat k) = v \<longleftrightarrow> k = j))"

lemma unat_slot: "k < 512 \<Longrightarrow> unat (of_nat k :: u64) = k"
  by (simp add: unat_of_nat)

lemma indir_addr_set:
  assumes "j < 512" and "k < 512"
  shows "indir_addr (set_indir_addr b (of_nat j) v) (of_nat k) =
    (if k = j then v else indir_addr b (of_nat k))"
proof (cases "k = j")
  case False
  then have "8 * j + 8 \<le> 8 * k \<or> 8 * k + 8 \<le> 8 * j" by linarith
  then show ?thesis using assms False get_put_u64_other(1) [of "8 * j" "8 * k"]
    by (simp add: indir_addr_def set_indir_addr_def unat_slot)
qed (use assms in \<open>simp add: indir_addr_def set_indir_addr_def unat_slot access_simps\<close>)

lemma find_Some_iff_upt: "find P [0..<n] = Some i \<longleftrightarrow> i < n \<and> P i \<and> (\<forall>j < i. \<not> P j)"
  by (auto simp: find_Some_iff)

lemma replace_addr_unique:
  assumes "\<forall>k < 512. indir_addr b (of_nat k) = v \<longleftrightarrow> k = j" and "j < 512"
  shows "replace_addr v w b = Some (set_indir_addr b (of_nat j) w)"
proof -
  have "find (\<lambda>j. indir_addr b (of_nat j) = v) [0..<512] = Some j"
    unfolding find_Some_iff_upt using assms by auto
  then show ?thesis by (simp add: replace_addr_def)
qed

text \<open>\<open>s'\<close> differs from \<open>s\<close> only in that the slots of indirect blocks that held \<open>v\<close> hold \<open>w\<close>.\<close>

definition slot_set :: "u64 \<Rightarrow> nat \<Rightarrow> u64 \<Rightarrow> fs \<Rightarrow> fs \<Rightarrow> bool" where
  "slot_set i j w s s' \<longleftrightarrow> (\<exists>b. mem i s = Some b \<and>
     put_mem i (set_indir_addr b (of_nat j) w) s = Some s')"

lemma redirect_ok:
  assumes "points_to s i j v" and "indir_of v s = Some i"
  shows "\<exists>s'. redirect v w s = Some (True, s') \<and> slot_set i j w s s'"
proof -
  obtain b where b: "resident i s" "j < 512" "mem i s = Some b"
    "\<forall>k < 512. indir_addr b (of_nat k) = v \<longleftrightarrow> k = j" using assms(1) by (auto simp: points_to_def)
  obtain s' where s': "put_mem i (set_indir_addr b (of_nat j) w) s = Some s'"
    using resident_put [OF b(1)] by blast
  have "redirect v w s = Some (True, s')"
    using assms(2) b(1,3) s' replace_addr_unique [OF b(4,2), of w] by (simp add: redirect_def resident_def)
  then show ?thesis using b(3) s' by (auto simp: slot_set_def)
qed

lemma slot_set_frame:
  assumes "slot_set i j w s s'" and "j < 512"
  shows "s' = s\<lparr>bpram := bpram s'\<rparr>" "length (bpram s') = length (bpram s)"
    "resident m s' = resident m s" "m \<noteq> i \<Longrightarrow> mem m s' = mem m s"
proof -
  obtain b where b: "put_mem i (set_indir_addr b (of_nat j) w) s = Some s'"
    using assms(1) by (auto simp: slot_set_def)
  then show "s' = s\<lparr>bpram := bpram s'\<rparr>" "length (bpram s') = length (bpram s)"
    by (auto simp: put_mem_eq_Some)
  show "resident m s' = resident m s" by (rule resident_put_mem [OF b])
  show "m \<noteq> i \<Longrightarrow> mem m s' = mem m s" using mem_put_mem [OF b] by simp
qed

lemma slot_set_points_to:
  assumes s: "slot_set i j w s s'" "j < 512" and p: "points_to s i' j' v'"
    and v: "w \<noteq> v'" "(i', j') \<noteq> (i, j)"
  shows "points_to s' i' j' v'"
proof (cases "i' = i")
  case False
  then show ?thesis using p slot_set_frame [OF s] by (auto simp: points_to_def)
next
  case True
  obtain b where b: "mem i s = Some b" "put_mem i (set_indir_addr b (of_nat j) w) s = Some s'"
    using s(1) by (auto simp: slot_set_def)
  have "mem i s' = Some (set_indir_addr b (of_nat j) w)" using mem_put_mem [OF b(2)] by simp
  then show ?thesis using p v b(1) True slot_set_frame(3) [OF s]
    by (auto simp: points_to_def indir_addr_set [OF s(2)])
qed

definition slot :: "fs \<Rightarrow> u64 \<Rightarrow> nat \<Rightarrow> u64 option" where
  "slot s i j = map_option (\<lambda>b. indir_addr b (of_nat j)) (mem i s)"

lemma points_to_slot: "points_to s i j v \<Longrightarrow> slot s i j = Some v"
  by (auto simp: points_to_def slot_def)

lemma slot_slot_set:
  assumes "slot_set i j w s s'" "j < 512" "k < 512"
  shows "slot s' m k = (if m = i \<and> k = j then Some w else slot s m k)"
proof -
  obtain b where b: "mem i s = Some b" "put_mem i (set_indir_addr b (of_nat j) w) s = Some s'"
    using assms(1) by (auto simp: slot_set_def)
  then show ?thesis using mem_put_mem [OF b(2), of m] indir_addr_set [OF assms(2,3), of b w]
    by (cases "k = j") (auto simp: slot_def)
qed

lemma redirect_all_ok:
  assumes "distinct (map fst xs)"
    and "\<And>v d. (v, d) \<in> set xs \<Longrightarrow> points_to s (I v) (J v) v \<and> indir_of v s = Some (I v) \<and>
      v AND disk_bit = 0"
  shows "\<exists>s'. redirect_all xs s = Some s' \<and> s' = s\<lparr>bpram := bpram s'\<rparr> \<and>
    length (bpram s') = length (bpram s) \<and>
    (\<forall>v d. (v, d) \<in> set xs \<longrightarrow> slot s' (I v) (J v) = Some (d OR disk_bit)) \<and>
    (\<forall>i j. j < 512 \<and> (i, j) \<notin> (\<lambda>x. (I (fst x), J (fst x))) ` set xs \<longrightarrow> slot s' i j = slot s i j) \<and>
    (\<forall>m. m \<notin> (\<lambda>x. I (fst x)) ` set xs \<longrightarrow> mem m s' = mem m s)"
  using assms
proof (induction xs arbitrary: s)
  case Nil
  then show ?case by simp
next
  case (Cons x xs)
  obtain v d where x: "x = (v, d)" by (cases x)
  have v: "points_to s (I v) (J v) v" "indir_of v s = Some (I v)" "J v < 512"
    using Cons.prems(2) [of v d] x by (auto simp: points_to_def)
  obtain s1 where s1: "redirect v (d OR disk_bit) s = Some (True, s1)" "slot_set (I v) (J v) (d OR disk_bit) s s1"
    using redirect_ok [OF v(1,2)] by blast
  note f = slot_set_frame [OF s1(2) v(3)]
  have msb: "(d OR disk_bit) AND disk_bit \<noteq> 0" for d :: u64
    using and_push_bit_1_eq_0 [of "d OR disk_bit" 63] by (simp add: bit_or_iff bit_exp_iff)
  have apart: "(I v', J v') \<noteq> (I v, J v)" if "(v', d') \<in> set xs" for v' d'
  proof -
    have "v' \<noteq> v" using Cons.prems(1) that x by force
    moreover have "slot s (I v') (J v') = Some v'" using Cons.prems(2) [of v' d'] that points_to_slot by auto
    ultimately show ?thesis using points_to_slot [OF v(1)] by auto
  qed
  have "points_to s1 (I v') (J v') v' \<and> indir_of v' s1 = Some (I v') \<and> v' AND disk_bit = 0"
    if m: "(v', d') \<in> set xs" for v' d'
  proof -
    have p: "points_to s (I v') (J v') v'" "indir_of v' s = Some (I v')" "v' AND disk_bit = 0"
      using Cons.prems(2) [of v' d'] m by auto
    have "d OR disk_bit \<noteq> v'" using p(3) msb [of d] by metis
    then show ?thesis using slot_set_points_to [OF s1(2) v(3) p(1) _ apart [OF m]] p(2,3) f(1)
      unfolding indir_of_def by (metis fs.select_convs(6) fs.surjective fs.update_convs(1))
  qed
  then obtain s' where s': "redirect_all xs s1 = Some s'" "s' = s1\<lparr>bpram := bpram s'\<rparr>"
      "length (bpram s') = length (bpram s1)"
      "\<forall>v d. (v, d) \<in> set xs \<longrightarrow> slot s' (I v) (J v) = Some (d OR disk_bit)"
      "\<forall>i j. j < 512 \<and> (i, j) \<notin> (\<lambda>x. (I (fst x), J (fst x))) ` set xs \<longrightarrow> slot s' i j = slot s1 i j"
      "\<forall>m. m \<notin> (\<lambda>x. I (fst x)) ` set xs \<longrightarrow> mem m s' = mem m s1"
    using Cons.IH [of s1] Cons.prems(1) by auto
  have "(I v, J v) \<notin> (\<lambda>x. (I (fst x), J (fst x))) ` set xs" using apart by force
  then have "slot s' (I v) (J v) = Some (d OR disk_bit)"
    using s'(5) v(3) slot_slot_set [OF s1(2) v(3) v(3)] by simp
  moreover have "slot s' i j = slot s i j"
    if "j < 512" "(i, j) \<notin> (\<lambda>x. (I (fst x), J (fst x))) ` set (x # xs)" for i j
    using s'(5) that x slot_slot_set [OF s1(2) v(3) that(1)] by auto
  moreover have "s' = s\<lparr>bpram := bpram s'\<rparr>" using s'(2) f(1) by (metis fs.update_convs(1) fs.surjective)
  moreover have "redirect_all (x # xs) s = Some s'" using s1(1) s'(1) x by simp
  ultimately show ?case using s'(3,4,6) f(2,4) x by (intro exI [of _ s']) auto
qed

lemma collect_blocks_ok:
  assumes "\<And>v. v \<in> set vs \<Longrightarrow> resident v s \<and> (\<exists>i. indir_of v s = Some i \<and> i \<noteq> 0)"
  shows "\<exists>bufs. collect_blocks vs s = Some (bufs, s) \<and> map Some bufs = map (\<lambda>v. mem v s) vs"
  using assms
proof (induction vs)
  case (Cons v vs)
  obtain i b where "indir_of v s = Some i" "i \<noteq> 0" "resident v s" "mem v s = Some b"
    using Cons.prems [of v] resident_mem [of v s] by auto
  moreover obtain bufs where "collect_blocks vs s = Some (bufs, s)" "map Some bufs = map (\<lambda>v. mem v s) vs"
    using Cons by auto
  ultimately show ?case by (simp add: resident_def)
qed simp

text \<open>A victim \<open>v\<close> that can be evicted: it is in memory, the table knows the indirect block \<open>i\<close> that
  points at it from slot \<open>j\<close>, and the evicted blocks \<open>i\<close> points at are on the disk.\<close>

definition evictable :: "fs \<Rightarrow> u64 \<Rightarrow> u64 \<Rightarrow> nat \<Rightarrow> bool" where
  "evictable s v i j \<longleftrightarrow> resident v s \<and> indir_of v s = Some i \<and> points_to s i j v \<and>
     unat i - 1 \<in> bitmap_used (block_alloc s) \<and>
     (\<forall>k w. k < 512 \<and> slot s i k = Some w \<and> w AND disk_bit \<noteq> 0 \<longrightarrow> disk_map (dm s) (w XOR disk_bit) \<noteq> None)"

lemma or_xor_push_bit:
  "\<not> bit d k \<Longrightarrow> (d OR push_bit k 1) XOR push_bit k 1 = (d :: 'a::len word)"
  by (intro bit_word_eqI) (auto simp: bit_or_iff bit_xor_iff bit_exp_iff)

lemma xor_disk_bit: "unat d < 2 ^ 63 \<Longrightarrow> (d OR disk_bit) XOR disk_bit = d"
  using disk_bit_small [of d] and_push_bit_1_eq_0 [of d 63] or_xor_push_bit [of d 63] by simp

lemma or_disk_bit: "(d OR disk_bit) AND disk_bit \<noteq> 0"
  using and_push_bit_1_eq_0 [of "d OR disk_bit" 63] by (simp add: bit_or_iff bit_exp_iff)

lemma get_block_from_disk_ok:
  assumes ok: "blocks_ok s" "\<not> blocks_full s" and disk: "disk_ok (dm s)" "disk_map (dm s) d = Some b"
    and i: "points_to s i j (d OR disk_bit)" "unat i - 1 \<in> bitmap_used (block_alloc s)"
  shows "\<exists>n s'. get_block_from_disk (d OR disk_bit) i s = Some (n, s') \<and> allocated n s (s\<lparr>block_alloc := block_alloc s'\<rparr>) \<and>
    mem n s' = Some b \<and> slot s' i j = Some n"
proof -
  have d: "unat d < 2 ^ 63" using disk disk_okD [OF disk(1)]
    by (auto simp: disk_map_def word_less_nat_alt split: if_splits)
  obtain d1 where r: "readBlocksWithPrefetch True (heap_junk s) d (dm s) = Some (1, b, d1)"
    using readBlocksWithPrefetch_ok [OF disk] by blast
  let ?s = "s\<lparr>dm := d1\<rparr>"
  have ok': "blocks_ok ?s" "\<not> blocks_full ?s" using ok by (simp_all add: blocks_ok_def blocks_full_def)
  obtain n s1 where a: "alloc_block ?s = Some (n, s1)" "allocated n ?s s1"
    using alloc_block_ok [OF ok'(1)] ok'(2) by auto
  have n: "n \<noteq> 0" "resident n s1" "unat n - 1 \<notin> bitmap_used (block_alloc s)" and bp: "bpram s1 = bpram s"
    using a(2) alloc_block_mem(1) [OF ok'(1) a(1)] by (auto simp: allocated_def resident_def)
  obtain s2 where s2: "put_mem n b s1 = Some s2" using resident_put [OF n(2)] by blast
  have ne: "i \<noteq> n" using i(2) n(3) by auto
  obtain bi where bi: "resident i s" "mem i s = Some bi" "j < 512"
      "\<forall>k < 512. indir_addr bi (of_nat k) = d OR disk_bit \<longleftrightarrow> k = j"
    using i(1) by (auto simp: points_to_def)
  have "resident i s1" "mem i s1 = mem i s" using bi(1) bp by (simp_all add: resident_def mem_def)
  then have i2: "resident i s2" "mem i s2 = Some bi"
    using resident_put_mem [OF s2] mem_put_mem [OF s2, of i] ne bi(2) by simp_all
  obtain s3 where s3: "put_mem i (set_indir_addr bi (of_nat j) n) s2 = Some s3"
    using resident_put [OF i2(1)] by blast
  have "get_block_from_disk (d OR disk_bit) i s = Some (n, s3)"
    using or_disk_bit [of d] xor_disk_bit [OF d] r a(1) s2 i2 s3 replace_addr_unique [OF bi(4,3)]
    by (simp add: get_block_from_disk_def resident_def)
  moreover have "mem n s3 = Some b" using mem_put_mem [OF s3, of n] mem_put_mem [OF s2, of n] ne by simp
  moreover have "slot s3 i j = Some n"
    using mem_put_mem [OF s3, of i] indir_addr_set [OF bi(3,3)] by (simp add: slot_def)
  moreover have "block_alloc s3 = block_alloc s1" using s2 s3 by (auto simp: put_mem_eq_Some)
  then have "allocated n s (s\<lparr>block_alloc := block_alloc s3\<rparr>)" using a(2) by (simp add: allocated_def)
  ultimately show ?thesis by blast
qed

text \<open>The disk numbers a bulk eviction hands out.\<close>

lemma bulk_disk_ok:
  assumes "disk_ok d" and "length ret = length bufs"
    and "unat (currentDiskBlockNumber d) + length bufs < unat (totalBlockCount d)"
  shows "\<exists>ns d'. writeBlocksInBulk bufs ret d = Some (ns, d') \<and> disk_ok d' \<and> length ns = length bufs \<and>
    (\<forall>k < length bufs. disk_map d' (ns ! k) = Some (bufs ! k) \<and> disk_map d (ns ! k) = None) \<and>
    distinct ns \<and> (\<forall>n b. disk_map d n = Some b \<longrightarrow> disk_map d' n = Some b)"
proof -
  note dk = disk_okD [OF assms(1)]
  let ?c = "currentDiskBlockNumber d"
  obtain ns d' where w: "writeBlocksInBulk bufs ret d = Some (ns, d')" "disk_ok d'" "length ns = length bufs"
      "dm_file d' = dm_file d @ bufs" "ns = map (\<lambda>i. ?c + of_nat i) [0..<length bufs]"
    using writeBlocksInBulk_ok [OF assms(1,2)] assms(3) by (auto simp: Let_def min_def split: if_splits)
  have c': "unat (currentDiskBlockNumber d') = unat ?c + length bufs"
    using disk_okD(3) [OF w(2)] w(4) dk(3) by simp
  have n: "unat (ns ! k) = unat ?c + k" if "k < length bufs" for k
  proof -
    have "unat ?c + k < 2 ^ 31" using that assms(3) dk(2) by linarith
    then have "unat ?c + k < 2 ^ 64" "k < 2 ^ 64" by simp_all
    then show ?thesis using that w(5) by (simp add: unat_word_ariths unat_of_nat)
  qed
  have "disk_map d' (ns ! k) = Some (bufs ! k) \<and> disk_map d (ns ! k) = None" if "k < length bufs" for k
    using n [OF that] that c' w(4) dk(3) by (simp add: disk_map_def word_less_nat_alt nth_append)
  moreover have "distinct ns"
    using n w(3) by (intro distinct_conv_nth [THEN iffD2]) (metis add_left_cancel)
  moreover have "disk_map d' m = Some b" if "disk_map d m = Some b" for m b
    using that c' w(4) dk(3) by (auto simp: disk_map_def word_less_nat_alt nth_append split: if_splits)
  ultimately show ?thesis using w(1-3) by blast
qed

lemma bulk_evict_ok:
  assumes disk: "disk_ok (dm s)" "unat (currentDiskBlockNumber (dm s)) + length vs < unat (totalBlockCount (dm s))"
    and vs: "distinct vs" "\<forall>v \<in> set vs. evictable s v (I v) (J v)"
  shows "\<exists>s'. anti_cache_manager_bulk_evict_to_disk vs s = Some s' \<and> disk_ok (dm s') \<and>
    length (bpram s') = length (bpram s) \<and> block_alloc s' = block_alloc s \<and>
    (\<forall>v \<in> set vs. \<exists>d. points_to s' (I v) (J v) (d OR disk_bit) \<and> disk_map (dm s') d = mem v s) \<and>
    (\<forall>m. m \<notin> I ` set vs \<longrightarrow> mem m s' = mem m s)"
proof -
  have ev: "resident v s" "indir_of v s = Some (I v)" "points_to s (I v) (J v) v" "resident (I v) s" "J v < 512"
    if "v \<in> set vs" for v using vs(2) that by (auto simp: evictable_def points_to_def)
  obtain bufs where bufs: "collect_blocks vs s = Some (bufs, s)" "map Some bufs = map (\<lambda>v. mem v s) vs"
    using collect_blocks_ok [of vs s] ev by (force simp: resident_def)
  have len: "length bufs = length vs" using arg_cong [OF bufs(2), of length] by simp
  obtain ns d' where w: "writeBlocksInBulk bufs (map (\<lambda>i. get_u64 (heap_junk s) (8 * i)) [0..<length vs]) (dm s) = Some (ns, d')"
      "disk_ok d'" "length ns = length bufs"
      "\<And>k. k < length bufs \<Longrightarrow> disk_map d' (ns ! k) = Some (bufs ! k) \<and> disk_map (dm s) (ns ! k) = None"
      "distinct ns"
    using bulk_disk_ok [OF disk(1), of "map (\<lambda>i. get_u64 (heap_junk s) (8 * i)) [0..<length vs]" bufs] len disk(2)
    by auto
  let ?s = "s\<lparr>dm := d'\<rparr>" and ?xs = "zip vs ns"
  have pt: "points_to ?s i j v = points_to s i j v" "indir_of v ?s = indir_of v s" for i j v
    by (simp_all add: points_to_def indir_of_def)
  obtain s' where s': "redirect_all ?xs ?s = Some s'" "s' = ?s\<lparr>bpram := bpram s'\<rparr>"
      "length (bpram s') = length (bpram s)"
      "\<And>v d. (v, d) \<in> set ?xs \<Longrightarrow> slot s' (I v) (J v) = Some (d OR disk_bit)"
      "\<And>i j. j < 512 \<Longrightarrow> (i, j) \<notin> (\<lambda>x. (I (fst x), J (fst x))) ` set ?xs \<Longrightarrow> slot s' i j = slot ?s i j"
      "\<And>m. m \<notin> (\<lambda>x. I (fst x)) ` set ?xs \<Longrightarrow> mem m s' = mem m ?s"
  proof -
    have "distinct (map fst ?xs)" using vs(1) w(3) len by simp
    moreover have "points_to ?s (I v) (J v) v \<and> indir_of v ?s = Some (I v) \<and> v AND disk_bit = 0"
      if "(v, d) \<in> set ?xs" for v d
      using ev(1-3) [OF set_zip_leftD [OF that]] pt by (simp add: resident_def)
    ultimately show thesis using redirect_all_ok [of ?xs ?s I J] that by fastforce
  qed
  have ev_ok: "anti_cache_manager_bulk_evict_to_disk vs s = Some s'"
    using bufs(1) w(1) s'(1) by (simp add: anti_cache_manager_bulk_evict_to_disk_def Let_def)
  have dm': "dm s' = d'" "block_alloc s' = block_alloc s"
    by (subst s'(2), simp)+
  have "\<exists>d. points_to s' (I v) (J v) (d OR disk_bit) \<and> disk_map (dm s') d = mem v s" if v: "v \<in> set vs" for v
  proof -
    obtain k where k: "k < length vs" "v = vs ! k" using v by (metis in_set_conv_nth)
    let ?d = "ns ! k"
    have zk: "(v, ?d) \<in> set ?xs" using k w(3) len by (auto simp: set_zip)
    obtain b where b: "mem (I v) s' = Some b"
      using resident_mem [OF ev(4) [OF v]] s'(3) by (auto simp: mem_def split: if_splits)
    have small: "unat n < 2 ^ 63" if "disk_map d' n = Some x" for n x
      using that disk_okD(5) [OF w(2)] by (auto simp: disk_map_def word_less_nat_alt split: if_splits)
    have "slot s' (I v) m = Some (?d OR disk_bit) \<longleftrightarrow> m = J v" if m: "m < 512" for m
    proof (cases "(I v, m) \<in> (\<lambda>x. (I (fst x), J (fst x))) ` set ?xs")
      case True
      then obtain u e where u: "(u, e) \<in> set ?xs" "I u = I v" "J u = m" by auto
      then obtain l where l: "l < length vs" "u = vs ! l" "e = ns ! l" using w(3) len by (auto simp: set_zip)
      show ?thesis
      proof
        assume "slot s' (I v) m = Some (?d OR disk_bit)"
        then have "e OR disk_bit = ?d OR disk_bit" using s'(4) [OF u(1)] u(2,3) by simp
        then have "e = ?d" using xor_disk_bit small w(4) k(1) l len by metis
        then show "m = J v" using l k w(3,5) len u(3) by (metis nth_eq_iff_index_eq)
      qed (use s'(4) [OF zk] in simp)
    next
      case False
      have "slot s' (I v) m = slot s (I v) m" using s'(5) [OF m False] by (simp add: slot_def)
      moreover have "slot s (I v) m \<noteq> Some (?d OR disk_bit)"
      proof
        assume "slot s (I v) m = Some (?d OR disk_bit)"
        then have "disk_map (dm s) ((?d OR disk_bit) XOR disk_bit) \<noteq> None"
          using vs(2) v m or_disk_bit [of ?d] unfolding evictable_def by blast
        then show False using xor_disk_bit small w(4) k(1) len by metis
      qed
      moreover have "m \<noteq> J v" using False zk by force
      ultimately show ?thesis by simp
    qed
    then have "points_to s' (I v) (J v) (?d OR disk_bit)"
      using b ev(4,5) [OF v] s'(3) by (auto simp: points_to_def slot_def resident_def)
    moreover have "disk_map d' ?d = mem v s"
      using w(4) k len nth_map [of k bufs Some] nth_map [of k vs "\<lambda>v. mem v s"] bufs(2) by simp
    ultimately show ?thesis using dm'(1) by blast
  qed
  moreover have "mem m s' = mem m s" if "m \<notin> I ` set vs" for m
    using s'(6) [of m] that set_zip_leftD [of _ _ vs ns] by fastforce
  ultimately show ?thesis using ev_ok dm' w(2) s'(3) by blast
qed

section \<open>Properties\<close>

text \<open>A memory of 64 blocks, the first 20 in use; block 5 is an indirect block that points at block 7
  from its slot 0.\<close>

definition sample_fs :: fs where
  "sample_fs = \<lparr>bpram = (replicate 64 zero_block)[4 := put_u64 zero_block 0 7, 6 := (\<lambda>_. 9)],
     block_alloc = sample_bitmap, inode_alloc = sample_bitmap, dm = fresh_disk, ac = new_cache 0,
     indir_mapping = (replicate 64 0)[7 := 5], current_indir_pointer = 0, cow_nbytes = 0,
     cow_nblocks = 0, tree_nblocks_nblocks = 0, heap_junk = zero_block\<rparr>"

lemma sample_fs_ok: "blocks_ok sample_fs" "blocks_clean sample_fs" "\<not> blocks_full sample_fs"
proof -
  have "0 \<in> bitmap_used sample_bitmap" "1 \<in> bitmap_used sample_bitmap" "bm_prev_ntotal sample_bitmap = 0"
    "bm_allocs sample_bitmap = []" "bm_frees sample_bitmap = []" "unat (bm_ntotal sample_bitmap) = 64"
    by code_simp+
  then show "blocks_ok sample_fs" "blocks_clean sample_fs" using sample_bitmap_inv
    by (simp_all add: blocks_ok_def blocks_clean_def bitmap_clean_def sample_fs_def bitmap_inv_fixed_def
        bitmap_persistent_def)
  have "20 \<notin> bitmap_used sample_bitmap" "20 \<in> {..<unat (bm_ntotal sample_bitmap)}" by code_simp+
  then show "\<not> blocks_full sample_fs" by (auto simp: blocks_full_def sample_fs_def)
qed

lemma sample_evictable: "evictable sample_fs 7 5 0"
proof -
  have addr: "indir_addr (put_u64 zero_block 0 7) (of_nat k) = (if k = 0 then 7 else 0)" if "k < 512" for k
  proof (cases "k = 0")
    case False
    then have "get_u64 (put_u64 zero_block 0 7) (8 * k) = get_u64 zero_block (8 * k)"
      by (intro get_put_u64_other) simp
    moreover have "get_u64 zero_block (8 * k) = 0" by (simp add: get_u64_def load_le_eq_0 zero_block_def)
    ultimately show ?thesis using that False by (simp add: indir_addr_def unat_slot)
  qed (simp add: indir_addr_def get_put_u64_same)
  have m: "mem 5 sample_fs = Some (put_u64 zero_block 0 7)" by (simp add: mem_def sample_fs_def)
  have r: "resident 7 sample_fs" "resident 5 sample_fs" "indir_of 7 sample_fs = Some 5"
    by (simp_all add: resident_def sample_fs_def indir_of_def)
  have "4 \<in> bitmap_used sample_bitmap" by code_simp
  then have u: "unat (5 :: u64) - 1 \<in> bitmap_used (block_alloc sample_fs)" by (simp add: sample_fs_def)
  have "\<not> (k < 512 \<and> slot sample_fs 5 k = Some w \<and> w AND disk_bit \<noteq> 0)" for k w
    using m addr [of k] by (auto simp: slot_def split: if_splits)
  then show ?thesis using r u m addr unfolding evictable_def points_to_def by auto
qed

text \<open>\<open>s'\<close> differs from \<open>s\<close> in the memory, the block bitmap, the anti-cache and the statistics only.\<close>

definition same_rest :: "fs \<Rightarrow> fs \<Rightarrow> bool" where
  "same_rest s s' \<longleftrightarrow> indir_mapping s' = indir_mapping s \<and> inode_alloc s' = inode_alloc s \<and> dm s' = dm s \<and>
     current_indir_pointer s' = current_indir_pointer s \<and> heap_junk s' = heap_junk s \<and>
     length (bpram s') = length (bpram s) \<and> tree_nblocks_nblocks s' = tree_nblocks_nblocks s"

lemma allocated_same_rest: "allocated n s s' \<Longrightarrow> same_rest s s'"
proof -
  assume "allocated n s s'"
  then obtain bm where "s' = s\<lparr>block_alloc := bm\<rparr>" unfolding allocated_def by blast
  then show ?thesis by (simp add: same_rest_def)
qed

lemma cow_block_ok:
  assumes "blocks_ok s" and "resident old s" and "3 \<le> unat old"
    and "unat old - 1 \<in> bitmap_used (block_alloc s)" and "old - 1 \<notin> set (bm_frees (block_alloc s))"
    and "delete_lru_entry old (ac s) = Some x"
    and "unat off + unat sz \<le> 4096" and "unat valid \<le> 4096"
  shows "\<exists>n s'. cow_block old off sz valid s = Some (n, s') \<and> blocks_ok s' \<and> same_rest s s' \<and>
    (if blocks_full s then n = 0 \<and> s' = s
     else resident n s' \<and> unat n - 1 \<notin> bitmap_used (block_alloc s) \<and>
       (\<exists>b b'. mem old s = Some b \<and> mem n s' = Some b' \<and>
          (\<forall>i. i < unat off \<or> unat off + unat sz \<le> i \<and> i < unat valid \<longrightarrow> b' i = b i)) \<and>
       (\<forall>m. m \<noteq> n \<longrightarrow> mem m s' = mem m s) \<and> ac s' = x \<and>
       bm_allocs (block_alloc s') = (n - 1) # bm_allocs (block_alloc s) \<and>
       bm_frees (block_alloc s') = (old - 1) # bm_frees (block_alloc s))"
proof -
  have sum: "unat (off + sz) = unat off + unat sz" using assms(7) by (simp add: unat_word_ariths)
  have le: "off + sz \<le> 4096" "valid \<le> 4096" using assms(7,8) sum by (simp_all add: word_le_nat_alt)
  have old: "old AND disk_bit = 0" using assms(2) by (simp add: resident_def)
  obtain n s1 where a: "alloc_block s = Some (n, s1)" using alloc_block_ok [OF assms(1)] by blast
  show ?thesis
  proof (cases "blocks_full s")
    case True
    then have "n = 0" "s1 = s" using alloc_block_ok [OF assms(1)] a by auto
    then show ?thesis using True a assms(1) le by (simp add: cow_block_def same_rest_def)
  next
    case False
    then have "allocated n s s1" using alloc_block_ok [OF assms(1)] a by auto
    then have n: "n \<noteq> 0" "resident n s" "unat n - 1 \<notin> bitmap_used (block_alloc s)"
      by (auto simp: allocated_def resident_def)
    note am = alloc_block_mem [OF assms(1) a n(1)]
    obtain b b' where b: "mem old s = Some b" "mem n s = Some b'"
      using resident_mem assms(2) n(2) by blast
    let ?c = "cow_copy b' b (unat off) (unat (off + sz)) (unat valid)"
    define t where "t = s1\<lparr>cow_nbytes := cow_nbytes s1 + ucast off +
        (if unat (off + sz) < unat valid then of_nat (unat valid - unat (off + sz)) else 0),
      cow_nblocks := (if off \<noteq> 0 \<or> unat (off + sz) < unat valid then cow_nblocks s1 + 1 else cow_nblocks s1)\<rparr>"
    have t: "bpram t = bpram s" "ac t = ac s" "block_alloc t = block_alloc s1" "blocks_ok t" "staged_block n t"
      using am by (simp_all add: t_def)
    obtain s2 where s2: "put_mem n ?c t = Some s2"
      using n(1,2) t(1) by (auto simp: put_mem_def resident_def)
    have k2: "blocks_ok s2" "staged_block n s2" using put_staged_keeps [OF t(4,5) s2] by (simp_all add: keeps_def)
    have e2: "ac s2 = ac s" "block_alloc s2 = block_alloc s1" using s2 t by (auto simp: put_mem_eq_Some)
    define s' where "s' = s2\<lparr>block_alloc := (block_alloc s2)\<lparr>bm_frees := (old - 1) # bm_frees (block_alloc s2)\<rparr>, ac := x\<rparr>"
    have "free_block old s2 = Some s'" unfolding s'_def
      by (rule free_block_live [OF k2(1) old assms(3)]) (use e2 am(5) assms(4-6) in \<open>auto simp: allocated_def\<close>)
    moreover have "bpram s' = bpram s2" "ac s' = x" by (simp_all add: s'_def)
    moreover have "block_alloc s' = (block_alloc s1)\<lparr>bm_frees := (old - 1) # bm_frees (block_alloc s)\<rparr>"
      using e2 am(5) by (simp add: s'_def allocated_def)
    moreover have "same_rest s s'"
      using allocated_same_rest [OF am(5)] s2 by (auto simp: s'_def same_rest_def put_mem_eq_Some t_def)
    ultimately have s': "free_block old s2 = Some s'" "bpram s' = bpram s2"
      "block_alloc s' = (block_alloc s1)\<lparr>bm_frees := (old - 1) # bm_frees (block_alloc s)\<rparr>"
      "ac s' = x" "same_rest s s'" by blast+
    have "mem m s' = mem m s2" for m using s'(2) by (simp add: mem_def)
    then have m: "mem k s' = (if k = n then Some ?c else mem k s)" for k
      using mem_put_mem [OF s2, of k] t(1) by (simp add: mem_def)
    have "cow_block old off sz valid s = Some (n, s')"
      using cow_block_resident [OF assms(1) old a n(1)] le b s2 s'(1) unfolding t_def by blast
    moreover have "?c i = b i" if "i < unat off \<or> unat off + unat sz \<le> i \<and> i < unat valid" for i
      using that by (auto simp: cow_copy_def Let_def blk_copy_def sum)
    moreover have "blocks_ok s'" using free_block_keeps [OF k2(1) s'(1)] by (simp add: keeps_def)
    moreover have "resident n s'" using n(2) s'(2) s2 t(1) by (auto simp: resident_def put_mem_eq_Some)
    ultimately show ?thesis using False n(3) m b(1) s'(3-5) am(5) by (auto simp: allocated_def)
  qed
qed

text \<open>C14. Copy on write copies exactly what survives the write: for a block of the file system that
  is in memory and not already being freed, \<^verbatim>\<open>cow_block\<close> reports a full memory by block number 0
  and changes nothing then; otherwise it returns a block that was free, whose bytes before the
  write and from the end of the write up to \<^verbatim>\<open>valid\<close> are those of the old block. Every other
  block, the old one included, keeps its contents; the new block is staged as allocated and the
  old one as freed.\<close>

theorem cow_block_copies:
  assumes "blocks_ok s" and "resident old s" and "3 \<le> unat old"
    and "unat old - 1 \<in> bitmap_used (block_alloc s)" and "old - 1 \<notin> set (bm_frees (block_alloc s))"
    and "delete_lru_entry old (ac s) \<noteq> None"
    and "unat off + unat sz \<le> 4096" and "unat valid \<le> 4096"
  shows "\<exists>n s'. cow_block old off sz valid s = Some (n, s') \<and> blocks_ok s' \<and>
    (if blocks_full s then n = 0 \<and> s' = s
     else resident n s' \<and> unat n - 1 \<notin> bitmap_used (block_alloc s) \<and>
       (\<exists>b b'. mem old s = Some b \<and> mem n s' = Some b' \<and>
          (\<forall>i. i < unat off \<or> unat off + unat sz \<le> i \<and> i < unat valid \<longrightarrow> b' i = b i)) \<and>
       (\<forall>m. m \<noteq> n \<longrightarrow> mem m s' = mem m s) \<and>
       bm_allocs (block_alloc s') = (n - 1) # bm_allocs (block_alloc s) \<and>
       bm_frees (block_alloc s') = (old - 1) # bm_frees (block_alloc s))"
proof -
  obtain x where "delete_lru_entry old (ac s) = Some x" using assms(6) by blast
  from cow_block_ok [OF assms(1-5) this assms(7,8)] show ?thesis by (auto split: if_splits)
qed

text \<open>A write of 8 bytes at offset 16 of block 7 of the sample.\<close>

theorem cow_block_copies_witness:
  "\<exists>n s' b'. cow_block 7 16 8 4096 sample_fs = Some (n, s') \<and> mem 7 s' = mem 7 sample_fs \<and>
     mem n s' = Some b' \<and> b' 15 = 9 \<and> b' 24 = 9"
proof -
  have r: "resident 7 sample_fs" using sample_evictable by (simp add: evictable_def)
  have "6 \<in> bitmap_used sample_bitmap" by code_simp
  then have u: "unat (7 :: u64) - 1 \<in> bitmap_used (block_alloc sample_fs)" by (simp add: sample_fs_def)
  have f: "7 - 1 \<notin> set (bm_frees (block_alloc sample_fs))" by (simp add: sample_fs_def sample_bitmap_def)
  have d: "delete_lru_entry 7 (ac sample_fs) \<noteq> None"
    by (simp add: sample_fs_def delete_lru_entry_def lru_hash_map_find_def new_cache_def
        anti_cache_manager_init_def lru_staging_queue_init_def lru_init_def)
  have m: "mem 7 sample_fs = Some (\<lambda>_. 9)" by (simp add: mem_def sample_fs_def)
  obtain n s' b b' where c: "cow_block 7 16 8 4096 sample_fs = Some (n, s')"
      "unat n - 1 \<notin> bitmap_used (block_alloc sample_fs)" "mem 7 sample_fs = Some b" "mem n s' = Some b'"
      "\<forall>i. i < unat (16 :: u32) \<or> unat (16 :: u32) + unat (8 :: u32) \<le> i \<and> i < unat (4096 :: u32) \<longrightarrow> b' i = b i"
      "\<forall>m. m \<noteq> n \<longrightarrow> mem m s' = mem m sample_fs"
    using cow_block_copies [OF sample_fs_ok(1) r _ u f d, of 16 8 4096] sample_fs_ok(3) by auto
  have "7 \<noteq> n" using c(2) u by auto
  then show ?thesis using c m by auto
qed

text \<open>C11. A transaction on blocks is atomic: after any sequence of allocations, frees, copies on
  write and writes into blocks that the transaction allocated, \<^verbatim>\<open>abort_blocks\<close> succeeds and leaves
  exactly the blocks that were in use before, each with the contents it had, and nothing
  staged.\<close>

theorem blocks_transaction_abort:
  assumes "blocks_ok s" and "blocks_clean s" and "run block_step xs s = Some s'"
  shows "\<exists>s''. abort_blocks s' = Some s'' \<and> blocks_ok s'' \<and> blocks_clean s'' \<and> used_blocks s'' = used_blocks s"
  by (rule cow_store.run_then_abort [OF assms])

theorem blocks_transaction_abort_witness:
  "\<exists>s' s''. run block_step [Cow_entire 7, Fill 21 zero_block, Cow_hole 8 8 32, Free_block 5] sample_fs = Some s' \<and>
     abort_blocks s' = Some s'' \<and> used_blocks s'' = used_blocks sample_fs"
proof -
  have "map_option (\<lambda>_. ()) (run block_step [Cow_entire 7, Fill 21 zero_block, Cow_hole 8 8 32, Free_block 5] sample_fs) = Some ()"
    by code_simp
  then obtain s' where s': "run block_step [Cow_entire 7, Fill 21 zero_block, Cow_hole 8 8 32, Free_block 5] sample_fs = Some s'"
    by blast
  from blocks_transaction_abort [OF sample_fs_ok(1,2) s'] s' show ?thesis by blast
qed

text \<open>C12. Eviction loses no data: when each victim is in memory and the table knows the only slot that
  points at it, and the disk has room, the bulk eviction succeeds, each of those slots then holds
  a disk block number, and \<^verbatim>\<open>get_block_from_disk\<close> on any of them brings the data back into a
  block that was free and points the slot at it. The eviction itself releases no memory: the
  block bitmap is unchanged.\<close>

theorem evict_then_fetch:
  assumes "blocks_ok s" and "\<not> blocks_full s" and "disk_ok (dm s)"
    and "unat (currentDiskBlockNumber (dm s)) + length vs < unat (totalBlockCount (dm s))"
    and "distinct vs" and "\<forall>v \<in> set vs. evictable s v (I v) (J v)"
  shows "\<exists>s'. anti_cache_manager_bulk_evict_to_disk vs s = Some s' \<and> block_alloc s' = block_alloc s \<and>
    (\<forall>v \<in> set vs. \<exists>d n s''. slot s' (I v) (J v) = Some d \<and> d AND disk_bit \<noteq> 0 \<and>
       get_block_from_disk d (I v) s' = Some (n, s'') \<and> unat n - 1 \<notin> bitmap_used (block_alloc s') \<and>
       mem n s'' = mem v s \<and> slot s'' (I v) (J v) = Some n)"
proof -
  obtain s' where s': "anti_cache_manager_bulk_evict_to_disk vs s = Some s'" "disk_ok (dm s')"
      "length (bpram s') = length (bpram s)" "block_alloc s' = block_alloc s"
      "\<forall>v \<in> set vs. \<exists>d. points_to s' (I v) (J v) (d OR disk_bit) \<and> disk_map (dm s') d = mem v s"
    using bulk_evict_ok [OF assms(3-6)] by blast
  have ok: "blocks_ok s'" "\<not> blocks_full s'" using assms(1,2) s'(3,4) by (simp_all add: blocks_ok_def blocks_full_def)
  have "\<exists>d n s''. slot s' (I v) (J v) = Some d \<and> d AND disk_bit \<noteq> 0 \<and>
       get_block_from_disk d (I v) s' = Some (n, s'') \<and> unat n - 1 \<notin> bitmap_used (block_alloc s') \<and>
       mem n s'' = mem v s \<and> slot s'' (I v) (J v) = Some n" if v: "v \<in> set vs" for v
  proof -
    have e: "unat (I v) - 1 \<in> bitmap_used (block_alloc s')" "resident v s"
      using assms(6) v s'(4) by (auto simp: evictable_def)
    obtain d b where d: "points_to s' (I v) (J v) (d OR disk_bit)" "disk_map (dm s') d = Some b" "mem v s = Some b"
      using s'(5) v resident_mem [OF e(2)] by fastforce
    obtain n s'' where "get_block_from_disk (d OR disk_bit) (I v) s' = Some (n, s'')"
        "unat n - 1 \<notin> bitmap_used (block_alloc s')" "mem n s'' = Some b" "slot s'' (I v) (J v) = Some n"
      using get_block_from_disk_ok [OF ok s'(2) d(2,1) e(1)] unfolding allocated_def by blast
    then show ?thesis using points_to_slot [OF d(1)] or_disk_bit [of d] d(3) by metis
  qed
  then show ?thesis using s'(1,4) by blast
qed

theorem evict_then_fetch_witness:
  "\<exists>s' d n s''. anti_cache_manager_bulk_evict_to_disk [7] sample_fs = Some s' \<and> slot s' 5 0 = Some d \<and>
     get_block_from_disk d 5 s' = Some (n, s'') \<and> mem n s'' = Some (\<lambda>_. 9) \<and> slot s'' 5 0 = Some n"
proof -
  have dk: "disk_ok (dm sample_fs)" using fresh_disk_ok by (simp add: sample_fs_def)
  have room: "unat (currentDiskBlockNumber (dm sample_fs)) + length [7 :: u64] < unat (totalBlockCount (dm sample_fs))"
    by (simp add: sample_fs_def fresh_disk_def initializeDiskManager_def)
  have ev: "\<forall>v \<in> set [7]. evictable sample_fs v ((\<lambda>_. 5) v) ((\<lambda>_. 0) v)" using sample_evictable by simp
  have m: "mem 7 sample_fs = Some (\<lambda>_. 9)" by (simp add: mem_def sample_fs_def)
  have "distinct [7 :: u64]" by simp
  from evict_then_fetch [OF sample_fs_ok(1,3) dk room this ev] show ?thesis using m by auto
qed

end
