(* ===== verification/Tree_Update.thy ===== *)
theory Tree_Update
  imports Blocks
begin

text \<open>
  The functions of \<^verbatim>\<open>bpfs.c\<close> that change the shape of a block tree: \<^verbatim>\<open>tree_change_height\<close>
  and the family of \<^verbatim>\<open>truncate_block_zero\<close>, which makes the bytes behind the end of a file zero
  before the file grows. A pointer into a block is \<open>Bpram n\<close> with an offset, or \<open>Zero_block\<close> for the
  read-only block of zeros that stands for a hole.
\<close>

section \<open>Pointers to blocks\<close>

datatype bptr = Zero_block | Bpram u64

fun deref :: "bptr \<Rightarrow> fs \<Rightarrow> block option" where
  "deref Zero_block s = Some zero_block"
| "deref (Bpram n) s = mem n s"

fun assign :: "bptr \<Rightarrow> block \<Rightarrow> fs \<Rightarrow> fs option" where
  "assign Zero_block b s = None"
| "assign (Bpram n) b s = put_mem n b s"

datatype commit = COMMIT_NONE | COMMIT_COPY | COMMIT_ATOMIC | COMMIT_FREE

text \<open>Entry \<open>no\<close> of the indirect block at \<open>p\<close>; an index beyond the block ends the process.\<close>

definition indir_get :: "u64 \<Rightarrow> u64 \<Rightarrow> fs \<Rightarrow> u64 option" where
  "indir_get p no s = do { check (no < 512); b \<leftarrow> mem p s; Some (indir_addr b no) }"

definition indir_set :: "u64 \<Rightarrow> u64 \<Rightarrow> u64 \<Rightarrow> fs \<Rightarrow> fs option" where
  "indir_set p no v s = do { check (no < 512); b \<leftarrow> mem p s; put_mem p (set_indir_addr b no v) s }"

section \<open>Changing the height\<close>

text \<open>The loop that marks the entries behind the first one as sparse.\<close>

primrec mark_sparse :: "nat \<Rightarrow> u64 \<Rightarrow> u64 \<Rightarrow> u64 \<Rightarrow> u64 \<Rightarrow> u64 \<Rightarrow> fs \<Rightarrow> fs option" where
  "mark_sparse 0 p i valid next_valid child_max_nbytes s = (if valid < next_valid then None else Some s)"
| "mark_sparse (Suc n) p i valid next_valid child_max_nbytes s =
     (if valid < next_valid then do {
        s \<leftarrow> indir_set p i BPFS_BLOCKNO_INVALID s;
        mark_sparse n p (i + 1) (valid + child_max_nbytes) next_valid child_max_nbytes s
      } else Some s)"

text \<open>The loop that puts indirect blocks on top of the tree; \<open>k\<close> is the number of levels left. The
  result is the new root address, 0 when the memory is full.\<close>

primrec grow_tree :: "nat \<Rightarrow> u64 \<Rightarrow> u64 \<Rightarrow> u64 \<Rightarrow> fs \<Rightarrow> (u64 \<times> fs) option" where
  "grow_tree 0 nbytes new_root_addr child_max_nbytes s = Some (new_root_addr, s)"
| "grow_tree (Suc k) nbytes new_root_addr child_max_nbytes s = do {
     let max_nbytes = BPFS_BLOCKNOS_PER_INDIR * child_max_nbytes;
     (new_blockno, s) \<leftarrow> alloc_block s;
     if new_blockno = BPFS_BLOCKNO_INVALID then Some (BPFS_BLOCKNO_INVALID, s)
     else do {
       (p, s) \<leftarrow> get_block new_blockno s;
       s \<leftarrow> indir_set p 0 new_root_addr s;
       s \<leftarrow> (if child_max_nbytes < nbytes
             then mark_sparse 511 p 1 child_max_nbytes (min nbytes max_nbytes) child_max_nbytes s
             else Some s);
       grow_tree k nbytes new_blockno max_nbytes s
     }
   }"

text \<open>The loop that follows the first entries down.\<close>

primrec shrink_tree :: "nat \<Rightarrow> u64 \<Rightarrow> fs \<Rightarrow> (u64 \<times> fs) option" where
  "shrink_tree 0 new_root_addr s = Some (new_root_addr, s)"
| "shrink_tree (Suc k) new_root_addr s =
     (if new_root_addr \<noteq> BPFS_BLOCKNO_INVALID then do {
        (p, s) \<leftarrow> get_block new_root_addr s;
        addr \<leftarrow> indir_get p 0 s;
        shrink_tree k addr s
      } else Some (new_root_addr, s))"

text \<open>\<open>(rp, ro)\<close> is the root; the result is the status and the new \<^verbatim>\<open>*blockno\<close>.\<close>

definition tree_change_height ::
  "bptr \<Rightarrow> nat \<Rightarrow> u32 \<Rightarrow> commit \<Rightarrow> u64 \<Rightarrow> fs \<Rightarrow> (int \<times> u64 \<times> fs) option" where
  "tree_change_height rp ro new_height commit blockno s = do {
     root \<leftarrow> deref rp s;
     let height = tree_root_height root ro;
     check (commit \<noteq> COMMIT_NONE);
     if height = ucast new_height then Some (0, blockno, s)
     else do {
       (failed, new_root_addr, s) \<leftarrow>
         (if height < ucast new_height then
            (if root_nbytes root ro \<noteq> 0 \<and> tree_root_addr root ro \<noteq> BPFS_BLOCKNO_INVALID then do {
               (addr, s) \<leftarrow> grow_tree (unat new_height - unat height) (root_nbytes root ro)
                 (tree_root_addr root ro) (BPFS_BLOCK_SIZE * tree_max_nblocks height) s;
               Some (addr = BPFS_BLOCKNO_INVALID, addr, s)
             } else Some (False, BPFS_BLOCKNO_INVALID, s))
          else do {
            (addr, s) \<leftarrow> shrink_tree (unat height - unat new_height) (tree_root_addr root ro) s;
            Some (False, addr, s)
          });
       if failed then Some (- ENOSPC, blockno, s)
       else do {
         (r, rp, blockno, s) \<leftarrow>
           (if commit = COMMIT_COPY then do {
              (new_blockno, s) \<leftarrow> cow_block_entire blockno s;
              if new_blockno = BPFS_BLOCKNO_INVALID then Some (- ENOSPC, rp, blockno, s)
              else do {
                (p, s) \<leftarrow> get_block new_blockno s;
                Some (0, Bpram p, new_blockno, s)
              }
            } else Some (0, rp, blockno, s));
         if r < 0 then Some (r, blockno, s)
         else do {
           root \<leftarrow> deref rp s;
           root \<leftarrow> ha_set root ro (ucast new_height) new_root_addr;
           s \<leftarrow> assign rp root s;
           Some (0, blockno, s)
         }
       }
     }
   }"

section \<open>Zeroing behind the end\<close>

definition truncate_block_zero_leaf ::
  "u64 \<Rightarrow> u64 \<Rightarrow> u64 \<Rightarrow> u64 \<Rightarrow> fs \<Rightarrow> (int \<times> u64 \<times> fs) option" where
  "truncate_block_zero_leaf prev_blockno begin e valid s = do {
     check (valid \<le> begin);
     check (begin < e);
     check (e \<le> BPFS_BLOCK_SIZE);
     (p, s) \<leftarrow> get_block prev_blockno s;
     block \<leftarrow> mem p s;
     s \<leftarrow> put_mem p (blk_fill block (unat begin) 0 (unat (e - begin))) s;
     Some (0, prev_blockno, s)
   }"

text \<open>The loop over the entries between the first and the last one.\<close>

primrec clear_addrs :: "nat \<Rightarrow> u64 \<Rightarrow> u64 \<Rightarrow> u64 \<Rightarrow> fs \<Rightarrow> fs option" where
  "clear_addrs 0 p no endno s = (if no < endno then None else Some s)"
| "clear_addrs (Suc n) p no endno s =
     (if no < endno then do {
        addr \<leftarrow> indir_get p no s;
        s \<leftarrow> (if addr \<noteq> BPFS_BLOCKNO_INVALID then indir_set p no BPFS_BLOCKNO_INVALID s else Some s);
        clear_addrs n p (no + 1) endno s
      } else Some s)"

text \<open>\<open>height\<close> is at least 1. A division by zero ends the process.\<close>

primrec truncate_block_zero_indir ::
  "nat \<Rightarrow> u64 \<Rightarrow> u64 \<Rightarrow> u64 \<Rightarrow> u64 \<Rightarrow> u64 \<Rightarrow> fs \<Rightarrow> (int \<times> u64 \<times> fs) option" where
  "truncate_block_zero_indir 0 prev_blockno begin e valid max_nblocks s = None"
| "truncate_block_zero_indir (Suc h) prev_blockno begin e valid max_nblocks s = do {
     (p, s) \<leftarrow> get_block prev_blockno s;
     let child_max_nblocks = max_nblocks div BPFS_BLOCKNOS_PER_INDIR;
     let child_max_nbytes = BPFS_BLOCK_SIZE * child_max_nblocks;
     check (child_max_nbytes \<noteq> 0);
     let validno = (valid + child_max_nbytes - 1) div child_max_nbytes;
     let beginno = begin div child_max_nbytes;
     let endno = (e + child_max_nbytes - 1) div child_max_nbytes;
     check (valid \<le> begin);
     check (begin < e);
     check (e \<le> BPFS_BLOCK_SIZE * max_nblocks);
     s \<leftarrow> clear_addrs 512 p (beginno + 1) endno s;
     if begin mod child_max_nbytes = 0 then do {
       s \<leftarrow> indir_set p beginno BPFS_BLOCKNO_INVALID s;
       Some (0, prev_blockno, s)
     } else do {
       child_blockno \<leftarrow> indir_get p beginno s;
       if child_blockno \<noteq> BPFS_BLOCKNO_INVALID then do {
         let child_begin = begin - beginno * child_max_nbytes;
         let child_end = min (e - beginno * child_max_nbytes) child_max_nbytes;
         child_valid \<leftarrow> (if beginno + 1 = validno
            then Some (min (valid - beginno * child_max_nbytes) child_max_nbytes)
            else do { check (validno < beginno + 1); Some 0 });
         (r, child, s) \<leftarrow> (if h > 0
            then truncate_block_zero_indir h child_blockno child_begin child_end child_valid child_max_nblocks s
            else truncate_block_zero_leaf child_blockno child_begin child_end child_valid s);
         if r < 0 then Some (r, prev_blockno, s)
         else do {
           addr \<leftarrow> indir_get p beginno s;
           s \<leftarrow> (if addr \<noteq> child then indir_set p beginno child s else Some s);
           Some (0, prev_blockno, s)
         }
       } else Some (0, prev_blockno, s)
     }
   }"

definition truncate_block_zero ::
  "bptr \<Rightarrow> nat \<Rightarrow> u64 \<Rightarrow> u64 \<Rightarrow> u64 \<Rightarrow> u64 \<Rightarrow> fs \<Rightarrow> (int \<times> u64 \<times> fs) option" where
  "truncate_block_zero rp ro begin e valid blockno s = do {
     root \<leftarrow> deref rp s;
     let height = tree_root_height root ro;
     let max_nblocks = tree_max_nblocks height;
     let max_nbytes = max_nblocks * BPFS_BLOCK_SIZE;
     let child_blockno = tree_root_addr root ro;
     if max_nbytes \<le> root_nbytes root ro then Some (0, blockno, s)
     else do {
       let e = (if e = BPFS_EOF then max_nbytes else e);
       let valid = (if valid = BPFS_EOF then min (root_nbytes root ro) max_nbytes else valid);
       check (valid \<le> begin);
       check (begin < e);
       let e = min e (max_nblocks * BPFS_BLOCK_SIZE);
       if e < begin then Some (0, blockno, s)
       else if child_blockno = BPFS_BLOCKNO_INVALID then Some (0, blockno, s)
       else do {
         (r, child_blockno, s) \<leftarrow>
           (if begin = 0 then Some (0, BPFS_BLOCKNO_INVALID, s)
            else if height = 0 then truncate_block_zero_leaf child_blockno begin e valid s
            else truncate_block_zero_indir (unat height) child_blockno begin e valid max_nblocks s);
         if r < 0 then Some (r, blockno, s)
         else do {
           root \<leftarrow> deref rp s;
           s \<leftarrow> (if tree_root_addr root ro \<noteq> child_blockno
                 then do { root \<leftarrow> ha_set_addr root ro child_blockno; assign rp root s }
                 else Some s);
           Some (0, blockno, s)
         }
       }
     }
   }"

end
