(* ===== verification/Crawler.thy ===== *)
theory Crawler
  imports Tree_Update
begin

text \<open>
  \<^verbatim>\<open>crawler.c\<close>: the walk over a block tree that calls a function for every block of a byte range
  and writes the changed block numbers back, by copy on write or in place as the commit mode
  allows. A callback is a HOL function on the file system state; what the C code passes as
  \<^verbatim>\<open>void *user\<close> is a value \<open>'u\<close> that the callback returns updated. The in-out parameter
  \<^verbatim>\<open>*blockno\<close> is an argument and a result.
\<close>

section \<open>Callbacks\<close>

text \<open>\<open>blockoff block off size valid crawl_start commit user blockno\<close>; the result is the status, the
  block number, the user data and the state.\<close>

type_synonym 'u crawl_callback =
  "u64 \<Rightarrow> bptr \<Rightarrow> u32 \<Rightarrow> u32 \<Rightarrow> u32 \<Rightarrow> u64 \<Rightarrow> commit \<Rightarrow> 'u \<Rightarrow> u64 \<Rightarrow> fs \<Rightarrow> (int \<times> u64 \<times> 'u \<times> fs) option"

type_synonym crawl_blockno_callback = "u64 \<Rightarrow> bool \<Rightarrow> fs \<Rightarrow> fs option"

text \<open>\<open>block off commit user blockno\<close>; the inode is at offset \<open>off\<close> of the block.\<close>

type_synonym 'u crawl_callback_inode =
  "bptr \<Rightarrow> u32 \<Rightarrow> commit \<Rightarrow> 'u \<Rightarrow> u64 \<Rightarrow> fs \<Rightarrow> (int \<times> u64 \<times> 'u \<times> fs) option"

text \<open>A crawl has one of the two callbacks; the other parameter is \<^verbatim>\<open>NULL\<close>.\<close>

datatype 'u crawl = Data "'u crawl_callback" | Blocknos crawl_blockno_callback

text \<open>The parameters that \<^verbatim>\<open>crawl_leaf\<close> and \<^verbatim>\<open>crawl_indir\<close> share.\<close>

record range =
  g_prev :: u64
  g_blockoff :: u64
  g_off :: u64
  g_size :: u64
  g_valid :: u64
  g_start :: u64
  g_commit :: commit

section \<open>Leaves and holes\<close>

text \<open>The table of parents is updated and the parent of an evicted block is remembered; \<open>- 1\<close> says
  that the leaf has no indirect block.\<close>

definition note_parent :: "u64 \<Rightarrow> u64 \<Rightarrow> fs \<Rightarrow> fs option" where
  "note_parent child_blockno indir_blockno s =
     (if indir_blockno \<noteq> - 1 then do {
        super \<leftarrow> get_super s;
        s \<leftarrow> (if child_blockno \<le> super_nblocks super then do {
                check (unat child_blockno < length (indir_mapping s));
                Some (s\<lparr>indir_mapping := (indir_mapping s)[unat child_blockno := indir_blockno]\<rparr>)
              } else Some s);
        Some (if child_blockno AND disk_bit \<noteq> 0 then s\<lparr>current_indir_pointer := indir_blockno\<rparr> else s)
      } else Some s)"

text \<open>\<^verbatim>\<open>off\<close>, \<^verbatim>\<open>size\<close> and \<^verbatim>\<open>valid\<close> are \<^verbatim>\<open>unsigned\<close> here. The result has the status and
  the new block number, which is the previous one when \<^verbatim>\<open>*new_blockno\<close> is not assigned.\<close>

definition crawl_leaf :: "'u crawl \<Rightarrow> range \<Rightarrow> u64 \<Rightarrow> 'u \<Rightarrow> fs \<Rightarrow> (int \<times> u64 \<times> 'u \<times> fs) option" where
  "crawl_leaf cb g indir_blockno u s = do {
     let off = (ucast (g_off g) :: u32);
     let sz = (ucast (g_size g) :: u32);
     let vld = (ucast (g_valid g) :: u32);
     let prev = g_prev g;
     let commit = g_commit g;
     let is_hole = (prev = BPFS_BLOCKNO_INVALID \<and> commit = COMMIT_NONE);
     check (g_start g div BPFS_BLOCK_SIZE \<le> g_blockoff g);
     check (off < 4096);
     check (off + sz \<le> 4096);
     check (vld \<le> 4096);
     (failed, child_blockno, s) \<leftarrow>
       (if commit \<noteq> COMMIT_NONE \<and> prev = BPFS_BLOCKNO_INVALID then do {
          (blockno, s) \<leftarrow> cow_block_hole off sz vld s;
          Some (blockno = BPFS_BLOCKNO_INVALID, blockno, s)
        } else Some (False, prev, s));
     if failed then Some (- ENOSPC, prev, u, s)
     else do {
       s \<leftarrow> note_parent child_blockno indir_blockno s;
       case cb of
         Data callback \<Rightarrow> do {
           let child_commit = (if child_blockno = prev then commit else COMMIT_FREE);
           (child_block, s) \<leftarrow> (if is_hole then Some (Zero_block, s)
              else do { (p, s) \<leftarrow> get_block child_blockno s; Some (Bpram p, s) });
           (r, child_blockno, u, s) \<leftarrow> callback (g_blockoff g) child_block off sz vld (g_start g)
              child_commit u child_blockno s;
           Some (r, if r \<ge> 0 then child_blockno else prev, u, s)
         }
       | Blocknos bcallback \<Rightarrow>
           (if is_hole then Some (0, prev, u, s)
            else do {
              check (child_blockno = prev);
              s \<leftarrow> bcallback child_blockno True s;
              Some (0, prev, u, s)
            })
     }
   }"

text \<open>The loop of \<^verbatim>\<open>crawl_hole\<close>, a partial function because \<^verbatim>\<open>off_block\<close> may wrap around.\<close>

partial_function (option) crawl_hole_loop ::
  "'u crawl_callback \<Rightarrow> u64 \<Rightarrow> u64 \<Rightarrow> u64 \<Rightarrow> u64 \<Rightarrow> u64 \<Rightarrow> u64 \<Rightarrow> 'u \<Rightarrow> fs \<Rightarrow> (int \<times> 'u \<times> fs) option" where
  "crawl_hole_loop callback blockoff off off_block e vld crawl_start u s =
     (if off < e then do {
        let child_off = ucast (off mod BPFS_BLOCK_SIZE);
        let child_size = ucast (min (e - off) BPFS_BLOCK_SIZE);
        let child_valid = ucast (min (vld - off_block) BPFS_BLOCK_SIZE);
        (r, child_blockno, u, s) \<leftarrow> callback blockoff Zero_block child_off child_size child_valid
           crawl_start COMMIT_NONE u BPFS_BLOCKNO_INVALID s;
        check (child_blockno = BPFS_BLOCKNO_INVALID);
        if r \<noteq> 0 then Some (r, u, s)
        else crawl_hole_loop callback (blockoff + 1) (off_block + BPFS_BLOCK_SIZE)
               (off_block + BPFS_BLOCK_SIZE) e vld crawl_start u s
      } else Some (0, u, s))"

declare crawl_hole_loop.simps [code]

definition crawl_hole ::
  "'u crawl_callback \<Rightarrow> u64 \<Rightarrow> u64 \<Rightarrow> u64 \<Rightarrow> u64 \<Rightarrow> u64 \<Rightarrow> 'u \<Rightarrow> fs \<Rightarrow> (int \<times> 'u \<times> fs) option" where
  "crawl_hole callback blockoff off sz vld crawl_start u s = do {
     check (crawl_start div BPFS_BLOCK_SIZE \<le> blockoff);
     check (off + sz \<le> vld);
     crawl_hole_loop callback blockoff off (ROUNDDOWN64 off BPFS_BLOCK_SIZE) (off + sz) vld crawl_start u s
   }"

section \<open>Indirect blocks\<close>

text \<open>The part of the range that lies in entry \<open>no\<close>, before its block number is known; the checks are
  the assertions of the loop body. \<open>m\<close> is \<^verbatim>\<open>child_max_nblocks\<close> and \<open>c\<close> the child's commit mode.\<close>

definition child_range :: "range \<Rightarrow> u64 \<Rightarrow> commit \<Rightarrow> u64 \<Rightarrow> range option" where
  "child_range g m c no = do {
     let child_max_nbytes = m * BPFS_BLOCK_SIZE;
     let firstno = g_off g div child_max_nbytes;
     let lastno = (g_off g + g_size g - 1) div child_max_nbytes;
     let validno = (g_valid g + child_max_nbytes - 1) div child_max_nbytes;
     let child_off = (if no = firstno then g_off g mod child_max_nbytes else 0);
     let child_blockoff = (if no = firstno then g_blockoff g
       else g_blockoff g + (no - firstno) * m - ((g_off g mod child_max_nbytes) div BPFS_BLOCK_SIZE));
     check (g_blockoff g \<le> child_blockoff);
     let child_size = (if no = lastno then g_off g + g_size g - (no * child_max_nbytes + child_off)
       else child_max_nbytes - child_off);
     check (child_size \<le> g_size g);
     check (child_size \<le> child_max_nbytes);
     let child_valid = (if no < validno then
         (if (no + 1) * child_max_nbytes \<le> g_valid g then child_max_nbytes else g_valid g mod child_max_nbytes)
       else 0);
     Some \<lparr>g_prev = BPFS_BLOCKNO_INVALID, g_blockoff = child_blockoff, g_off = child_off,
       g_size = child_size, g_valid = child_valid, g_start = g_start g, g_commit = c\<rparr>
   }"

text \<open>
  The loop over the entries from \<open>no\<close>, \<open>n\<close> of them left. \<open>h\<close> is the height below this block, \<open>child\<close>
  the crawl of a lower indirect block; \<open>blockno\<close> is this block (a copy once it was copied), \<open>p\<close> the
  pointer \<^verbatim>\<open>indir\<close>. The result has \<^verbatim>\<open>ret\<close> or an error and the block number.
\<close>

primrec indir_loop ::
  "nat \<Rightarrow> 'u crawl \<Rightarrow> nat \<Rightarrow> (range \<Rightarrow> u64 \<Rightarrow> 'u \<Rightarrow> fs \<Rightarrow> (int \<times> u64 \<times> 'u \<times> fs) option) \<Rightarrow>
   range \<Rightarrow> u64 \<Rightarrow> commit \<Rightarrow> bool \<Rightarrow> u64 \<Rightarrow> u64 \<Rightarrow> u64 \<Rightarrow> 'u \<Rightarrow> fs \<Rightarrow> (int \<times> u64 \<times> 'u \<times> fs) option" where
  "indir_loop 0 cb h child g m c in_hole no blockno p u s = Some (0, blockno, u, s)"
| "indir_loop (Suc n) cb h child g m c in_hole no blockno p u s = do {
     cg \<leftarrow> child_range g m c no;
     child_blockno \<leftarrow> (if g_valid cg = 0 \<or> in_hole then Some BPFS_BLOCKNO_INVALID else indir_get p no s);
     (child_blockno, s) \<leftarrow> (if h = 0 \<and> child_blockno AND disk_bit \<noteq> 0
        then get_block_from_disk child_blockno blockno s else Some (child_blockno, s));
     let cg = cg\<lparr>g_prev := child_blockno\<rparr>;
     (r, child_new_blockno, u, s) \<leftarrow> (if h = 0 then crawl_leaf cb cg blockno u s else child cg m u s);
     if r < 0 then Some (r, blockno, u, s)
     else do {
       let child_max_nbytes = m * BPFS_BLOCK_SIZE;
       let single = (g_off g div child_max_nbytes = (g_off g + g_size g - 1) div child_max_nbytes \<or> r = 1);
       (failed, blockno, p, s) \<leftarrow>
         (if child_blockno \<noteq> child_new_blockno \<or> in_hole then do {
            check (g_commit g \<noteq> COMMIT_NONE);
            (blockno', p, s) \<leftarrow>
              (if \<not> (g_prev g \<noteq> blockno \<or> (g_commit g = COMMIT_ATOMIC \<and> single) \<or> g_valid cg = 0) then do {
                 check (\<not> (g_commit g = COMMIT_ATOMIC \<and> g_off g \<ge> g_valid g));
                 (blockno, s) \<leftarrow> cow_block_entire blockno s;
                 if blockno = BPFS_BLOCKNO_INVALID then Some (blockno, p, s)
                 else do { (p, s) \<leftarrow> get_block blockno s; Some (blockno, p, s) }
               } else Some (blockno, p, s));
            if blockno' = BPFS_BLOCKNO_INVALID then Some (True, blockno', p, s)
            else do {
              s \<leftarrow> indir_set p no child_new_blockno s;
              Some (False, blockno', p, s)
            }
          } else Some (False, blockno, p, s));
       if failed then Some (- ENOSPC, blockno, u, s)
       else if r = 1 then do { check (\<not> in_hole); Some (1, blockno, u, s) }
       else indir_loop n cb h child g m c in_hole (no + 1) blockno p u s
     }
   }"

text \<open>\<open>crawl_indir cb height g max_nblocks u s\<close>, for a height of at least 1; a division by zero ends
  the process.\<close>

primrec crawl_indir :: "'u crawl \<Rightarrow> nat \<Rightarrow> range \<Rightarrow> u64 \<Rightarrow> 'u \<Rightarrow> fs \<Rightarrow> (int \<times> u64 \<times> 'u \<times> fs) option" where
  "crawl_indir cb 0 = (\<lambda>g max_nblocks u s. None)"
| "crawl_indir cb (Suc h) = (\<lambda>g max_nblocks u s. do {
     let child_max_nblocks = max_nblocks div BPFS_BLOCKNOS_PER_INDIR;
     let child_max_nbytes = child_max_nblocks * BPFS_BLOCK_SIZE;
     check (child_max_nbytes \<noteq> 0);
     let firstno = g_off g div child_max_nbytes;
     let lastno = (g_off g + g_size g - 1) div child_max_nbytes;
     let validno = (g_valid g + child_max_nbytes - 1) div child_max_nbytes;
     let child_commit = (if g_commit g = COMMIT_ATOMIC then
         (if firstno = lastno \<or> g_off g \<ge> g_valid g then COMMIT_ATOMIC else COMMIT_COPY)
       else g_commit g);
     let prev = g_prev g;
     if prev = BPFS_BLOCKNO_INVALID \<and> (case cb of Blocknos _ \<Rightarrow> True | Data _ \<Rightarrow> False) then Some (0, prev, u, s)
     else if prev = BPFS_BLOCKNO_INVALID \<and> g_commit g = COMMIT_NONE then
       (case cb of
          Blocknos _ \<Rightarrow> None
        | Data callback \<Rightarrow> do {
            (r, u, s) \<leftarrow> crawl_hole callback (g_blockoff g) (g_off g) (g_size g) (g_valid g) (g_start g) u s;
            Some (r, prev, u, s)
          })
     else do {
       (blockno, s) \<leftarrow> (if prev = BPFS_BLOCKNO_INVALID
          then cow_block_hole (ucast (firstno * 8)) (ucast ((lastno + 1 - firstno) * 8)) (ucast (validno * 8)) s
          else Some (prev, s));
       if blockno = BPFS_BLOCKNO_INVALID then Some (- ENOSPC, prev, u, s)
       else do {
         (p, s) \<leftarrow> get_block blockno s;
         (ret, blockno, u, s) \<leftarrow> indir_loop (Suc (unat lastno) - unat firstno) cb h (crawl_indir cb h) g
            child_max_nblocks child_commit (prev = BPFS_BLOCKNO_INVALID) firstno blockno p u s;
         if ret < 0 then Some (ret, prev, u, s)
         else do {
           s \<leftarrow> (case cb of
               Data _ \<Rightarrow> Some s
             | Blocknos bcallback \<Rightarrow>
                 (if g_off g = 0 then do {
                    check (g_commit g = COMMIT_NONE);
                    check (prev = blockno);
                    bcallback blockno False s
                  } else Some s));
           Some (ret, blockno, u, s)
         }
       }
     }
   })"

section \<open>Crawls over a tree\<close>

text \<open>\<^verbatim>\<open>crawl_blocknos\<close> of the root at \<open>(rp, ro)\<close>.\<close>

definition crawl_blocknos :: "bptr \<Rightarrow> nat \<Rightarrow> u64 \<Rightarrow> u64 \<Rightarrow> crawl_blockno_callback \<Rightarrow> fs \<Rightarrow> fs option" where
  "crawl_blocknos rp ro off sz callback s = do {
     root \<leftarrow> deref rp s;
     let nbytes = root_nbytes root ro;
     let height = tree_root_height root ro;
     let max_nblocks = tree_max_nblocks height;
     let max_nbytes = max_nblocks * BPFS_BLOCK_SIZE;
     let off = (if off = BPFS_EOF then nbytes else off);
     check (off = 0 \<or> off < nbytes);
     sz \<leftarrow> (if sz = BPFS_EOF then Some (nbytes - off)
           else do { check (off + sz \<le> nbytes); Some sz });
     check (sz \<le> nbytes);
     check (off + sz \<le> nbytes);
     if off + sz = 0 then Some s
     else do {
       let g = \<lparr>g_prev = tree_root_addr root ro, g_blockoff = 0, g_off = off,
         g_size = min sz (max_nbytes - off), g_valid = min nbytes max_nbytes, g_start = off,
         g_commit = COMMIT_NONE\<rparr>;
       (if height = 0 then
          (if off = 0 then do {
             (r, b, u, s) \<leftarrow> crawl_leaf (Blocknos callback) g (- 1) () s;
             Some s
           } else Some s)
        else do {
          (r, b, u, s) \<leftarrow> crawl_indir (Blocknos callback) (unat height)
            (g\<lparr>g_blockoff := off div BPFS_BLOCK_SIZE\<rparr>) max_nblocks () s;
          Some s
        })
     }
   }"

text \<open>
  \<^verbatim>\<open>crawl_tree_ref\<close>; \<open>prev_blockno\<close> is the block that holds the root. \<open>grow_root\<close> is its part before
  the crawl for a writing commit mode, which makes the tree high enough and clears the bytes
  between the old end and \<open>off\<close>; its result has the status, the pointer to the root, the block
  number and \<^verbatim>\<open>change_height_holes\<close>.
\<close>

definition grow_root :: "bptr \<Rightarrow> nat \<Rightarrow> u64 \<Rightarrow> u64 \<Rightarrow> u64 \<Rightarrow> fs \<Rightarrow> (int \<times> bptr \<times> u64 \<times> bool \<times> fs) option" where
  "grow_root rp ro off e prev_blockno s = do {
     root \<leftarrow> deref rp s;
     let nbytes = root_nbytes root ro;
     let prev_height = tree_root_height root ro;
     requested_height \<leftarrow> tree_height (NBLOCKS_FOR_NBYTES e);
     let new_height = max prev_height requested_height;
     let capacity = BPFS_BLOCK_SIZE * tree_max_nblocks new_height;
     let int_valid = min nbytes capacity;
     let new_valid = min (max nbytes e) capacity;
     check (e \<le> new_valid);
     check (nbytes \<ge> new_valid \<or> (nbytes < e \<and> e = new_valid));
     check (nbytes \<le> new_valid \<or> nbytes > e);
     check (nbytes \<noteq> new_valid \<or> nbytes \<ge> e);
     check (new_valid \<le> capacity);
     (r, rp, blockno, chh, s) \<leftarrow>
       (if prev_height < new_height then do {
          (r, blockno, s) \<leftarrow> tree_change_height rp ro (ucast new_height) COMMIT_ATOMIC prev_blockno s;
          if r < 0 then Some (r, rp, blockno, False, s)
          else if prev_blockno \<noteq> blockno then do {
            (p, s) \<leftarrow> get_block blockno s;
            Some (0, Bpram p, blockno, True, s)
          } else Some (0, rp, blockno, False, s)
        } else Some (0, rp, prev_blockno, False, s));
     if r < 0 then Some (r, rp, blockno, chh, s)
     else if int_valid < off then do {
       (r, blockno, s) \<leftarrow> truncate_block_zero rp ro int_valid off int_valid blockno s;
       if r < 0 then Some (r, rp, blockno, chh, s)
       else if prev_blockno \<noteq> blockno then do {
         (p, s) \<leftarrow> get_block blockno s;
         Some (0, Bpram p, blockno, True, s)
       } else Some (0, rp, blockno, chh, s)
     } else Some (0, rp, blockno, chh, s)
   }"

text \<open>The part of \<^verbatim>\<open>crawl_tree_ref\<close> after a successful crawl for a writing commit mode: the root is
  changed in place or in a copy of its block.\<close>

definition update_root ::
  "bptr \<Rightarrow> nat \<Rightarrow> u64 \<Rightarrow> u64 \<Rightarrow> commit \<Rightarrow> bool \<Rightarrow> u64 \<Rightarrow> u64 \<Rightarrow> u64 \<Rightarrow> bool \<Rightarrow> int \<Rightarrow> fs \<Rightarrow> (int \<times> u64 \<times> fs) option" where
  "update_root rp ro off e commit chh prev_blockno new_blockno child_new_blockno blockno_refed r s = do {
     root \<leftarrow> deref rp s;
     let nbytes = root_nbytes root ro;
     let change_addr = (tree_root_addr root ro \<noteq> child_new_blockno);
     let change_size = (e > nbytes);
     if change_addr \<or> change_size \<or> chh then do {
       let overwrite = (off < nbytes);
       check (\<not> (\<not> change_addr \<and> overwrite \<and> change_size));
       let inplace =
         (if prev_blockno \<noteq> new_blockno \<or> \<not> blockno_refed then True
          else if change_addr \<and> overwrite \<and> change_size then commit = COMMIT_FREE
          else commit = COMMIT_FREE \<or> commit = COMMIT_ATOMIC);
       (failed, rp, new_blockno, s) \<leftarrow>
         (if inplace then Some (False, rp, new_blockno, s)
          else do {
            (b, s) \<leftarrow> cow_block_entire new_blockno s;
            if b = BPFS_BLOCKNO_INVALID then Some (True, rp, b, s)
            else do { (p, s) \<leftarrow> get_block b s; Some (False, Bpram p, b, s) }
          });
       if failed then Some (- ENOSPC, prev_blockno, s)
       else do {
         root \<leftarrow> deref rp s;
         root \<leftarrow> (if change_addr then ha_set_addr root ro child_new_blockno else Some root);
         let root = (if change_size then set_root_nbytes root ro e else root);
         s \<leftarrow> assign rp root s;
         Some (r, new_blockno, s)
       }
     } else do {
       check (prev_blockno = new_blockno);
       Some (r, prev_blockno, s)
     }
   }"

definition crawl_tree_ref ::
  "bptr \<Rightarrow> nat \<Rightarrow> u64 \<Rightarrow> u64 \<Rightarrow> commit \<Rightarrow> 'u crawl_callback \<Rightarrow> 'u \<Rightarrow> u64 \<Rightarrow> bool \<Rightarrow> fs \<Rightarrow>
   (int \<times> u64 \<times> 'u \<times> fs) option" where
  "crawl_tree_ref rp ro off sz commit callback u prev_blockno blockno_refed s = do {
     root \<leftarrow> deref rp s;
     let off = (if off = BPFS_EOF then root_nbytes root ro else off);
     sz \<leftarrow> (if sz = BPFS_EOF then do {
              check (off \<le> root_nbytes root ro);
              Some (root_nbytes root ro - off)
            } else Some sz);
     let e = off + sz;
     check (commit \<noteq> COMMIT_NONE \<or> e \<le> root_nbytes root ro);
     (r, rp, new_blockno, chh, s) \<leftarrow> (if commit \<noteq> COMMIT_NONE then grow_root rp ro off e prev_blockno s
        else Some (0, rp, prev_blockno, False, s));
     if r < 0 then Some (r, prev_blockno, u, s)
     else do {
       root \<leftarrow> deref rp s;
       let nbytes = root_nbytes root ro;
       let height = ha_height (root_ha root ro);
       let max_nblocks = tree_max_nblocks height;
       check (commit \<noteq> COMMIT_NONE \<or> e \<le> nbytes);
       let child_size = (if commit \<noteq> COMMIT_NONE then sz else min sz (max_nblocks * BPFS_BLOCK_SIZE - off));
       let child_commit = (if commit = COMMIT_NONE \<or> commit = COMMIT_FREE \<or> commit = COMMIT_COPY then commit
         else if off < nbytes \<and> nbytes < e then COMMIT_COPY else commit);
       let g = \<lparr>g_prev = tree_root_addr root ro, g_blockoff = 0, g_off = off, g_size = child_size,
         g_valid = min nbytes (max_nblocks * BPFS_BLOCK_SIZE), g_start = off, g_commit = child_commit\<rparr>;
       (r, child_new_blockno, u, s) \<leftarrow>
         (if height = 0 then
            (if child_size \<noteq> 0 then crawl_leaf (Data callback) g (- 1) u s
             else Some (0, tree_root_addr root ro, u, s))
          else crawl_indir (Data callback) (unat height) (g\<lparr>g_blockoff := off div BPFS_BLOCK_SIZE\<rparr>) max_nblocks u s);
       if r < 0 then Some (r, prev_blockno, u, s)
       else if commit = COMMIT_NONE then do {
         root \<leftarrow> deref rp s;
         check (tree_root_addr root ro = child_new_blockno \<and> \<not> e > root_nbytes root ro);
         check (prev_blockno = new_blockno);
         if r = 0 then do {
           (r, u, s) \<leftarrow> crawl_hole callback ((off + child_size) div BPFS_BLOCK_SIZE) child_size
              (sz - child_size) (root_nbytes root ro) off u s;
           Some (r, prev_blockno, u, s)
         } else Some (r, prev_blockno, u, s)
       } else do {
         (r, b, s) \<leftarrow> update_root rp ro off e commit chh prev_blockno new_blockno child_new_blockno blockno_refed r s;
         Some (r, b, u, s)
       }
     }
   }"

definition crawl_tree ::
  "bptr \<Rightarrow> nat \<Rightarrow> u64 \<Rightarrow> u64 \<Rightarrow> commit \<Rightarrow> 'u crawl_callback \<Rightarrow> 'u \<Rightarrow> u64 \<Rightarrow> fs \<Rightarrow>
   (int \<times> u64 \<times> 'u \<times> fs) option" where
  "crawl_tree rp ro off sz commit callback u prev_blockno s =
     crawl_tree_ref rp ro off sz commit callback u prev_blockno True s"

section \<open>Inodes and their data\<close>

definition crawl_inodes :: "u64 \<Rightarrow> u64 \<Rightarrow> commit \<Rightarrow> 'u crawl_callback \<Rightarrow> 'u \<Rightarrow> fs \<Rightarrow> (int \<times> 'u \<times> fs) option" where
  "crawl_inodes off sz commit callback u s = do {
     (p, s) \<leftarrow> get_inode_root s;
     super \<leftarrow> get_super s;
     (r, child_blockno, u, s) \<leftarrow> crawl_tree (Bpram p) 0 off sz commit callback u (super_inode_root_addr super) s;
     super \<leftarrow> get_super s;
     if r \<ge> 0 \<and> child_blockno \<noteq> super_inode_root_addr super then do {
       check (commit = COMMIT_COPY \<or> commit = COMMIT_ATOMIC);
       s \<leftarrow> put_mem BPFS_BLOCKNO_SUPER (put_u64 super 32 child_blockno) s;
       Some (r, u, s)
     } else Some (r, u, s)
   }"

definition callback_crawl_inode :: "'u crawl_callback_inode \<Rightarrow> 'u crawl_callback" where
  "callback_crawl_inode callback blockoff block off sz vld crawl_start commit u blockno s = do {
     check (sz = of_nat SIZEOF_INODE);
     callback block off commit u blockno s
   }"

definition crawl_inode :: "u64 \<Rightarrow> commit \<Rightarrow> 'u crawl_callback_inode \<Rightarrow> 'u \<Rightarrow> fs \<Rightarrow> (int \<times> 'u \<times> fs) option" where
  "crawl_inode ino commit callback u s = do {
     (ino_off, s) \<leftarrow> get_inode_offset ino s;
     crawl_inodes ino_off (of_nat SIZEOF_INODE) commit (callback_crawl_inode callback) u s
   }"

definition callback_crawl_data :: "u64 \<Rightarrow> u64 \<Rightarrow> 'u crawl_callback \<Rightarrow> 'u crawl_callback_inode" where
  "callback_crawl_data doff dsize callback block off commit u blockno s =
     crawl_tree block (inode_root_off (unat off)) doff dsize commit callback u blockno s"

definition crawl_data :: "u64 \<Rightarrow> u64 \<Rightarrow> u64 \<Rightarrow> commit \<Rightarrow> 'u crawl_callback \<Rightarrow> 'u \<Rightarrow> fs \<Rightarrow> (int \<times> 'u \<times> fs) option" where
  "crawl_data ino off sz commit callback u s =
     crawl_inode ino commit (callback_crawl_data off sz callback) u s"

section \<open>Two writes in one commit\<close>

text \<open>\<^verbatim>\<open>struct ccd2dd\<close>; both callbacks work on the same user data.\<close>

record 'u ccd2dd =
  d_ino :: u64
  d_ino_off :: u64
  d_off :: u64
  d_size :: u64
  d_callback :: "'u crawl_callback"

definition ccd2dd_fill :: "u64 \<Rightarrow> u64 \<Rightarrow> u64 \<Rightarrow> 'u crawl_callback \<Rightarrow> fs \<Rightarrow> ('u ccd2dd \<times> fs) option" where
  "ccd2dd_fill ino off sz callback s = do {
     (ino_off, s) \<leftarrow> get_inode_offset ino s;
     Some (\<lparr>d_ino = ino, d_ino_off = ino_off, d_off = off, d_size = sz, d_callback = callback\<rparr>, s)
   }"

text \<open>One iteration of the loop over the two writes, in the block that holds \<open>d\<close>.\<close>

definition ccd2d_call :: "'u ccd2dd \<Rightarrow> u64 \<Rightarrow> u32 \<Rightarrow> u64 \<Rightarrow> u64 \<Rightarrow> 'u \<Rightarrow> u64 \<Rightarrow> fs \<Rightarrow> (int \<times> u64 \<times> 'u \<times> fs) option" where
  "ccd2d_call d blockoff vld crawl_start prev_blockno u blockno s = do {
     let c = (if blockno \<noteq> prev_blockno then COMMIT_FREE else COMMIT_COPY);
     (p, s) \<leftarrow> get_block blockno s;
     d_callback d blockoff (Bpram p) (ucast (d_off d mod BPFS_BLOCK_SIZE)) (ucast (d_size d)) vld
       crawl_start c u blockno s
   }"

definition callback_crawl_data_2_tree :: "'u ccd2dd \<Rightarrow> 'u ccd2dd \<Rightarrow> 'u crawl_callback" where
  "callback_crawl_data_2_tree d0 d1 blockoff block off sz vld crawl_start commit u blockno s = do {
     let prev_blockno = blockno;
     let first_offset = blockoff * BPFS_BLOCK_SIZE + ucast off;
     let last_offset = first_offset + ucast sz;
     (r, blockno, u, s) \<leftarrow> (if first_offset = d_off d0
        then ccd2d_call d0 blockoff vld crawl_start prev_blockno u blockno s
        else Some (0, blockno, u, s));
     if r < 0 then Some (r, blockno, u, s)
     else do {
       (r, blockno, u, s) \<leftarrow> (if last_offset = d_off d1 + d_size d1
          then ccd2d_call d1 blockoff vld crawl_start prev_blockno u blockno s
          else Some (0, blockno, u, s));
       check (\<not> r < 0);
       Some (0, blockno, u, s)
     }
   }"

definition callback_crawl_data_2 :: "'u ccd2dd \<Rightarrow> 'u ccd2dd \<Rightarrow> 'u crawl_callback" where
  "callback_crawl_data_2 d0 d1 blockoff block off sz vld crawl_start commit u blockno s = do {
     let first_offset = blockoff * BPFS_BLOCK_SIZE + ucast off;
     let last_offset = first_offset + ucast sz - of_nat SIZEOF_INODE;
     let first = (first_offset = d_ino_off d0);
     let last = (last_offset = d_ino_off d1);
     let root_0 = inode_root_off (unat off);
     let root_1 = inode_root_off (unat (off + sz - of_nat SIZEOF_INODE));
     if first \<and> last then
       (if d_ino d0 = d_ino d1 then do {
          check (d_off d0 < d_off d1);
          crawl_tree block root_0 (d_off d0) (d_off d1 - d_off d0 + d_size d1) commit
            (callback_crawl_data_2_tree d0 d1) u blockno s
        } else do {
          let prev_blockno = blockno;
          (r, blockno, u, s) \<leftarrow> crawl_tree block root_0 (d_off d0) (d_size d0) COMMIT_COPY
             (d_callback d0) u blockno s;
          if r < 0 then Some (r, blockno, u, s)
          else do {
            (p, s) \<leftarrow> get_block blockno s;
            check (prev_blockno \<noteq> blockno);
            (r, blockno, u, s) \<leftarrow> crawl_tree_ref (Bpram p) root_1 (d_off d1) (d_size d1) COMMIT_COPY
               (d_callback d1) u blockno False s;
            check (r \<ge> 0);
            Some (r, blockno, u, s)
          }
        })
     else if first \<or> last then do {
       let d = (if last then d1 else d0);
       check (commit = COMMIT_COPY);
       crawl_tree block (if first then root_0 else root_1) (d_off d) (d_size d) commit (d_callback d) u blockno s
     } else Some (0, blockno, u, s)
   }"

definition region_in_one_block :: "u64 \<Rightarrow> u64 \<Rightarrow> bool" where
  "region_in_one_block off sz \<longleftrightarrow> off mod BPFS_BLOCK_SIZE + sz \<le> BPFS_BLOCK_SIZE"

definition crawl_data_2 ::
  "u64 \<Rightarrow> u64 \<Rightarrow> u64 \<Rightarrow> 'u crawl_callback \<Rightarrow> u64 \<Rightarrow> u64 \<Rightarrow> u64 \<Rightarrow> 'u crawl_callback \<Rightarrow> commit \<Rightarrow> 'u \<Rightarrow> fs \<Rightarrow>
   (int \<times> 'u \<times> fs) option" where
  "crawl_data_2 ino_0 off_0 size_0 callback_0 ino_1 off_1 size_1 callback_1 commit u s = do {
     check (\<not> (ino_0 = ino_1 \<and> ((off_0 \<le> off_1 \<and> off_1 < off_0 + size_0) \<or>
       (off_1 \<le> off_0 \<and> off_0 < off_1 + size_1))));
     check (region_in_one_block off_0 size_0);
     check (region_in_one_block off_1 size_1);
     (x, s) \<leftarrow> ccd2dd_fill ino_0 off_0 size_0 callback_0 s;
     (y, s) \<leftarrow> ccd2dd_fill ino_1 off_1 size_1 callback_1 s;
     let (d0, d1) = (if ino_0 < ino_1 \<or> (ino_0 = ino_1 \<and> off_0 \<le> off_1) then (x, y) else (y, x));
     let ino_start = d_ino_off d0;
     let ino_end = d_ino_off d1 + of_nat SIZEOF_INODE;
     crawl_inodes ino_start (ino_end - ino_start) commit (callback_crawl_data_2 d0 d1) u s
   }"

end
