(* ===== verification/Crawl_Reader.thy ===== *)
theory Crawl_Reader
  imports Crawler
begin

text \<open>
  Reading a file through the crawler. The locale \<open>reader\<close> states what a callback of a read-only crawl
  promises about one piece of one block; the rule proved in it says that a crawl over a range of a
  tree whose blocks are in memory calls the callback for the pieces of the range, in order, each
  with the block that holds its bytes.
\<close>

section \<open>Trees in memory\<close>

definition same_mem :: "fs \<Rightarrow> fs \<Rightarrow> bool" where
  "same_mem s s' \<longleftrightarrow> bpram s' = bpram s \<and> length (indir_mapping s') = length (indir_mapping s)"

lemma same_mem_refl [simp]: "same_mem s s"
  by (simp add: same_mem_def)

lemma same_mem_trans: "same_mem s s' \<Longrightarrow> same_mem s' s'' \<Longrightarrow> same_mem s s''"
  by (simp add: same_mem_def)

lemma same_mem_mem: "same_mem s s' \<Longrightarrow> mem n s' = mem n s"
  by (simp add: same_mem_def mem_def)

lemma same_mem_deref: "same_mem s s' \<Longrightarrow> deref p s' = deref p s"
  by (cases p) (simp_all add: same_mem_mem)

text \<open>The number of bytes under a tree of height \<open>h\<close>.\<close>

definition capacity :: "nat \<Rightarrow> nat" where
  "capacity h = 4096 * 512 ^ h"

lemma capacity_simps [simp]: "capacity 0 = 4096" "capacity (Suc h) = 512 * capacity h" "0 < capacity h"
  by (simp_all add: capacity_def)

lemma capacity_4096: "capacity h mod 4096 = 0" "4096 \<le> capacity h"
  by (simp_all add: capacity_def)

lemma capacity_bound: "h \<le> 5 \<Longrightarrow> capacity h \<le> 2 ^ 57"
proof -
  assume "h \<le> 5"
  then have "(512 :: nat) ^ h \<le> 512 ^ 5" by (intro power_increasing) auto
  then show ?thesis by (simp add: capacity_def)
qed

text \<open>
  \<open>tree_reads P h s a f lim\<close>: the tree of height \<open>h\<close> at block number \<open>a\<close> has the bytes \<open>f\<close> below \<open>lim\<close>, held by
  leaves that satisfy \<open>P\<close>.
  Its indirect blocks are in memory and so are its leaves, unless they are holes.
\<close>

definition leaf_ok :: "u64 \<Rightarrow> fs \<Rightarrow> bool" where
  "leaf_ok a s \<longleftrightarrow> (a = 0 \<or> resident a s) \<and> unat a < length (indir_mapping s)"

definition leaf_ptr :: "u64 \<Rightarrow> bptr" where
  "leaf_ptr a = (if a = 0 then Zero_block else Bpram a)"

primrec tree_reads :: "(u64 \<Rightarrow> bool) \<Rightarrow> nat \<Rightarrow> fs \<Rightarrow> u64 \<Rightarrow> (nat \<Rightarrow> u8) \<Rightarrow> nat \<Rightarrow> bool" where
  "tree_reads P 0 s a f lim \<longleftrightarrow> leaf_ok a s \<and> P a \<and>
     (\<exists>b. deref (leaf_ptr a) s = Some b \<and> (\<forall>x < 4096. x < lim \<longrightarrow> b x = f x))"
| "tree_reads P (Suc h) s a f lim \<longleftrightarrow> resident a s \<and> a \<noteq> - 1 \<and>
     (\<exists>b. mem a s = Some b \<and> (\<forall>k < 512. k * capacity h < lim \<longrightarrow>
        tree_reads P h s (indir_addr b (of_nat k)) (\<lambda>x. f (k * capacity h + x)) (lim - k * capacity h)))"

lemma tree_reads_mono: "tree_reads P h s a f lim \<Longrightarrow> lim' \<le> lim \<Longrightarrow> tree_reads P h s a f lim'"
proof (induction h arbitrary: a f lim lim')
  case 0
  then show ?case by auto
next
  case (Suc h)
  then obtain b where b: "mem a s = Some b" "\<forall>k < 512. k * capacity h < lim \<longrightarrow>
      tree_reads P h s (indir_addr b (of_nat k)) (\<lambda>x. f (k * capacity h + x)) (lim - k * capacity h)" by auto
  have "tree_reads P h s (indir_addr b (of_nat k)) (\<lambda>x. f (k * capacity h + x)) (lim' - k * capacity h)"
    if "k < 512" "k * capacity h < lim'" for k
    using Suc.IH [of _ _ "lim - k * capacity h" "lim' - k * capacity h"] b(2) that Suc.prems(2) by simp
  then show ?case using Suc.prems(1) b(1) by auto
qed

lemma leaf_ok_same_mem: "same_mem s s' \<Longrightarrow> leaf_ok a s' = leaf_ok a s"
  by (simp add: leaf_ok_def same_mem_def resident_def)

lemma resident_same_mem: "same_mem s s' \<Longrightarrow> resident a s' = resident a s"
  by (simp add: same_mem_def resident_def)

lemma tree_reads_same_mem: "same_mem s s' \<Longrightarrow> tree_reads P h s' a f lim = tree_reads P h s a f lim"
  by (induction h arbitrary: a f lim)
     (simp_all add: leaf_ok_same_mem resident_same_mem same_mem_mem same_mem_deref)

text \<open>The root at \<open>(rp, ro)\<close> is that of a file with the \<open>N\<close> bytes \<open>f\<close>.\<close>

definition file_reads :: "(u64 \<Rightarrow> bool) \<Rightarrow> bptr \<Rightarrow> nat \<Rightarrow> fs \<Rightarrow> nat \<Rightarrow> (nat \<Rightarrow> u8) \<Rightarrow> bool" where
  "file_reads P rp ro s N f \<longleftrightarrow> (\<exists>R h. deref rp s = Some R \<and> unat (root_nbytes R ro) = N \<and>
     unat (ha_height (root_ha R ro)) = h \<and> h \<le> 5 \<and> N \<le> capacity h \<and> tree_reads P h s (ha_addr (root_ha R ro)) f N)"

section \<open>Ranges\<close>

text \<open>The range \<open>g\<close> is \<open>sz > 0\<close> bytes from \<open>off\<close> in a subtree with \<open>cap\<close> bytes, \<open>lim\<close> of which are valid,
  and the subtree starts at byte \<open>base\<close> of the file.\<close>

definition range_at :: "range \<Rightarrow> nat \<Rightarrow> nat \<Rightarrow> nat \<Rightarrow> nat \<Rightarrow> nat \<Rightarrow> nat \<Rightarrow> bool" where
  "range_at g start base off sz lim cap \<longleftrightarrow> unat (g_off g) = off \<and> unat (g_size g) = sz \<and>
     unat (g_valid g) = lim \<and> unat (g_start g) = start \<and> g_commit g = COMMIT_NONE \<and> 0 < sz \<and>
     off + sz \<le> lim \<and> lim \<le> cap \<and> base mod 4096 = 0 \<and> base + cap \<le> 2 ^ 63 \<and> start \<le> base + off \<and>
     unat (g_blockoff g) = (base + off) div 4096"

lemma range_at_prev: "range_at (g\<lparr>g_prev := x\<rparr>) = range_at g"
  by (simp add: range_at_def fun_eq_iff)

lemma unat_word_mult:
  assumes "unat a * unat b < 2 ^ 64"
  shows "unat (a * b :: u64) = unat a * unat b"
  using assms by (simp add: unat_word_ariths)

lemma unat_word_add:
  assumes "unat a + unat b < 2 ^ 64"
  shows "unat (a + b :: u64) = unat a + unat b"
  using assms by (simp add: unat_word_ariths)

lemma unat_word_sub:
  assumes "unat b \<le> unat a"
  shows "unat (a - b :: u64) = unat a - unat b"
  using assms by (simp add: unat_sub word_le_nat_alt)

lemma less_2_64: "n \<le> 2 ^ 63 \<Longrightarrow> n < (2 :: nat) ^ 64" "n \<le> 2 ^ 51 + 2 ^ 51 \<Longrightarrow> n < (2 :: nat) ^ 64"
  by simp_all

text \<open>The entries of an indirect block that a range touches, in natural numbers.\<close>

lemma range_entries:
  assumes "range_at g start base off sz lim (512 * c)" and "unat m * 4096 = c" and "0 < c"
  shows "unat (m * 4096) = c" "m * 4096 \<noteq> 0"
    "unat (g_off g div (m * 4096)) = off div c"
    "unat ((g_off g + g_size g - 1) div (m * 4096)) = (off + sz - 1) div c"
    "unat (g_off g + g_size g) = off + sz"
    "unat (g_off g mod (m * 4096)) = off mod c"
    "unat ((g_valid g + m * 4096 - 1) div (m * 4096)) = (lim + c - 1) div c"
proof -
  have b: "c \<le> 2 ^ 54" "lim \<le> 2 ^ 63" "off + sz \<le> lim" using assms(1) by (auto simp: range_at_def)
  have u: "unat (g_off g) = off" "unat (g_size g) = sz" "unat (g_valid g) = lim" "0 < sz"
    using assms(1) by (auto simp: range_at_def)
  show c: "unat (m * 4096) = c" using assms(2) b unat_word_mult [of m 4096] by simp
  then show "m * 4096 \<noteq> 0" using assms(3) unat_pos [of "m * 4096"] by simp
  show e: "unat (g_off g + g_size g) = off + sz" using unat_word_add [of "g_off g" "g_size g"] u b by simp
  show "unat (g_off g div (m * 4096)) = off div c" "unat (g_off g mod (m * 4096)) = off mod c"
    using c u by (simp_all add: unat_div unat_mod)
  have "unat (g_off g + g_size g - 1) = off + sz - 1"
    using unat_word_sub [of 1 "g_off g + g_size g"] e u by simp
  then show "unat ((g_off g + g_size g - 1) div (m * 4096)) = (off + sz - 1) div c" using c by (simp add: unat_div)
  have "unat (g_valid g + m * 4096) = lim + c" using unat_word_add [of "g_valid g" "m * 4096"] u c b by simp
  then have "unat (g_valid g + m * 4096 - 1) = lim + c - 1"
    using unat_word_sub [of 1 "g_valid g + m * 4096"] assms(3) by simp
  then show "unat ((g_valid g + m * 4096 - 1) div (m * 4096)) = (lim + c - 1) div c" using c by (simp add: unat_div)
qed

text \<open>The part of \<open>sz\<close> bytes from \<open>off\<close> that lies in entry \<open>k\<close> of \<open>c\<close> bytes.\<close>

lemma entry_bounds:
  fixes off sz c k :: nat
  assumes "0 < c" and "0 < sz" and "off div c \<le> k" and "k \<le> (off + sz - 1) div c"
  shows "max off (k * c) < min (off + sz) ((k + 1) * c)"
    "max off (k * c) - k * c = (if k = off div c then off mod c else 0)"
    "min (off + sz) ((k + 1) * c) = (if k = (off + sz - 1) div c then off + sz else (k + 1) * c)"
proof -
  have lo: "off < (k + 1) * c" and hi: "k * c < off + sz"
  proof -
    have "off < (off div c + 1) * c" using assms(1) by (simp add: dividend_less_div_times)
    also have "\<dots> \<le> (k + 1) * c" using assms(3) by (intro mult_le_mono1) simp
    finally show "off < (k + 1) * c" .
    have "k * c \<le> (off + sz - 1) div c * c" using assms(4) by simp
    also have "\<dots> \<le> off + sz - 1" by simp
    finally show "k * c < off + sz" using assms(2) by simp
  qed
  then show "max off (k * c) < min (off + sz) ((k + 1) * c)" using assms(1,2) by simp
  show "max off (k * c) - k * c = (if k = off div c then off mod c else 0)"
  proof (cases "k = off div c")
    case True
    then show ?thesis by (simp add: minus_div_mult_eq_mod [symmetric])
  next
    case False
    then have "off div c + 1 \<le> k" using assms(3) by simp
    then have "(off div c + 1) * c \<le> k * c" by (rule mult_le_mono1)
    then have "off \<le> k * c" using assms(1) dividend_less_div_times [of c off] by simp
    then show ?thesis using False by simp
  qed
  show "min (off + sz) ((k + 1) * c) = (if k = (off + sz - 1) div c then off + sz else (k + 1) * c)"
  proof (cases "k = (off + sz - 1) div c")
    case True
    then have "off + sz - 1 < (k + 1) * c" using assms(1) dividend_less_div_times [of c "off + sz - 1"] by simp
    then show ?thesis using True assms(2) by simp
  next
    case False
    then have "k + 1 \<le> (off + sz - 1) div c" using assms(4) by simp
    then have "(k + 1) * c \<le> (off + sz - 1) div c * c" by (rule mult_le_mono1)
    then have "(k + 1) * c \<le> off + sz" using div_times_less_eq_dividend [of "off + sz - 1" c] by linarith
    then show ?thesis using False by simp
  qed
qed

lemma entry_valid:
  fixes lim c k :: nat
  assumes "0 < c" and "k * c < lim"
  shows "k < (lim + c - 1) div c"
    "min (lim - k * c) c = (if (k + 1) * c \<le> lim then c else lim mod c)"
proof -
  have "(k + 1) * c \<le> lim + c - 1" using assms by simp
  then have "(k + 1) * c div c \<le> (lim + c - 1) div c" by (rule div_le_mono)
  then show "k < (lim + c - 1) div c" using assms(1) by simp
  show "min (lim - k * c) c = (if (k + 1) * c \<le> lim then c else lim mod c)"
  proof (cases "(k + 1) * c \<le> lim")
    case False
    then have "lim div c = k" using assms by (intro div_nat_eqI) (simp_all add: mult.commute)
    then show ?thesis using False by (simp add: minus_div_mult_eq_mod [symmetric])
  qed simp
qed

text \<open>Entry \<open>k\<close> of an indirect block whose entries have \<open>c\<close> bytes is one that the range touches.\<close>

definition entry_at :: "range \<Rightarrow> nat \<Rightarrow> nat \<Rightarrow> nat \<Rightarrow> nat \<Rightarrow> nat \<Rightarrow> u64 \<Rightarrow> nat \<Rightarrow> nat \<Rightarrow> u64 \<Rightarrow> bool" where
  "entry_at g start base off sz lim m c k no \<longleftrightarrow> range_at g start base off sz lim (512 * c) \<and>
     unat m * 4096 = c \<and> 0 < c \<and> off div c \<le> k \<and> k \<le> (off + sz - 1) div c \<and> unat no = k"

lemma entry_atD:
  assumes "entry_at g start base off sz lim m c k no"
  shows "range_at g start base off sz lim (512 * c)" "unat m * 4096 = c" "0 < c" "off div c \<le> k"
    "k \<le> (off + sz - 1) div c" "unat no = k"
    "unat (g_off g) = off" "unat (g_size g) = sz" "unat (g_valid g) = lim" "unat (g_start g) = start"
    "0 < sz" "off + sz \<le> lim" "lim \<le> 512 * c" "base mod 4096 = 0"
    "base + 512 * c \<le> 2 ^ 63" "start \<le> base + off" "unat (g_blockoff g) = (base + off) div 4096"
  using assms by (auto simp: entry_at_def range_at_def)

lemma entry_index:
  assumes "entry_at g start base off sz lim m c k no"
  shows "k * c < lim" "k < 512" "(k + 1) * c \<le> 512 * c" "unat (no * (m * 4096)) = k * c"
    "no = g_off g div (m * 4096) \<longleftrightarrow> k = off div c"
    "no = (g_off g + g_size g - 1) div (m * 4096) \<longleftrightarrow> k = (off + sz - 1) div c"
proof -
  note E = entry_atD [OF assms]
  note e = range_entries [OF E(1-3)]
  show kl: "k * c < lim" using entry_bounds(1) [OF E(3,11,4,5)] E(12) by linarith
  then have "k * c < 512 * c" using E(13) by linarith
  then show k: "k < 512" by simp
  then show c: "(k + 1) * c \<le> 512 * c" by (intro mult_le_mono1) simp
  have "k * c < 2 ^ 64" by (rule less_2_64(1)) (use E(15) kl E(13) in linarith)
  then show "unat (no * (m * 4096)) = k * c" using unat_word_mult [of no "m * 4096"] e(1) E(6) by simp
  show "no = g_off g div (m * 4096) \<longleftrightarrow> k = off div c" using e(3) E(6) by (metis unat_inject)
  show "no = (g_off g + g_size g - 1) div (m * 4096) \<longleftrightarrow> k = (off + sz - 1) div c" using e(4) E(6) by (metis unat_inject)
qed

lemma child_off_ok:
  assumes "entry_at g start base off sz lim m c k no"
  shows "unat (if no = g_off g div (m * 4096) then g_off g mod (m * 4096) else 0) = max off (k * c) - k * c"
  using entry_bounds(2) [OF entry_atD(3,11,4,5) [OF assms]] entry_index(5) [OF assms]
    range_entries(6) [OF entry_atD(1-3) [OF assms]] by simp

lemma child_size_ok:
  assumes A: "entry_at g start base off sz lim m c k no" and co: "unat co = max off (k * c) - k * c"
  shows "unat (if no = (g_off g + g_size g - 1) div (m * 4096)
      then g_off g + g_size g - (no * (m * 4096) + co) else m * 4096 - co) =
    min (off + sz) ((k + 1) * c) - max off (k * c)"
proof -
  note E = entry_atD [OF A] and X = entry_index [OF A]
  note e = range_entries [OF E(1-3)] and b = entry_bounds [OF E(3,11,4,5)]
  obtain lo where lo: "lo = max off (k * c)" by blast
  have lt: "lo < min (off + sz) ((k + 1) * c)" "k * c \<le> lo" using b(1) lo by simp_all
  have "k * c + unat co = lo" using co lo by simp
  moreover have "lo < 2 ^ 64" by (rule less_2_64(1)) (use lt(1) E(12,13,15) in linarith)
  ultimately have s1: "unat (no * (m * 4096) + co) = lo" using unat_word_add [of "no * (m * 4096)" co] X(4) by simp
  show ?thesis
  proof (cases "k = (off + sz - 1) div c")
    case True
    have hi: "min (off + sz) ((k + 1) * c) = off + sz" by (rule trans [OF b(3) if_P [OF True]])
    then have "unat (g_off g + g_size g - (no * (m * 4096) + co)) = off + sz - lo"
      using unat_word_sub [of "no * (m * 4096) + co" "g_off g + g_size g"] s1 e(5) lt(1) by linarith
    then show ?thesis unfolding if_P [OF X(6) [THEN iffD2, OF True]] hi lo .
  next
    case False
    have hi: "min (off + sz) ((k + 1) * c) = (k + 1) * c" by (rule trans [OF b(3) if_not_P [OF False]])
    then have "lo - k * c \<le> c" "(k + 1) * c - lo = c - (lo - k * c)" using lt by auto
    then have "unat (m * 4096 - co) = (k + 1) * c - lo" using unat_word_sub [of co "m * 4096"] co lo e(1) by simp
    moreover have "no \<noteq> (g_off g + g_size g - 1) div (m * 4096)" using False X(6) by blast
    ultimately show ?thesis unfolding hi lo by (simp only: if_False)
  qed
qed

lemma child_valid_ok:
  assumes A: "entry_at g start base off sz lim m c k no"
  shows "unat (if no < (g_valid g + m * 4096 - 1) div (m * 4096)
      then (if (no + 1) * (m * 4096) \<le> g_valid g then m * 4096 else g_valid g mod (m * 4096)) else 0) =
    min (lim - k * c) c"
proof -
  note E = entry_atD [OF A] and X = entry_index [OF A]
  note e = range_entries [OF E(1-3)]
  have "unat (no + 1) = k + 1" using unat_word_add [of no 1] E(6) X(2) by simp
  moreover have "(k + 1) * c < 2 ^ 64" by (rule less_2_64(1)) (use X(3) E(15) in linarith)
  ultimately have "unat ((no + 1) * (m * 4096)) = (k + 1) * c" using unat_word_mult [of "no + 1" "m * 4096"] e(1) by simp
  then show ?thesis using entry_valid [OF E(3) X(1)] e(1,7) E(6,9) by (simp add: word_less_nat_alt word_le_nat_alt unat_mod)
qed

lemma div_4096:
  fixes c m base :: nat
  assumes "m * 4096 = c"
  shows "(k * c + x) div 4096 = k * m + x div 4096" "base mod 4096 = 0 \<Longrightarrow> (base + x) div 4096 = base div 4096 + x div 4096"
proof -
  have "k * c + x = x + 4096 * (k * m)" using assms by auto
  then have "(k * c + x) div 4096 = (x + 4096 * (k * m)) div 4096" by (rule arg_cong)
  also have "\<dots> = k * m + x div 4096" by (subst div_mult_self2) simp_all
  finally show "(k * c + x) div 4096 = k * m + x div 4096" .
  show "(base + x) div 4096 = base div 4096 + x div 4096" if "base mod 4096 = 0"
    using that by (intro div_plus_div_distrib_dvd_left mod_0_imp_dvd)
qed

lemma child_blockoff_ok:
  assumes A: "entry_at g start base off sz lim m c k no"
  shows "unat (if no = g_off g div (m * 4096) then g_blockoff g
      else g_blockoff g + (no - g_off g div (m * 4096)) * m - (g_off g mod (m * 4096)) div 4096) =
    (base + max off (k * c)) div 4096"
proof -
  note E = entry_atD [OF A] and X = entry_index [OF A]
  note e = range_entries [OF E(1-3)] and b = entry_bounds [OF E(3,11,4,5)] and d4 = div_4096 [OF E(2)]
  show ?thesis
  proof (cases "k = off div c")
    case True
    then have "max off (k * c) = off" using div_times_less_eq_dividend [of off c] by (simp add: max_absorb1)
    then show ?thesis using True X(5) E(17) by simp
  next
    case False
    then have lo: "max off (k * c) = k * c" and f: "off div c < k" using b(2) E(4) by (simp_all add: max_def split: if_splits)
    have bm: "base div 4096 + 512 * unat m \<le> 2 ^ 51"
      using div_le_mono [OF E(15), of 4096] d4(2) [OF E(14), of "512 * c"] d4(1) [of 512 0] by simp
    have km: "k * unat m \<le> 512 * unat m" using X(2) by (intro mult_le_mono1) simp
    have split: "off div c * unat m + (k - off div c) * unat m = k * unat m"
      using f by (simp flip: add_mult_distrib)
    have "unat (no - g_off g div (m * 4096)) = k - off div c"
      using unat_word_sub [of "g_off g div (m * 4096)" no] e(3) E(6) f by simp
    moreover have "(k - off div c) * unat m < 2 ^ 64" by (rule less_2_64(2)) (use split km bm in linarith)
    ultimately have p: "unat ((no - g_off g div (m * 4096)) * m) = (k - off div c) * unat m"
      using unat_word_mult [of "no - g_off g div (m * 4096)" m] by simp
    have q: "unat ((g_off g mod (m * 4096)) div 4096) = (off mod c) div 4096" using e(6) by (simp add: unat_div)
    have "(off mod c) div 4096 \<le> c div 4096" using E(3) by (intro div_le_mono) (simp add: less_imp_le)
    then have small: "(off mod c) div 4096 \<le> unat m" using E(2) by auto
    have "unat (g_blockoff g) = base div 4096 + off div c * unat m + (off mod c) div 4096"
      using E(17) d4(2) [OF E(14), of off] d4(1) [of "off div c" "off mod c"] by simp
    then have s: "unat (g_blockoff g) + (k - off div c) * unat m = base div 4096 + k * unat m + (off mod c) div 4096"
      using split by linarith
    moreover have "base div 4096 + k * unat m + (off mod c) div 4096 < 2 ^ 64"
      by (rule less_2_64(2)) (use km bm small in linarith)
    ultimately have "unat (g_blockoff g + (no - g_off g div (m * 4096)) * m) = base div 4096 + k * unat m + (off mod c) div 4096"
      using unat_word_add [of "g_blockoff g" "(no - g_off g div (m * 4096)) * m"] p by simp
    then show ?thesis
      using unat_word_sub [of "(g_off g mod (m * 4096)) div 4096" "g_blockoff g + (no - g_off g div (m * 4096)) * m"] q
        d4(2) [OF E(14), of "k * c"] d4(1) [of k 0] lo X(5) False by simp
  qed
qed

lemma range_at_childI:
  assumes "unat (g_off cg) = lo - kc" "unat (g_size cg) = hi - lo" "unat (g_valid cg) = v"
    "unat (g_start cg) = start" "g_commit cg = COMMIT_NONE" "unat (g_blockoff cg) = (base + lo) div 4096"
    and "kc \<le> lo" "lo < hi" "hi - kc \<le> v" "v \<le> c" "(base + kc) mod 4096 = 0" "base + kc + c \<le> 2 ^ 63" "start \<le> base + lo"
  shows "range_at cg start (base + kc) (lo - kc) (hi - lo) v c"
  using assms by (simp add: range_at_def)

lemma child_range_ok:
  assumes A: "entry_at g start base off sz lim m c k no"
  shows "\<exists>cg. child_range g m COMMIT_NONE no = Some cg \<and>
    range_at cg start (base + k * c) (max off (k * c) - k * c)
      (min (off + sz) ((k + 1) * c) - max off (k * c)) (min (lim - k * c) c) c"
proof -
  note E = entry_atD [OF A] and X = entry_index [OF A]
  note e = range_entries [OF E(1-3)] and b = entry_bounds [OF E(3,11,4,5)]
  obtain lo hi where lh: "lo = max off (k * c)" "hi = min (off + sz) ((k + 1) * c)" by blast
  define co where "co = (if no = g_off g div (m * 4096) then g_off g mod (m * 4096) else 0)"
  define cb where "cb = (if no = g_off g div (m * 4096) then g_blockoff g
      else g_blockoff g + (no - g_off g div (m * 4096)) * m - (g_off g mod (m * 4096)) div 4096)"
  define cs where "cs = (if no = (g_off g + g_size g - 1) div (m * 4096)
      then g_off g + g_size g - (no * (m * 4096) + co) else m * 4096 - co)"
  define cv where "cv = (if no < (g_valid g + m * 4096 - 1) div (m * 4096)
      then (if (no + 1) * (m * 4096) \<le> g_valid g then m * 4096 else g_valid g mod (m * 4096)) else 0)"
  have co: "unat co = lo - k * c" using child_off_ok [OF A] lh by (simp add: co_def)
  have cs: "unat cs = hi - lo" using child_size_ok [OF A, of co] co lh unfolding cs_def by simp
  have cb: "unat cb = (base + lo) div 4096" using child_blockoff_ok [OF A] lh by (simp add: cb_def)
  have cv: "unat cv = min (lim - k * c) c" using child_valid_ok [OF A] unfolding cv_def .
  have ord: "k * c \<le> lo" "off \<le> lo" "lo < hi" "hi \<le> off + sz" "hi \<le> k * c + c" using b(1) lh by simp_all
  let ?cg = "\<lparr>g_prev = 0, g_blockoff = cb, g_off = co, g_size = cs, g_valid = cv, g_start = g_start g,
    g_commit = COMMIT_NONE\<rparr>"
  have "g_blockoff g \<le> cb" using cb E(17) ord(2) by (simp add: word_le_nat_alt div_le_mono)
  moreover have "cs \<le> g_size g" using cs E(8) ord by (simp add: word_le_nat_alt)
  moreover have "cs \<le> m * 4096" using cs e(1) ord by (simp add: word_le_nat_alt)
  ultimately have "child_range g m COMMIT_NONE no = Some ?cg"
    unfolding child_range_def Let_def co_def [symmetric]
    unfolding cb_def [symmetric] cs_def [symmetric] cv_def [symmetric] by simp
  moreover have "range_at ?cg start (base + k * c) (lo - k * c) (hi - lo) (min (lim - k * c) c) c"
  proof (rule range_at_childI)
    have "4096 dvd base" using E(14) by (rule mod_0_imp_dvd)
    moreover have "4096 dvd c" unfolding E(2) [symmetric] by (rule dvd_triv_right)
    ultimately show "(base + k * c) mod 4096 = 0" by (simp add: mod_0_imp_dvd)
    have "k * c + c \<le> 512 * c" using X(3) by simp
    then show "base + k * c + c \<le> 2 ^ 63" using E(15) by linarith
    have "hi - k * c \<le> lim - k * c" "hi - k * c \<le> c" using ord E(12) by linarith+
    then show "hi - k * c \<le> min (lim - k * c) c" by simp
    show "start \<le> base + lo" using E(16) ord(2) by linarith
  qed (use co cs cv cb E(10) ord in simp_all)
  ultimately show ?thesis using lh by blast
qed

section \<open>The rule for reading callbacks\<close>

text \<open>A crawl over blocks in memory changes only the table of parents.\<close>

definition noted :: "fs \<Rightarrow> fs \<Rightarrow> bool" where
  "noted s s' \<longleftrightarrow> (\<exists>m. length m = length (indir_mapping s) \<and> s' = s\<lparr>indir_mapping := m\<rparr>)"

lemma noted_refl [simp]: "noted s s"
  unfolding noted_def by (rule exI [of _ "indir_mapping s"]) simp

lemma noted_same_mem: "noted s s' \<Longrightarrow> same_mem s s'"
  by (auto simp: noted_def same_mem_def)

lemma note_parent_leaf:
  assumes "leaf_ok a s" and "get_super s \<noteq> None"
  shows "\<exists>s'. note_parent a i s = Some s' \<and> noted s s'"
proof -
  have "a AND disk_bit = 0" "unat a < length (indir_mapping s)" using assms(1) by (auto simp: leaf_ok_def resident_def)
  moreover have "noted s (s\<lparr>indir_mapping := (indir_mapping s)[unat a := i]\<rparr>)"
    unfolding noted_def by (rule exI [of _ "(indir_mapping s)[unat a := i]"]) simp
  ultimately show ?thesis using assms(2) by (auto simp: note_parent_def)
qed

lemma get_super_same_mem: "same_mem s s' \<Longrightarrow> get_super s' = get_super s"
  by (simp add: get_super_def same_mem_mem)

text \<open>A piece of the bytes from \<open>start\<close> to \<open>stop\<close>: it begins where a block does, or is the first one, and ends where a block
  does, or is the last one.\<close>

definition in_request :: "nat \<Rightarrow> nat \<Rightarrow> nat \<Rightarrow> nat \<Rightarrow> nat \<Rightarrow> bool" where
  "in_request start stop base off sz \<longleftrightarrow> ((base + off) mod 4096 = 0 \<or> base + off = start) \<and> base + off + sz \<le> stop \<and>
     ((base + off + sz) mod 4096 = 0 \<or> base + off + sz = stop)"

text \<open>
  \<open>Inv x u s\<close>: the bytes from \<open>start\<close> up to \<open>x\<close> of the contents \<open>f\<close> were delivered. The callback delivers
  one piece, from \<open>x\<close> up to \<open>y\<close> within one block, which it finds at \<open>p\<close>.
\<close>

locale reader =
  fixes cb :: "'u crawl_callback" and P :: "u64 \<Rightarrow> bool" and start stop :: nat and f :: "nat \<Rightarrow> u8" and Inv :: "nat \<Rightarrow> 'u \<Rightarrow> fs \<Rightarrow> bool"
  assumes Inv_noted: "Inv x u s \<Longrightarrow> noted s s' \<Longrightarrow> Inv x u s'"
    and piece: "\<lbrakk>Inv x u s; get_super s \<noteq> None; x mod 4096 = 0 \<or> x = start; start \<le> x; x < y; y \<le> stop; y mod 4096 = 0 \<or> y = stop;
      y \<le> (x div 4096 + 1) * 4096; unat bo = x div 4096; leaf_ok n s; P n; deref (leaf_ptr n) s = Some b;
      \<forall>i. x \<le> i \<and> i < y \<longrightarrow> b (i mod 4096) = f i; unat po = x mod 4096; unat pl = y - x; unat st = start\<rbrakk> \<Longrightarrow>
      \<exists>u' s'. cb bo (leaf_ptr n) po pl v st COMMIT_NONE u n s = Some (0, n, u', s') \<and> Inv y u' s' \<and> same_mem s s'"
begin

lemma crawl_leaf_read:
  assumes h: "h = 0" and g: "range_at g start base off sz lim (capacity h)" "g_prev g = a"
    and t: "tree_reads P h s a (\<lambda>x. f (base + x)) lim"
    and rq: "in_request start stop base off sz"
    and I: "Inv (base + off) u s" "get_super s \<noteq> None"
  shows "\<exists>u' s'. crawl_leaf (Data cb) g i u s = Some (0, a, u', s') \<and> Inv (base + off + sz) u' s' \<and> same_mem s s'"
proof -
  have G: "unat (g_off g) = off" "unat (g_size g) = sz" "unat (g_valid g) = lim" "unat (g_start g) = start"
    "g_commit g = COMMIT_NONE" "0 < sz" "off + sz \<le> lim" "lim \<le> 4096" "base mod 4096 = 0"
    "start \<le> base + off" "unat (g_blockoff g) = (base + off) div 4096"
    using g(1) h by (auto simp: range_at_def)
  have al: "(base + off) mod 4096 = 0 \<or> base + off = start" "base + off + sz \<le> stop"
    "(base + off + sz) mod 4096 = 0 \<or> base + off + sz = stop"
    using rq by (simp_all add: in_request_def)
  have off: "off < 4096" using G(6-8) by simp
  have cast: "unat (ucast w :: u32) = unat w" if "unat w \<le> 4096" for w :: u64
    using that by (simp add: unsigned_ucast_eq take_bit_nat_eq_self)
  let ?o = "ucast (g_off g) :: u32" and ?l = "ucast (g_size g) :: u32" and ?v = "ucast (g_valid g) :: u32"
  have c: "unat ?o = off" "unat ?l = sz" "unat ?v = lim" using G(1-3,6-8) cast by simp_all
  have sum: "unat (?o + ?l) = off + sz" using c G(7,8) by (simp add: unat_word_ariths)
  obtain b where b: "leaf_ok a s" "deref (leaf_ptr a) s = Some b" "\<forall>x < 4096. x < lim \<longrightarrow> b x = f (base + x)" "P a"
    using t h by auto
  obtain s1 where s1: "note_parent a i s = Some s1" "noted s s1" "same_mem s s1" using noted_same_mem note_parent_leaf [OF b(1) I(2)] by blast
  have dv: "4096 dvd base" using G(9) by (rule mod_0_imp_dvd)
  have pos: "(base + x) div 4096 = base div 4096" "(base + x) mod 4096 = x" if "x < 4096" for x
    using that dv by (auto simp: div_plus_div_distrib_dvd_left mod_eq_self_iff_div_eq_0 elim!: dvdE)
  have bytes: "\<forall>j. base + off \<le> j \<and> j < base + off + sz \<longrightarrow> b (j mod 4096) = f j"
  proof (intro allI impI)
    fix j assume j: "base + off \<le> j \<and> j < base + off + sz"
    then have "j - base < 4096" "j - base < lim" "base + (j - base) = j" using G(7,8) by auto
    then show "b (j mod 4096) = f j" using b(3) pos(2) [of "j - base"] by metis
  qed
  have I1: "Inv (base + off) u s1" "get_super s1 \<noteq> None" "leaf_ok a s1" "deref (leaf_ptr a) s1 = Some b"
    using I s1(2,3) Inv_noted get_super_same_mem b(1,2) by (simp_all add: leaf_ok_same_mem same_mem_deref)
  have y: "base + off + sz \<le> ((base + off) div 4096 + 1) * 4096"
    using pos(1) [OF off] G(7-9) by auto
  obtain u' s' where cbr: "cb (g_blockoff g) (leaf_ptr a) ?o ?l ?v (g_start g) COMMIT_NONE u a s1 = Some (0, a, u', s')"
      "Inv (base + off + sz) u' s'" "same_mem s1 s'"
    using piece [OF I1(1,2) al(1) G(10) _ al(2,3) y G(11) I1(3) b(4) I1(4) bytes, of ?o ?l "g_start g" ?v] c G(4,6) pos(2) [OF off] by auto
  have chk: "g_start g div 4096 \<le> g_blockoff g" "?o < 4096" "?o + ?l \<le> 4096" "?v \<le> 4096"
    using c sum off G(4,7,8,10,11) by (simp_all add: word_le_nat_alt word_less_nat_alt unat_div div_le_mono)
  have "crawl_leaf (Data cb) g i u s = Some (0, a, u', s')"
  proof (cases "a = 0")
    case True
    then show ?thesis using g(2) G(5) s1(1) chk cbr(1) by (simp add: crawl_leaf_def leaf_ptr_def)
  next
    case False
    then have "a AND disk_bit = 0" using b(1) by (simp add: leaf_ok_def resident_def)
    then show ?thesis using False g(2) G(5) s1(1) chk cbr(1) by (simp add: crawl_leaf_def leaf_ptr_def)
  qed
  then show ?thesis using cbr(2,3) s1(3) same_mem_trans by blast
qed

text \<open>What \<open>child\<close> promises about a subtree of height \<open>h\<close> below an indirect block.\<close>

lemma indir_loop_read:
  assumes child: "\<And>cg base off sz lim a u s. \<lbrakk>0 < h; range_at cg start base off sz lim (capacity h); g_prev cg = a;
      tree_reads P h s a (\<lambda>x. f (base + x)) lim; in_request start stop base off sz;
      Inv (base + off) u s; get_super s \<noteq> None\<rbrakk> \<Longrightarrow>
      \<exists>u' s'. child cg m u s = Some (0, a, u', s') \<and> Inv (base + off + sz) u' s' \<and> same_mem s s'"
    and g: "range_at g start base off sz lim (capacity (Suc h))" "g_prev g = a" and m: "unat m * 4096 = capacity h"
    and al: "in_request start stop base off sz"
    and n: "k + n = (off + sz - 1) div capacity h + 1" "off div capacity h \<le> k" "unat no = k"
    and t: "tree_reads P (Suc h) s a (\<lambda>x. f (base + x)) lim"
    and I: "Inv (base + (if n = 0 then off + sz else max off (k * capacity h))) u s" "get_super s \<noteq> None"
  shows "\<exists>u' s'. indir_loop n (Data cb) h child g m COMMIT_NONE False no a a u s = Some (0, a, u', s') \<and>
    Inv (base + off + sz) u' s' \<and> same_mem s s'"
  using n t I
proof (induction n arbitrary: k no u s)
  case 0
  then show ?case by (simp add: add.assoc)
next
  case (Suc n)
  let ?c = "capacity h"
  have cap: "range_at g start base off sz lim (512 * ?c)" "0 < ?c" using g(1) by simp_all
  have sz: "0 < sz" "off + sz \<le> lim" "lim \<le> 512 * ?c" "base mod 4096 = 0" using g(1) by (simp_all add: range_at_def)
  have k: "off div ?c \<le> k" "k \<le> (off + sz - 1) div ?c" using Suc.prems(1,2) by simp_all
  have ent: "entry_at g start base off sz lim m ?c k no" using cap m k Suc.prems(3) by (simp add: entry_at_def)
  note eb = entry_bounds [OF cap(2) sz(1) k]
  let ?lo = "max off (k * ?c)" and ?hi = "min (off + sz) ((k + 1) * ?c)"
  obtain cg where cg: "child_range g m COMMIT_NONE no = Some cg"
      "range_at cg start (base + k * ?c) (?lo - k * ?c) (?hi - ?lo) (min (lim - k * ?c) ?c) ?c"
    using child_range_ok [OF ent] by blast
  note kl = entry_index(1) [OF ent] and k512 = entry_index(2) [OF ent]
  obtain b where b: "mem a s = Some b"
      "tree_reads P h s (indir_addr b (of_nat k)) (\<lambda>x. f (base + (k * ?c + x))) (lim - k * ?c)"
    using Suc.prems(4) k512 kl by auto
  have no: "no = of_nat k" using Suc.prems(3) unat_slot [OF k512] by (metis unat_inject)
  let ?a = "indir_addr b no" and ?cg = "cg\<lparr>g_prev := indir_addr b no\<rparr>"
  have get: "indir_get a no s = Some ?a" using b(1) Suc.prems(3) k512 by (simp add: indir_get_def word_less_nat_alt)
  have "unat (g_valid cg) = min (lim - k * ?c) ?c" using cg(2) by (simp add: range_at_def)
  then have vcg: "g_valid cg \<noteq> 0" using kl cap(2) unat_pos [of "g_valid cg"] by simp
  have lo: "base + k * ?c + (?lo - k * ?c) = base + ?lo" "base + k * ?c + (?lo - k * ?c) + (?hi - ?lo) = base + ?hi"
    using eb(1) by simp_all
  have hib: "base + ?hi \<le> stop"
    using al min.cobounded1 [of "off + sz" "(k + 1) * ?c"] unfolding in_request_def by linarith
  have "4096 dvd base" "4096 dvd ?c" by (rule mod_0_imp_dvd [OF sz(4)], rule mod_0_imp_dvd [OF capacity_4096(1)])
  then have hie: "(base + ?hi) mod 4096 = 0 \<or> base + ?hi = stop"
    using al unfolding in_request_def by (cases "off + sz \<le> (k + 1) * ?c") (simp_all add: min_absorb1 min_absorb2 add.assoc mod_0_imp_dvd)
  have al': "in_request start stop (base + k * ?c) (?lo - k * ?c) (?hi - ?lo)"
  proof (cases "k = off div ?c")
    case True
    then have "?lo = off" using div_times_less_eq_dividend [of off ?c] by (simp add: max_absorb1)
    then show ?thesis using al hib hie unfolding in_request_def unfolding lo(2) unfolding lo(1) by simp
  next
    case False
    then have "?lo = k * ?c" using eb(2) by (simp add: max_def split: if_splits)
    moreover note \<open>4096 dvd base\<close> \<open>4096 dvd ?c\<close>
    ultimately show ?thesis using hib hie unfolding in_request_def unfolding lo(2) unfolding lo(1) by (simp add: mod_0_imp_dvd)
  qed
  have "\<exists>u' s'. (if h = 0 then crawl_leaf (Data cb) ?cg a u s else child ?cg m u s) = Some (0, ?a, u', s') \<and>
      Inv (base + ?hi) u' s' \<and> same_mem s s'"
  proof -
    have R: "range_at ?cg start (base + k * ?c) (?lo - k * ?c) (?hi - ?lo) (min (lim - k * ?c) ?c) ?c"
      using cg(2) by (simp only: range_at_prev)
    have T: "tree_reads P h s ?a (\<lambda>x. f (base + k * ?c + x)) (min (lim - k * ?c) ?c)"
      using b(2) no tree_reads_mono by (simp add: add.assoc)
    have J: "Inv (base + k * ?c + (?lo - k * ?c)) u s" using Suc.prems(5) lo(1) by simp
    show ?thesis
    proof (cases "h = 0")
      case True
      have "\<exists>u' s'. crawl_leaf (Data cb) ?cg a u s = Some (0, ?a, u', s') \<and>
          Inv (base + k * ?c + (?lo - k * ?c) + (?hi - ?lo)) u' s' \<and> same_mem s s'"
        by (rule crawl_leaf_read [OF True R _ T _ J Suc.prems(6)]) (simp, rule al')
      then show ?thesis unfolding lo(2) using True by simp
    next
      case False
      then have "0 < h" by simp
      have "\<exists>u' s'. child ?cg m u s = Some (0, ?a, u', s') \<and>
          Inv (base + k * ?c + (?lo - k * ?c) + (?hi - ?lo)) u' s' \<and> same_mem s s'"
        by (rule child [OF \<open>0 < h\<close> R _ T _ J Suc.prems(6)]) (simp, rule al')
      then show ?thesis unfolding lo(2) using False by simp
    qed
  qed
  then obtain u1 s1 where step: "(if h = 0 then crawl_leaf (Data cb) ?cg a u s else child ?cg m u s) = Some (0, ?a, u1, s1)"
      "Inv (base + ?hi) u1 s1" "same_mem s s1" by blast
  have nodisk: "h = 0 \<Longrightarrow> ?a AND disk_bit = 0" using b(2) no by (auto simp: leaf_ok_def resident_def)
  have hi: "?hi = (if n = 0 then off + sz else max off ((k + 1) * ?c))"
    using eb(1,3) Suc.prems(1) by (auto simp: max_def)
  have no1: "unat (no + 1) = k + 1" using unat_word_add [of no 1] Suc.prems(3) k512 by simp
  have T1: "tree_reads P (Suc h) s1 a (\<lambda>x. f (base + x)) lim"
    using Suc.prems(4) unfolding tree_reads_same_mem [OF step(3)] .
  have G1: "get_super s1 \<noteq> None" using Suc.prems(6) unfolding get_super_same_mem [OF step(3)] .
  have n1: "k + 1 + n = (off + sz - 1) div ?c + 1" "off div ?c \<le> k + 1" using Suc.prems(1,2) by simp_all
  obtain u' s' where rest: "indir_loop n (Data cb) h child g m COMMIT_NONE False (no + 1) a a u1 s1 = Some (0, a, u', s')"
      "Inv (base + off + sz) u' s'" "same_mem s1 s'"
    using Suc.IH [OF n1 no1 T1 step(2) [unfolded hi] G1] by blast
  have "indir_loop (Suc n) (Data cb) h child g m COMMIT_NONE False no a a u s = Some (0, a, u', s')"
    using cg(1) vcg get nodisk step(1) rest(1) by (cases "h = 0") (simp_all add: Let_def)
  then show ?case using rest(2,3) step(3) same_mem_trans by blast
qed

lemma crawl_indir_step:
  assumes child: "\<And>cg base off sz lim a u s m. \<lbrakk>0 < h; range_at cg start base off sz lim (capacity h); g_prev cg = a;
      tree_reads P h s a (\<lambda>x. f (base + x)) lim; unat m = 512 ^ h; in_request start stop base off sz;
      Inv (base + off) u s; get_super s \<noteq> None\<rbrakk> \<Longrightarrow>
      \<exists>u' s'. crawl_indir (Data cb) h cg m u s = Some (0, a, u', s') \<and> Inv (base + off + sz) u' s' \<and> same_mem s s'"
    and g: "range_at g start base off sz lim (capacity (Suc h))" "g_prev g = a"
    and t: "tree_reads P (Suc h) s a (\<lambda>x. f (base + x)) lim" and M: "unat M = 512 ^ Suc h"
    and al: "in_request start stop base off sz" and I: "Inv (base + off) u s" "get_super s \<noteq> None"
  shows "\<exists>u' s'. crawl_indir (Data cb) (Suc h) g M u s = Some (0, a, u', s') \<and>
    Inv (base + off + sz) u' s' \<and> same_mem s s'"
proof -
  let ?m = "M div 512" and ?c = "capacity h"
  have m: "unat ?m = 512 ^ h" "unat ?m * 4096 = ?c" using M by (simp_all add: unat_div capacity_def)
  have cap: "range_at g start base off sz lim (512 * ?c)" "0 < ?c" using g(1) by simp_all
  note e = range_entries [OF cap(1) m(2) cap(2)]
  have a: "a \<noteq> 0" "a AND disk_bit = 0" using t by (auto simp: resident_def)
  have G: "g_commit g = COMMIT_NONE" "0 < sz" using g(1) by (simp_all add: range_at_def)
  define n where "n = Suc ((off + sz - 1) div ?c) - off div ?c"
  have "off div ?c \<le> (off + sz - 1) div ?c" using G(2) by (intro div_le_mono) simp
  then have n: "off div ?c + n = (off + sz - 1) div ?c + 1" "n \<noteq> 0" by (simp_all add: n_def)
  have lo: "max off (off div ?c * ?c) = off" by (simp add: max_absorb1)
  have child': "\<exists>u' s'. crawl_indir (Data cb) h cg ?m u s = Some (0, a, u', s') \<and> Inv (base + off + sz) u' s' \<and> same_mem s s'"
    if "0 < h" "range_at cg start base off sz lim ?c" "g_prev cg = a" "tree_reads P h s a (\<lambda>x. f (base + x)) lim"
      "in_request start stop base off sz" "Inv (base + off) u s" "get_super s \<noteq> None"
    for cg base off sz lim a u s
    by (rule child [OF that(1-4) m(1) that(5-7)])
  have I': "Inv (base + (if n = 0 then off + sz else max off (off div ?c * ?c))) u s" using I(1) n(2) lo by simp
  have "\<exists>u' s'. indir_loop n (Data cb) h (crawl_indir (Data cb) h) g ?m COMMIT_NONE False
      (g_off g div (?m * 4096)) a a u s = Some (0, a, u', s') \<and> Inv (base + off + sz) u' s' \<and> same_mem s s'"
    by (rule indir_loop_read [OF _ g m(2) al n(1) order_refl e(3) t I' I(2)]) (rule child')
  then obtain u' s' where r: "indir_loop n (Data cb) h (crawl_indir (Data cb) h) g ?m COMMIT_NONE False
      (g_off g div (?m * 4096)) a a u s = Some (0, a, u', s')" "Inv (base + off + sz) u' s'" "same_mem s s'"
    by blast
  have "Suc (unat ((g_off g + g_size g - 1) div (?m * 4096))) - unat (g_off g div (?m * 4096)) = n"
    using e(3,4) by (simp add: n_def)
  then have "crawl_indir (Data cb) (Suc h) g M u s = Some (0, a, u', s')"
    using r(1) a G(1) g(2) e(2) by (simp add: Let_def)
  then show ?thesis using r(2,3) by blast
qed

theorem crawl_indir_read:
  assumes "range_at g start base off sz lim (capacity h)" and "0 < h" and "g_prev g = a"
    and "tree_reads P h s a (\<lambda>x. f (base + x)) lim" and "unat M = 512 ^ h"
    and "in_request start stop base off sz" and "Inv (base + off) u s" and "get_super s \<noteq> None"
  shows "\<exists>u' s'. crawl_indir (Data cb) h g M u s = Some (0, a, u', s') \<and>
    Inv (base + off + sz) u' s' \<and> same_mem s s'"
  using assms
proof (induction h arbitrary: g base off sz lim a M u s)
  case (Suc h g base off sz lim a M u s)
  show ?case
    by (rule crawl_indir_step [OF _ Suc.prems(1,3-8)]) (rule Suc.IH)
qed simp

theorem crawl_tree_read:
  assumes tr: "file_reads P rp ro s N f" and off: "unat off = start" "unat off + unat sz \<le> N" "sz \<noteq> 0" "start + unat sz = stop"
    and I: "Inv start u s" "get_super s \<noteq> None"
  shows "\<exists>u' s'. crawl_tree rp ro off sz COMMIT_NONE cb u prev s = Some (0, prev, u', s') \<and>
    Inv (start + unat sz) u' s' \<and> same_mem s s'"
proof -
  obtain R h where R: "deref rp s = Some R" "unat (root_nbytes R ro) = N" "unat (ha_height (root_ha R ro)) = h"
      "h \<le> 5" "N \<le> capacity h" "tree_reads P h s (ha_addr (root_ha R ro)) f N"
    using tr by (auto simp: file_reads_def)
  let ?a = "ha_addr (root_ha R ro)" and ?M = "tree_max_nblocks (ha_height (root_ha R ro))"
  have cap: "capacity h \<le> 2 ^ 57" using capacity_bound [OF R(4)] .
  have M: "unat ?M = 512 ^ h" using unat_tree_max_nblocks R(3,4) by (simp add: word_le_nat_alt)
  have MB: "unat (?M * 4096) = capacity h"
    using unat_word_mult [of ?M 4096] M cap by (simp add: capacity_def)
  have sz: "0 < unat sz" using off(3) unat_pos by blast
  have small: "unat off < 2 ^ 57" "unat sz \<le> 2 ^ 57" "N \<le> 2 ^ 57" using off(2) R(5) cap sz by linarith+
  have ne: "off \<noteq> - 1" "sz \<noteq> - 1" using small(1,2) by (auto simp: unat_minus_1)
  have e: "unat (off + sz) = unat off + unat sz" using unat_word_add [of off sz] small by simp
  have N: "root_nbytes R ro \<noteq> 0" using R(2) off(2) sz unat_pos [of "root_nbytes R ro"] by simp
  have ra: "tree_root_addr R ro = ?a" using N by (simp add: tree_root_addr_def)
  have "unat sz \<le> capacity h - unat off" using off(2) R(5) by linarith
  then have cs: "min sz (?M * 4096 - off) = sz"
    using unat_word_sub [of off "?M * 4096"] MB off(2) R(5) by (simp add: min_absorb1 word_le_nat_alt)
  have vl: "min (root_nbytes R ro) (?M * 4096) = root_nbytes R ro"
    using R(2,5) MB by (simp add: min_def word_le_nat_alt)
  define g where "g = \<lparr>g_prev = ?a, g_blockoff = 0, g_off = off, g_size = sz, g_valid = root_nbytes R ro,
    g_start = off, g_commit = COMMIT_NONE\<rparr>"
  have r: "range_at (if h = 0 then g else g\<lparr>g_blockoff := off div 4096\<rparr>) start 0 start (unat sz) N (capacity h)"
    using off R(2,5) sz cap by (auto simp: range_at_def g_def unat_div)
  have al: "in_request start stop 0 start (unat sz)" using off(4) by (simp add: in_request_def)
  have T: "tree_reads P h s ?a (\<lambda>x. f (0 + x)) N" using R(6) by simp
  have I': "Inv (0 + start) u s" using I(1) by simp
  have "\<exists>u' s'. (if h = 0 then crawl_leaf (Data cb) g (- 1) u s
      else crawl_indir (Data cb) h (g\<lparr>g_blockoff := off div 4096\<rparr>) ?M u s) = Some (0, ?a, u', s') \<and>
      Inv (start + unat sz) u' s' \<and> same_mem s s'"
  proof (cases "h = 0")
    case True
    then show ?thesis using crawl_leaf_read [OF True _ _ T al I' I(2), where g = g and i = "- 1"] r by (simp add: g_def)
  next
    case False
    then show ?thesis
      using crawl_indir_read [of "g\<lparr>g_blockoff := off div 4096\<rparr>" 0 start "unat sz" N h ?a s ?M u] r T M al I' I(2)
      by (simp add: g_def)
  qed
  then obtain u' s' where c: "(if h = 0 then crawl_leaf (Data cb) g (- 1) u s
      else crawl_indir (Data cb) h (g\<lparr>g_blockoff := off div 4096\<rparr>) ?M u s) = Some (0, ?a, u', s')"
      "Inv (start + unat sz) u' s'" "same_mem s s'" by blast
  have h0: "ha_height (root_ha R ro) = 0 \<longleftrightarrow> h = 0" using R(3) by (metis unat_0 unat_inject)
  have hole: "crawl_hole cb ((off + sz) div 4096) sz (sz - sz) (root_nbytes R ro) off u' s' = Some (0, u', s')"
  proof -
    have "off div 4096 \<le> (off + sz) div 4096" using e by (simp add: word_le_nat_alt unat_div div_le_mono)
    moreover have "sz \<le> root_nbytes R ro" using off(2) R(2) by (simp add: word_le_nat_alt)
    ultimately show ?thesis by (simp add: crawl_hole_def crawl_hole_loop.simps)
  qed
  have le: "off + sz \<le> root_nbytes R ro" using e off(2) R(2) by (simp add: word_le_nat_alt)
  have "crawl_tree rp ro off sz COMMIT_NONE cb u prev s = Some (0, prev, u', s')"
  proof -
    note dr = R(1) same_mem_deref [OF c(3), of rp, unfolded R(1)]
    show ?thesis
    proof (cases "h = 0")
      case True
      then have H: "ha_height (root_ha R ro) = 0" using h0 by simp
      have c1: "crawl_leaf (Data cb) g (- 1) u s = Some (0, ?a, u', s')" using c(1) True by simp
      show ?thesis using ne le off(3)
        by (simp add: crawl_tree_def crawl_tree_ref_def Let_def dr H cs [unfolded H] vl [unfolded H]
            g_def [symmetric] ra c1 hole [simplified])
    next
      case False
      then have H: "ha_height (root_ha R ro) \<noteq> 0" using h0 by simp
      have c1: "crawl_indir (Data cb) h (g\<lparr>g_blockoff := off div 4096\<rparr>) ?M u s = Some (0, ?a, u', s')"
        using c(1) False by simp
      have g': "\<lparr>g_prev = ?a, g_blockoff = off div 4096, g_off = off, g_size = sz, g_valid = root_nbytes R ro,
        g_start = off, g_commit = COMMIT_NONE\<rparr> = g\<lparr>g_blockoff := off div 4096\<rparr>" by (simp add: g_def)
      show ?thesis using ne le H
        by (simp add: crawl_tree_def crawl_tree_ref_def Let_def dr cs vl g' ra R(3) c1 hole [simplified])
    qed
  qed
  then show ?thesis using c(2,3) by blast
qed

end

end
