(* ===== verification/Inodes.thy ===== *)
theory Inodes
  imports Crawl_Reader Atomic
begin

text \<open>
  Inodes of \<^verbatim>\<open>bpfs.c\<close>: access to an inode through the crawler, the callbacks that change an inode,
  the data callbacks of reads and writes, and the handlers of the FUSE interface that work on one
  inode. A pointer to an inode is a pointer to its block and an offset. A handler returns the
  reply it sends; the current time is a parameter.
\<close>

section \<open>Fields of an inode\<close>

definition set_inode_generation :: "block \<Rightarrow> nat \<Rightarrow> u64 \<Rightarrow> block" where "set_inode_generation b a v = put_u64 b a v"
definition set_inode_uid :: "block \<Rightarrow> nat \<Rightarrow> u32 \<Rightarrow> block" where "set_inode_uid b a v = put_u32 b (a + 8) v"
definition set_inode_gid :: "block \<Rightarrow> nat \<Rightarrow> u32 \<Rightarrow> block" where "set_inode_gid b a v = put_u32 b (a + 12) v"
definition set_inode_mode :: "block \<Rightarrow> nat \<Rightarrow> u32 \<Rightarrow> block" where "set_inode_mode b a v = put_u32 b (a + 16) v"
definition set_inode_nlinks :: "block \<Rightarrow> nat \<Rightarrow> u32 \<Rightarrow> block" where "set_inode_nlinks b a v = put_u32 b (a + 20) v"
definition set_inode_flags :: "block \<Rightarrow> nat \<Rightarrow> u64 \<Rightarrow> block" where "set_inode_flags b a v = put_u64 b (a + 24) v"
definition set_inode_atime :: "block \<Rightarrow> nat \<Rightarrow> u32 \<Rightarrow> block" where "set_inode_atime b a v = put_u32 b (a + 48) v"
definition set_inode_ctime :: "block \<Rightarrow> nat \<Rightarrow> u32 \<Rightarrow> block" where "set_inode_ctime b a v = put_u32 b (a + 52) v"
definition set_inode_mtime :: "block \<Rightarrow> nat \<Rightarrow> u32 \<Rightarrow> block" where "set_inode_mtime b a v = put_u32 b (a + 56) v"

section \<open>Freeing and counting the blocks of a tree\<close>

definition callback_truncate_block_free :: crawl_blockno_callback where
  "callback_truncate_block_free blockno leaf s = free_block blockno s"

definition truncate_block_free :: "bptr \<Rightarrow> nat \<Rightarrow> u64 \<Rightarrow> fs \<Rightarrow> fs option" where
  "truncate_block_free rp ro new_size s = do {
     let off = ROUNDUP64 new_size BPFS_BLOCK_SIZE;
     root \<leftarrow> deref rp s;
     if off < root_nbytes root ro
     then crawl_blocknos rp ro off BPFS_EOF callback_truncate_block_free s
     else Some s
   }"

definition callback_tree_nblocks :: crawl_blockno_callback where
  "callback_tree_nblocks blockno leaf s = do {
     check (blockno \<noteq> BPFS_BLOCKNO_INVALID);
     Some (if leaf then s\<lparr>tree_nblocks_nblocks := tree_nblocks_nblocks s + 1\<rparr> else s)
   }"

definition tree_nblocks :: "bptr \<Rightarrow> nat \<Rightarrow> fs \<Rightarrow> (u64 \<times> fs) option" where
  "tree_nblocks rp ro s = do {
     check (tree_nblocks_nblocks s = 0);
     s \<leftarrow> crawl_blocknos rp ro 0 BPFS_EOF callback_tree_nblocks s;
     Some (tree_nblocks_nblocks s, s\<lparr>tree_nblocks_nblocks := 0\<rparr>)
   }"

section \<open>Access to inodes\<close>

type_synonym iptr = "bptr \<times> nat"

text \<open>The variable \<^verbatim>\<open>inode\<close> of \<^verbatim>\<open>get_inode\<close> is uninitialised (\<open>None\<close>) until the callback sets it.\<close>

definition callback_get_inode :: "iptr option crawl_callback_inode" where
  "callback_get_inode block off commit pinode blockno s = Some (0, blockno, Some (block, unat off), s)"

definition get_inode :: "u64 \<Rightarrow> fs \<Rightarrow> (iptr \<times> fs) option" where
  "get_inode ino s = do {
     (r, inode, s) \<leftarrow> crawl_inode ino COMMIT_NONE callback_get_inode None s;
     check (\<not> r < 0);
     inode \<leftarrow> inode;
     Some (inode, s)
   }"

text \<open>A field of the inode at \<open>ip\<close>.\<close>

definition inode_field :: "(block \<Rightarrow> nat \<Rightarrow> 'a) \<Rightarrow> iptr \<Rightarrow> fs \<Rightarrow> 'a option" where
  "inode_field fld ip s = do { b \<leftarrow> deref (fst ip) s; Some (fld b (snd ip)) }"

abbreviation (input) inode_nbytes :: "block \<Rightarrow> nat \<Rightarrow> u64" where
  "inode_nbytes b a \<equiv> root_nbytes b (inode_root_off a)"

text \<open>With the build's settings \<^verbatim>\<open>callback_init_inodes\<close> leaves the new blocks as they are.\<close>

definition callback_init_inodes :: "unit crawl_callback" where
  "callback_init_inodes blockoff block off sz vld crawl_start commit u blockno s = Some (0, blockno, u, s)"

definition alloc_inode :: "fs \<Rightarrow> (u64 \<times> fs) option" where
  "alloc_inode s = do {
     (no, bm) \<leftarrow> bitmap_alloc (inode_alloc s);
     let s = s\<lparr>inode_alloc := bm\<rparr>;
     if no \<noteq> bm_ntotal bm then Some (no + 1, s)
     else do {
       (p, s) \<leftarrow> get_inode_root s;
       inode_root \<leftarrow> mem p s;
       (r, u, s) \<leftarrow> crawl_inodes (root_nbytes inode_root 0) (root_nbytes inode_root 0) COMMIT_ATOMIC
          callback_init_inodes () s;
       if r < 0 then Some (BPFS_INO_INVALID, s)
       else do {
         (p, s) \<leftarrow> get_inode_root s;
         inode_root \<leftarrow> mem p s;
         (r, bm) \<leftarrow> bitmap_resize (Some (heap_junk s)) (inode_alloc s)
            (root_nbytes inode_root 0 div of_nat SIZEOF_INODE);
         check (\<not> r < 0);
         (no, bm) \<leftarrow> bitmap_alloc bm;
         check (no \<noteq> bm_ntotal bm);
         Some (no + 1, s\<lparr>inode_alloc := bm\<rparr>)
       }
     }
   }"

record stat =
  st_ino :: u64
  st_nlink :: u64
  st_mode :: u32
  st_uid :: u32
  st_gid :: u32
  st_size :: u64
  st_blksize :: u64
  st_blocks :: u64
  st_atime :: u64
  st_mtime :: u64
  st_ctime :: u64

text \<open>The fields of \<^verbatim>\<open>struct stat\<close> that the function assigns.\<close>

definition bpfs_stat :: "u64 \<Rightarrow> fs \<Rightarrow> (stat \<times> fs) option" where
  "bpfs_stat ino s = do {
     (ip, s) \<leftarrow> get_inode ino s;
     let a = snd ip;
     b \<leftarrow> deref (fst ip) s;
     check (inode_nlinks b a \<noteq> 0);
     md \<leftarrow> b2f_mode (inode_mode b a);
     (n, s) \<leftarrow> tree_nblocks (fst ip) (inode_root_off a) s;
     c \<leftarrow> deref (fst ip) s;
     Some (\<lparr>st_ino = ino, st_nlink = ucast (inode_nlinks b a), st_mode = md, st_uid = inode_uid b a,
        st_gid = inode_gid b a, st_size = inode_nbytes b a, st_blksize = BPFS_BLOCK_SIZE,
        st_blocks = n * BPFS_BLOCK_SIZE div 512, st_atime = ucast (inode_atime c a),
        st_mtime = ucast (inode_mtime c a), st_ctime = ucast (inode_ctime c a)\<rparr>, s)
   }"

section \<open>Callbacks that change an inode\<close>

text \<open>The copy of the inode's block that every such callback makes unless it may write in place: the
  result says whether there was no space, and has the block to write to and its number.\<close>

definition cow_unless :: "bool \<Rightarrow> bptr \<Rightarrow> u64 \<Rightarrow> fs \<Rightarrow> (bool \<times> bptr \<times> u64 \<times> fs) option" where
  "cow_unless inplace block blockno s =
     (if inplace then Some (False, block, blockno, s)
      else do {
        (new_blockno, s) \<leftarrow> cow_block_entire blockno s;
        if new_blockno = BPFS_BLOCKNO_INVALID then Some (True, block, blockno, s)
        else do { (p, s) \<leftarrow> get_block new_blockno s; Some (False, Bpram p, new_blockno, s) }
      })"

definition modify :: "bptr \<Rightarrow> (block \<Rightarrow> block) \<Rightarrow> fs \<Rightarrow> fs option" where
  "modify p upd s = do { b \<leftarrow> deref p s; assign p (upd b) s }"

definition write_inode :: "(block \<Rightarrow> nat \<Rightarrow> block) \<Rightarrow> bptr \<Rightarrow> u32 \<Rightarrow> commit \<Rightarrow> 'u \<Rightarrow> u64 \<Rightarrow> fs \<Rightarrow>
    (int \<times> u64 \<times> 'u \<times> fs) option" where
  "write_inode upd block off commit u blockno s = do {
     check (commit \<noteq> COMMIT_NONE);
     (failed, block, new_blockno, s) \<leftarrow> cow_unless (commit \<noteq> COMMIT_COPY) block blockno s;
     if failed then Some (- ENOSPC, blockno, u, s)
     else do {
       s \<leftarrow> modify block (\<lambda>b. upd b (unat off)) s;
       Some (0, new_blockno, u, s)
     }
   }"

definition callback_set_atime :: "u32 crawl_callback_inode" where
  "callback_set_atime block off commit new_time blockno s =
     write_inode (\<lambda>b a. set_inode_atime b a new_time) block off commit new_time blockno s"

definition callback_set_mtime :: "u32 crawl_callback_inode" where
  "callback_set_mtime block off commit new_time blockno s =
     write_inode (\<lambda>b a. set_inode_mtime b a new_time) block off commit new_time blockno s"

definition callback_set_ctime :: "u32 crawl_callback_inode" where
  "callback_set_ctime block off commit new_time blockno s =
     write_inode (\<lambda>b a. set_inode_ctime b a new_time) block off commit new_time blockno s"

definition callback_set_cmtime :: "u32 crawl_callback_inode" where
  "callback_set_cmtime block off commit new_time blockno s =
     write_inode (\<lambda>b a. set_inode_ctime (set_inode_mtime b a new_time) a new_time)
       block off commit new_time blockno s"

text \<open>The comparison of \<^verbatim>\<open>nlinks\<close> with the sum is in 32 bits without sign, as in C.\<close>

definition callback_change_nlinks :: "int crawl_callback_inode" where
  "callback_change_nlinks block off commit delta blockno s = do {
     check (commit \<noteq> COMMIT_NONE);
     n \<leftarrow> inode_field inode_nlinks (block, unat off) s;
     if delta > 0 \<and> n > n + word_of_int delta then Some (- EMLINK, blockno, delta, s)
     else do {
       (failed, block, new_blockno, s) \<leftarrow> cow_unless (commit \<noteq> COMMIT_COPY) block blockno s;
       if failed then Some (- ENOSPC, blockno, delta, s)
       else do {
         n \<leftarrow> inode_field inode_nlinks (block, unat off) s;
         check (delta \<ge> 0 \<or> n \<ge> word_of_int (- delta));
         s \<leftarrow> modify block (\<lambda>b. set_inode_nlinks b (unat off) (n + word_of_int delta)) s;
         Some (0, new_blockno, delta, s)
       }
     }
   }"

abbreviation (input) FUSE_SET_ATTR_MODE :: u32 where "FUSE_SET_ATTR_MODE \<equiv> 0x1"
abbreviation (input) FUSE_SET_ATTR_UID :: u32 where "FUSE_SET_ATTR_UID \<equiv> 0x2"
abbreviation (input) FUSE_SET_ATTR_GID :: u32 where "FUSE_SET_ATTR_GID \<equiv> 0x4"
abbreviation (input) FUSE_SET_ATTR_SIZE :: u32 where "FUSE_SET_ATTR_SIZE \<equiv> 0x8"
abbreviation (input) FUSE_SET_ATTR_ATIME :: u32 where "FUSE_SET_ATTR_ATIME \<equiv> 0x10"
abbreviation (input) FUSE_SET_ATTR_MTIME :: u32 where "FUSE_SET_ATTR_MTIME \<equiv> 0x20"
abbreviation (input) FUSE_SET_ATTR_ATIME_NOW :: u32 where "FUSE_SET_ATTR_ATIME_NOW \<equiv> 0x80"
abbreviation (input) FUSE_SET_ATTR_MTIME_NOW :: u32 where "FUSE_SET_ATTR_MTIME_NOW \<equiv> 0x100"

text \<open>\<^verbatim>\<open>NBLOCKS_FOR_NBYTES\<close> of an \<^verbatim>\<open>off_t\<close> is computed with sign and its division truncates; the sum
  must not overflow.\<close>

definition NBLOCKS_FOR_off_t :: "u64 \<Rightarrow> u64 option" where
  "NBLOCKS_FOR_off_t v = do {
     let x = sint v + 4095;
     check (x < 2 ^ 63);
     Some (word_of_int (if x < 0 then - ((- x) div 4096) else x div 4096))
   }"

text \<open>The parts of \<^verbatim>\<open>callback_setattr\<close>: mode and owner; the size; the times. \<open>has\<close> tests a flag.\<close>

definition has :: "u32 \<Rightarrow> u32 \<Rightarrow> bool" where
  "has to_set flag \<longleftrightarrow> to_set AND flag \<noteq> 0"

definition setattr_owner :: "stat \<Rightarrow> u32 \<Rightarrow> block \<Rightarrow> nat \<Rightarrow> block option" where
  "setattr_owner attr to_set b a = do {
     b \<leftarrow> (if has to_set FUSE_SET_ATTR_MODE
          then do { m \<leftarrow> f2b_mode (st_mode attr); Some (set_inode_mode b a m) } else Some b);
     if has to_set FUSE_SET_ATTR_UID \<and> has to_set FUSE_SET_ATTR_GID then
       atomic_memcpy b (a + 8) (put_u32 (put_u32 zero_block 0 (st_uid attr)) 4 (st_gid attr)) 8
     else Some (if has to_set FUSE_SET_ATTR_UID then set_inode_uid b a (st_uid attr)
       else if has to_set FUSE_SET_ATTR_GID then set_inode_gid b a (st_gid attr) else b)
   }"

definition setattr_size :: "u64 \<Rightarrow> iptr \<Rightarrow> u64 \<Rightarrow> fs \<Rightarrow> (int \<times> fs) option" where
  "setattr_size sz ip new_blockno s = do {
     let ro = inode_root_off (snd ip);
     nbytes \<leftarrow> inode_field inode_nbytes ip s;
     if sz < nbytes then do {
       nb \<leftarrow> NBLOCKS_FOR_off_t sz;
       if nb < NBLOCKS_FOR_NBYTES nbytes then do {
         s \<leftarrow> truncate_block_free (fst ip) ro sz s;
         s \<leftarrow> modify (fst ip) (\<lambda>b. set_root_nbytes b ro sz) s;
         h \<leftarrow> tree_height nb;
         (r, new_blockno2, s) \<leftarrow> tree_change_height (fst ip) ro (ucast h) COMMIT_ATOMIC new_blockno s;
         if r < 0 then Some (r, s)
         else do { check (new_blockno = new_blockno2); Some (0, s) }
       } else Some (0, s)
     } else do {
       (r, new_blockno2, s) \<leftarrow> truncate_block_zero (fst ip) ro nbytes BPFS_EOF BPFS_EOF new_blockno s;
       if r < 0 then Some (r, s)
       else do {
         check (new_blockno = new_blockno2);
         s \<leftarrow> modify (fst ip) (\<lambda>b. set_root_nbytes b ro sz) s;
         Some (0, s)
       }
     }
   }"

definition setattr_times :: "stat \<Rightarrow> u32 \<Rightarrow> u32 \<Rightarrow> block \<Rightarrow> nat \<Rightarrow> block" where
  "setattr_times attr to_set now b a = (
     let b = (if has to_set FUSE_SET_ATTR_ATIME then set_inode_atime b a (ucast (st_atime attr)) else b);
         b = (if has to_set FUSE_SET_ATTR_MTIME then set_inode_mtime b a (ucast (st_mtime attr)) else b);
         b = set_inode_ctime b a now
     in if has to_set FUSE_SET_ATTR_SIZE then set_inode_mtime b a (inode_ctime b a) else b)"

definition setattr_inplace :: "u32 \<Rightarrow> commit \<Rightarrow> bool" where
  "setattr_inplace to_set commit = (
     let nonatomic = FUSE_SET_ATTR_ATIME OR FUSE_SET_ATTR_MTIME OR FUSE_SET_ATTR_ATIME_NOW OR FUSE_SET_ATTR_MTIME_NOW
     in commit = COMMIT_FREE \<or> (commit = COMMIT_ATOMIC \<and>
       (count_bits (to_set AND NOT nonatomic) \<le> 1 \<or> to_set = FUSE_SET_ATTR_UID OR FUSE_SET_ATTR_GID)))"

definition callback_setattr :: "u32 \<Rightarrow> (stat \<times> u32) crawl_callback_inode" where
  "callback_setattr now block off commit csd blockno s = do {
     let (attr, to_set) = csd;
     let a = unat off;
     check (commit \<noteq> COMMIT_NONE);
     (failed, block, new_blockno, s) \<leftarrow> cow_unless (setattr_inplace to_set commit) block blockno s;
     if failed then Some (- ENOSPC, blockno, csd, s)
     else do {
       b \<leftarrow> deref block s;
       b \<leftarrow> setattr_owner attr to_set b a;
       s \<leftarrow> assign block b s;
       nbytes \<leftarrow> inode_field inode_nbytes (block, a) s;
       (r, s) \<leftarrow> (if has to_set FUSE_SET_ATTR_SIZE \<and> st_size attr \<noteq> nbytes
                  then setattr_size (st_size attr) (block, a) new_blockno s else Some (0, s));
       if r < 0 then Some (r, blockno, csd, s)
       else do {
         s \<leftarrow> modify block (\<lambda>b. setattr_times attr to_set now b a) s;
         Some (0, new_blockno, csd, s)
       }
     }
   }"

section \<open>Data\<close>

text \<open>A read or write of a block whose parent is known is reported to the anti-cache manager.\<close>

definition access_block :: "u64 \<Rightarrow> fs \<Rightarrow> fs option" where
  "access_block blockno s = do {
     super \<leftarrow> get_super s;
     if blockno \<le> super_nblocks super then do {
       i \<leftarrow> indir_of blockno s;
       if i \<noteq> 0 then do {
         a \<leftarrow> anti_cache_manager_access blockno (ac s);
         Some (s\<lparr>ac := a\<rparr>)
       } else Some s
     } else Some s
   }"

text \<open>An element of the \<^verbatim>\<open>iovec\<close> array: a pointer and a length, \<open>None\<close> for \<^verbatim>\<open>NULL\<close>.\<close>

type_synonym iovec = "(bptr \<times> u32 \<times> u32) option"

definition callback_read :: "iovec list crawl_callback" where
  "callback_read blockoff block off sz vld crawl_start commit iov blockno s = do {
     s \<leftarrow> access_block blockno s;
     let i = unat (blockoff - crawl_start div BPFS_BLOCK_SIZE);
     check (i < length iov);
     Some (0, blockno, iov[i := Some (block, off, sz)], s)
   }"

definition write_inplace :: "commit \<Rightarrow> u32 \<Rightarrow> u32 \<Rightarrow> u32 \<Rightarrow> bool" where
  "write_inplace commit off sz vld \<longleftrightarrow> commit = COMMIT_FREE \<or>
     (commit = COMMIT_ATOMIC \<and> (can_atomic_write off sz \<or> off \<ge> vld))"

definition write_buf :: "u8 list \<Rightarrow> u64 \<Rightarrow> u32 \<Rightarrow> u32 \<Rightarrow> block \<Rightarrow> block option" where
  "write_buf buf buf_offset off sz b = do {
     check (unat buf_offset + unat sz \<le> length buf);
     let src = (\<lambda>i. buf ! (unat buf_offset + i));
     if can_atomic_write off sz then atomic_memcpy b (unat off) src (unat sz)
     else Some (blk_copy b (unat off) src 0 (unat sz))
   }"

definition callback_write :: "u8 list crawl_callback" where
  "callback_write blockoff block off sz vld crawl_start commit buf blockno s = do {
     let buf_offset = blockoff * BPFS_BLOCK_SIZE + ucast off - crawl_start;
     check (commit \<noteq> COMMIT_NONE);
     (failed, block, new_blockno, s) \<leftarrow>
       (if write_inplace commit off sz vld then Some (False, block, blockno, s)
        else do {
          (newno, s) \<leftarrow> cow_block blockno off sz vld s;
          if newno = BPFS_BLOCKNO_INVALID then Some (True, block, blockno, s)
          else do { (p, s) \<leftarrow> get_block newno s; Some (False, Bpram p, newno, s) }
        });
     if failed then Some (- ENOSPC, blockno, buf, s)
     else do {
       b \<leftarrow> deref block s;
       b \<leftarrow> write_buf buf buf_offset off sz b;
       s \<leftarrow> assign block b s;
       s \<leftarrow> access_block new_blockno s;
       Some (0, new_blockno, buf, s)
     }
   }"

section \<open>Handlers\<close>

text \<open>The fields of \<^verbatim>\<open>struct fuse_entry_param\<close> and \<^verbatim>\<open>struct statvfs\<close> that depend on the file system.\<close>

record fuse_entry_param =
  e_ino :: u64
  e_generation :: u64
  e_attr :: stat

record statvfs =
  f_bsize :: u64
  f_frsize :: u64
  f_blocks :: u64
  f_bfree :: u64
  f_bavail :: u64
  f_files :: u64
  f_ffree :: u64
  f_favail :: u64
  f_flag :: u64
  f_namemax :: u64

text \<open>What a handler answers: \<^verbatim>\<open>fuse_reply_err\<close>, \<^verbatim>\<open>fuse_reply_iov\<close> and \<^verbatim>\<open>fuse_reply_buf\<close> with the bytes
  the pointers lead to, and so on.\<close>

datatype reply = Reply_err int | Reply_bytes "u8 list" | Reply_write u64 | Reply_attr stat
  | Reply_readlink "u8 list" | Reply_open "u64 option" | Reply_entry fuse_entry_param
  | Reply_create fuse_entry_param | Reply_statfs statvfs

text \<open>A byte behind a pointer: memory is contiguous, the block of zeros is an array of its own.\<close>

fun ptr_byte :: "bptr \<Rightarrow> nat \<Rightarrow> fs \<Rightarrow> u8 option" where
  "ptr_byte Zero_block k s = (if k < 4096 then Some 0 else None)"
| "ptr_byte (Bpram n) k s = do { b \<leftarrow> mem (n + of_nat (k div 4096)) s; Some (b (k mod 4096)) }"

definition iov_entry :: "fs \<Rightarrow> iovec \<Rightarrow> u8 list option" where
  "iov_entry s e = (case e of None \<Rightarrow> Some []
     | Some (p, off, len) \<Rightarrow> those (map (\<lambda>i. ptr_byte p (unat off + i) s) [0..<unat len]))"

definition iov_bytes :: "fs \<Rightarrow> iovec list \<Rightarrow> u8 list option" where
  "iov_bytes s iov = map_option concat (those (map (iov_entry s) iov))"

definition abort_reply :: "int \<Rightarrow> fs \<Rightarrow> (reply \<times> fs) option" where
  "abort_reply r s = do { s \<leftarrow> bpfs_abort s; Some (Reply_err (- r), s) }"

definition fuse_getattr :: "u64 \<Rightarrow> fs \<Rightarrow> (reply \<times> fs) option" where
  "fuse_getattr ino s = do {
     (stbuf, s) \<leftarrow> bpfs_stat ino s;
     s \<leftarrow> bpfs_commit s;
     Some (Reply_attr stbuf, s)
   }"

definition fuse_setattr :: "u32 \<Rightarrow> u64 \<Rightarrow> stat \<Rightarrow> u32 \<Rightarrow> fs \<Rightarrow> (reply \<times> fs) option" where
  "fuse_setattr now ino attr to_set s = do {
     check (to_set AND NOT 0x1BF = 0);
     (ip, s) \<leftarrow> get_inode ino s;
     n \<leftarrow> inode_field inode_nlinks ip s;
     check (n \<noteq> 0);
     (r, csd, s) \<leftarrow> crawl_inode ino COMMIT_ATOMIC (callback_setattr now) (attr, to_set) s;
     if r < 0 then abort_reply r s
     else do {
       (stbuf, s) \<leftarrow> bpfs_stat ino s;
       s \<leftarrow> bpfs_commit s;
       Some (Reply_attr stbuf, s)
     }
   }"

text \<open>The string at the start of a block.\<close>

definition block_string :: "block \<Rightarrow> u8 list option" where
  "block_string b = do {
     let bs = map b [0..<4096];
     check (0 \<in> set bs);
     Some (takeWhile (\<lambda>c. c \<noteq> 0) bs)
   }"

definition fuse_readlink :: "u64 \<Rightarrow> fs \<Rightarrow> (reply \<times> fs) option" where
  "fuse_readlink ino s = do {
     (ip, s) \<leftarrow> get_inode ino s;
     b \<leftarrow> deref (fst ip) s;
     check (BPFS_S_ISLNK (inode_mode b (snd ip)));
     check (inode_nbytes b (snd ip) \<noteq> 0);
     check (inode_nbytes b (snd ip) \<le> BPFS_BLOCK_SIZE);
     check (inode_nlinks b (snd ip) \<noteq> 0);
     s \<leftarrow> bpfs_commit s;
     b \<leftarrow> deref (fst ip) s;
     (p, s) \<leftarrow> get_block (tree_root_addr b (inode_root_off (snd ip))) s;
     b \<leftarrow> mem p s;
     str \<leftarrow> block_string b;
     Some (Reply_readlink str, s)
   }"

definition fuse_opendir :: "u64 \<Rightarrow> fs \<Rightarrow> (reply \<times> fs) option" where
  "fuse_opendir ino s = do {
     (ip, s) \<leftarrow> get_inode ino s;
     n \<leftarrow> inode_field inode_nlinks ip s;
     check (n \<noteq> 0);
     s \<leftarrow> bpfs_commit s;
     Some (Reply_open (Some ino), s)
   }"

definition sync_inode :: "u64 \<Rightarrow> fs \<Rightarrow> (int \<times> fs) option" where
  "sync_inode ino s = do {
     (ip, s) \<leftarrow> get_inode ino s;
     n \<leftarrow> inode_field inode_nlinks ip s;
     check (n \<noteq> 0);
     Some (0, s)
   }"

definition fuse_fsync :: "u64 \<Rightarrow> fs \<Rightarrow> (reply \<times> fs) option" where
  "fuse_fsync ino s = do {
     (r, s) \<leftarrow> sync_inode ino s;
     if r < 0 then abort_reply r s
     else do { s \<leftarrow> bpfs_commit s; Some (Reply_err 0, s) }
   }"

definition fuse_open :: "u64 \<Rightarrow> fs \<Rightarrow> (reply \<times> fs) option" where
  "fuse_open ino s = do {
     (ip, s) \<leftarrow> get_inode ino s;
     b \<leftarrow> deref (fst ip) s;
     check (inode_nlinks b (snd ip) \<noteq> 0);
     if BPFS_S_ISDIR (inode_mode b (snd ip)) then abort_reply (- EISDIR) s
     else do { s \<leftarrow> bpfs_commit s; Some (Reply_open None, s) }
   }"

text \<open>\<open>cal\<close> says whether \<^verbatim>\<open>calloc\<close> finds memory for the vector.\<close>

definition fuse_read :: "bool \<Rightarrow> u32 \<Rightarrow> u64 \<Rightarrow> u64 \<Rightarrow> u64 \<Rightarrow> fs \<Rightarrow> (reply \<times> fs) option" where
  "fuse_read cal now ino sz off s = do {
     (ip, s) \<leftarrow> get_inode ino s;
     b \<leftarrow> deref (fst ip) s;
     check (inode_nlinks b (snd ip) \<noteq> 0);
     check (BPFS_S_ISREG (inode_mode b (snd ip)));
     let nbytes = inode_nbytes b (snd ip);
     if off \<ge> nbytes then do { s \<leftarrow> bpfs_abort s; Some (Reply_bytes [], s) }
     else do {
       let sz = min sz (nbytes - off);
       let first_blockoff = off div BPFS_BLOCK_SIZE;
       let last_blockoff = (if off + sz \<noteq> 0 then (off + sz - 1) div BPFS_BLOCK_SIZE else 0);
       let nblocks = last_blockoff - first_blockoff + 1;
       if \<not> cal then abort_reply (- ENOMEM) s
       else do {
         (r, iov, s) \<leftarrow> crawl_data ino off sz COMMIT_NONE callback_read (replicate (unat nblocks) None) s;
         check (r \<ge> 0);
         (r, u, s) \<leftarrow> crawl_inode ino COMMIT_ATOMIC callback_set_atime now s;
         if r < 0 then abort_reply r s
         else do {
           s \<leftarrow> bpfs_commit s;
           bytes \<leftarrow> iov_bytes s iov;
           Some (Reply_bytes bytes, s)
         }
       }
     }
   }"

definition fuse_write :: "u32 \<Rightarrow> u64 \<Rightarrow> u8 list \<Rightarrow> u64 \<Rightarrow> fs \<Rightarrow> (reply \<times> fs) option" where
  "fuse_write now ino buf off s = do {
     (ip, s) \<leftarrow> get_inode ino s;
     n \<leftarrow> inode_field inode_nlinks ip s;
     check (n \<noteq> 0);
     (r, u, s) \<leftarrow> crawl_data ino off (of_nat (length buf)) COMMIT_ATOMIC callback_write buf s;
     (r, s) \<leftarrow> (if r \<ge> 0 then do {
         (r, u, s) \<leftarrow> crawl_inode ino COMMIT_ATOMIC callback_set_mtime now s;
         check (r \<ge> 0);
         Some (r, s)
       } else Some (r, s));
     if r < 0 then abort_reply r s
     else do { s \<leftarrow> bpfs_commit s; Some (Reply_write (of_nat (length buf)), s) }
   }"

end
