(* ===== verification/Crawl_Single.thy ===== *)
theory Crawl_Single
  imports Inodes
begin

text \<open>
  Crawls whose range lies in one block, which is how inodes, directory entries and small writes are
  reached. Such a crawl runs its callback on the leaf and then, when the callback moved the leaf to
  a new block, stores the new number with a single write into the parent of the leaf: an indirect
  block, or the root of a tree without indirect blocks.
\<close>

section \<open>The path to a leaf\<close>

definition one_block :: "nat \<Rightarrow> nat \<Rightarrow> bool" where
  "one_block off sz \<longleftrightarrow> 0 < sz \<and> off div 4096 = (off + sz - 1) div 4096"

text \<open>The parent and the number of block \<open>k\<close> of a tree whose root address was found in \<open>i\<close>.\<close>

primrec leaf_at :: "nat \<Rightarrow> fs \<Rightarrow> u64 \<Rightarrow> u64 \<Rightarrow> nat \<Rightarrow> (u64 \<times> u64) option" where
  "leaf_at 0 s i a k = Some (i, a)"
| "leaf_at (Suc h) s i a k = (if resident a s \<and> a \<noteq> - 1 then do {
     b \<leftarrow> mem a s;
     leaf_at h s a (indir_addr b (of_nat (k div 512 ^ h))) (k mod 512 ^ h)
   } else None)"

lemma one_block_bound:
  assumes "one_block off sz"
  shows "off mod 4096 + sz \<le> 4096"
proof -
  have "off + sz - 1 < (off div 4096 + 1) * 4096"
    using assms unfolding one_block_def by (metis dividend_less_div_times mult.commute Suc_eq_plus1 zero_less_numeral mult_Suc add.commute)
  moreover have "off = off div 4096 * 4096 + off mod 4096" by simp
  ultimately show ?thesis using assms unfolding one_block_def by linarith
qed

lemma one_block_entry:
  assumes "one_block off sz" and c: "c = 4096 * m" "0 < m"
  shows "(off + sz - 1) div c = off div c" "one_block (off mod c) sz"
    "off mod c div 4096 = off div 4096 mod m" "off div c = off div 4096 div m" "off mod c mod 4096 = off mod 4096"
proof -
  show d: "off div c = off div 4096 div m" by (simp add: c div_mult2_eq)
  show "(off + sz - 1) div c = off div c"
    using assms(1) unfolding d one_block_def by (simp add: c div_mult2_eq)
  have m: "off mod c = 4096 * (off div 4096 mod m) + off mod 4096" by (simp add: c mod_mult2_eq)
  then show k: "off mod c div 4096 = off div 4096 mod m" "off mod c mod 4096 = off mod 4096" by simp_all
  have "off mod 4096 + sz - 1 < 4096" "0 < sz" using one_block_bound [OF assms(1)] assms(1) by (auto simp: one_block_def)
  moreover have "off mod c + sz - 1 = (off mod 4096 + sz - 1) + 4096 * (off div 4096 mod m)" using m \<open>0 < sz\<close> by linarith
  ultimately have "(off mod c + sz - 1) div 4096 = off div 4096 mod m" by (simp only: div_mult_self2) simp
  then show "one_block (off mod c) sz" using k \<open>0 < sz\<close> by (simp add: one_block_def)
qed

lemma split_index: "(q :: nat) * 4096 = q div m * (4096 * m) + q mod m * 4096"
proof -
  have "(q div m * m + q mod m) * 4096 = q div m * (4096 * m) + q mod m * 4096" by (simp only: algebra_simps)
  then show ?thesis by (simp only: div_mult_mod_eq)
qed

lemma min_window: "b + w \<le> c \<Longrightarrow> min (min (lim - a) c - b) w = min (lim - (a + b)) (w :: nat)"
  by (auto simp: min_def)

section \<open>Leaves\<close>

abbreviation (input) reading :: "range \<Rightarrow> range" where "reading g \<equiv> g\<lparr>g_commit := COMMIT_NONE\<rparr>"

lemma child_range_commit:
  "child_range g m c no = map_option (\<lambda>cg. cg\<lparr>g_commit := c\<rparr>) (child_range (reading g) m COMMIT_NONE no)"
  by (simp add: child_range_def Let_def check_def)

text \<open>The arguments of the callback for a range in one block.\<close>

definition call_args :: "range \<Rightarrow> u64 \<Rightarrow> u32 \<Rightarrow> u32 \<Rightarrow> u32 \<Rightarrow> bool" where
  "call_args g bo po pl pv \<longleftrightarrow> bo = g_blockoff g \<and> unat po = unat (g_off g) mod 4096 \<and> unat pl = unat (g_size g) \<and>
     unat pv = min (unat (g_valid g) - unat (g_off g) div 4096 * 4096) 4096"

lemma ucast_block:
  assumes "unat (w :: u64) \<le> 4096"
  shows "unat (ucast w :: u32) = unat w"
  using assms by (simp add: unsigned_ucast_eq take_bit_nat_eq_self)

lemma crawl_leaf_single:
  assumes g: "range_at (reading g) start base off sz lim 4096" "g_prev g = l" and l: "resident l s"
    and np: "note_parent l i s = Some s1" and args: "call_args g bo po pl pv"
    and cb: "cb bo (Bpram l) po pl pv (g_start g) (g_commit g) u l s1 = Some (r, n, u', s')"
  shows "crawl_leaf (Data cb) g i u s = Some (r, if r \<ge> 0 then n else l, u', s')"
proof -
  have G: "unat (g_off g) = off" "unat (g_size g) = sz" "unat (g_valid g) = lim" "unat (g_start g) = start"
    "0 < sz" "off + sz \<le> lim" "lim \<le> 4096" "base mod 4096 = 0"
    "start \<le> base + off" "unat (g_blockoff g) = (base + off) div 4096"
    using g(1) by (auto simp: range_at_def)
  let ?o = "ucast (g_off g) :: u32" and ?l = "ucast (g_size g) :: u32" and ?v = "ucast (g_valid g) :: u32"
  have c: "unat ?o = off" "unat ?l = sz" "unat ?v = lim" using G(1-3,5-7) by (simp_all add: ucast_block)
  have sum: "unat (?o + ?l) = off + sz" using c G(6,7) by (simp add: unat_word_ariths)
  have "unat po = unat ?o" "unat pl = unat ?l" "unat pv = unat ?v" "bo = g_blockoff g"
    using args c G(1-3,5-7) by (auto simp: call_args_def)
  then have eq: "po = ?o" "pl = ?l" "pv = ?v" "bo = g_blockoff g" by (simp_all only: unat_inject)
  have chk: "g_start g div 4096 \<le> g_blockoff g" "?o < 4096" "?o + ?l \<le> 4096" "?v \<le> 4096"
    using c sum G(4-7,9,10) by (simp_all add: word_le_nat_alt word_less_nat_alt unat_div div_le_mono)
  have "l \<noteq> 0" "l AND disk_bit = 0" using l by (simp_all add: resident_def)
  then show ?thesis using g(2) np cb chk unfolding eq by (simp add: crawl_leaf_def)
qed

section \<open>Indirect blocks\<close>

text \<open>The single write after the callback.\<close>

definition repoint :: "u64 \<Rightarrow> nat \<Rightarrow> u64 \<Rightarrow> int \<Rightarrow> u64 \<Rightarrow> fs \<Rightarrow> fs option" where
  "repoint i k l r n s = (if r \<ge> 0 \<and> n \<noteq> l then indir_set i (of_nat (k mod 512)) n s else Some s)"

lemma entry_single:
  assumes g: "range_at (reading g) start base off sz lim (capacity (Suc h))" and one: "one_block off sz"
    and m: "unat m = 512 ^ h" and no: "no = g_off g div (m * 4096)"
  shows "\<exists>cg. child_range g m c no = Some (cg\<lparr>g_commit := c\<rparr>) \<and> g_valid cg \<noteq> 0 \<and> g_start cg = g_start g \<and>
      range_at cg start (base + off div capacity h * capacity h) (off mod capacity h) sz
        (min (lim - off div capacity h * capacity h) (capacity h)) (capacity h) \<and>
      (\<forall>bo po pl pv. call_args g bo po pl pv \<longrightarrow> call_args cg bo po pl pv)"
    and "unat no = off div 4096 div 512 ^ h" and "no < 512"
    and "(g_off g + g_size g - 1) div (m * 4096) = no" and "m * 4096 \<noteq> 0"
proof -
  let ?c = "capacity h" and ?k = "off div capacity h" and ?g = "reading g"
  have c: "?c = 4096 * 512 ^ h" "0 < (512 :: nat) ^ h" by (simp_all add: capacity_def)
  note o = one_block_entry [OF one c]
  have g': "range_at ?g start base off sz lim (512 * ?c)" using g by simp
  have m': "unat m * 4096 = ?c" using m by (simp add: capacity_def)
  have cp: "0 < ?c" by simp
  note e = range_entries [OF g' m' cp]
  have no': "unat no = ?k" using e(3) no by simp
  then show "unat no = off div 4096 div 512 ^ h" using o(4) by simp
  show "m * 4096 \<noteq> 0" using e(2) .
  have E: "entry_at ?g start base off sz lim m ?c ?k no"
    using g' m' cp no' o(1) by (simp add: entry_at_def)
  note X = entry_index [OF E]
  show "no < 512" using X(2) no' by (simp add: word_less_nat_alt)
  show "(g_off g + g_size g - 1) div (m * 4096) = no" using X(6) o(1) no by simp
  obtain cg where cg: "child_range ?g m COMMIT_NONE no = Some cg" "range_at cg start (base + ?k * ?c) (max off (?k * ?c) - ?k * ?c)
      (min (off + sz) ((?k + 1) * ?c) - max off (?k * ?c)) (min (lim - ?k * ?c) ?c) ?c"
    using child_range_ok [OF E] by blast
  have mo: "max off (?k * ?c) = off" using div_times_less_eq_dividend [of off ?c] by (simp add: max_absorb1)
  have b: "min (off + sz) ((?k + 1) * ?c) = off + sz"
    using entry_bounds(3) [OF cp _ _ _, of sz off ?k] one o(1) by (simp add: one_block_def)
  have R: "range_at cg start (base + ?k * ?c) (off mod ?c) sz (min (lim - ?k * ?c) ?c) ?c"
    using cg(2) unfolding mo b by (simp add: minus_div_mult_eq_mod)
  have U: "unat (g_off cg) = off mod ?c" "unat (g_size cg) = sz" "unat (g_valid cg) = min (lim - ?k * ?c) ?c"
    "unat (g_blockoff cg) = (base + ?k * ?c + off mod ?c) div 4096" "0 < sz" "off mod ?c + sz \<le> min (lim - ?k * ?c) ?c"
    using R by (auto simp: range_at_def)
  have G: "unat (g_off g) = off" "unat (g_size g) = sz" "unat (g_valid g) = lim" "unat (g_blockoff g) = (base + off) div 4096"
    using g by (auto simp: range_at_def)
  have "base + ?k * ?c + off mod ?c = base + off" by simp
  then have bo: "g_blockoff cg = g_blockoff g" using U(4) G(4) by (metis unat_inject)
  have ms: "off mod ?c div 4096 * 4096 + 4096 \<le> ?c"
  proof -
    have "off div 4096 mod 512 ^ h + 1 \<le> 512 ^ h" using c(2) by (simp add: Suc_leI)
    then have "(off div 4096 mod 512 ^ h + 1) * 4096 \<le> 512 ^ h * 4096" by (rule mult_le_mono1)
    then show ?thesis unfolding o(3) by (simp add: c(1) algebra_simps)
  qed
  have os: "off div 4096 * 4096 = ?k * ?c + off mod ?c div 4096 * 4096"
    using split_index [of "off div 4096" "512 ^ h"] o(3,4) c(1) by simp
  have vl: "min (min (lim - ?k * ?c) ?c - off mod ?c div 4096 * 4096) 4096 = min (lim - off div 4096 * 4096) 4096"
    unfolding os by (rule min_window) (rule ms)
  have "\<forall>bo po pl pv. call_args g bo po pl pv \<longrightarrow> call_args cg bo po pl pv"
    using U(1-3) G bo vl o(5) by (simp add: call_args_def)
  moreover have "g_valid cg \<noteq> 0" using U(3,5,6) unat_pos [of "g_valid cg"] by linarith
  moreover have "g_start cg = g_start g" using cg(1) by (auto simp: child_range_def Let_def)
  ultimately show "\<exists>cg. child_range g m c no = Some (cg\<lparr>g_commit := c\<rparr>) \<and> g_valid cg \<noteq> 0 \<and> g_start cg = g_start g \<and>
      range_at cg start (base + ?k * ?c) (off mod ?c) sz (min (lim - ?k * ?c) ?c) ?c \<and>
      (\<forall>bo po pl pv. call_args g bo po pl pv \<longrightarrow> call_args cg bo po pl pv)"
    using R cg(1) by (subst child_range_commit) auto
qed

text \<open>What is known of the call of the callback: \<open>l\<close> is the leaf, \<open>i\<close> its parent.\<close>

definition single_call ::
  "'u crawl_callback \<Rightarrow> range \<Rightarrow> u64 \<Rightarrow> u64 \<Rightarrow> 'u \<Rightarrow> fs \<Rightarrow> int \<Rightarrow> u64 \<Rightarrow> 'u \<Rightarrow> fs \<Rightarrow> bool" where
  "single_call cb g i l u s r n u' s' \<longleftrightarrow> resident l s \<and> r \<le> 1 \<and> (g_commit g = COMMIT_NONE \<or> g_commit g = COMMIT_ATOMIC) \<and>
     (g_commit g = COMMIT_NONE \<and> r \<ge> 0 \<longrightarrow> n = l) \<and>
     (\<exists>bo po pl pv s1. call_args g bo po pl pv \<and> note_parent l i s = Some s1 \<and>
        cb bo (Bpram l) po pl pv (g_start g) (g_commit g) u l s1 = Some (r, n, u', s'))"

lemma single_call_child:
  assumes "single_call cb g i l u s r n u' s'" and "g_start cg = g_start g" and "g_commit g = c"
    and "\<And>bo po pl pv. call_args g bo po pl pv \<Longrightarrow> call_args cg bo po pl pv"
  shows "single_call cb (cg\<lparr>g_commit := c, g_prev := x\<rparr>) i l u s r n u' s'"
proof -
  obtain bo po pl pv s1 where b: "call_args g bo po pl pv" "note_parent l i s = Some s1"
      "cb bo (Bpram l) po pl pv (g_start g) (g_commit g) u l s1 = Some (r, n, u', s')"
    using assms(1) unfolding single_call_def by blast
  have "call_args (cg\<lparr>g_commit := c, g_prev := x\<rparr>) bo po pl pv" using assms(4) [OF b(1)] by (simp add: call_args_def)
  moreover have "cb bo (Bpram l) po pl pv (g_start (cg\<lparr>g_commit := c, g_prev := x\<rparr>))
      (g_commit (cg\<lparr>g_commit := c, g_prev := x\<rparr>)) u l s1 = Some (r, n, u', s')" using b(3) assms(2,3) by simp
  moreover have "resident l s" "r \<le> 1" "c = COMMIT_NONE \<or> c = COMMIT_ATOMIC" "c = COMMIT_NONE \<and> r \<ge> 0 \<longrightarrow> n = l"
    using assms(1,3) unfolding single_call_def by auto
  ultimately show ?thesis using b(2) unfolding single_call_def by auto
qed

lemma crawl_leaf_single':
  assumes "range_at (reading g) start base off sz lim 4096" "g_prev g = l" and "single_call cb g i l u s r n u' s'"
  shows "crawl_leaf (Data cb) g i u s = Some (r, if r \<ge> 0 then n else l, u', s')"
proof -
  obtain bo po pl pv s1 where "resident l s" "note_parent l i s = Some s1" "call_args g bo po pl pv"
      "cb bo (Bpram l) po pl pv (g_start g) (g_commit g) u l s1 = Some (r, n, u', s')"
    using assms(3) unfolding single_call_def by blast
  then show ?thesis by (rule crawl_leaf_single [OF assms(1,2)])
qed

text \<open>The loop of \<^verbatim>\<open>crawl_indir\<close> for one entry.\<close>

lemma indir_loop_one:
  assumes "child_range g m c no = Some cg" and "g_valid cg \<noteq> 0" and "indir_get a no s = Some x"
    and "h = 0 \<longrightarrow> x AND disk_bit = 0"
    and "(if h = 0 then crawl_leaf cb (cg\<lparr>g_prev := x\<rparr>) a u s else child (cg\<lparr>g_prev := x\<rparr>) m u s) = Some (r, y, u', s')"
    and "r \<le> 1" and "r \<ge> 0 \<and> y \<noteq> x \<longrightarrow> g_commit g = COMMIT_ATOMIC"
    and "(g_off g + g_size g - 1) div (m * 4096) = g_off g div (m * 4096)" and "g_prev g = a" and "a \<noteq> 0"
    and "(if r \<ge> 0 \<and> y \<noteq> x then indir_set a no y s' else Some s') = Some s''"
  shows "indir_loop (Suc 0) cb h child g m c False no a a u s = Some (r, a, u', s'')"
proof -
  have one: "(h = 0 \<and> x AND disk_bit \<noteq> 0) = False" using assms(4) by blast
  consider "r < 0" | "r = 0" | "r = 1" using assms(6) by linarith
  then show ?thesis
  proof cases
    case 1
    then show ?thesis using assms(11) unfolding indir_loop.simps assms(1,3)
      by (simp only: assms(2,5) one Option.bind.simps if_False if_True prod.case Let_def simp_thms) simp
  next
    case 2
    then show ?thesis using assms(7,11) unfolding indir_loop.simps assms(1,3)
      by (simp only: assms(2,5,8,9) one Option.bind.simps if_False if_True prod.case Let_def simp_thms) (simp split: if_splits add: assms(10))
  next
    case 3
    then show ?thesis using assms(7,11) unfolding indir_loop.simps assms(1,3)
      by (simp only: assms(2,5,8,9) one Option.bind.simps if_False if_True prod.case Let_def simp_thms) (simp split: if_splits add: assms(10))
  qed
qed

lemma crawl_indir_single:
  assumes "range_at (reading g) start base off sz lim (capacity h)" and "one_block off sz" and "0 < h"
    and "g_prev g = a" and "leaf_at h s i0 a (off div 4096) = Some (i, l)" and "unat M = 512 ^ h"
    and "single_call cb g i l u s r n u' s'" and "repoint i (off div 4096) l r n s' = Some s''"
  shows "crawl_indir (Data cb) h g M u s = Some (r, a, u', s'')"
  using assms
proof (induction h arbitrary: g base off lim a i0 M)
  case (Suc h g base off lim a i0 M)
  let ?m = "M div 512" and ?c = "capacity h" and ?C = "g_commit g"
  let ?no = "g_off g div (?m * 4096)"
  have m: "unat ?m = 512 ^ h" using Suc.prems(6) by (simp add: unat_div)
  have C: "?C = COMMIT_NONE \<or> ?C = COMMIT_ATOMIC" "r \<le> 1" "resident l s" "?C = COMMIT_NONE \<and> r \<ge> 0 \<longrightarrow> n = l"
    using Suc.prems(7) by (auto simp: single_call_def)
  note E = entry_single [OF Suc.prems(1,2) m refl]
  obtain cg where cg: "child_range g ?m ?C ?no = Some (cg\<lparr>g_commit := ?C\<rparr>)" "g_valid cg \<noteq> 0" "g_start cg = g_start g"
      "range_at cg start (base + off div ?c * ?c) (off mod ?c) sz (min (lim - off div ?c * ?c) ?c) ?c"
      and ca: "\<And>bo po pl pv. call_args g bo po pl pv \<Longrightarrow> call_args cg bo po pl pv"
    using E(1) [of ?C] by blast
  let ?k = "off div 4096 div 512 ^ h" and ?k' = "off div 4096 mod 512 ^ h"
  obtain b where b: "resident a s" "a \<noteq> - 1" "mem a s = Some b"
      "leaf_at h s a (indir_addr b (of_nat ?k)) ?k' = Some (i, l)"
    using Suc.prems(5) by (auto split: if_splits simp: bind_eq_Some_conv)
  let ?l = "indir_addr b ?no"
  have no: "of_nat ?k = ?no" unfolding E(2) [symmetric] by simp
  have get: "indir_get a ?no s = Some ?l" using b(3) E(3) by (simp add: indir_get_def)
  have o: "one_block (off mod ?c) sz" "off mod ?c div 4096 = ?k'"
    using one_block_entry [OF Suc.prems(2), of ?c "512 ^ h"] by (simp_all add: capacity_def)
  have gb: "get_block a s = Some (a, s)" "a \<noteq> 0" using b(1) by (simp_all add: resident_def)
  let ?cg = "cg\<lparr>g_commit := ?C, g_prev := ?l\<rparr>"
  have R: "range_at (reading ?cg) start (base + off div ?c * ?c) (off mod ?c) sz (min (lim - off div ?c * ?c) ?c) ?c"
    using cg(4) by (simp add: range_at_def)
  have S: "single_call cb ?cg i l u s r n u' s'"
    by (rule single_call_child [OF Suc.prems(7) cg(3) refl]) (rule ca)
  have cnt: "Suc (unat ((g_off g + g_size g - 1) div (?m * 4096))) - unat ?no = Suc 0" using E(4) by simp
  have "indir_loop (Suc 0) (Data cb) h (crawl_indir (Data cb) h) g ?m ?C False ?no a a u s = Some (r, a, u', s'')"
  proof (cases "h = 0")
    case True
    then have il: "i = a" "?l = l" using b(4) no by simp_all
    have lf: "crawl_leaf (Data cb) ?cg a u s = Some (r, if r \<ge> 0 then n else l, u', s')"
      using crawl_leaf_single' [of ?cg, OF _ _ S] R True il by simp
    have "off div 4096 = unat ?no" "unat ?no < 512" using E(2,3) True by (simp_all add: word_less_nat_alt)
    then have rp: "repoint i (off div 4096) l r n s' = (if r \<ge> 0 \<and> n \<noteq> l then indir_set a ?no n s' else Some s')"
      using il(1) by (simp add: repoint_def)
    show ?thesis
      by (rule indir_loop_one [OF cg(1) _ get, where y = "if r \<ge> 0 then n else l"])
         (use cg(2) C il lf True E(4) Suc.prems(4,8) gb(2) rp in \<open>auto simp: resident_def split: if_splits\<close>)
  next
    case False
    have ci: "crawl_indir (Data cb) h ?cg ?m u s = Some (r, ?l, u', s'')"
    proof (rule Suc.IH [OF R o(1) _ _ _ m S])
      show "leaf_at h s a ?l (off mod ?c div 4096) = Some (i, l)" using b(4) no o(2) by simp
      have "(512 :: nat) dvd 512 ^ h" using False by (simp add: dvd_power)
      then have k: "off mod ?c div 4096 mod 512 = off div 4096 mod 512" using o(2) by (simp add: mod_mod_cancel)
      show "repoint i (off mod ?c div 4096) l r n s' = Some s''" using Suc.prems(8) unfolding repoint_def k .
    qed (use False in simp_all)
    show ?thesis
      by (rule indir_loop_one [OF cg(1) _ get, where y = ?l]) (use cg(2) C ci False E(4) Suc.prems(4) gb(2) in auto)
  qed
  then have loop: "indir_loop (Suc (unat ((g_off g + g_size g - 1) div (?m * 4096))) - unat ?no) (Data cb) h
      (crawl_indir (Data cb) h) g ?m ?C False ?no a a u s = Some (r, a, u', s'')" unfolding cnt .
  have cc: "(if ?C = COMMIT_ATOMIC then if ?no = (g_off g + g_size g - 1) div (?m * 4096) \<or> g_valid g \<le> g_off g
      then COMMIT_ATOMIC else COMMIT_COPY else ?C) = ?C" using E(4) by simp
  have pr: "(a = 0) = False" using gb(2) by simp
  show ?case
    using E(5) unfolding crawl_indir.simps Let_def Suc.prems(4) cc
    by (simp only: pr gb(1) loop Option.bind.simps check_simps prod.case if_False simp_thms) simp
qed simp

section \<open>Trees\<close>

text \<open>The root at \<open>(rp, ro)\<close> is that of a tree of height \<open>h\<close> at \<open>a\<close> with \<open>N\<close> bytes.\<close>

definition root_at :: "bptr \<Rightarrow> nat \<Rightarrow> fs \<Rightarrow> nat \<Rightarrow> u64 \<Rightarrow> nat \<Rightarrow> bool" where
  "root_at rp ro s h a N \<longleftrightarrow> (\<exists>R. deref rp s = Some R \<and> unat (root_nbytes R ro) = N \<and>
     unat (ha_height (root_ha R ro)) = h \<and> ha_addr (root_ha R ro) = a) \<and> h \<le> 5 \<and> 0 < N \<and> N \<le> capacity h"

lemma root_atE:
  assumes "root_at rp ro s h a N"
  obtains R where "deref rp s = Some R" "unat (root_nbytes R ro) = N" "unat (ha_height (root_ha R ro)) = h"
    "tree_root_addr R ro = a" "tree_root_height R ro = ha_height (root_ha R ro)" "h \<le> 5" "0 < N" "N \<le> capacity h"
    "N \<le> 2 ^ 57" "unat (tree_max_nblocks (ha_height (root_ha R ro))) = 512 ^ h"
    "unat (tree_max_nblocks (ha_height (root_ha R ro)) * 4096) = capacity h"
proof -
  obtain R where R: "deref rp s = Some R" "unat (root_nbytes R ro) = N" "unat (ha_height (root_ha R ro)) = h"
      "ha_addr (root_ha R ro) = a" "h \<le> 5" "0 < N" "N \<le> capacity h" using assms by (auto simp: root_at_def)
  let ?M = "tree_max_nblocks (ha_height (root_ha R ro))"
  have cap: "capacity h \<le> 2 ^ 57" using capacity_bound [OF R(5)] .
  have M: "unat ?M = 512 ^ h" using unat_tree_max_nblocks R(3,5) by (simp add: word_le_nat_alt)
  moreover have "unat (?M * 4096) = capacity h"
    using unat_word_mult [of ?M 4096] M cap by (simp add: capacity_def)
  moreover have "root_nbytes R ro \<noteq> 0" using R(2,6) unat_pos [of "root_nbytes R ro"] by simp
  then have "tree_root_addr R ro = a" "tree_root_height R ro = ha_height (root_ha R ro)"
    using R(4) by (simp_all add: tree_root_addr_def tree_root_height_def)
  moreover have "N \<le> 2 ^ 57" using R(7) cap by linarith
  ultimately show ?thesis using that R by blast
qed

text \<open>A range inside of the file needs no higher tree.\<close>

lemma tree_height_covered:
  assumes "unat e \<le> capacity h" and "h \<le> 5"
  obtains j where "tree_height (NBLOCKS_FOR_NBYTES e) = Some (of_nat j)" "j \<le> h"
proof -
  have e: "unat e \<le> 2 ^ 57" using assms capacity_bound by fastforce
  have n: "unat (NBLOCKS_FOR_NBYTES e) = (unat e + 4095) div 4096" by (rule unat_NBLOCKS_FOR_NBYTES) (use e in simp)
  have "unat e + 4095 < (512 ^ h + 1) * 4096" using assms(1) by (simp add: capacity_def)
  then have le: "unat (NBLOCKS_FOR_NBYTES e) \<le> 512 ^ h" unfolding n
    using less_mult_imp_div_less [of "unat e + 4095" "512 ^ h + 1" 4096] by simp
  have "(512 :: nat) ^ h \<le> 512 ^ 5" using assms(2) by (intro power_increasing) auto
  then have "unat (NBLOCKS_FOR_NBYTES e) \<le> 2 ^ 63" using le by simp
  then obtain j where j: "tree_height (NBLOCKS_FOR_NBYTES e) = Some (of_nat j)" "\<And>i. i < j \<Longrightarrow> 512 ^ i < unat (NBLOCKS_FOR_NBYTES e)"
    by (rule tree_height_total) blast
  then have "j \<le> h" using le by (meson leI not_less)
  then show ?thesis using that j(1) by blast
qed

lemma grow_root_covered:
  assumes "root_at rp ro s h a N" and "unat off + unat sz \<le> N" and "sz \<noteq> 0"
  shows "grow_root rp ro off (off + sz) prev s = Some (0, rp, prev, False, s)"
  using assms(1)
proof (rule root_atE)
  fix R assume R: "deref rp s = Some R" "unat (root_nbytes R ro) = N" "unat (ha_height (root_ha R ro)) = h"
    "tree_root_addr R ro = a" "tree_root_height R ro = ha_height (root_ha R ro)" "h \<le> 5" "0 < N" "N \<le> capacity h"
    "N \<le> 2 ^ 57" "unat (tree_max_nblocks (ha_height (root_ha R ro))) = 512 ^ h"
    "unat (tree_max_nblocks (ha_height (root_ha R ro)) * 4096) = capacity h"
  let ?H = "ha_height (root_ha R ro)" and ?N = "root_nbytes R ro" and ?e = "off + sz"
  have e: "unat ?e = unat off + unat sz" using unat_word_add [of off sz] assms(2) R(9) by simp
  obtain j where j: "tree_height (NBLOCKS_FOR_NBYTES ?e) = Some (of_nat j)" "j \<le> h"
    using tree_height_covered [of ?e h] e assms(2) R(6,8) by auto
  have "unat (of_nat j :: u64) = j" using j(2) R(6) by (simp add: unsigned_of_nat take_bit_nat_eq_self)
  then have mx: "max ?H (of_nat j) = ?H" using j(2) R(3) by (simp add: max_absorb1 word_le_nat_alt)
  have le: "?e \<le> ?N" "?N \<le> 4096 * tree_max_nblocks ?H" "off \<le> ?N"
    using e assms(2) R(2,8,11) by (simp_all add: word_le_nat_alt mult.commute)
  have m: "min ?N (4096 * tree_max_nblocks ?H) = ?N" "max ?N ?e = ?N" using le by (simp_all add: min_absorb1 max_absorb1)
  show ?thesis
    unfolding grow_root_def Let_def R(1) using le
    by (simp add: R(5) j(1) mx m not_less [symmetric])
qed

definition tree_repoint :: "bptr \<Rightarrow> nat \<Rightarrow> nat \<Rightarrow> u64 \<Rightarrow> nat \<Rightarrow> u64 \<Rightarrow> int \<Rightarrow> u64 \<Rightarrow> fs \<Rightarrow> fs option" where
  "tree_repoint rp ro h i k l r n s =
     (if h = 0 then
        (if r \<ge> 0 \<and> n \<noteq> l then do { R \<leftarrow> deref rp s; R \<leftarrow> ha_set_addr R ro n; assign rp R s } else Some s)
      else repoint i k l r n s)"

text \<open>The callback of a crawl over \<open>sz\<close> bytes from \<open>off\<close> returns \<open>r\<close> and moves the leaf \<open>l\<close> below \<open>i\<close> to \<open>n\<close>.\<close>

definition leaf_call ::
  "'u crawl_callback \<Rightarrow> commit \<Rightarrow> u64 \<Rightarrow> u64 \<Rightarrow> nat \<Rightarrow> u64 \<Rightarrow> u64 \<Rightarrow> 'u \<Rightarrow> fs \<Rightarrow> int \<Rightarrow> u64 \<Rightarrow> 'u \<Rightarrow> fs \<Rightarrow> bool" where
  "leaf_call cb c off sz N i l u s r n u' s' \<longleftrightarrow> resident l s \<and> r \<le> 1 \<and> (c = COMMIT_NONE \<or> c = COMMIT_ATOMIC) \<and>
     (c = COMMIT_NONE \<and> r \<ge> 0 \<longrightarrow> n = l) \<and>
     (\<exists>po pl pv s1. unat po = unat off mod 4096 \<and> unat pl = unat sz \<and> unat pv = min (N - unat off div 4096 * 4096) 4096 \<and>
        note_parent l i s = Some s1 \<and> cb (off div 4096) (Bpram l) po pl pv off c u l s1 = Some (r, n, u', s'))"

lemma update_root_single:
  assumes "root_at rp ro s h a N" and "unat off + unat sz \<le> N" and "sz \<noteq> 0" and "r \<ge> 0"
    and "n \<noteq> a \<longrightarrow> tree_repoint rp ro 0 i 0 a r n s = Some s'" and "n = a \<longrightarrow> s' = s"
  shows "update_root rp ro off (off + sz) COMMIT_ATOMIC False prev prev n True r s = Some (r, prev, s')"
  using assms(1)
proof (rule root_atE)
  fix R assume R: "deref rp s = Some R" "unat (root_nbytes R ro) = N" "tree_root_addr R ro = a" "N \<le> 2 ^ 57"
  have e: "unat (off + sz) = unat off + unat sz" using unat_word_add [of off sz] assms(2) R(4) by simp
  have "0 < unat sz" using assms(3) unat_pos by blast
  then have le: "(root_nbytes R ro < off + sz) = False" "(off < root_nbytes R ro) = True"
    using e assms(2) R(2) by (simp_all add: word_less_nat_alt)
  show ?thesis
    using assms(4-6) unfolding update_root_def Let_def R(1)
    by (cases "n = a") (auto simp: R(1,3) le tree_repoint_def bind_eq_Some_conv)
qed

theorem crawl_tree_single:
  assumes rt: "root_at rp ro s h a N" and l: "leaf_at h s (- 1) a (unat off div 4096) = Some (i, l)"
    and off: "unat off + unat sz \<le> N" "one_block (unat off) (unat sz)"
    and c: "leaf_call cb c off sz N i l u s r n u' s'"
    and rp: "tree_repoint rp ro h i (unat off div 4096) l r n s' = Some s''"
    and rt': "root_at rp ro (if h = 0 then s' else s'') h a N"
  shows "crawl_tree rp ro off sz c cb u prev s = Some (r, prev, u', s'')"
  using rt
proof (rule root_atE)
  fix R assume R: "deref rp s = Some R" "unat (root_nbytes R ro) = N" "unat (ha_height (root_ha R ro)) = h"
    "tree_root_addr R ro = a" "tree_root_height R ro = ha_height (root_ha R ro)" "h \<le> 5" "0 < N" "N \<le> capacity h"
    "N \<le> 2 ^ 57" "unat (tree_max_nblocks (ha_height (root_ha R ro))) = 512 ^ h"
    "unat (tree_max_nblocks (ha_height (root_ha R ro)) * 4096) = capacity h"
  let ?H = "ha_height (root_ha R ro)" and ?N = "root_nbytes R ro" and ?e = "off + sz"
  let ?M = "tree_max_nblocks ?H"
  have sz: "0 < unat sz" "sz \<noteq> 0" using off(2) unat_pos [of sz] by (auto simp: one_block_def)
  have e: "unat ?e = unat off + unat sz" using unat_word_add [of off sz] off(1) R(9) by simp
  have ne: "off \<noteq> - 1" "sz \<noteq> - 1" using off(1) R(9) by (auto simp: unat_minus_1)
  have cs: "min sz (?M * 4096 - off) = sz"
    using unat_word_sub [of off "?M * 4096"] R(8,11) off(1) by (simp add: min_absorb1 word_le_nat_alt)
  have vl: "min ?N (?M * 4096) = ?N" using R(2,8,11) by (simp add: min_def word_le_nat_alt)
  have ee: "?e \<le> ?N" "off < ?N" "(?N < ?e) = False" using e off(1) R(2) sz by (simp_all add: word_le_nat_alt word_less_nat_alt)
  have grow: "(if c \<noteq> COMMIT_NONE then grow_root rp ro off ?e prev s else Some (0, rp, prev, False, s)) = Some (0, rp, prev, False, s)"
    using grow_root_covered [OF rt off(1) sz(2)] by simp
  define g where "g = \<lparr>g_prev = a, g_blockoff = off div 4096, g_off = off, g_size = sz, g_valid = ?N,
    g_start = off, g_commit = c\<rparr>"
  have r: "range_at (reading g) (unat off) 0 (unat off) (unat sz) N (capacity h)"
    using off R(2,8,9) sz capacity_bound [OF R(6)] by (auto simp: range_at_def g_def unat_div)
  have sc: "single_call cb g i l u s r n u' s'"
    using c R(2) unfolding leaf_call_def single_call_def call_args_def g_def by (simp add: mult.commute)
  have H0: "?H = 0 \<longleftrightarrow> h = 0" using R(3) by (metis unat_0 unat_inject)
  let ?st = "if h = 0 then s' else s''" and ?cn = "if h = 0 \<and> r \<ge> 0 then n else a"
  have la: "h = 0 \<Longrightarrow> i = - 1 \<and> l = a" using l by simp
  have child: "(if ?H = 0 then if sz \<noteq> 0 then crawl_leaf (Data cb) (g\<lparr>g_blockoff := 0\<rparr>) (- 1) u s else Some (0, a, u, s)
      else crawl_indir (Data cb) (unat ?H) g ?M u s) = Some (r, ?cn, u', ?st)"
  proof (cases "h = 0")
    case True
    then have "unat (off div 4096) = unat (0 :: u64)" using r by (simp add: range_at_def unat_div)
    then have "off div 4096 = 0" by (simp only: unat_inject)
    then have "g\<lparr>g_blockoff := 0\<rparr> = g" by (simp add: g_def)
    moreover have "range_at (reading g) (unat off) 0 (unat off) (unat sz) N 4096" using r True by simp
    ultimately show ?thesis using crawl_leaf_single' [of g, OF _ _ sc] True la H0 sz(2) by (simp add: g_def)
  next
    case False
    then show ?thesis
      using crawl_indir_single [OF r off(2) _ _ l R(10) sc] rp R(3) H0 by (simp add: g_def tree_repoint_def)
  qed
  have gg: "\<lparr>g_prev = a, g_blockoff = 0, g_off = off, g_size = sz, g_valid = ?N, g_start = off, g_commit = c\<rparr> =
      g\<lparr>g_blockoff := 0\<rparr>" "g\<lparr>g_blockoff := 0, g_blockoff := off div 4096\<rparr> = g" by (simp_all add: g_def)
  have C: "c = COMMIT_NONE \<or> c = COMMIT_ATOMIC" "r \<le> 1" "c = COMMIT_NONE \<and> r \<ge> 0 \<longrightarrow> n = l"
    using c by (auto simp: leaf_call_def)
  have cc: "(if c = COMMIT_NONE \<or> c = COMMIT_FREE \<or> c = COMMIT_COPY then c else if off < ?N \<and> ?N < ?e then COMMIT_COPY else c) = c"
    using ee by simp
  have cz: "(if c \<noteq> COMMIT_NONE then sz else min sz (?M * 4096 - off)) = sz" using cs by simp
  have ck: "check (c \<noteq> COMMIT_NONE \<or> ?e \<le> ?N) = Some ()" using ee by simp
  have rest: "(if r < 0 then Some (r, prev, u', ?st)
       else if c = COMMIT_NONE then do {
         root \<leftarrow> deref rp ?st;
         check (tree_root_addr root ro = ?cn \<and> \<not> ?e > root_nbytes root ro);
         check (prev = prev);
         if r = 0 then do {
           (r, u, s) \<leftarrow> crawl_hole cb ((off + sz) div BPFS_BLOCK_SIZE) sz
              (sz - sz) (root_nbytes root ro) off u' ?st;
           Some (r, prev, u, s)
         } else Some (r, prev, u', ?st)
       } else do {
         (r, b, s) \<leftarrow> update_root rp ro off ?e c False prev prev ?cn True r ?st;
         Some (r, b, u', s)
       }) = Some (r, prev, u', s'')"
  proof (cases "r < 0")
    case True
    then show ?thesis using rp by (simp add: tree_repoint_def repoint_def split: if_splits)
  next
    case r0: False
    show ?thesis
      using rt'
    proof (rule root_atE)
      fix R' assume R': "deref rp ?st = Some R'" "unat (root_nbytes R' ro) = N" "tree_root_addr R' ro = a"
      have N': "root_nbytes R' ro = ?N" using R(2) R'(2) by (metis unat_inject)
      show ?thesis
      proof (cases "c = COMMIT_NONE")
        case True
        then have nl: "n = l" using C(3) r0 by simp
        then have st: "?cn = a" "?st = s''" using la rp by (auto simp: tree_repoint_def repoint_def split: if_splits)
        have "off div 4096 \<le> ?e div 4096" using e by (simp add: word_le_nat_alt unat_div div_le_mono)
        moreover have "sz \<le> ?N" using off(1) R(2) by (simp add: word_le_nat_alt)
        ultimately have "crawl_hole cb (?e div 4096) sz (sz - sz) ?N off u' s'' = Some (0, u', s'')"
          by (simp add: crawl_hole_def crawl_hole_loop.simps)
        then show ?thesis using True r0 C(2) R' N' ee unfolding st by auto
      next
        case False
        then have "update_root rp ro off ?e COMMIT_ATOMIC False prev prev ?cn True r ?st = Some (r, prev, s'')"
        proof (cases "h = 0")
          case True
          have z: "n \<noteq> a \<longrightarrow> tree_repoint rp ro 0 i 0 a r n s' = Some s''" "n = a \<longrightarrow> s'' = s'"
            using rp True la [OF True] r0 by (auto simp: tree_repoint_def split: if_splits)
          have "root_at rp ro s' h a N" using rt' True by simp
          from update_root_single [OF this off(1) sz(2) _ z] show ?thesis using True r0 by simp
        next
          case h: False
          then have "root_at rp ro s'' h a N" using rt' by simp
          from update_root_single [OF this off(1) sz(2), of r a i s'' prev] show ?thesis using h r0 by simp
        qed
        then show ?thesis using False C(1) r0 by auto
      qed
    qed
  qed
  show ?thesis
    unfolding crawl_tree_def crawl_tree_ref_def Let_def R(1) Option.bind.simps
    by (simp only: ne if_False Option.bind.simps ck grow prod.case R(1) cz cc vl R(4) gg child less_irrefl rest)
qed

end
