(* ===== verification/File_Read.thy ===== *)
theory File_Read
  imports Crawl_Single
begin

text \<open>
  Reading a file: the inode is found in the inode file, the crawl over the file's tree collects
  pointers to the pieces of its blocks, the access time is written into the inode, and the reply
  sends the bytes behind the pointers. The theorem of this theory says that they are the bytes of the
  file.
\<close>

section \<open>Inodes in memory\<close>

definition inode_pos :: "u64 \<Rightarrow> nat" where
  "inode_pos ino = (unat ino - 1) * 128"

text \<open>The inode file has its root in block \<open>ir\<close>; inode \<open>ino\<close> is in its block \<open>l\<close>, below \<open>i\<close>.\<close>

definition inode_at :: "u64 \<Rightarrow> fs \<Rightarrow> u64 \<Rightarrow> u64 \<Rightarrow> u64 \<Rightarrow> bool" where
  "inode_at ino s ir i l \<longleftrightarrow> ino \<noteq> 0 \<and> ino - 1 < bm_ntotal (inode_alloc s) \<and> resident ir s \<and> ir \<noteq> 1 \<and> l \<noteq> 1 \<and> l \<noteq> ir \<and>
     map_option super_inode_root_addr (get_super s) = Some ir \<and> resident l s \<and> unat l < length (indir_mapping s) \<and>
     (\<exists>h a N. root_at (Bpram ir) 0 s h a N \<and> unat ino * 128 \<le> N \<and>
        leaf_at h s (- 1) a (inode_pos ino div 4096) = Some (i, l))"

text \<open>\<open>s'\<close> has the same super block, inode bitmap and root of the inode file.\<close>

definition same_inodes :: "u64 \<Rightarrow> fs \<Rightarrow> fs \<Rightarrow> bool" where
  "same_inodes ir s s' \<longleftrightarrow> get_super s' = get_super s \<and> mem ir s' = mem ir s \<and> inode_alloc s' = inode_alloc s"

lemma same_inodes_root: "same_inodes ir s s' \<Longrightarrow> root_at (Bpram ir) 0 s' = root_at (Bpram ir) 0 s"
  by (simp add: same_inodes_def root_at_def fun_eq_iff)

lemma get_inode_root_at:
  assumes "inode_at ino s ir i l"
  shows "get_inode_root s = Some (ir, s)"
  using assms by (auto simp: inode_at_def get_inode_root_def resident_def)

lemma inode_one_block: "one_block (x * 128) 128"
proof -
  define q r where "q = x div 32" and "r = x mod 32"
  have "x = 32 * q + r" "r < 32" by (simp_all add: q_def r_def)
  then have "x * 128 = r * 128 + 4096 * q" "x * 128 + 128 - 1 = (r * 128 + 127) + 4096 * q"
    "r * 128 < 4096" "r * 128 + 127 < 4096" by simp_all
  then show ?thesis unfolding one_block_def by (simp only: div_mult_self2) simp
qed

lemma inode_offset:
  assumes "inode_at ino s ir i l"
  shows "get_inode_offset ino s = Some ((ino - 1) * 128, s)" "unat ((ino - 1) * 128) = inode_pos ino"
    "one_block (inode_pos ino) 128" "inode_pos ino + 128 = unat ino * 128"
proof -
  obtain h a N where h: "root_at (Bpram ir) 0 s h a N" "unat ino * 128 \<le> N" using assms by (auto simp: inode_at_def)
  obtain R where R: "mem ir s = Some R" "unat (root_nbytes R 0) = N" "N \<le> 2 ^ 57" by (rule root_atE [OF h(1)]) auto
  have ino: "ino \<noteq> 0" "ino - 1 < bm_ntotal (inode_alloc s)" using assms by (auto simp: inode_at_def)
  have u: "unat (ino - 1) = unat ino - 1" "0 < unat ino" using ino(1) unat_pred unat_pos by auto
  show p: "unat ((ino - 1) * 128) = inode_pos ino"
    using unat_word_mult [of "ino - 1" 128] u h(2) R(3) by (simp add: inode_pos_def)
  show e: "inode_pos ino + 128 = unat ino * 128" using u(2) by (simp add: inode_pos_def algebra_simps)
  have "unat ((ino - 1) * 128 + 128) = unat ino * 128"
    using unat_word_add [of "(ino - 1) * 128" 128] p e h(2) R(3) by simp
  then have "(ino - 1) * 128 + 128 \<le> root_nbytes R 0" using R(2) h(2) by (simp add: word_le_nat_alt)
  then show "get_inode_offset ino s = Some ((ino - 1) * 128, s)"
    using ino R(1) get_inode_root_at [OF assms] by (simp add: get_inode_offset_def)
  show "one_block (inode_pos ino) 128" unfolding inode_pos_def by (rule inode_one_block)
qed

text \<open>A crawl of an inode is a call of the callback with the inode's block.\<close>

lemma crawl_inode_single:
  assumes at: "inode_at ino s ir i l" and c: "c = COMMIT_NONE \<or> c = COMMIT_ATOMIC" and np: "note_parent l i s = Some s1"
    and cb: "\<And>po. unat po = inode_pos ino mod 4096 \<Longrightarrow> cb (Bpram l) po c u l s1 = Some (r, n, u', s')"
    and r: "r \<le> 1" "r \<ge> 0 \<longrightarrow> n = l" and fr: "same_inodes ir s s'"
  shows "crawl_inode ino c cb u s = Some (r, u', s')"
proof -
  let ?o = "(ino - 1) * 128"
  note O = inode_offset [OF at]
  obtain h a N where h: "root_at (Bpram ir) 0 s h a N" "unat ino * 128 \<le> N"
      "leaf_at h s (- 1) a (inode_pos ino div 4096) = Some (i, l)" using at by (auto simp: inode_at_def)
  have l: "resident l s" "map_option super_inode_root_addr (get_super s) = Some ir" using at by (auto simp: inode_at_def)
  obtain sup where sup: "get_super s = Some sup" "super_inode_root_addr sup = ir" using l(2) by auto
  let ?po = "of_nat (inode_pos ino mod 4096) :: u32" and ?pv = "of_nat (min (N - inode_pos ino div 4096 * 4096) 4096) :: u32"
  have small: "unat (of_nat k :: u32) = k" if "k \<le> 4096" for k :: nat
    using that by (simp add: unsigned_of_nat take_bit_nat_eq_self)
  have po: "unat ?po = inode_pos ino mod 4096" "unat ?pv = min (N - inode_pos ino div 4096 * 4096) 4096"
    by (rule small, simp)+
  have call: "leaf_call (callback_crawl_inode cb) c ?o 128 N i l u s r (if r \<ge> 0 then l else n) u' s'"
    unfolding leaf_call_def O(2)
  proof (intro conjI exI)
    show "unat ?po = inode_pos ino mod 4096" "unat (128 :: u32) = unat (128 :: u64)"
      "unat ?pv = min (N - inode_pos ino div 4096 * 4096) 4096" using po by simp_all
    show "callback_crawl_inode cb (?o div 4096) (Bpram l) ?po 128 ?pv ?o c u l s1 = Some (r, if r \<ge> 0 then l else n, u', s')"
      using cb [OF po(1)] r by (simp add: callback_crawl_inode_def)
  qed (use l(1) r c np in auto)
  have rp: "tree_repoint (Bpram ir) 0 h i (unat ?o div 4096) l r (if r \<ge> 0 then l else n) s' = Some s'"
    by (simp add: tree_repoint_def repoint_def)
  have "crawl_tree (Bpram ir) 0 ?o 128 c (callback_crawl_inode cb) u ir s = Some (r, ir, u', s')"
    by (rule crawl_tree_single [OF h(1) _ _ _ call rp])
       (use h O fr same_inodes_root in simp_all)
  then show ?thesis
    using O(1) get_inode_root_at [OF at] sup fr by (simp add: crawl_inode_def crawl_inodes_def same_inodes_def)
qed

section \<open>The pieces a read collects\<close>

text \<open>\<open>e\<close> points at the bytes of \<open>f\<close> from \<open>lo\<close> to \<open>hi\<close>, in a block that satisfies \<open>P\<close>.\<close>

definition iov_ok :: "(u64 \<Rightarrow> bool) \<Rightarrow> fs \<Rightarrow> (nat \<Rightarrow> u8) \<Rightarrow> nat \<Rightarrow> nat \<Rightarrow> iovec \<Rightarrow> bool" where
  "iov_ok P s f lo hi e \<longleftrightarrow> (\<exists>n b po pl. e = Some (leaf_ptr n, po, pl) \<and> P n \<and> deref (leaf_ptr n) s = Some b \<and>
     (\<forall>i. lo \<le> i \<and> i < hi \<longrightarrow> b (i mod 4096) = f i) \<and> unat po = lo mod 4096 \<and> unat pl = hi - lo)"

definition touched :: "fs \<Rightarrow> fs \<Rightarrow> bool" where
  "touched s s' \<longleftrightarrow> (\<exists>m a. length m = length (indir_mapping s) \<and> s' = s\<lparr>indir_mapping := m, ac := a\<rparr>)"

definition read_inv :: "(u64 \<Rightarrow> bool) \<Rightarrow> nat \<Rightarrow> (nat \<Rightarrow> u8) \<Rightarrow> nat \<Rightarrow> fs \<Rightarrow> nat \<Rightarrow> iovec list \<Rightarrow> fs \<Rightarrow> bool" where
  "read_inv P start f nb s0 x iov s \<longleftrightarrow> length iov = nb \<and> (\<exists>bs. staged (ac s) bs) \<and> touched s0 s \<and>
     (\<forall>j. start div 4096 \<le> j \<and> j * 4096 < x \<and> start < x \<longrightarrow>
        iov_ok P s0 f (max start (j * 4096)) (min x ((j + 1) * 4096)) (iov ! (j - start div 4096)))"

lemma touchedI: "length m = length (indir_mapping s) \<Longrightarrow> touched s (s\<lparr>indir_mapping := m, ac := a\<rparr>)"
  unfolding touched_def by blast

lemma touched_noted:
  assumes "touched s s'" and "noted s' s''"
  shows "touched s s''"
proof -
  obtain m a m' where "s' = s\<lparr>indir_mapping := m, ac := a\<rparr>" "s'' = s'\<lparr>indir_mapping := m'\<rparr>"
      "length m' = length (indir_mapping s)"
    using assms unfolding touched_def noted_def by auto
  then have "s'' = s\<lparr>indir_mapping := m', ac := a\<rparr>" by simp
  then show ?thesis using \<open>length m' = _\<close> touchedI by simp
qed

lemma touched_ac:
  assumes "touched s s'"
  shows "touched s (s'\<lparr>ac := a\<rparr>)"
proof -
  obtain m a' where m: "length m = length (indir_mapping s)" "s' = s\<lparr>indir_mapping := m, ac := a'\<rparr>"
    using assms unfolding touched_def by blast
  then have "s'\<lparr>ac := a\<rparr> = s\<lparr>indir_mapping := m, ac := a\<rparr>" by simp
  then show ?thesis using touchedI [OF m(1)] by simp
qed

lemma touched_trans:
  assumes "touched s s'" and "touched s' s''"
  shows "touched s s''"
proof -
  obtain m a where "noted s' (s'\<lparr>indir_mapping := m\<rparr>)" "s'' = s'\<lparr>indir_mapping := m, ac := a\<rparr>"
    using assms(2) unfolding touched_def noted_def by blast
  then show ?thesis using touched_ac [OF touched_noted [OF assms(1)]] by simp
qed

lemma touched_refl [simp]: "touched s s"
  unfolding touched_def by (intro exI [of _ "indir_mapping s"] exI [of _ "ac s"]) simp

lemma touched_mem: "touched s s' \<Longrightarrow> mem n s' = mem n s" "touched s s' \<Longrightarrow> deref p s' = deref p s"
proof -
  show m: "mem n s' = mem n s" if "touched s s'" for n using that by (auto simp: touched_def mem_def)
  show "deref p s' = deref p s" if "touched s s'" using m [OF that] by (cases p) simp_all
qed

lemma access_block_ok:
  assumes "get_super s \<noteq> None" and "unat n < length (indir_mapping s)" and "staged (ac s) bs"
  shows "\<exists>a bs'. access_block n s = Some (s\<lparr>ac := a\<rparr>) \<and> staged a bs'"
proof -
  obtain sup where sup: "get_super s = Some sup" using assms(1) by auto
  obtain a where a: "anti_cache_manager_access n (ac s) = Some a" "staged a (bs @ [n])"
    using staging.enq_holds [OF assms(3)] by blast
  have self: "s = s\<lparr>ac := ac s\<rparr>" by simp
  show ?thesis
    using a assms(2,3) self by (auto simp: access_block_def sup indir_of_def intro: exI [of _ "ac s"])
qed

interpretation reads: reader callback_read P start stop f
  "read_inv P start f ((stop - 1) div 4096 - start div 4096 + 1) s0" for P start stop f s0
proof
  fix x u s s'
  assume "read_inv P start f ((stop - 1) div 4096 - start div 4096 + 1) s0 x u s" "noted s s'"
  then show "read_inv P start f ((stop - 1) div 4096 - start div 4096 + 1) s0 x u s'"
    unfolding read_inv_def using touched_noted by (auto simp: noted_def)
next
  fix x u s y n b v and bo st :: u64 and po pl :: u32
  let ?nb = "(stop - 1) div 4096 - start div 4096 + 1"
  assume I: "read_inv P start f ?nb s0 x u s" and sup: "get_super s \<noteq> None"
    and x: "x mod 4096 = 0 \<or> x = start" "start \<le> x" "x < y" "y \<le> stop" "y \<le> (x div 4096 + 1) * 4096"
    and bo: "unat bo = x div 4096" and n: "leaf_ok n s" "P n" and b: "deref (leaf_ptr n) s = Some b"
      "\<forall>i. x \<le> i \<and> i < y \<longrightarrow> b (i mod 4096) = f i"
    and w: "unat po = x mod 4096" "unat pl = y - x" "unat st = start"
  obtain a where a: "access_block n s = Some (s\<lparr>ac := a\<rparr>)" "\<exists>bs. staged a bs"
    using access_block_ok [OF sup] n(1) I unfolding leaf_ok_def read_inv_def by blast
  have t: "touched s0 s" "length u = ?nb" using I by (simp_all add: read_inv_def)
  let ?i = "x div 4096 - start div 4096"
  have le: "start div 4096 \<le> x div 4096" using x(2) by (rule div_le_mono)
  have ix: "unat (bo - st div 4096) = ?i" using unat_word_sub [of "st div 4096" bo] bo w(3) le by (simp add: unat_div)
  have "x div 4096 \<le> (stop - 1) div 4096" using x(3,4) by (intro div_le_mono) simp
  then have lt: "?i < ?nb" using le by linarith
  let ?e = "Some (leaf_ptr n, po, pl) :: iovec"
  have "read_inv P start f ?nb s0 y (u[?i := ?e]) (s\<lparr>ac := a\<rparr>)"
    unfolding read_inv_def
  proof (intro conjI allI impI)
    fix j assume j: "start div 4096 \<le> j \<and> j * 4096 < y \<and> start < y"
    show "iov_ok P s0 f (max start (j * 4096)) (min y ((j + 1) * 4096)) (u[?i := ?e] ! (j - start div 4096))"
    proof (cases "j = x div 4096")
      case True
      have "max start (j * 4096) = x" using x(1,2) unfolding True by (auto simp: max_def)
      moreover have "min y ((j + 1) * 4096) = y" using x(5) unfolding True by (simp add: min_absorb1)
      ultimately show ?thesis
        unfolding iov_ok_def using True lt t(2) n(2) b touched_mem(2) [OF t(1)] w by auto
    next
      case False
      have "j * 4096 < (x div 4096 + 1) * 4096" using j x(5) by linarith
      then have "j < x div 4096 + 1" by simp
      with False have jx: "j + 1 \<le> x div 4096" by simp
      then have "(j + 1) * 4096 \<le> x div 4096 * 4096" by (rule mult_le_mono1)
      also have "\<dots> \<le> x" by simp
      finally have m: "(j + 1) * 4096 \<le> x" .
      have "start < (start div 4096 + 1) * 4096" by (simp add: dividend_less_div_times)
      also have "\<dots> \<le> (j + 1) * 4096" using j by (intro mult_le_mono1) simp
      finally have "start < x" using m by linarith
      then have "iov_ok P s0 f (max start (j * 4096)) (min x ((j + 1) * 4096)) (u ! (j - start div 4096))"
        using I m j unfolding read_inv_def by auto
      moreover have "min x ((j + 1) * 4096) = min y ((j + 1) * 4096)" using m x(3) by (simp add: min_absorb2)
      moreover have "?i \<noteq> j - start div 4096" using jx j by linarith
      ultimately show ?thesis by simp
    qed
  qed (use t lt a(2) touched_ac in auto)
  then show "\<exists>u' s'. callback_read bo (leaf_ptr n) po pl v st COMMIT_NONE u n s = Some (0, n, u', s') \<and>
      read_inv P start f ?nb s0 y u' s' \<and> same_mem s s'"
    using a(1) ix lt t(2) by (auto simp: callback_read_def same_mem_def)
qed

section \<open>The bytes of the reply\<close>

lemma those_map_Some: "(\<And>x. x \<in> set xs \<Longrightarrow> g x = Some (k x)) \<Longrightarrow> those (map g xs) = Some (map k xs)"
  by (induction xs) auto

lemma iov_entry_ok:
  assumes "iov_ok P s f lo hi e" and "hi \<le> (lo div 4096 + 1) * 4096" and "\<And>n. P n \<Longrightarrow> mem n s' = mem n s"
  shows "iov_entry s' e = Some (map f [lo..<hi])"
proof -
  obtain n b po pl where e: "e = Some (leaf_ptr n, po, pl)" "P n" "deref (leaf_ptr n) s = Some b"
      "\<forall>i. lo \<le> i \<and> i < hi \<longrightarrow> b (i mod 4096) = f i" "unat po = lo mod 4096" "unat pl = hi - lo"
    using assms(1) unfolding iov_ok_def by blast
  have b: "deref (leaf_ptr n) s' = Some b" using e(3) assms(3) [OF e(2)] by (simp add: leaf_ptr_def split: if_splits)
  have "ptr_byte (leaf_ptr n) (lo mod 4096 + i) s' = Some (f (lo + i))" if i: "i < hi - lo" for i
  proof -
    obtain q m where q: "q = lo div 4096" "m = lo mod 4096" by blast
    have "lo = q * 4096 + m" "hi \<le> (q + 1) * 4096" using assms(2) by (simp_all add: q)
    then have k: "lo mod 4096 + i < 4096" unfolding q(2) [symmetric] using i by simp
    then have "(lo + i) mod 4096 = lo mod 4096 + i" by (metis mod_add_left_eq mod_less)
    then have "b (lo mod 4096 + i) = f (lo + i)" using e(4) [rule_format, of "lo + i"] i by simp
    then show ?thesis using k b by (auto simp: leaf_ptr_def zero_block_def split: if_splits)
  qed
  then have "those (map (\<lambda>i. ptr_byte (leaf_ptr n) (lo mod 4096 + i) s') [0..<hi - lo]) = Some (map (\<lambda>i. f (lo + i)) [0..<hi - lo])"
    by (intro those_map_Some) simp
  moreover have "map (\<lambda>i. f (lo + i)) [0..<hi - lo] = map f [lo..<hi]"
    by (rule nth_equalityI) simp_all
  ultimately show ?thesis using e(1,5,6) by (simp add: iov_entry_def)
qed

lemma concat_blocks:
  assumes "a < b" "p = a div c" "p < q" "(q - 1) * c < b" "0 < (c :: nat)"
  shows "concat (map (\<lambda>j. [max a (j * c)..<min b ((j + 1) * c)]) [p..<q]) = [a..<min b (q * c)]"
  using assms(3,4)
proof (induction q)
  case (Suc q)
  show ?case
  proof (cases "p = q")
    case True
    have "max a (p * c) = a" using assms(2) by (simp add: max_absorb1)
    then show ?thesis using True by (simp add: upt_rec [of q])
  next
    case False
    then have pq: "p < q" using Suc.prems(1) by simp
    have "(p + 1) * c \<le> q * c" using pq by (intro mult_le_mono1) simp
    then have aq: "a < q * c" using dividend_less_div_times [of c a] assms(2,5) by (simp add: algebra_simps)
    have qb: "q * c < b" using Suc.prems(2) by simp
    have "(q - 1) * c \<le> q * c" by (intro mult_le_mono1) simp
    then have "(q - 1) * c < b" using qb by linarith
    then have IH: "concat (map (\<lambda>j. [max a (j * c)..<min b ((j + 1) * c)]) [p..<q]) = [a..<min b (q * c)]"
      using Suc.IH pq by blast
    have "[a..<q * c] @ [q * c..<min b (c + q * c)] = [a..<min b (c + q * c)]"
      using upt_add_eq_append [of a "q * c" "min b (c + q * c) - q * c"] aq qb by simp
    then show ?thesis using IH pq aq qb by (simp add: max_absorb2 min_absorb2)
  qed
qed simp

lemma map_eq_map_upt:
  assumes "length xs = q - p" and "\<And>k. k < q - p \<Longrightarrow> g (xs ! k) = h (p + k)"
  shows "map g xs = map h [p..<q]"
  by (rule nth_equalityI) (use assms in simp_all)

lemma iov_bytes_ok:
  assumes "read_inv P start f ((stop - 1) div 4096 - start div 4096 + 1) s0 stop iov s" and "start < stop"
    and "\<And>n. P n \<Longrightarrow> mem n s' = mem n s0"
  shows "iov_bytes s' iov = Some (map f [start..<stop])"
proof -
  let ?p = "start div 4096" and ?q = "(stop - 1) div 4096 + 1"
  let ?r = "\<lambda>j. [max start (j * 4096)..<min stop ((j + 1) * 4096)]"
  have pq: "?p < ?q" using div_le_mono [of start "stop - 1" 4096] assms(2) by linarith
  have "length iov = (stop - 1) div 4096 - ?p + 1" using assms(1) by (simp add: read_inv_def)
  then have len: "length iov = ?q - ?p" using pq by linarith
  have "iov_entry s' (iov ! k) = Some (map f (?r (?p + k)))" if k: "k < ?q - ?p" for k
  proof (rule iov_entry_ok [OF _ _ assms(3)])
    have "?p + k \<le> (stop - 1) div 4096" using k by linarith
    then have "(?p + k) * 4096 \<le> (stop - 1) div 4096 * 4096" by (rule mult_le_mono1)
    also have "\<dots> \<le> stop - 1" by simp
    finally have "(?p + k) * 4096 < stop" using assms(2) by linarith
    then show "iov_ok P s0 f (max start ((?p + k) * 4096)) (min stop ((?p + k + 1) * 4096)) (iov ! k)"
      using assms(1,2) unfolding read_inv_def by (metis le_add1 add_diff_cancel_left')
    have "(?p + k) * 4096 div 4096 \<le> max start ((?p + k) * 4096) div 4096" by (rule div_le_mono) simp
    then have "?p + k \<le> max start ((?p + k) * 4096) div 4096" by (simp only: nonzero_mult_div_cancel_right [OF zero_neq_numeral [symmetric]])
    then have "(?p + k + 1) * 4096 \<le> (max start ((?p + k) * 4096) div 4096 + 1) * 4096" by (intro mult_le_mono1) simp
    then show "min stop ((?p + k + 1) * 4096) \<le> (max start ((?p + k) * 4096) div 4096 + 1) * 4096" by linarith
  qed
  then have "map (iov_entry s') iov = map (\<lambda>j. Some (map f (?r j))) [?p..<?q]"
    by (rule map_eq_map_upt [OF len])
  moreover have "those (map (\<lambda>j. Some (map f (?r j))) [?p..<?q]) = Some (map (\<lambda>j. map f (?r j)) [?p..<?q])"
    by (rule those_map_Some) (rule refl)
  ultimately have "iov_bytes s' iov = Some (concat (map (\<lambda>j. map f (?r j)) [?p..<?q]))"
    by (simp only: iov_bytes_def option.map)
  also have "concat (map (\<lambda>j. map f (?r j)) [?p..<?q]) = map f (concat (map ?r [?p..<?q]))"
    by (simp add: map_concat comp_def)
  also have "concat (map ?r [?p..<?q]) = [start..<min stop (?q * 4096)]"
  proof (rule concat_blocks [OF assms(2) refl pq])
    have "(stop - 1) div 4096 * 4096 \<le> stop - 1" by simp
    then show "(?q - 1) * 4096 < stop" using assms(2) by simp
  qed simp
  also have "min stop (?q * 4096) = stop"
    using dividend_less_div_times [of 4096 "stop - 1"] by (simp add: min_def)
  finally show ?thesis .
qed

section \<open>A read, step by step\<close>

lemma leaf_at_touched: "touched s s' \<Longrightarrow> leaf_at h s' i a k = leaf_at h s i a k"
proof (induction h arbitrary: i a k)
  case (Suc h)
  have "resident a s' = resident a s" using Suc.prems by (auto simp: touched_def resident_def)
  then show ?case using Suc.IH [OF Suc.prems] touched_mem(1) [OF Suc.prems] by simp
qed simp

lemma touched_same_mem: "touched s s' \<Longrightarrow> same_mem s s'"
  by (auto simp: touched_def same_mem_def)

lemma touched_same_inodes:
  assumes "touched s s'"
  shows "same_inodes ir s s'"
proof -
  have "inode_alloc s' = inode_alloc s" using assms by (auto simp: touched_def)
  then show ?thesis by (simp add: same_inodes_def get_super_def touched_mem(1) [OF assms])
qed

lemma noted_touched: "noted s s' \<Longrightarrow> touched s s'"
  using touched_noted touched_refl by blast

lemma inode_at_touched:
  assumes "touched s s'" and "inode_at ino s ir i l"
  shows "inode_at ino s' ir i l"
proof -
  have "get_super s' = get_super s" "inode_alloc s' = inode_alloc s" "root_at (Bpram ir) 0 s' = root_at (Bpram ir) 0 s"
    using touched_same_inodes [OF assms(1), of ir] same_inodes_root [OF touched_same_inodes [OF assms(1)]]
    by (simp_all add: same_inodes_def)
  moreover have "resident n s' = resident n s" "length (indir_mapping s') = length (indir_mapping s)" for n
    using assms(1) by (auto simp: touched_def resident_def)
  ultimately show ?thesis using assms(2) leaf_at_touched [OF assms(1)] unfolding inode_at_def by simp
qed

lemma inode_at_note:
  assumes "inode_at ino s ir i l"
  obtains s1 where "note_parent l i s = Some s1" "noted s s1"
proof -
  have "leaf_ok l s" "get_super s \<noteq> None" using assms by (auto simp: inode_at_def leaf_ok_def)
  then show ?thesis using note_parent_leaf that by blast
qed

lemma get_inode_ok:
  assumes "inode_at ino s ir i l"
  obtains s1 where "get_inode ino s = Some ((Bpram l, inode_pos ino mod 4096), s1)" "noted s s1"
proof (rule inode_at_note [OF assms])
  fix s1 assume s1: "note_parent l i s = Some s1" "noted s s1"
  have "crawl_inode ino COMMIT_NONE callback_get_inode None s = Some (0, Some (Bpram l, inode_pos ino mod 4096), s1)"
    by (rule crawl_inode_single [OF assms _ s1(1)])
       (use touched_same_inodes noted_touched s1(2) in \<open>auto simp: callback_get_inode_def\<close>)
  then show thesis using that s1(2) by (simp add: get_inode_def)
qed

text \<open>An in-place write to the inode.\<close>

lemma write_inode_ok:
  assumes at: "inode_at ino s ir i l" and b: "mem l s = Some b"
    and cb: "\<And>bl po n s. cb bl po COMMIT_ATOMIC u n s = write_inode upd bl po COMMIT_ATOMIC u n s"
  obtains s1 s' where "crawl_inode ino COMMIT_ATOMIC cb u s = Some (0, u, s')" "noted s s1"
    "put_mem l (upd b (inode_pos ino mod 4096)) s1 = Some s'"
proof (rule inode_at_note [OF at])
  fix s1 assume s1: "note_parent l i s = Some s1" "noted s s1"
  have l: "resident l s" "l \<noteq> 1" "l \<noteq> ir" using at by (auto simp: inode_at_def)
  have t: "touched s s1" using noted_touched s1(2) .
  have b1: "mem l s1 = Some b" using b touched_mem(1) [OF t] by simp
  let ?b = "upd b (inode_pos ino mod 4096)"
  obtain s' where s': "put_mem l ?b s1 = Some s'" using b1 by (auto simp: put_mem_def mem_def split: if_splits)
  have "same_inodes ir s s'"
    using touched_same_inodes [OF t, of ir] mem_put_mem [OF s'] l s'
    by (auto simp: same_inodes_def get_super_def put_mem_eq_Some)
  then have "crawl_inode ino COMMIT_ATOMIC cb u s = Some (0, u, s')"
    by (intro crawl_inode_single [OF at _ s1(1)]) (auto simp: cb write_inode_def cow_unless_def modify_def b1 s')
  then show thesis using that s1(2) s' by blast
qed

lemma bitmap_clean_commit: "bitmap_clean bm \<Longrightarrow> bitmap_commit bm = Some bm" "bitmap_clean bm \<Longrightarrow> bitmap_abort m bm = Some bm"
  by (simp_all add: bitmap_clean_def bitmap_commit_def bitmap_abort_def)

lemma clean_commit:
  assumes "bitmap_clean (block_alloc s)" and "bitmap_clean (inode_alloc s)"
  shows "bpfs_commit s = Some s" "bpfs_abort s = Some s"
  using assms by (simp_all add: bpfs_commit_def bpfs_abort_def commit_blocks_def commit_inodes_def abort_blocks_def
      abort_inodes_def bitmap_clean_commit)

lemma file_reads_touched: "touched s s' \<Longrightarrow> file_reads P rp ro s' N f = file_reads P rp ro s N f"
  using touched_mem(2) tree_reads_same_mem [OF touched_same_mem] by (simp add: file_reads_def)

lemma crawl_data_read:
  assumes at: "inode_at ino s ir i l" and st: "staged (ac s) bs"
    and f: "file_reads P (Bpram l) (inode_root_off (inode_pos ino mod 4096)) s N f"
    and r: "unat off + unat sz \<le> N" "sz \<noteq> 0" and nb: "nb = (unat off + unat sz - 1) div 4096 - unat off div 4096 + 1"
  obtains iov s' where "crawl_data ino off sz COMMIT_NONE callback_read (replicate nb None) s = Some (0, iov, s')"
    "read_inv P (unat off) f nb s (unat off + unat sz) iov s'"
proof (rule inode_at_note [OF at])
  fix s1 assume s1: "note_parent l i s = Some s1" "noted s s1"
  have t: "touched s s1" using noted_touched s1(2) .
  have sup: "get_super s1 \<noteq> None" using at touched_same_inodes [OF t, of ir] by (auto simp: same_inodes_def inode_at_def)
  have ac: "ac s1 = ac s" using s1(2) by (auto simp: noted_def)
  have I: "read_inv P (unat off) f nb s (unat off) (replicate nb None) s1" using t st ac by (auto simp: read_inv_def)
  have fr: "file_reads P (Bpram l) (inode_root_off (inode_pos ino mod 4096)) s1 N f" using f file_reads_touched [OF t] by simp
  have "\<exists>u' s'. crawl_tree (Bpram l) (inode_root_off (inode_pos ino mod 4096)) off sz COMMIT_NONE callback_read (replicate nb None) l s1 =
      Some (0, l, u', s') \<and> read_inv P (unat off) f nb s (unat off + unat sz) u' s' \<and> same_mem s1 s'"
    using reads.crawl_tree_read [OF fr refl r refl _ sup] I unfolding nb by blast
  then obtain iov s' where c: "crawl_tree (Bpram l) (inode_root_off (inode_pos ino mod 4096)) off sz COMMIT_NONE callback_read
      (replicate nb None) l s1 = Some (0, l, iov, s')" "read_inv P (unat off) f nb s (unat off + unat sz) iov s'" by blast
  have "touched s s'" using c(2) by (simp add: read_inv_def)
  then have "crawl_data ino off sz COMMIT_NONE callback_read (replicate nb None) s = Some (0, iov, s')"
    unfolding crawl_data_def
    by (intro crawl_inode_single [OF at _ s1(1)]) (use c(1) touched_same_inodes in \<open>auto simp: callback_crawl_data_def\<close>)
  then show thesis using that c(2) by blast
qed

section \<open>The handler\<close>

text \<open>Inode \<open>ino\<close> in block \<open>l\<close>, with contents \<open>b\<close>, is a regular file with the \<open>N\<close> bytes \<open>f\<close>; no data block of the
  file is the inode's block, the anti-cache queue is well-formed, and no changes are staged.\<close>

definition regular_file :: "u64 \<Rightarrow> fs \<Rightarrow> u64 \<Rightarrow> block \<Rightarrow> nat \<Rightarrow> (nat \<Rightarrow> u8) \<Rightarrow> bool" where
  "regular_file ino s l b N f \<longleftrightarrow> (\<exists>ir i. inode_at ino s ir i l) \<and> mem l s = Some b \<and>
     inode_nlinks b (inode_pos ino mod 4096) \<noteq> 0 \<and> BPFS_S_ISREG (inode_mode b (inode_pos ino mod 4096)) \<and>
     unat (inode_nbytes b (inode_pos ino mod 4096)) = N \<and>
     file_reads (\<lambda>n. n \<noteq> l) (Bpram l) (inode_root_off (inode_pos ino mod 4096)) s N f \<and>
     (\<exists>bs. staged (ac s) bs) \<and> bitmap_clean (block_alloc s) \<and> bitmap_clean (inode_alloc s)"

lemma min_request:
  assumes "unat off < unat (N :: u64)" and "sz \<noteq> 0"
  shows "unat off + unat (min sz (N - off)) = min (unat off + unat sz) (unat N)" "min sz (N - off) \<noteq> 0"
    "unat ((if off + min sz (N - off) \<noteq> 0 then (off + min sz (N - off) - 1) div 4096 else 0) - off div 4096 + 1) =
     (unat off + unat (min sz (N - off)) - 1) div 4096 - unat off div 4096 + 1"
proof -
  let ?m = "min sz (N - off)"
  have d: "unat (N - off) = unat N - unat off" using assms(1) by (intro unat_word_sub) simp
  then have m: "unat ?m = min (unat sz) (unat N - unat off)" by (simp add: min_def word_le_nat_alt)
  then show e: "unat off + unat ?m = min (unat off + unat sz) (unat N)" using assms(1) by simp
  have "0 < unat sz" using assms(2) unat_pos by blast
  then have pos: "0 < unat ?m" using m assms(1) by simp
  then show "?m \<noteq> 0" using unat_pos by blast
  have "unat N < 2 ^ 64" using unat_bounded [of N] by simp
  then have s: "unat (off + ?m) = unat off + unat ?m" using unat_word_add [of off ?m] e by simp
  then have ne: "off + ?m \<noteq> 0" using pos unat_pos [of "off + ?m"] by simp
  have p1: "unat (off + ?m - 1) = unat off + unat ?m - 1" using unat_word_sub [of 1 "off + ?m"] s pos by simp
  have le: "unat off div 4096 \<le> (unat off + unat ?m - 1) div 4096" using pos by (intro div_le_mono) simp
  have q: "unat ((off + ?m - 1) div 4096 - off div 4096) = (unat off + unat ?m - 1) div 4096 - unat off div 4096"
    using unat_word_sub [of "off div 4096" "(off + ?m - 1) div 4096"] p1 le by (simp add: unat_div)
  have "(unat off + unat ?m - 1) div 4096 \<le> 2 ^ 64 div 4096"
    using s p1 unat_bounded [of "off + ?m - 1"] by (intro div_le_mono) simp
  then have "unat ((off + ?m - 1) div 4096 - off div 4096) + unat (1 :: u64) < 2 ^ 64" unfolding q by simp
  then have "unat ((off + ?m - 1) div 4096 - off div 4096 + 1) = (unat off + unat ?m - 1) div 4096 - unat off div 4096 + 1"
    using unat_word_add [of "(off + ?m - 1) div 4096 - off div 4096" 1] q by simp
  then show "unat ((if off + ?m \<noteq> 0 then (off + ?m - 1) div 4096 else 0) - off div 4096 + 1) =
      (unat off + unat ?m - 1) div 4096 - unat off div 4096 + 1" using ne by simp
qed

text \<open>C1. A read returns the bytes of the file: for a regular file whose blocks are in memory (with
  holes allowed) \<^verbatim>\<open>fuse_read\<close> of \<open>sz\<close> bytes from \<open>off\<close> replies with exactly the bytes from \<open>off\<close> up to the
  end of the request or of the file, whichever comes first, also when the range spans many blocks
  and several levels of indirect blocks. It sets the access time when there was something to read
  and changes no other byte of the memory. When \<^verbatim>\<open>calloc\<close> finds no memory for the vector of a read that is not beyond the
  end, the reply is \<^verbatim>\<open>ENOMEM\<close> and nothing changes.\<close>

theorem fuse_read_contents:
  assumes "regular_file ino s l b N f" and "sz \<noteq> 0"
  shows "\<exists>s'. fuse_read cal now ino sz off s =
       Some (if cal \<or> N \<le> unat off then Reply_bytes (map f [unat off..<min (unat off + unat sz) N]) else Reply_err ENOMEM, s') \<and>
     (\<forall>n. mem n s' = (if n = l \<and> unat off < N \<and> cal then Some (set_inode_atime b (inode_pos ino mod 4096) now) else mem n s))"
proof -
  let ?a = "inode_pos ino mod 4096"
  obtain ir i where at: "inode_at ino s ir i l" using assms(1) by (auto simp: regular_file_def)
  have F: "mem l s = Some b" "inode_nlinks b ?a \<noteq> 0" "BPFS_S_ISREG (inode_mode b ?a)" "unat (inode_nbytes b ?a) = N"
    "file_reads (\<lambda>n. n \<noteq> l) (Bpram l) (inode_root_off ?a) s N f"
    "bitmap_clean (block_alloc s)" "bitmap_clean (inode_alloc s)" using assms(1) by (auto simp: regular_file_def)
  obtain bs where st: "staged (ac s) bs" using assms(1) by (auto simp: regular_file_def)
  obtain s1 where s1: "get_inode ino s = Some ((Bpram l, ?a), s1)" "noted s s1" by (rule get_inode_ok [OF at])
  have t1: "touched s s1" using noted_touched [OF s1(2)] .
  have b1: "mem l s1 = Some b" using F(1) touched_mem(1) [OF t1] by simp
  have cl: "bitmap_clean (block_alloc s')" "bitmap_clean (inode_alloc s')" if "touched s s'" for s'
    using that F(6,7) by (auto simp: touched_def)
  show ?thesis
  proof (cases "unat off < N \<and> cal")
    case False
    then have "\<not> cal \<and> \<not> inode_nbytes b ?a \<le> off \<and> unat off < N \<or> inode_nbytes b ?a \<le> off \<and> \<not> unat off < N" using F(4) by (auto simp: word_le_nat_alt)
    then show ?thesis
      using s1(1) b1 F(2,3) clean_commit(2) [OF cl [OF t1]] touched_mem(1) [OF t1] by (elim disjE) (simp_all add: fuse_read_def abort_reply_def)
  next
    case cal: True
    then have True: "unat off < N" by simp
    let ?sz = "min sz (inode_nbytes b ?a - off)"
    note M = min_request [of off "inode_nbytes b ?a" sz, unfolded F(4), OF True assms(2)]
    let ?nb = "(unat off + unat ?sz - 1) div 4096 - unat off div 4096 + 1"
    have at1: "inode_at ino s1 ir i l" using inode_at_touched [OF t1 at] .
    have st1: "staged (ac s1) bs" using st s1(2) by (auto simp: noted_def)
    have fr: "file_reads (\<lambda>n. n \<noteq> l) (Bpram l) (inode_root_off ?a) s1 N f" using F(5) file_reads_touched [OF t1] by simp
    have le: "unat off + unat ?sz \<le> N" using M(1) by simp
    obtain iov s2 where r: "crawl_data ino off ?sz COMMIT_NONE callback_read (replicate ?nb None) s1 = Some (0, iov, s2)"
        "read_inv (\<lambda>n. n \<noteq> l) (unat off) f ?nb s1 (unat off + unat ?sz) iov s2"
      by (rule crawl_data_read [OF at1 st1 fr le M(2) refl])
    have t2: "touched s1 s2" using r(2) by (simp add: read_inv_def)
    have b2: "mem l s2 = Some b" using b1 touched_mem(1) [OF t2] by simp
    obtain s3 s4 where w: "crawl_inode ino COMMIT_ATOMIC callback_set_atime now s2 = Some (0, now, s4)" "noted s2 s3"
        "put_mem l (set_inode_atime b ?a now) s3 = Some s4"
      by (rule write_inode_ok [OF inode_at_touched [OF t2 at1] b2,
            where cb = callback_set_atime and u = now and upd = "\<lambda>b a. set_inode_atime b a now"])
         (simp_all add: callback_set_atime_def)
    have t3: "touched s s3" using touched_noted [OF touched_trans [OF t1 t2] w(2)] .
    have m4: "mem n s4 = (if n = l then Some (set_inode_atime b ?a now) else mem n s)" for n
      using mem_put_mem [OF w(3)] touched_mem(1) [OF t3] by simp
    have "bitmap_clean (block_alloc s4)" "bitmap_clean (inode_alloc s4)" using cl [OF t3] w(3) by (auto simp: put_mem_eq_Some)
    note c4 = clean_commit(1) [OF this]
    have "iov_bytes s4 iov = Some (map f [unat off..<unat off + unat ?sz])"
      by (rule iov_bytes_ok [OF r(2)]) (use M(2) unat_pos [of ?sz] m4 touched_mem(1) [OF t1] in simp_all)
    then have "iov_bytes s4 iov = Some (map f [unat off..<min (unat off + unat sz) N])" unfolding M(1) .
    note bytes = this
    have le: "(inode_nbytes b ?a \<le> off) = False" "(inode_nlinks b ?a = 0) = False" using True F(2,4) by (simp_all add: word_le_nat_alt)
    have "fuse_read cal now ino sz off s = Some (Reply_bytes (map f [unat off..<min (unat off + unat sz) N]), s4)"
      unfolding fuse_read_def Let_def s1(1)
      by (simp only: Option.bind.simps prod.case fst_conv snd_conv deref.simps b1 le F(3) check_simps if_False
          not_False_eq_True not_True_eq_False cal M(3) r(1) w(1) c4 bytes order_refl less_irrefl)
    then show ?thesis using m4 cal by auto
  qed
qed

text \<open>A memory with one file: inode 2 has 5000 bytes, a block of nines and a hole, below an indirect block.\<close>

definition sample_mount :: fs where
  "sample_mount = sample_fs\<lparr>bpram := (bpram sample_fs)
     [0 := put_u64 (put_u64 zero_block 24 64) 32 3,
      2 := put_u64 (put_u64 zero_block 0 32) 8 4096,
      3 := put_u64 (put_u64 (put_u32 (put_u32 zero_block 144 0x81A4) 148 1) 160 41) 168 5000]\<rparr>"

lemma sample_mount_mem:
  "mem 1 sample_mount = Some (put_u64 (put_u64 zero_block 24 64) 32 3)"
  "mem 3 sample_mount = Some (put_u64 (put_u64 zero_block 0 32) 8 4096)"
  "mem 4 sample_mount = Some (put_u64 (put_u64 (put_u32 (put_u32 zero_block 144 0x81A4) 148 1) 160 41) 168 5000)"
  "mem 5 sample_mount = Some (put_u64 zero_block 0 7)" "mem 7 sample_mount = Some (\<lambda>_. 9)"
  by (simp_all add: mem_def sample_mount_def sample_fs_def)

lemma sample_mount_resident: "n \<in> {1, 3, 4, 5, 7} \<Longrightarrow> resident n sample_mount"
  by (auto simp: resident_def sample_mount_def sample_fs_def)

lemma sample_inode_at: "inode_at 2 sample_mount 3 (- 1) 4"
proof -
  have h: "ha_height 32 = 0" "ha_addr 32 = 4" by code_simp+
  have "root_at (Bpram 3) 0 sample_mount 0 4 4096"
    using h by (simp add: root_at_def sample_mount_mem root_nbytes_def root_ha_def get_put_u64_same get_put_u64_other)
  moreover have "map_option super_inode_root_addr (get_super sample_mount) = Some 3"
    by (simp add: get_super_def sample_mount_mem super_inode_root_addr_def get_put_u64_same)
  moreover have "inode_alloc sample_mount = sample_bitmap" "length (indir_mapping sample_mount) = 64"
    by (simp_all add: sample_mount_def sample_fs_def)
  moreover have "\<exists>h a N. root_at (Bpram 3) 0 sample_mount h a N \<and> unat (2 :: u64) * 128 \<le> N \<and>
      leaf_at h sample_mount (- 1) a (inode_pos 2 div 4096) = Some (- 1, 4)"
    by (rule exI [of _ 0], rule exI [of _ 4], rule exI [of _ 4096]) (use calculation in simp)
  ultimately show ?thesis
    using sample_mount_resident [of 3] sample_mount_resident [of 4] unfolding inode_at_def
    by (simp add: sample_bitmap_def)
qed

lemma sample_file: "regular_file 2 sample_mount 4
  (put_u64 (put_u64 (put_u32 (put_u32 zero_block 144 0x81A4) 148 1) 160 41) 168 5000) 5000 (\<lambda>x. if x < 4096 then 9 else 0)"
proof -
  let ?b = "put_u64 (put_u64 (put_u32 (put_u32 zero_block 144 0x81A4) 148 1) 160 41) 168 5000"
  have h: "ha_height 41 = 1" "ha_addr 41 = 5" by code_simp+
  have pos: "inode_pos 2 mod 4096 = 128" by (simp add: inode_pos_def)
  have i: "inode_nlinks ?b 128 = 1" "inode_mode ?b 128 = 0x81A4" "inode_nbytes ?b 128 = 5000" "root_ha ?b (inode_root_off 128) = 41"
    by code_simp+
  have ind: "indir_addr (put_u64 zero_block 0 7) (of_nat k) = (if k = 0 then 7 else 0)" if "k < 2" for k
  proof -
    have "indir_addr (put_u64 zero_block 0 7) (of_nat 0) = 7" "indir_addr (put_u64 zero_block 0 7) (of_nat 1) = 0" by code_simp+
    then show ?thesis using that by (cases "k = 0") (simp_all add: less_2_cases_iff)
  qed
  have "leaf_ok 7 sample_mount" "leaf_ok 0 sample_mount"
    using sample_mount_resident [of 7] by (simp_all add: leaf_ok_def sample_mount_def sample_fs_def)
  then have leaves: "k < 512 \<longrightarrow> k * 4096 < 5000 \<longrightarrow>
      tree_reads (\<lambda>n. n \<noteq> 4) 0 sample_mount (indir_addr (put_u64 zero_block 0 7) (of_nat k))
        (\<lambda>x. if k * 4096 + x < 4096 then 9 else 0) (5000 - k * 4096)" for k
    using ind [of k] by (cases "k = 0") (auto simp: leaf_ptr_def sample_mount_mem zero_block_def)
  have "file_reads (\<lambda>n. n \<noteq> 4) (Bpram 4) (inode_root_off 128) sample_mount 5000 (\<lambda>x. if x < 4096 then 9 else 0)"
    using leaves sample_mount_resident [of 5] i h by (simp add: file_reads_def sample_mount_mem)
  moreover have "staged (ac sample_mount) []" using new_cache_linked(1) [of 0] by (auto simp: staged_def sample_mount_def sample_fs_def)
  moreover have "bitmap_clean (block_alloc sample_mount)" "bitmap_clean (inode_alloc sample_mount)"
    by (simp_all add: sample_mount_def sample_fs_def bitmap_clean_def sample_bitmap_def)
  ultimately show ?thesis
    using sample_inode_at i by (auto simp: regular_file_def pos sample_mount_mem BPFS_S_ISREG_def)
qed

text \<open>A read of ten bytes around the border between the block and the hole.\<close>

theorem fuse_read_contents_witness:
  "\<exists>s'. fuse_read True 77 2 10 4090 sample_mount = Some (Reply_bytes [9, 9, 9, 9, 9, 9, 0, 0, 0, 0], s') \<and>
     mem 7 s' = Some (\<lambda>_. 9)"
proof -
  have "map (\<lambda>x. if x < 4096 then 9 else 0 :: u8) [unat (4090 :: u64)..<min (unat (4090 :: u64) + unat (10 :: u64)) 5000] =
      [9, 9, 9, 9, 9, 9, 0, 0, 0, 0]" by code_simp
  with fuse_read_contents [OF sample_file, of 10 True 77 4090] show ?thesis
    by (auto simp: sample_mount_mem)
qed

end
