(* ===== verification/Tree_Write.thy ===== *)
theory Tree_Write
  imports File_Read
begin

text \<open>
  The effect of replacing one leaf of a tree on the bytes of the file. A tree whose blocks are not
  shared reads, after one leaf got new contents or moved to another block, like the old file with
  the bytes of that leaf replaced.
\<close>

section \<open>The blocks of a tree\<close>

primrec foot :: "nat \<Rightarrow> fs \<Rightarrow> u64 \<Rightarrow> nat \<Rightarrow> u64 set" where
  "foot 0 s a lim = {a} - {0}"
| "foot (Suc h) s a lim = insert a (case mem a s of None \<Rightarrow> {} | Some b \<Rightarrow>
     \<Union>k\<in>{k. k < 512 \<and> k * capacity h < lim}. foot h s (indir_addr b (of_nat k)) (lim - k * capacity h))"

text \<open>No block occurs twice in the tree.\<close>

primrec unshared :: "nat \<Rightarrow> fs \<Rightarrow> u64 \<Rightarrow> nat \<Rightarrow> bool" where
  "unshared 0 s a lim \<longleftrightarrow> True"
| "unshared (Suc h) s a lim \<longleftrightarrow> (case mem a s of None \<Rightarrow> False | Some b \<Rightarrow>
     (\<forall>k < 512. k * capacity h < lim \<longrightarrow> unshared h s (indir_addr b (of_nat k)) (lim - k * capacity h) \<and>
        a \<notin> foot h s (indir_addr b (of_nat k)) (lim - k * capacity h) \<and>
        (\<forall>j < 512. j * capacity h < lim \<longrightarrow> j \<noteq> k \<longrightarrow>
           foot h s (indir_addr b (of_nat j)) (lim - j * capacity h) \<inter>
           foot h s (indir_addr b (of_nat k)) (lim - k * capacity h) = {})))"

definition same_size :: "fs \<Rightarrow> fs \<Rightarrow> bool" where
  "same_size s s' \<longleftrightarrow> length (bpram s') = length (bpram s) \<and> length (indir_mapping s') = length (indir_mapping s)"

lemma same_size_ok: "same_size s s' \<Longrightarrow> resident a s' = resident a s" "same_size s s' \<Longrightarrow> leaf_ok a s' = leaf_ok a s"
  by (simp_all add: same_size_def resident_def leaf_ok_def)

lemma tree_reads_frame:
  assumes "tree_reads P h s a f lim" and "\<forall>n \<in> foot h s a lim. mem n s' = mem n s" and "same_size s s'"
  shows "tree_reads P h s' a f lim"
  using assms(1,2)
proof (induction h arbitrary: a f lim)
  case 0
  then show ?case using same_size_ok [OF assms(3)] by (cases "a = 0") (auto simp: leaf_ptr_def)
next
  case (Suc h)
  then obtain b where b: "mem a s = Some b" "\<forall>k < 512. k * capacity h < lim \<longrightarrow>
      tree_reads P h s (indir_addr b (of_nat k)) (\<lambda>x. f (k * capacity h + x)) (lim - k * capacity h)" by auto
  have "mem a s' = Some b" using Suc.prems(2) b(1) by simp
  moreover have "tree_reads P h s' (indir_addr b (of_nat k)) (\<lambda>x. f (k * capacity h + x)) (lim - k * capacity h)"
    if "k < 512" "k * capacity h < lim" for k
    using Suc.IH b that Suc.prems(2) by auto
  ultimately show ?case using Suc.prems(1) same_size_ok [OF assms(3)] by auto
qed

lemma tree_reads_cong:
  assumes "tree_reads P h s a f lim" and "\<And>x. x < capacity h \<Longrightarrow> x < lim \<Longrightarrow> f' x = f x"
  shows "tree_reads P h s a f' lim"
  using assms
proof (induction h arbitrary: a f f' lim)
  case (Suc h)
  then obtain b where b: "mem a s = Some b" "\<forall>k < 512. k * capacity h < lim \<longrightarrow>
      tree_reads P h s (indir_addr b (of_nat k)) (\<lambda>x. f (k * capacity h + x)) (lim - k * capacity h)" by auto
  have "tree_reads P h s (indir_addr b (of_nat k)) (\<lambda>x. f' (k * capacity h + x)) (lim - k * capacity h)"
    if k: "k < 512" "k * capacity h < lim" for k
  proof (rule Suc.IH)
    show "tree_reads P h s (indir_addr b (of_nat k)) (\<lambda>x. f (k * capacity h + x)) (lim - k * capacity h)" using b k by blast
    fix x assume x: "x < capacity h" "x < lim - k * capacity h"
    have "k * capacity h + capacity h \<le> 512 * capacity h" using mult_le_mono1 [of "k + 1" 512 "capacity h"] k(1) by simp
    then have "k * capacity h + x < capacity (Suc h)" "k * capacity h + x < lim" using x by (simp_all only: capacity_simps)
    then show "f' (k * capacity h + x) = f (k * capacity h + x)" by (rule Suc.prems(2))
  qed
  then show ?case using Suc.prems(1) b(1) by auto
qed auto

text \<open>Entry \<open>j\<close> of an indirect block covers block \<open>k\<close>.\<close>

lemma entry_of_block:
  assumes "k * 4096 < lim" "k < 512 ^ Suc h" "j = k div 512 ^ h"
  shows "j < 512" "j * capacity h < lim" "k mod 512 ^ h * 4096 < lim - j * capacity h" "k mod 512 ^ h < 512 ^ h"
    "j * capacity h + k mod 512 ^ h * 4096 = k * 4096"
proof -
  have e: "j * capacity h + k mod 512 ^ h * 4096 = k * 4096"
    using split_index [of k "512 ^ h"] assms(3) by (simp add: capacity_def)
  then show "j * capacity h + k mod 512 ^ h * 4096 = k * 4096" .
  show "j < 512" using assms(2,3) by (simp add: less_mult_imp_div_less)
  show "j * capacity h < lim" "k mod 512 ^ h * 4096 < lim - j * capacity h" using e assms(1) by linarith+
  show "k mod 512 ^ h < 512 ^ h" by simp
qed

lemma leaf_at_foot:
  assumes "leaf_at h s i0 a k = Some (i, l)" and "l \<noteq> 0" and "k * 4096 < lim" and "k < 512 ^ h"
  shows "l \<in> foot h s a lim" "0 < h \<Longrightarrow> i \<in> foot h s a lim"
proof -
  have "l \<in> foot h s a lim \<and> (0 < h \<longrightarrow> i \<in> foot h s a lim)"
    using assms
  proof (induction h arbitrary: i0 a k lim)
    case (Suc h)
    let ?j = "k div 512 ^ h"
    note e = entry_of_block [OF Suc.prems(3,4) refl]
    obtain b where b: "mem a s = Some b" "leaf_at h s a (indir_addr b (of_nat ?j)) (k mod 512 ^ h) = Some (i, l)"
      using Suc.prems(1) by (auto simp: bind_eq_Some_conv split: if_splits)
    have c: "l \<in> foot h s (indir_addr b (of_nat ?j)) (lim - ?j * capacity h) \<and>
        (0 < h \<longrightarrow> i \<in> foot h s (indir_addr b (of_nat ?j)) (lim - ?j * capacity h))"
      by (rule Suc.IH [OF b(2) Suc.prems(2) e(3,4)])
    have "i = a" if "h = 0" using b(2) that by simp
    then show ?case using c b(1) e(1,2) by (cases "h = 0") auto
  qed simp
  then show "l \<in> foot h s a lim" "0 < h \<Longrightarrow> i \<in> foot h s a lim" by blast+
qed

section \<open>Replacing a leaf\<close>

text \<open>\<open>s'\<close> has the leaf \<open>l\<close> of block \<open>k\<close> below \<open>i\<close> replaced by \<open>n\<close>, whose bytes are those of \<open>f'\<close>.\<close>

definition leaf_replaced :: "nat \<Rightarrow> nat \<Rightarrow> u64 \<Rightarrow> u64 \<Rightarrow> u64 \<Rightarrow> u64 set \<Rightarrow> fs \<Rightarrow> fs \<Rightarrow> bool" where
  "leaf_replaced h k i l n S s s' \<longleftrightarrow> same_size s s' \<and> (n = l \<or> n \<notin> S) \<and>
     (\<forall>m \<in> S. m \<noteq> l \<and> (0 < h \<longrightarrow> m \<noteq> i) \<longrightarrow> mem m s' = mem m s) \<and>
     (0 < h \<longrightarrow> (\<exists>b. mem i s = Some b \<and>
        mem i s' = Some (if n = l then b else set_indir_addr b (of_nat (k mod 512)) n)))"

lemma tree_reads_replaced:
  assumes "tree_reads P h s a f lim" and "unshared h s a lim" and "leaf_at h s i0 a k = Some (i, l)"
    and "k * 4096 < lim" and "k < 512 ^ h" and "l \<noteq> 0" and "leaf_replaced h k i l n (foot h s a lim) s s'"
    and n: "n \<noteq> 0" "leaf_ok n s'" "P n" "mem n s' = Some B"
    and "\<forall>x < 4096. k * 4096 + x < lim \<longrightarrow> B x = f' (k * 4096 + x)"
    and "\<forall>x < lim. x div 4096 \<noteq> k \<longrightarrow> f' x = f x"
  shows "tree_reads P h s' (if h = 0 then n else a) f' lim"
  using assms(1-7,12,13)
proof (induction h arbitrary: i0 a f f' k lim)
  case 0
  then show ?case using n by (auto simp: leaf_ptr_def)
next
  case (Suc h)
  let ?j = "k div 512 ^ h" and ?c = "capacity h"
  note e = entry_of_block [OF Suc.prems(4,5) refl]
  obtain b where b: "mem a s = Some b" "leaf_at h s a (indir_addr b (of_nat ?j)) (k mod 512 ^ h) = Some (i, l)"
    using Suc.prems(3) by (auto simp: bind_eq_Some_conv split: if_splits)
  let ?F = "\<lambda>q. foot h s (indir_addr b (of_nat q)) (lim - q * ?c)"
  have U: "unshared h s (indir_addr b (of_nat q)) (lim - q * ?c)" "a \<notin> ?F q" "q' < 512 \<Longrightarrow> q' * ?c < lim \<Longrightarrow> q' \<noteq> q \<Longrightarrow> ?F q' \<inter> ?F q = {}"
    if "q < 512" "q * ?c < lim" for q q' using Suc.prems(2) b(1) that by auto
  have T: "tree_reads P h s (indir_addr b (of_nat q)) (\<lambda>x. f (q * ?c + x)) (lim - q * ?c)" if "q < 512" "q * ?c < lim" for q
    using Suc.prems(1) b(1) that by auto
  have S: "foot (Suc h) s a lim = insert a (\<Union>q\<in>{q. q < 512 \<and> q * ?c < lim}. ?F q)" using b(1) by simp
  note lF = leaf_at_foot(1) [OF b(2) Suc.prems(6) e(3,4)] and iF = leaf_at_foot(2) [OF b(2) Suc.prems(6) e(3,4)]
  have ia: "i = a" if "h = 0" using b(2) that by simp
  have R: "same_size s s'" "n = l \<or> n \<notin> foot (Suc h) s a lim"
    "\<And>m. m \<in> foot (Suc h) s a lim \<Longrightarrow> m \<noteq> l \<Longrightarrow> m \<noteq> i \<Longrightarrow> mem m s' = mem m s"
    "\<exists>c. mem i s = Some c \<and> mem i s' = Some (if n = l then c else set_indir_addr c (of_nat (k mod 512)) n)"
    using Suc.prems(7) by (auto simp: leaf_replaced_def)
  have other: "tree_reads P h s' (indir_addr b (of_nat q)) (\<lambda>x. f' (q * ?c + x)) (lim - q * ?c)"
    if q: "q < 512" "q * ?c < lim" "q \<noteq> ?j" for q
  proof (rule tree_reads_cong)
    have "mem m s' = mem m s" if m: "m \<in> ?F q" for m
    proof (rule R(3))
      show "m \<in> foot (Suc h) s a lim" unfolding S using m q by blast
      show "m \<noteq> l" using U(3) [OF e(1,2) q] lF m by blast
      show "m \<noteq> i" using U(2) [OF q(1,2)] U(3) [OF e(1,2) q] iF ia m by (cases "h = 0") auto
    qed
    then show "tree_reads P h s' (indir_addr b (of_nat q)) (\<lambda>x. f (q * ?c + x)) (lim - q * ?c)"
      using tree_reads_frame [OF T [OF q(1,2)] _ R(1)] by blast
    fix x assume x: "x < ?c" "x < lim - q * ?c"
    have "(q * ?c + x) div 4096 div 512 ^ h = q" using x(1) by (simp add: capacity_def div_mult2_eq [symmetric])
    then have "(q * ?c + x) div 4096 \<noteq> k" using q(3) by auto
    then show "f' (q * ?c + x) = f (q * ?c + x)" using Suc.prems(9) x(2) by simp
  qed
  have res: "resident a s'" "a \<noteq> - 1" using Suc.prems(1) same_size_ok(1) [OF R(1)] by auto
  show ?case
  proof (cases "h = 0")
    case True
    then have k: "?j = k" "k < 512" and l: "l = indir_addr b (of_nat k)" using e(1) b(2) by simp_all
    obtain b' where b': "mem a s' = Some b'" "b' = (if n = l then b else set_indir_addr b (of_nat k) n)"
      using R(4) b(1) ia [OF True] k(2) by auto
    have en: "indir_addr b' (of_nat q) = (if q = k then n else indir_addr b (of_nat q))" if "q < 512" for q
      using that b'(2) k(2) l by (auto simp: indir_addr_set)
    have "tree_reads P 0 s' n (\<lambda>x. f' (k * ?c + x)) (lim - k * ?c)"
      using n Suc.prems(8) True by (auto simp: leaf_ptr_def)
    then have "tree_reads P h s' (indir_addr b' (of_nat q)) (\<lambda>x. f' (q * ?c + x)) (lim - q * ?c)"
      if "q < 512" "q * ?c < lim" for q
      using other [OF that] en [OF that(1)] k(1) True by (cases "q = k") auto
    then show ?thesis using res b'(1) by auto
  next
    case False
    have "a \<noteq> l" "a \<noteq> i" using U(2) [OF e(1,2)] lF iF False by auto
    then have a: "mem a s' = Some b" using R(3) b(1) by simp
    have "leaf_replaced h (k mod 512 ^ h) i l n (?F ?j) s s'"
      unfolding leaf_replaced_def
    proof (intro conjI)
      have "(512 :: nat) dvd 512 ^ h" using False by (simp add: dvd_power)
      then have m: "k mod 512 ^ h mod 512 = k mod 512" by (rule mod_mod_cancel)
      show "0 < h \<longrightarrow> (\<exists>b. mem i s = Some b \<and> mem i s' = Some (if n = l then b else set_indir_addr b (of_nat (k mod 512 ^ h mod 512)) n))"
        unfolding m using R(4) by blast
      show "n = l \<or> n \<notin> ?F ?j" "\<forall>m \<in> ?F ?j. m \<noteq> l \<and> (0 < h \<longrightarrow> m \<noteq> i) \<longrightarrow> mem m s' = mem m s"
        using R(2,3) False e(1,2) unfolding S by auto
    qed (rule R(1))
    then have "tree_reads P h s' (if h = 0 then n else indir_addr b (of_nat ?j)) (\<lambda>x. f' (?j * ?c + x)) (lim - ?j * ?c)"
    proof (rule Suc.IH [OF T [OF e(1,2)] U(1) [OF e(1,2)] b(2) e(3,4) Suc.prems(6)])
      have "?j * ?c + (k mod 512 ^ h * 4096 + x) = k * 4096 + x" for x using e(5) by linarith
      then show "\<forall>x < 4096. k mod 512 ^ h * 4096 + x < lim - ?j * ?c \<longrightarrow> B x = f' (?j * ?c + (k mod 512 ^ h * 4096 + x))"
        using Suc.prems(8) by (metis less_diff_conv add.commute)
      show "\<forall>x < lim - ?j * ?c. x div 4096 \<noteq> k mod 512 ^ h \<longrightarrow> f' (?j * ?c + x) = f (?j * ?c + x)"
      proof (intro allI impI)
        fix x assume x: "x < lim - ?j * ?c" "x div 4096 \<noteq> k mod 512 ^ h"
        have "(?j * ?c + x) div 4096 = ?j * 512 ^ h + x div 4096"
          using div_4096(1) [of "512 ^ h" ?c ?j x] by (simp add: capacity_def)
        then have "(?j * ?c + x) div 4096 \<noteq> k" using x(2) div_mult_mod_eq [of k "512 ^ h"] by linarith
        then show "f' (?j * ?c + x) = f (?j * ?c + x)" using Suc.prems(9) x(1) by simp
      qed
    qed
    then have "tree_reads P h s' (indir_addr b (of_nat q)) (\<lambda>x. f' (q * ?c + x)) (lim - q * ?c)"
      if "q < 512" "q * ?c < lim" for q
      using other [OF that] False by (cases "q = ?j") auto
    then show ?thesis using res a by auto
  qed
qed

end
