(* ===== verification/File_Write.thy ===== *)
theory File_Write
  imports Tree_Write
begin

text \<open>
  Overwriting part of one block of a file: the data goes into the block itself when it fits into one
  atomic store, and otherwise into a fresh copy that replaces the old block with a single write of
  its number. Afterwards the file has the new bytes and no others changed.
\<close>

section \<open>The inode and its surroundings\<close>

primrec path :: "nat \<Rightarrow> fs \<Rightarrow> u64 \<Rightarrow> nat \<Rightarrow> u64 set" where
  "path 0 s a k = {}"
| "path (Suc h) s a k = insert a (case mem a s of None \<Rightarrow> {} | Some b \<Rightarrow>
     path h s (indir_addr b (of_nat (k div 512 ^ h))) (k mod 512 ^ h))"

text \<open>The blocks that lead to inode \<open>ino\<close>: the super block, the root of the inode file and the indirect
  blocks of the inode file.\<close>

definition inode_blocks :: "u64 \<Rightarrow> fs \<Rightarrow> u64 \<Rightarrow> u64 set" where
  "inode_blocks ino s ir = {1, ir} \<union> (case mem ir s of None \<Rightarrow> {} | Some R \<Rightarrow>
     path (unat (ha_height (root_ha R 0))) s (ha_addr (root_ha R 0)) (inode_pos ino div 4096))"

lemma leaf_at_frame:
  assumes "\<forall>n \<in> path h s a k. mem n s' = mem n s" and "same_size s s'"
  shows "leaf_at h s' i a k = leaf_at h s i a k"
  using assms(1)
proof (induction h arbitrary: i a k)
  case (Suc h)
  then show ?case using same_size_ok(1) [OF assms(2)] by (cases "mem a s") auto
qed simp

lemma inode_at_frame:
  assumes at: "inode_at ino s ir i l" and m: "\<forall>n \<in> inode_blocks ino s ir. mem n s' = mem n s"
    and ss: "same_size s s'" and ia: "inode_alloc s' = inode_alloc s"
  shows "inode_at ino s' ir i l" "same_inodes ir s s'"
proof -
  have ir: "mem ir s' = mem ir s" "get_super s' = get_super s" using m by (simp_all add: inode_blocks_def get_super_def)
  then show si: "same_inodes ir s s'" using ia by (simp add: same_inodes_def)
  obtain h a N where h: "root_at (Bpram ir) 0 s h a N" "unat ino * 128 \<le> N"
      "leaf_at h s (- 1) a (inode_pos ino div 4096) = Some (i, l)" using at by (auto simp: inode_at_def)
  obtain R where R: "mem ir s = Some R" "unat (ha_height (root_ha R 0)) = h" "ha_addr (root_ha R 0) = a"
    using h(1) by (auto simp: root_at_def)
  have "\<forall>n \<in> path h s a (inode_pos ino div 4096). mem n s' = mem n s" using m R by (auto simp: inode_blocks_def)
  then have "leaf_at h s' (- 1) a (inode_pos ino div 4096) = Some (i, l)" using leaf_at_frame ss h(3) by simp
  moreover have "root_at (Bpram ir) 0 s' h a N" using h(1) same_inodes_root [OF si] by simp
  moreover have "resident n s' = resident n s" "length (indir_mapping s') = length (indir_mapping s)" for n
    using ss by (simp_all add: same_size_def resident_def)
  ultimately show "inode_at ino s' ir i l" using at ir(2) ia h(2) unfolding inode_at_def by auto
qed

section \<open>The callback\<close>

text \<open>The bytes behind the last one that the anti-cache's table has an entry for are in use, so that
  every fresh block has an entry.\<close>

definition mapping_ok :: "fs \<Rightarrow> bool" where
  "mapping_ok s \<longleftrightarrow> (\<forall>n. resident n s \<and> unat n - 1 \<notin> bitmap_used (block_alloc s) \<longrightarrow> unat n < length (indir_mapping s))"

text \<open>A write of \<open>buf\<close> at \<open>off\<close> is done by one store. Such a store goes through a window of 1, 2, 4 or 8 bytes, picked by the size of the
  write alone, and what lies behind the window is not stored.\<close>

definition fits_in_place :: "nat \<Rightarrow> u8 list \<Rightarrow> bool" where
  "fits_in_place off buf \<longleftrightarrow> can_atomic_write (of_nat (off mod 4096)) (of_nat (length buf))"

definition stored_bytes :: "nat \<Rightarrow> u8 list \<Rightarrow> u8 list" where
  "stored_bytes off buf = (let w = atomic_window (length buf) in if fits_in_place off buf then take (w - off mod w) buf else buf)"

lemma stored_bytes_mod: "stored_bytes (off mod 4096) buf = stored_bytes off buf"
proof -
  have "atomic_window n dvd 4096" for n by (simp add: atomic_window_def)
  then show ?thesis by (simp add: stored_bytes_def fits_in_place_def mod_mod_cancel Let_def)
qed

lemma stored_bytes_facts:
  assumes "buf \<noteq> []"
  shows "stored_bytes off buf \<noteq> []" "length (stored_bytes off buf) \<le> length buf"
    "i < length (stored_bytes off buf) \<Longrightarrow> stored_bytes off buf ! i = buf ! i"
    "\<not> fits_in_place off buf \<Longrightarrow> stored_bytes off buf = buf"
    "stored_bytes off buf = buf \<longleftrightarrow> \<not> fits_in_place off buf \<or> window_fits (atomic_window (length buf)) off (length buf)"
proof -
  have lt: "off mod atomic_window n < atomic_window n" for n by (simp add: atomic_window_def)
  show "stored_bytes off buf \<noteq> []" "length (stored_bytes off buf) \<le> length buf"
    "i < length (stored_bytes off buf) \<Longrightarrow> stored_bytes off buf ! i = buf ! i"
    "\<not> fits_in_place off buf \<Longrightarrow> stored_bytes off buf = buf"
    using assms lt [of "length buf"] by (auto simp: stored_bytes_def Let_def)
  have "take k buf = buf \<longleftrightarrow> length buf \<le> k" for k by (auto simp: take_all_iff)
  then show "stored_bytes off buf = buf \<longleftrightarrow> \<not> fits_in_place off buf \<or> window_fits (atomic_window (length buf)) off (length buf)"
    using lt [of "length buf"] by (auto simp: stored_bytes_def Let_def window_fits_def)
qed

lemma one_block_stored:
  assumes "one_block off (length buf)"
  shows "one_block off (length (stored_bytes off buf))"
proof -
  have ne: "buf \<noteq> []" using assms by (auto simp: one_block_def)
  note S = stored_bytes_facts(1,2) [OF ne, of off]
  have "off div 4096 \<le> (off + length (stored_bytes off buf) - 1) div 4096" using S(1) by (intro div_le_mono) (cases "stored_bytes off buf", auto)
  moreover have "(off + length (stored_bytes off buf) - 1) div 4096 \<le> (off + length buf - 1) div 4096" using S(2) by (intro div_le_mono) simp
  ultimately show ?thesis using assms S(1) unfolding one_block_def by auto
qed

lemma blk_copy_nth: "blk_copy b d src 0 n x = (if d \<le> x \<and> x < d + n then src (x - d) else b x)"
  by (simp add: blk_copy_def)

lemma write_buf_ok:
  assumes "unat pl = length buf" and "unat po + unat pl \<le> 4096" and "0 < unat pl"
  shows "write_buf buf 0 po pl b = Some (blk_copy b (unat po) (\<lambda>i. buf ! i) 0 (length (stored_bytes (unat po) buf)))"
proof (cases "can_atomic_write po pl")
  case True
  have m: "unat po mod 4096 = unat po" using assms(2,3) by simp
  have c: "can_atomic_write (of_nat (unat po)) (of_nat (unat pl))" using True by simp
  then have f: "fits_in_place (unat po) buf" using assms(1) m by (simp add: fits_in_place_def)
  have lt: "unat po + unat pl < 2 ^ 32" using assms(2) by simp
  have n: "1 \<le> unat pl" "unat pl \<le> 8" using can_atomic_write_nat [OF lt] c by simp_all
  let ?w = "atomic_window (unat pl)"
  have "atomic_memcpy b (unat po) (\<lambda>i. buf ! i) (unat pl) = Some (ATOMIC_MEMCPY_X ?w b (unat po) (\<lambda>i. buf ! i) (unat pl))"
    using n c by (simp add: atomic_memcpy_def atomic_window_def)
  moreover have "0 < ?w" by (simp add: atomic_window_def)
  then have "ATOMIC_MEMCPY_X ?w b (unat po) (\<lambda>i. buf ! i) (unat pl) =
      blk_copy b (unat po) (\<lambda>i. buf ! i) 0 (min (unat pl) (?w - unat po mod ?w))" by (rule blk_copy_window)
  moreover have "length (stored_bytes (unat po) buf) = min (unat pl) (?w - unat po mod ?w)"
    using f assms(1) by (simp add: stored_bytes_def Let_def min.commute)
  ultimately show ?thesis using True assms(1) by (simp add: write_buf_def)
next
  case False
  have "unat po mod 4096 = unat po" using assms(2,3) by simp
  then have "\<not> fits_in_place (unat po) buf" using False assms(1) by (simp add: fits_in_place_def flip: assms(1))
  then show ?thesis using assms(1) False by (simp add: write_buf_def stored_bytes_def Let_def)
qed

lemma put_mem_fields:
  assumes "put_mem n b s = Some s'"
  shows "blocks_ok s' = blocks_ok s" "same_size s s'" "inode_alloc s' = inode_alloc s" "ac s' = ac s"
    "block_alloc s' = block_alloc s" "indir_mapping s' = indir_mapping s"
  using assms by (auto simp: put_mem_eq_Some blocks_ok_def same_size_def)

text \<open>A block \<open>m\<close> of the file that the transaction may replace.\<close>

definition live_block :: "u64 \<Rightarrow> fs \<Rightarrow> bool" where
  "live_block m s \<longleftrightarrow> resident m s \<and> 3 \<le> unat m \<and> unat m < length (indir_mapping s) \<and>
     unat m - 1 \<in> bitmap_used (block_alloc s) \<and> m - 1 \<notin> set (bm_frees (block_alloc s))"

text \<open>What a successful call leaves: block \<open>n\<close>, \<open>m\<close> itself or a fresh one, holds the bytes \<open>B\<close>.\<close>

definition block_written :: "u64 \<Rightarrow> u64 \<Rightarrow> block \<Rightarrow> fs \<Rightarrow> fs \<Rightarrow> bool" where
  "block_written m n B s s' \<longleftrightarrow> resident n s' \<and> (n = m \<or> unat n - 1 \<notin> bitmap_used (block_alloc s)) \<and>
     mem n s' = Some B \<and> (\<forall>q. q \<noteq> n \<longrightarrow> mem q s' = mem q s) \<and> blocks_ok s' \<and> same_size s s' \<and>
     inode_alloc s' = inode_alloc s \<and> (\<exists>bs. staged (ac s') bs) \<and> unat n < length (indir_mapping s')"

lemma assign_access:
  assumes "mem n s = Some b" "get_super s \<noteq> None" "n \<noteq> 1" "unat n < length (indir_mapping s)" "staged (ac s) bs"
  obtains s1 a bs' where "put_mem n B s = Some s1" "access_block n s1 = Some (s1\<lparr>ac := a\<rparr>)" "staged a bs'"
proof -
  obtain s1 where s1: "put_mem n B s = Some s1" using assms(1) by (auto simp: mem_def put_mem_def split: if_splits)
  have "get_super s1 \<noteq> None" using assms(2,3) mem_put_mem [OF s1, of 1] by (simp add: get_super_def)
  then obtain a bs' where "access_block n s1 = Some (s1\<lparr>ac := a\<rparr>)" "staged a bs'"
    using access_block_ok [of s1 n bs] assms(4,5) put_mem_fields(4,6) [OF s1] by auto
  then show ?thesis using that s1 by blast
qed

lemma block_written_put:
  assumes s1: "put_mem n B s = Some s1" and n: "resident n s" "n = m \<or> unat n - 1 \<notin> bitmap_used (block_alloc s0)"
    and o: "\<And>q. q \<noteq> n \<Longrightarrow> mem q s = mem q s0" and k: "blocks_ok s" "same_size s0 s" "inode_alloc s = inode_alloc s0"
    and a: "staged a bs" and t: "unat n < length (indir_mapping s)"
  shows "block_written m n B s0 (s1\<lparr>ac := a\<rparr>)"
proof -
  have m1: "mem q (s1\<lparr>ac := a\<rparr>) = (if q = n then Some B else mem q s)" for q using mem_put_mem [OF s1, of q] by simp
  have "resident n (s1\<lparr>ac := a\<rparr>)" using resident_put_mem [OF s1, of n] n(1) by simp
  moreover have "mem n (s1\<lparr>ac := a\<rparr>) = Some B" "\<forall>q. q \<noteq> n \<longrightarrow> mem q (s1\<lparr>ac := a\<rparr>) = mem q s0" using m1 o by simp_all
  moreover have "blocks_ok (s1\<lparr>ac := a\<rparr>)" using put_mem_fields(1) [OF s1] k(1) by (simp add: blocks_ok_def)
  moreover have "same_size s0 (s1\<lparr>ac := a\<rparr>)" using k(2) put_mem_fields(2) [OF s1] by (simp add: same_size_def)
  moreover have "inode_alloc (s1\<lparr>ac := a\<rparr>) = inode_alloc s0" using k(3) put_mem_fields(3) [OF s1] by simp
  moreover have "staged (ac (s1\<lparr>ac := a\<rparr>)) bs" using a by simp
  moreover have "unat n < length (indir_mapping (s1\<lparr>ac := a\<rparr>))" using t put_mem_fields(6) [OF s1] by simp
  ultimately show ?thesis using n(2) unfolding block_written_def by blast
qed

lemma callback_write_ok:
  assumes ok: "blocks_ok s" and m: "live_block m s" "mem m s = Some b" and st: "staged (ac s) bs" and sup: "get_super s \<noteq> None"
    and tb: "mapping_ok s" and w: "unat pl = length buf" "0 < unat pl" "unat po + unat pl \<le> unat pv" "unat pv \<le> 4096"
    and bo: "bo * 4096 + ucast po - c = 0"
  shows "if write_inplace COMMIT_ATOMIC po pl pv \<or> \<not> blocks_full s
    then \<exists>n B s'. callback_write bo (Bpram m) po pl pv c COMMIT_ATOMIC buf m s = Some (0, n, buf, s') \<and>
       block_written m n B s s' \<and>
       (\<forall>x < unat pv. B x = (if unat po \<le> x \<and> x < unat po + length (stored_bytes (unat po) buf) then buf ! (x - unat po) else b x))
    else callback_write bo (Bpram m) po pl pv c COMMIT_ATOMIC buf m s = Some (- ENOSPC, m, buf, s)"
proof -
  have M: "resident m s" "3 \<le> unat m" "unat m < length (indir_mapping s)" "unat m - 1 \<in> bitmap_used (block_alloc s)"
    "m - 1 \<notin> set (bm_frees (block_alloc s))" using m(1) by (auto simp: live_block_def)
  obtain x where x: "delete_lru_entry m (ac s) = Some x" "staged x bs" using delete_staged [OF st] by blast
  let ?n = "length (stored_bytes (unat po) buf)"
  have wb: "write_buf buf 0 po pl d = Some (blk_copy d (unat po) (\<lambda>i. buf ! i) 0 ?n)" for d
    by (rule write_buf_ok [OF w(1)]) (use w in simp_all)
  show ?thesis
  proof (cases "write_inplace COMMIT_ATOMIC po pl pv")
    case True
    have "m \<noteq> 1" using M(2) by auto
    then obtain s1 a bs1 where s1: "put_mem m (blk_copy b (unat po) (\<lambda>i. buf ! i) 0 ?n) s = Some s1"
        "access_block m s1 = Some (s1\<lparr>ac := a\<rparr>)" "staged a bs1"
      using assign_access [OF m(2) sup _ M(3) st] by blast
    have "block_written m m (blk_copy b (unat po) (\<lambda>i. buf ! i) 0 ?n) s (s1\<lparr>ac := a\<rparr>)"
      by (rule block_written_put [OF s1(1) M(1) _ _ ok _ _ s1(3) M(3)]) (simp_all add: same_size_def)
    moreover have "callback_write bo (Bpram m) po pl pv c COMMIT_ATOMIC buf m s = Some (0, m, buf, s1\<lparr>ac := a\<rparr>)"
      using True m(2) wb s1 bo by (simp add: callback_write_def)
    moreover have "\<forall>x < unat pv. blk_copy b (unat po) (\<lambda>i. buf ! i) 0 ?n x =
        (if unat po \<le> x \<and> x < unat po + ?n then buf ! (x - unat po) else b x)" by (simp add: blk_copy_nth)
    ultimately show ?thesis using True by (simp only: if_True simp_thms) blast
  next
    case False
    have le: "unat po + unat pl \<le> 4096" using w by simp
    have "unat po < 4096" using w by linarith
    then have "unat po mod 4096 = unat po" by simp
    then have "\<not> fits_in_place (unat po) buf" using False w(1) by (simp add: fits_in_place_def write_inplace_def flip: w(1))
    then have nn: "?n = unat pl" using w(1) by (simp add: stored_bytes_def Let_def)
    obtain n s1 where c1: "cow_block m po pl pv s = Some (n, s1)" "blocks_ok s1" "same_rest s s1"
      and c2: "if blocks_full s then n = 0 \<and> s1 = s
     else resident n s1 \<and> unat n - 1 \<notin> bitmap_used (block_alloc s) \<and>
       (\<exists>b b'. mem m s = Some b \<and> mem n s1 = Some b' \<and>
          (\<forall>i. i < unat po \<or> unat po + unat pl \<le> i \<and> i < unat pv \<longrightarrow> b' i = b i)) \<and>
       (\<forall>q. q \<noteq> n \<longrightarrow> mem q s1 = mem q s) \<and> ac s1 = x \<and>
       bm_allocs (block_alloc s1) = (n - 1) # bm_allocs (block_alloc s) \<and>
       bm_frees (block_alloc s1) = (m - 1) # bm_frees (block_alloc s)"
      using cow_block_ok [OF ok M(1,2,4,5) x(1) le w(4)] by blast
    show ?thesis
    proof (cases "blocks_full s")
      case True
      then show ?thesis using False c1(1) c2 by (simp add: callback_write_def)
    next
      case nf: False
      then obtain b' where n: "resident n s1" "unat n - 1 \<notin> bitmap_used (block_alloc s)" "mem n s1 = Some b'"
          "\<And>i. i < unat po \<or> unat po + unat pl \<le> i \<and> i < unat pv \<Longrightarrow> b' i = b i"
          "\<And>q. q \<noteq> n \<Longrightarrow> mem q s1 = mem q s" "ac s1 = x"
        using c2 m(2) by auto
      have sz: "same_size s s1" "inode_alloc s1 = inode_alloc s" using c1(3) by (simp_all add: same_rest_def same_size_def)
      have "resident n s" using n(1) same_size_ok(1) [OF sz(1)] by simp
      then have tn: "unat n < length (indir_mapping s1)" using tb n(2) sz(1) by (auto simp: mapping_ok_def same_size_def)
      have n1: "n \<noteq> 1" using n(2) ok by (auto simp: blocks_ok_def bitmap_persistent_def)
      have "get_super s1 \<noteq> None" using sup n(5) n1 by (simp add: get_super_def)
      then obtain s2 a bs2 where s2: "put_mem n (blk_copy b' (unat po) (\<lambda>i. buf ! i) 0 ?n) s1 = Some s2"
          "access_block n s2 = Some (s2\<lparr>ac := a\<rparr>)" "staged a bs2"
        using assign_access [OF n(3) _ n1 tn, of bs] n(6) x(2) by blast
      have "block_written m n (blk_copy b' (unat po) (\<lambda>i. buf ! i) 0 ?n) s (s2\<lparr>ac := a\<rparr>)"
        by (rule block_written_put [OF s2(1) n(1) _ n(5) c1(2) sz s2(3) tn]) (use n(2) in simp)
      moreover have "n \<noteq> 0" "n AND disk_bit = 0" using n(1) by (simp_all add: resident_def)
      then have "callback_write bo (Bpram m) po pl pv c COMMIT_ATOMIC buf m s = Some (0, n, buf, s2\<lparr>ac := a\<rparr>)"
        using False c1(1) n(3) wb s2 bo by (simp add: callback_write_def)
      moreover have "\<forall>x < unat pv. blk_copy b' (unat po) (\<lambda>i. buf ! i) 0 ?n x =
          (if unat po \<le> x \<and> x < unat po + ?n then buf ! (x - unat po) else b x)"
        using n(4) nn by (auto simp: blk_copy_nth not_less not_le)
      ultimately show ?thesis using nf by (simp only: simp_thms if_True) blast
    qed
  qed
qed

section \<open>The crawl over the file\<close>

definition kept :: "fs \<Rightarrow> fs \<Rightarrow> bool" where
  "kept s s' \<longleftrightarrow> blocks_ok s' \<and> same_size s s' \<and> inode_alloc s' = inode_alloc s \<and> (\<exists>bs. staged (ac s') bs)"

text \<open>Block \<open>n\<close> with the bytes \<open>B\<close> has taken the place of \<open>m\<close>; when \<open>n\<close> is not \<open>m\<close> the block \<open>p\<close>, with the root at
  \<open>ro\<close> or an indirect block, has the new number and nothing else has changed.\<close>

definition repointed :: "nat \<Rightarrow> u64 \<Rightarrow> nat \<Rightarrow> nat \<Rightarrow> u64 \<Rightarrow> u64 \<Rightarrow> block \<Rightarrow> fs \<Rightarrow> fs \<Rightarrow> bool" where
  "repointed h p ro k m n B s s' \<longleftrightarrow> mem n s' = Some B \<and> (n = m \<or> unat n - 1 \<notin> bitmap_used (block_alloc s)) \<and>
     resident n s \<and> unat n < length (indir_mapping s) \<and> kept s s' \<and>
     (\<forall>q. q \<noteq> n \<and> (q = p \<longrightarrow> n = m) \<longrightarrow> mem q s' = mem q s) \<and>
     (n \<noteq> m \<longrightarrow> (\<exists>c. mem p s = Some c \<and> mem p s' = Some (if h = 0
        then set_root_ha c ro (mk_ha (ha_height (root_ha c ro)) n) else set_indir_addr c (of_nat (k mod 512)) n)))"

lemma kept_put_mem: "put_mem n b s1 = Some s2 \<Longrightarrow> kept s s1 \<Longrightarrow> kept s s2"
  using put_mem_fields [of n b s1 s2] by (simp add: kept_def same_size_def)

lemma repoint_ok:
  assumes w: "block_written m n B s s1" and p: "p = (if h = 0 then l else j)" "mem p s = Some c" "p \<noteq> m"
    "unat p - 1 \<in> bitmap_used (block_alloc s)" and len: "length (bpram s) < 2 ^ 61"
  shows "\<exists>s2. tree_repoint (Bpram l) ro h j k m 0 n s1 = Some s2 \<and> repointed h p ro k m n B s s2"
proof -
  have W: "resident n s1" "n = m \<or> unat n - 1 \<notin> bitmap_used (block_alloc s)" "mem n s1 = Some B"
    "\<And>q. q \<noteq> n \<Longrightarrow> mem q s1 = mem q s" "same_size s s1" "unat n < length (indir_mapping s)"
    using w by (auto simp: block_written_def same_size_def)
  have k: "kept s s1" using w by (auto simp: block_written_def kept_def)
  have rn: "resident n s" using W(1) same_size_ok(1) [OF W(5)] by simp
  have pn: "p \<noteq> n" using p(3,4) W(2) by auto
  show ?thesis
  proof (cases "n = m")
    case True
    then have "tree_repoint (Bpram l) ro h j k m 0 n s1 = Some s1" by (simp add: tree_repoint_def repoint_def)
    then show ?thesis using True W k rn unfolding repointed_def by blast
  next
    case False
    let ?c = "if h = 0 then set_root_ha c ro (mk_ha (ha_height (root_ha c ro)) n) else set_indir_addr c (of_nat (k mod 512)) n"
    have c1: "mem p s1 = Some c" using W(4) [OF pn] p(2) by simp
    then obtain s2 where s2: "put_mem p ?c s1 = Some s2" by (auto simp: put_mem_def mem_def split: if_splits)
    have "unat n < 2 ^ 61" using rn len by (simp add: resident_def)
    then have n: "n \<le> BPFS_TREE_ROOT_MAX_ADDR" by (simp add: word_le_nat_alt)
    have "of_nat (k mod 512) < (512 :: u64)" by (simp add: word_less_nat_alt unsigned_of_nat take_bit_nat_eq_self)
    then have "tree_repoint (Bpram l) ro h j k m 0 n s1 = Some s2"
      using s2 c1 p(1) False n by (simp add: tree_repoint_def repoint_def indir_set_def ha_set_addr_def split: if_splits)
    moreover have "mem q s2 = (if q = p then Some ?c else mem q s1)" for q by (rule mem_put_mem [OF s2])
    ultimately show ?thesis
      using False W(2,3,4,6) kept_put_mem [OF s2 k] rn pn p(2) unfolding repointed_def by (intro exI [of _ s2]) simp
  qed
qed

lemma noted_facts:
  assumes "noted s s1"
  shows "mem n s1 = mem n s" "blocks_ok s1 = blocks_ok s" "live_block n s1 = live_block n s" "ac s1 = ac s"
    "blocks_full s1 = blocks_full s" "mapping_ok s1 = mapping_ok s" "get_super s1 = get_super s" "same_size s s1"
    "block_alloc s1 = block_alloc s" "inode_alloc s1 = inode_alloc s"
proof -
  obtain mp where "length mp = length (indir_mapping s)" "s1 = s\<lparr>indir_mapping := mp\<rparr>" using assms unfolding noted_def by blast
  then show "mem n s1 = mem n s" "blocks_ok s1 = blocks_ok s" "live_block n s1 = live_block n s" "ac s1 = ac s"
    "blocks_full s1 = blocks_full s" "mapping_ok s1 = mapping_ok s" "get_super s1 = get_super s" "same_size s s1"
    "block_alloc s1 = block_alloc s" "inode_alloc s1 = inode_alloc s"
    by (simp_all add: blocks_ok_def live_block_def blocks_full_def mapping_ok_def get_super_def same_size_def mem_def resident_def)
qed

lemma repointed_noted:
  assumes "noted s s1" and "repointed h p ro k m n B s1 s2"
  shows "repointed h p ro k m n B s s2"
  using assms(2) noted_facts [OF assms(1)] unfolding repointed_def kept_def by (simp add: same_size_def resident_def)

text \<open>A write of \<open>buf\<close> from \<open>off\<close> stays in one block of a tree of \<open>N\<close> bytes.\<close>

definition overwrite :: "nat \<Rightarrow> u8 list \<Rightarrow> nat \<Rightarrow> bool" where
  "overwrite off buf N \<longleftrightarrow> one_block off (length buf) \<and> off + length buf \<le> N \<and> N \<le> 2 ^ 57"

text \<open>The bytes of the block after the write.\<close>

definition overlaid :: "nat \<Rightarrow> u8 list \<Rightarrow> nat \<Rightarrow> block \<Rightarrow> block \<Rightarrow> bool" where
  "overlaid off buf N b B \<longleftrightarrow> (\<forall>x < 4096. off div 4096 * 4096 + x < N \<longrightarrow>
     B x = (if off mod 4096 \<le> x \<and> x < off mod 4096 + length buf then buf ! (x - off mod 4096) else b x))"

lemma word_block_offset:
  assumes "unat (po :: u32) = unat (off :: u64) mod 4096"
  shows "off div 4096 * 4096 + ucast po - off = 0"
proof -
  have "unat (ucast po :: u64) = unat (off mod 4096)" using assms by (simp add: unsigned_ucast_eq unat_mod take_bit_nat_eq_self)
  then have "ucast po = off mod 4096" by (simp only: unat_inject)
  then show ?thesis by (simp add: word_mod_div_equality)
qed

text \<open>The call of the callback in a crawl of one block.\<close>

lemma leaf_call_write:
  assumes ok: "blocks_ok s" and m: "live_block m s" "mem m s = Some b" and st: "staged (ac s) bs"
    and sup: "get_super s \<noteq> None" and tb: "mapping_ok s" and w: "overwrite (unat off) buf N" "unat sz = length buf"
  shows "\<exists>s1. noted s s1 \<and>
    (if fits_in_place (unat off) buf \<or> \<not> blocks_full s
     then \<exists>n B s'. leaf_call callback_write COMMIT_ATOMIC off sz N j m buf s 0 n buf s' \<and>
       block_written m n B s1 s' \<and> overlaid (unat off) (stored_bytes (unat off) buf) N b B
     else leaf_call callback_write COMMIT_ATOMIC off sz N j m buf s (- ENOSPC) m buf s1)"
proof -
  have lm: "leaf_ok m s" "resident m s" using m(1) by (auto simp: live_block_def leaf_ok_def)
  obtain s1 where s1: "note_parent m j s = Some s1" "noted s s1" using note_parent_leaf [OF lm(1) sup] by blast
  note F = noted_facts [OF s1(2)]
  let ?o = "unat off mod 4096" and ?v = "min (N - unat off div 4096 * 4096) 4096"
  let ?po = "of_nat ?o :: u32" and ?pl = "of_nat (length buf) :: u32" and ?pv = "of_nat ?v :: u32"
  have O: "?o + length buf \<le> 4096" "0 < length buf" using w(1) one_block_bound by (auto simp: overwrite_def one_block_def)
  have "?o + length buf \<le> N - unat off div 4096 * 4096"
    using w(1) div_mult_mod_eq [of "unat off" 4096] unfolding overwrite_def by linarith
  then have V: "?o + length buf \<le> ?v" using O(1) by simp
  have small: "unat (of_nat x :: u32) = x" if "x \<le> 4096" for x :: nat
    using that by (simp add: unsigned_of_nat take_bit_nat_eq_self)
  have "?o \<le> 4096" "length buf \<le> 4096" "?v \<le> 4096" using O by simp_all
  then have u: "unat ?po = ?o" "unat ?pl = length buf" "unat ?pv = ?v" by (simp_all only: small)
  have "\<not> unat ?pv \<le> unat ?po" unfolding u using V O(2) by linarith
  then have ip: "write_inplace COMMIT_ATOMIC ?po ?pl ?pv = fits_in_place (unat off) buf"
    by (simp only: write_inplace_def fits_in_place_def word_le_nat_alt) simp
  have call: "leaf_call callback_write COMMIT_ATOMIC off sz N j m buf s r n buf s'"
    if "callback_write (off div 4096) (Bpram m) ?po ?pl ?pv off COMMIT_ATOMIC buf m s1 = Some (r, n, buf, s')" "r \<le> 1" for r n s'
    unfolding leaf_call_def using that lm(2) s1(1) u w(2) by auto
  have bo: "off div 4096 * 4096 + ucast ?po - off = 0" using word_block_offset u(1) .
  have sb: "stored_bytes (unat ?po) buf = stored_bytes (unat off) buf" unfolding u(1) by (rule stored_bytes_mod)
  have "0 < unat ?pl" "unat ?po + unat ?pl \<le> unat ?pv" "unat ?pv \<le> 4096" using u V O(2) by simp_all
  then have C: "if fits_in_place (unat off) buf \<or> \<not> blocks_full s
    then \<exists>n B s'. callback_write (off div 4096) (Bpram m) ?po ?pl ?pv off COMMIT_ATOMIC buf m s1 = Some (0, n, buf, s') \<and>
       block_written m n B s1 s' \<and>
       (\<forall>x < unat ?pv. B x = (if unat ?po \<le> x \<and> x < unat ?po + length (stored_bytes (unat off) buf) then buf ! (x - unat ?po) else b x))
    else callback_write (off div 4096) (Bpram m) ?po ?pl ?pv off COMMIT_ATOMIC buf m s1 = Some (- ENOSPC, m, buf, s1)"
    using callback_write_ok [of s1 m b bs ?pl buf ?po ?pv "off div 4096" off, unfolded sb] ok m st sup tb u(2) bo F(1-7) ip by simp
  show ?thesis
  proof (cases "fits_in_place (unat off) buf \<or> \<not> blocks_full s")
    case True
    then obtain n B s' where n: "callback_write (off div 4096) (Bpram m) ?po ?pl ?pv off COMMIT_ATOMIC buf m s1 = Some (0, n, buf, s')"
        "block_written m n B s1 s'"
        "\<forall>x < unat ?pv. B x = (if unat ?po \<le> x \<and> x < unat ?po + length (stored_bytes (unat off) buf) then buf ! (x - unat ?po) else b x)" using C by auto
    have "overlaid (unat off) (stored_bytes (unat off) buf) N b B"
      using n(3) stored_bytes_facts(3) [of buf _ "unat off"] O(2) unfolding u overlaid_def by auto
    then show ?thesis using True call [OF n(1)] n(2) s1(2) by auto
  next
    case False
    then have "callback_write (off div 4096) (Bpram m) ?po ?pl ?pv off COMMIT_ATOMIC buf m s1 = Some (- ENOSPC, m, buf, s1)"
      using C by simp
    then show ?thesis using False call s1(2) by auto
  qed
qed

lemma crawl_tree_write:
  assumes rt: "root_at (Bpram l) ro s h a N" and lf: "leaf_at h s (- 1) a (unat off div 4096) = Some (j, m)"
    and ok: "blocks_ok s" "length (bpram s) < 2 ^ 61" and m: "live_block m s" "mem m s = Some b" and st: "staged (ac s) bs"
    and sup: "get_super s \<noteq> None" and tb: "mapping_ok s" and w: "overwrite (unat off) buf N" "unat sz = length buf"
    and p: "p = (if h = 0 then l else j)" "mem p s \<noteq> None" "p \<noteq> m" "unat p - 1 \<in> bitmap_used (block_alloc s)"
    and l: "l \<noteq> m" "unat l - 1 \<in> bitmap_used (block_alloc s)" "0 < h \<longrightarrow> j \<noteq> l"
  shows "if fits_in_place (unat off) buf \<or> \<not> blocks_full s
    then \<exists>n B s'. crawl_tree (Bpram l) ro off sz COMMIT_ATOMIC callback_write buf l s = Some (0, l, buf, s') \<and>
       repointed h p ro (unat off div 4096) m n B s s' \<and> overlaid (unat off) (stored_bytes (unat off) buf) N b B
    else \<exists>s'. crawl_tree (Bpram l) ro off sz COMMIT_ATOMIC callback_write buf l s = Some (- ENOSPC, l, buf, s') \<and> noted s s'"
proof -
  obtain s1 where s1: "noted s s1" and C: "if fits_in_place (unat off) buf \<or> \<not> blocks_full s
     then \<exists>n B s'. leaf_call callback_write COMMIT_ATOMIC off sz N j m buf s 0 n buf s' \<and>
       block_written m n B s1 s' \<and> overlaid (unat off) (stored_bytes (unat off) buf) N b B
     else leaf_call callback_write COMMIT_ATOMIC off sz N j m buf s (- ENOSPC) m buf s1"
    using leaf_call_write [OF ok(1) m st sup tb w] by blast
  note F = noted_facts [OF s1]
  have rng: "unat off + unat sz \<le> N" "one_block (unat off) (unat sz)" using w by (simp_all add: overwrite_def)
  note crawl = crawl_tree_single [OF rt lf rng]
  have root: "root_at (Bpram l) ro s' h a N" if "mem l s' = mem l s" for s' using rt that by (simp add: root_at_def)
  show ?thesis
  proof (cases "fits_in_place (unat off) buf \<or> \<not> blocks_full s")
    case True
    then obtain n B s2 where n: "leaf_call callback_write COMMIT_ATOMIC off sz N j m buf s 0 n buf s2"
        "block_written m n B s1 s2" "overlaid (unat off) (stored_bytes (unat off) buf) N b B" using C by auto
    obtain c where c: "mem p s1 = Some c" using p(2) F(1) by auto
    have "unat p - 1 \<in> bitmap_used (block_alloc s1)" "length (bpram s1) < 2 ^ 61"
      using p(4) F(8,9) ok(2) by (simp_all add: same_size_def)
    then obtain s3 where s3: "tree_repoint (Bpram l) ro h j (unat off div 4096) m 0 n s2 = Some s3"
        "repointed h p ro (unat off div 4096) m n B s1 s3"
      using repoint_ok [OF n(2) p(1) c p(3)] by blast
    have R: "repointed h p ro (unat off div 4096) m n B s s3" using repointed_noted [OF s1 s3(2)] .
    then have ln: "l \<noteq> n" using l(1,2) by (auto simp: repointed_def)
    then have m2: "mem l s2 = mem l s" using n(2) F(1) by (simp add: block_written_def)
    have "mem l s3 = mem l s" if "0 < h" using R ln l(3) p(1) that by (simp add: repointed_def)
    with m2 have "root_at (Bpram l) ro (if h = 0 then s2 else s3) h a N" using root by simp
    from crawl [OF n(1) s3(1) this] show ?thesis using True R n(3) by auto
  next
    case False
    then have "leaf_call callback_write COMMIT_ATOMIC off sz N j m buf s (- ENOSPC) m buf s1" using C by simp
    from crawl [OF this, of s1] have "crawl_tree (Bpram l) ro off sz COMMIT_ATOMIC callback_write buf l s = Some (- ENOSPC, l, buf, s1)"
      using root F(1) by (simp add: tree_repoint_def repoint_def)
    then show ?thesis using False s1 by auto
  qed
qed

end
