(* ===== verification/File_Overwrite.thy ===== *)
theory File_Overwrite
  imports File_Write
begin

text \<open>
  The handler \<^verbatim>\<open>fuse_write\<close> on a range inside of one block of a file: afterwards the file has the new
  bytes in the range and the old ones everywhere else, or there was no space and nothing changed.
\<close>

section \<open>The leaf of a tree\<close>

lemma leaf_at_reads:
  assumes "tree_reads P h s a f lim" and "leaf_at h s i0 a k = Some (i, l)" and "l \<noteq> 0" and "k * 4096 < lim" and "k < 512 ^ h"
  shows "\<exists>b. mem l s = Some b \<and> (\<forall>x < 4096. k * 4096 + x < lim \<longrightarrow> b x = f (k * 4096 + x))"
  using assms
proof (induction h arbitrary: i0 a f k lim)
  case 0
  then show ?case by (auto simp: leaf_ptr_def)
next
  case (Suc h)
  let ?j = "k div 512 ^ h" and ?c = "capacity h"
  note e = entry_of_block [OF Suc.prems(4,5) refl]
  obtain b where b: "mem a s = Some b" "leaf_at h s a (indir_addr b (of_nat ?j)) (k mod 512 ^ h) = Some (i, l)"
    using Suc.prems(2) by (auto simp: bind_eq_Some_conv split: if_splits)
  have "tree_reads P h s (indir_addr b (of_nat ?j)) (\<lambda>x. f (?j * ?c + x)) (lim - ?j * ?c)" using Suc.prems(1) b(1) e(1,2) by auto
  from Suc.IH [OF this b(2) Suc.prems(3) e(3,4)] obtain d where d: "mem l s = Some d"
      "\<And>x. x < 4096 \<Longrightarrow> k mod 512 ^ h * 4096 + x < lim - ?j * ?c \<Longrightarrow> d x = f (?j * ?c + (k mod 512 ^ h * 4096 + x))" by blast
  have "d x = f (k * 4096 + x)" if "x < 4096" "k * 4096 + x < lim" for x
  proof -
    have "?j * ?c + (k mod 512 ^ h * 4096 + x) = k * 4096 + x" using e(5) by linarith
    then show ?thesis using d(2) [OF that(1)] that(2) by (metis less_diff_conv add.commute)
  qed
  then show ?case using d(1) by blast
qed

lemma leaf_at_parent:
  assumes "unshared h s a lim" and "leaf_at h s i0 a k = Some (i, l)" and "l \<noteq> 0" and "k * 4096 < lim" and "k < 512 ^ h" and "0 < h"
  shows "i \<noteq> l" "\<exists>b. mem i s = Some b"
proof -
  have "i \<noteq> l \<and> (\<exists>b. mem i s = Some b)"
    using assms
  proof (induction h arbitrary: i0 a k lim)
    case (Suc h)
    let ?j = "k div 512 ^ h" and ?c = "capacity h"
    note e = entry_of_block [OF Suc.prems(4,5) refl]
    obtain b where b: "mem a s = Some b" "leaf_at h s a (indir_addr b (of_nat ?j)) (k mod 512 ^ h) = Some (i, l)"
      using Suc.prems(2) by (auto simp: bind_eq_Some_conv split: if_splits)
    have U: "unshared h s (indir_addr b (of_nat ?j)) (lim - ?j * ?c)" "a \<notin> foot h s (indir_addr b (of_nat ?j)) (lim - ?j * ?c)"
      using Suc.prems(1) b(1) e(1,2) by auto
    show ?case
    proof (cases "h = 0")
      case True
      then have "i = a" using b(2) by simp
      then show ?thesis using leaf_at_foot(1) [OF b(2) Suc.prems(3) e(3,4)] U(2) b(1) by auto
    next
      case False
      then show ?thesis using Suc.IH [OF U(1) b(2) Suc.prems(3) e(3,4)] by simp
    qed
  qed simp
  then show "i \<noteq> l" "\<exists>b. mem i s = Some b" by blast+
qed

lemma foot_mem:
  assumes "\<And>n. mem n s' = mem n s"
  shows "foot h s' a lim = foot h s a lim" "unshared h s' a lim = unshared h s a lim"
proof -
  show f: "foot h s' a lim = foot h s a lim" for h a lim by (induction h arbitrary: a lim) (simp_all add: assms split: option.split)
  show "unshared h s' a lim = unshared h s a lim" by (induction h arbitrary: a lim) (simp_all add: assms f split: option.split)
qed

lemma inode_blocks_mem:
  assumes "\<And>n. mem n s' = mem n s"
  shows "inode_blocks ino s' ir = inode_blocks ino s ir"
proof -
  have "path h s' a k = path h s a k" for h a k by (induction h arbitrary: a k) (simp_all add: assms split: option.split)
  then show ?thesis by (simp add: inode_blocks_def assms split: option.split)
qed

section \<open>The file before and after\<close>

definition file_root :: "u64 \<Rightarrow> nat" where
  "file_root ino = inode_root_off (inode_pos ino mod 4096)"

text \<open>The blocks of the file, of the inode and on the way to it are in use and distinct.\<close>

definition separate :: "u64 \<Rightarrow> fs \<Rightarrow> u64 \<Rightarrow> u64 \<Rightarrow> nat \<Rightarrow> u64 \<Rightarrow> nat \<Rightarrow> bool" where
  "separate ino s ir l h a N \<longleftrightarrow> unshared h s a N \<and> l \<notin> foot h s a N \<and> l \<notin> inode_blocks ino s ir \<and>
     foot h s a N \<inter> inode_blocks ino s ir = {} \<and>
     (\<forall>n \<in> insert l (foot h s a N \<union> inode_blocks ino s ir). unat n - 1 \<in> bitmap_used (block_alloc s))"

text \<open>The file's block \<open>k\<close> is allocated and may be replaced.\<close>

definition writable_file :: "u64 \<Rightarrow> fs \<Rightarrow> u64 \<Rightarrow> block \<Rightarrow> nat \<Rightarrow> (nat \<Rightarrow> u8) \<Rightarrow> nat \<Rightarrow> bool" where
  "writable_file ino s l b N f k \<longleftrightarrow> regular_file ino s l b N f \<and> blocks_ok s \<and> length (bpram s) < 2 ^ 61 \<and> mapping_ok s \<and>
     (\<exists>ir i h a j m. inode_at ino s ir i l \<and> root_at (Bpram l) (file_root ino) s h a N \<and> separate ino s ir l h a N \<and>
        leaf_at h s (- 1) a k = Some (j, m) \<and> live_block m s)"

definition written :: "nat \<Rightarrow> u8 list \<Rightarrow> (nat \<Rightarrow> u8) \<Rightarrow> nat \<Rightarrow> u8" where
  "written off buf f x = (if off \<le> x \<and> x < off + length buf then buf ! (x - off) else f x)"

text \<open>The inode's block after the crawl and the update of the modification time.\<close>

definition new_inode :: "u64 \<Rightarrow> nat \<Rightarrow> u64 \<Rightarrow> u64 \<Rightarrow> u32 \<Rightarrow> block \<Rightarrow> block" where
  "new_inode ino h m n now b = set_inode_mtime (if h = 0 \<and> n \<noteq> m
     then set_root_ha b (file_root ino) (mk_ha (ha_height (root_ha b (file_root ino))) n) else b) (inode_pos ino mod 4096) now"

lemma new_inode_fields:
  fixes ino h m n now b
  defines "B \<equiv> new_inode ino h m n now b" and "p \<equiv> inode_pos ino mod 4096" and "r \<equiv> file_root ino"
  shows "inode_nlinks B p = inode_nlinks b p" "inode_mode B p = inode_mode b p" "inode_nbytes B p = inode_nbytes b p"
    "root_nbytes B r = root_nbytes b r" "inode_mtime B p = now"
    "root_ha B r = (if h = 0 \<and> n \<noteq> m then mk_ha (ha_height (root_ha b r)) n else root_ha b r)"
  by (simp_all add: B_def p_def r_def new_inode_def file_root_def inode_root_off_def set_inode_mtime_def set_root_ha_def
      inode_nlinks_def inode_mode_def inode_mtime_def root_nbytes_def root_ha_def access_simps)

lemma written_in_block:
  assumes "one_block off (length buf)" and "overlaid off buf N b B" and "\<And>x. x < 4096 \<Longrightarrow> off div 4096 * 4096 + x < N \<Longrightarrow> b x = f (off div 4096 * 4096 + x)"
  shows "\<forall>x < 4096. off div 4096 * 4096 + x < N \<longrightarrow> B x = written off buf f (off div 4096 * 4096 + x)"
    "\<forall>x < N. x div 4096 \<noteq> off div 4096 \<longrightarrow> written off buf f x = f x"
proof -
  obtain q m where q: "q = off div 4096" "m = off mod 4096" by blast
  have o: "off = q * 4096 + m" by (simp add: q)
  have "B x = written off buf f (q * 4096 + x)" if x: "x < 4096" "q * 4096 + x < N" for x
  proof -
    have "B x = (if m \<le> x \<and> x < m + length buf then buf ! (x - m) else f (q * 4096 + x))"
      using assms(2,3) x unfolding overlaid_def q by simp
    then show ?thesis unfolding written_def o by simp
  qed
  then show "\<forall>x < 4096. off div 4096 * 4096 + x < N \<longrightarrow> B x = written off buf f (off div 4096 * 4096 + x)" unfolding q(1) by blast
  have "x div 4096 = q" if "off \<le> x" "x < off + length buf" for x
  proof -
    have "off div 4096 \<le> x div 4096" "x div 4096 \<le> (off + length buf - 1) div 4096" using that by (auto intro: div_le_mono)
    then show ?thesis using assms(1) unfolding one_block_def q(1) by simp
  qed
  then show "\<forall>x < N. x div 4096 \<noteq> off div 4096 \<longrightarrow> written off buf f x = f x" unfolding written_def q(1) by auto
qed

text \<open>The situation of the theorem below, with the parts of the file named.\<close>

definition write_setup :: "u64 \<Rightarrow> fs \<Rightarrow> u64 \<Rightarrow> block \<Rightarrow> nat \<Rightarrow> nat \<Rightarrow> u64 \<Rightarrow> u64 \<Rightarrow> nat \<Rightarrow> u64 \<Rightarrow> u64 \<Rightarrow> nat \<Rightarrow> u64 \<Rightarrow> bool" where
  "write_setup ino s ir b N h a i k j m off l \<longleftrightarrow> inode_at ino s ir i l \<and> mem l s = Some b \<and> k = off div 4096 \<and>
     root_at (Bpram l) (file_root ino) s h a N \<and> separate ino s ir l h a N \<and> leaf_at h s (- 1) a k = Some (j, m) \<and>
     live_block m s \<and> k * 4096 < N \<and> k < 512 ^ h"

lemma write_setup_facts:
  assumes "write_setup ino s ir b N h a i k j m off l"
  shows "m \<noteq> 0" "m \<in> foot h s a N" "l \<noteq> m" "unat l - 1 \<in> bitmap_used (block_alloc s)"
    "0 < h \<Longrightarrow> j \<in> foot h s a N \<and> j \<noteq> l \<and> j \<noteq> m \<and> mem j s \<noteq> None"
    "n \<in> foot h s a N \<union> inode_blocks ino s ir \<Longrightarrow> unat n - 1 \<in> bitmap_used (block_alloc s)"
proof -
  have S: "separate ino s ir l h a N" "leaf_at h s (- 1) a k = Some (j, m)" "k * 4096 < N" "k < 512 ^ h"
    using assms by (auto simp: write_setup_def)
  show m0: "m \<noteq> 0" using assms by (auto simp: write_setup_def live_block_def)
  show mf: "m \<in> foot h s a N" using leaf_at_foot(1) [OF S(2) m0 S(3,4)] .
  show "l \<noteq> m" "unat l - 1 \<in> bitmap_used (block_alloc s)" using S(1) mf by (auto simp: separate_def)
  show "unat n - 1 \<in> bitmap_used (block_alloc s)" if "n \<in> foot h s a N \<union> inode_blocks ino s ir" using S(1) that by (auto simp: separate_def)
  show "j \<in> foot h s a N \<and> j \<noteq> l \<and> j \<noteq> m \<and> mem j s \<noteq> None" if "0 < h"
    using leaf_at_foot(2) [OF S(2) m0 S(3,4) that] leaf_at_parent [OF _ S(2) m0 S(3,4) that] S(1) by (auto simp: separate_def)
qed

text \<open>After the crawl and the update of the inode the file reads as it should.\<close>

lemma file_after:
  assumes ws: "write_setup ino s ir b N h a i k j m off l" and rd: "tree_reads (\<lambda>q. q \<noteq> l) h s a f N"
    and w: "overwrite off buf N" and ov: "overlaid off (stored_bytes off buf) N d B" "mem m s = Some d"
    and R: "repointed h (if h = 0 then l else j) (file_root ino) k m n B s s1" and len: "length (bpram s) < 2 ^ 61"
    and s': "same_size s s'" "\<And>q. q \<noteq> l \<Longrightarrow> mem q s' = mem q s1" "mem l s' = Some (new_inode ino h m n now b)"
  shows "file_reads (\<lambda>q. q \<noteq> l) (Bpram l) (file_root ino) s' N (written off (stored_bytes off buf) f)"
proof -
  note W = write_setup_facts [OF ws]
  have S: "leaf_at h s (- 1) a k = Some (j, m)" "k * 4096 < N" "k < 512 ^ h" "k = off div 4096" "unshared h s a N" "l \<notin> foot h s a N"
    using ws by (auto simp: write_setup_def separate_def)
  have r: "mem n s1 = Some B" "n = m \<or> unat n - 1 \<notin> bitmap_used (block_alloc s)" "resident n s" "unat n < length (indir_mapping s)"
    "\<And>q. q \<noteq> n \<Longrightarrow> q = (if h = 0 then l else j) \<longrightarrow> n = m \<Longrightarrow> mem q s1 = mem q s"
    "n \<noteq> m \<Longrightarrow> 0 < h \<Longrightarrow> \<exists>c. mem j s = Some c \<and> mem j s1 = Some (set_indir_addr c (of_nat (k mod 512)) n)"
    using R by (auto simp: repointed_def)
  have nl: "n \<noteq> l" using r(2) W(3,4) by auto
  have nf: "n = m \<or> n \<notin> foot h s a N" using r(2) W(6) by auto
  have "leaf_replaced h k j m n (foot h s a N) s s'"
    unfolding leaf_replaced_def
  proof (intro conjI)
    show "\<forall>q \<in> foot h s a N. q \<noteq> m \<and> (0 < h \<longrightarrow> q \<noteq> j) \<longrightarrow> mem q s' = mem q s"
    proof (intro ballI impI)
      fix q assume q: "q \<in> foot h s a N" "q \<noteq> m \<and> (0 < h \<longrightarrow> q \<noteq> j)"
      then have "q \<noteq> l" "q \<noteq> n" "q \<noteq> (if h = 0 then l else j)" using S(6) nf by auto
      then show "mem q s' = mem q s" using s'(2) r(5) by metis
    qed
    show "0 < h \<longrightarrow> (\<exists>c. mem j s = Some c \<and> mem j s' = Some (if n = m then c else set_indir_addr c (of_nat (k mod 512)) n))"
    proof
      assume h: "0 < h"
      note J = W(5) [OF h]
      show "\<exists>c. mem j s = Some c \<and> mem j s' = Some (if n = m then c else set_indir_addr c (of_nat (k mod 512)) n)"
        using r(5) [of j] r(6) [OF _ h] s'(2) [of j] J by (cases "n = m") auto
    qed
  qed (use s'(1) nf in auto)
  note LR = this
  have d: "\<And>x. x < 4096 \<Longrightarrow> k * 4096 + x < N \<Longrightarrow> d x = f (k * 4096 + x)"
    using leaf_at_reads [OF rd S(1) W(1) S(2,3)] ov(2) by auto
  have n0: "n \<noteq> 0" "leaf_ok n s'" "mem n s' = Some B"
    using r(1,3,4) nl s'(1) s'(2) [OF nl] by (auto simp: leaf_ok_def resident_def same_size_def)
  have "one_block off (length (stored_bytes off buf))" using w one_block_stored by (simp add: overwrite_def)
  note X = written_in_block [OF this ov(1) d [unfolded S(4)], folded S(4)]
  have T: "tree_reads (\<lambda>q. q \<noteq> l) h s' (if h = 0 then n else a) (written off (stored_bytes off buf) f) N"
    by (rule tree_reads_replaced [OF rd S(5,1,2,3) W(1) LR n0(1,2) nl n0(3) X])
  obtain R0: "unat (root_nbytes b (file_root ino)) = N" "unat (ha_height (root_ha b (file_root ino))) = h"
    "ha_addr (root_ha b (file_root ino)) = a" "h \<le> 5" "N \<le> capacity h" using ws by (auto simp: write_setup_def root_at_def)
  let ?b = "new_inode ino h m n now b" and ?r = "file_root ino"
  have "unat n < 2 ^ 61" using r(3) len by (simp add: resident_def)
  then have na: "n \<le> BPFS_TREE_ROOT_MAX_ADDR" by (simp add: word_le_nat_alt)
  have am: "a = m" if "h = 0" using S(1) that by simp
  have "ha_height (mk_ha (ha_height x) n) = ha_height x" for x unfolding ha_height_mk_ha by (simp add: ha_height_def and.assoc)
  then have ha: "ha_addr (root_ha ?b ?r) = (if h = 0 then n else a)" "ha_height (root_ha ?b ?r) = ha_height (root_ha b ?r)"
    using R0(3) na am unfolding new_inode_fields(6) by (auto simp: ha_addr_mk_ha)
  show ?thesis
    unfolding file_reads_def using s'(3) new_inode_fields(4) [of ino h m n now b] ha R0 T by auto
qed

section \<open>The handler\<close>

lemma crawl_data_write:
  assumes ws: "write_setup ino s ir b N h a i k j m (unat off) l" and ok: "blocks_ok s" "length (bpram s) < 2 ^ 61"
    and st: "staged (ac s) bs" and tb: "mapping_ok s" and w: "overwrite (unat off) buf N" "unat sz = length buf" and d: "mem m s = Some d"
  shows "if fits_in_place (unat off) buf \<or> \<not> blocks_full s
    then \<exists>n B s'. crawl_data ino off sz COMMIT_ATOMIC callback_write buf s = Some (0, buf, s') \<and>
       repointed h (if h = 0 then l else j) (file_root ino) k m n B s s' \<and> overlaid (unat off) (stored_bytes (unat off) buf) N d B
    else \<exists>s'. crawl_data ino off sz COMMIT_ATOMIC callback_write buf s = Some (- ENOSPC, buf, s') \<and> noted s s'"
proof -
  have at: "inode_at ino s ir i l" and rt: "root_at (Bpram l) (file_root ino) s h a N" and S: "separate ino s ir l h a N"
    and lf: "leaf_at h s (- 1) a k = Some (j, m)" "live_block m s" "k = unat off div 4096" and b: "mem l s = Some b"
    using ws by (auto simp: write_setup_def)
  note W = write_setup_facts [OF ws]
  obtain s1 where s1: "note_parent l i s = Some s1" "noted s s1" by (rule inode_at_note [OF at])
  note F = noted_facts [OF s1(2)]
  have t: "touched s s1" using noted_touched s1(2) .
  let ?p = "if h = 0 then l else j"
  have p: "mem ?p s1 \<noteq> None" "?p \<noteq> m" "unat ?p - 1 \<in> bitmap_used (block_alloc s1)"
    using W(3,4,5,6) b F(1,9) by auto
  have "get_super s \<noteq> None" using at by (auto simp: inode_at_def)
  then have pre: "root_at (Bpram l) (file_root ino) s1 h a N" "leaf_at h s1 (- 1) a (unat off div 4096) = Some (j, m)"
    "blocks_ok s1" "length (bpram s1) < 2 ^ 61" "live_block m s1" "mem m s1 = Some d" "staged (ac s1) bs" "get_super s1 \<noteq> None"
    "mapping_ok s1" "unat l - 1 \<in> bitmap_used (block_alloc s1)" "0 < h \<longrightarrow> j \<noteq> l"
    using rt lf leaf_at_touched [OF t] ok st tb d F W(4,5) by (simp_all add: root_at_def same_size_def)
  note C = crawl_tree_write [OF pre(1-9) w refl p W(3) pre(10,11), folded lf(3), unfolded F(5)]
  have inode: "crawl_data ino off sz COMMIT_ATOMIC callback_write buf s = Some (r, buf, s')"
    if "crawl_tree (Bpram l) (file_root ino) off sz COMMIT_ATOMIC callback_write buf l s1 = Some (r, l, buf, s')" "r \<le> 1"
      "same_inodes ir s s'" for r s'
    unfolding crawl_data_def
    by (rule crawl_inode_single [OF at _ s1(1)]) (use that in \<open>auto simp: callback_crawl_data_def file_root_def\<close>)
  show ?thesis
  proof (cases "fits_in_place (unat off) buf \<or> \<not> blocks_full s")
    case True
    then obtain n B s' where n: "crawl_tree (Bpram l) (file_root ino) off sz COMMIT_ATOMIC callback_write buf l s1 = Some (0, l, buf, s')"
        "repointed h ?p (file_root ino) k m n B s1 s'" "overlaid (unat off) (stored_bytes (unat off) buf) N d B" using C by auto
    have R: "repointed h ?p (file_root ino) k m n B s s'" using repointed_noted [OF s1(2) n(2)] .
    have "{1, ir} \<subseteq> inode_blocks ino s ir" by (simp add: inode_blocks_def)
    then have "q \<noteq> n" "q \<noteq> ?p" if "q \<in> {1, ir}" for q
      using that R S W(2,5,6) by (auto simp: repointed_def separate_def)
    then have "mem q s' = mem q s" if "q \<in> {1, ir}" for q using that R by (simp add: repointed_def)
    then have "same_inodes ir s s'" using R by (simp add: same_inodes_def get_super_def repointed_def kept_def)
    then have "crawl_data ino off sz COMMIT_ATOMIC callback_write buf s = Some (0, buf, s')" using inode [OF n(1)] by simp
    then show ?thesis using True R n(3) by (simp only: if_True) blast
  next
    case False
    then obtain s' where "crawl_tree (Bpram l) (file_root ino) off sz COMMIT_ATOMIC callback_write buf l s1 = Some (- ENOSPC, l, buf, s')"
        "noted s1 s'" using C by auto
    moreover have "touched s s'" "noted s s'" using touched_noted [OF t \<open>noted s1 s'\<close>] s1(2) \<open>noted s1 s'\<close> by (auto simp: noted_def)
    ultimately show ?thesis using False inode touched_same_inodes by auto
  qed
qed

lemma commit_ok:
  assumes "blocks_ok s" and "bitmap_clean (inode_alloc s)"
  obtains bm where "bpfs_commit s = Some (s\<lparr>block_alloc := bm\<rparr>)" "bitmap_clean bm"
proof -
  obtain bm where "bitmap_commit (block_alloc s) = Some bm" "bitmap_clean bm"
    using bitmap_commit_ok [of "block_alloc s"] assms(1) by (auto simp: blocks_ok_def bitmap_inv_fixed_def)
  then show ?thesis using that assms(2) by (simp add: bpfs_commit_def commit_blocks_def commit_inodes_def bitmap_clean_commit)
qed

lemma inode_blocks_kept:
  assumes ws: "write_setup ino s ir b N h a i k j m off l" and R: "repointed h (if h = 0 then l else j) (file_root ino) k m n B s s1"
    and q: "q \<in> inode_blocks ino s ir"
  shows "mem q s1 = mem q s" "q \<noteq> l"
proof -
  note W = write_setup_facts [OF ws]
  have S: "separate ino s ir l h a N" using ws by (simp add: write_setup_def)
  show "q \<noteq> l" using S q by (auto simp: separate_def)
  moreover have "q \<noteq> n" "q \<noteq> (if h = 0 then l else j)" using R S W(2,5,6) q by (auto simp: repointed_def separate_def)
  ultimately show "mem q s1 = mem q s" using R by (simp add: repointed_def)
qed

text \<open>The second part of the handler, from the crawl to the commit.\<close>

lemma write_inode_and_commit:
  assumes ws: "write_setup ino s ir b N h a i k j m off l"
    and R: "repointed h (if h = 0 then l else j) (file_root ino) k m n B s s1" and ia: "bitmap_clean (inode_alloc s)"
  obtains s2 s3 where "crawl_inode ino COMMIT_ATOMIC callback_set_mtime now s1 = Some (0, now, s2)" "bpfs_commit s2 = Some s3"
    "same_size s s3" "\<And>q. q \<noteq> l \<Longrightarrow> mem q s3 = mem q s1" "mem l s3 = Some (new_inode ino h m n now b)"
    "inode_alloc s3 = inode_alloc s" "bitmap_clean (block_alloc s3)" "\<exists>bs. staged (ac s3) bs"
proof -
  have at: "inode_at ino s ir i l" and b: "mem l s = Some b" using ws by (auto simp: write_setup_def)
  note W = write_setup_facts [OF ws]
  have K: "blocks_ok s1" "same_size s s1" "inode_alloc s1 = inode_alloc s" "\<exists>bs. staged (ac s1) bs"
    using R by (auto simp: repointed_def kept_def)
  have at1: "inode_at ino s1 ir i l" by (rule inode_at_frame [OF at _ K(2,3)]) (use inode_blocks_kept [OF ws R] in blast)
  let ?b = "if h = 0 \<and> n \<noteq> m then set_root_ha b (file_root ino) (mk_ha (ha_height (root_ha b (file_root ino))) n) else b"
  have nl: "n \<noteq> l" using R W(3,4) by (auto simp: repointed_def)
  have b1: "mem l s1 = Some ?b"
  proof (cases "h = 0 \<and> n \<noteq> m")
    case True
    then show ?thesis using R b by (auto simp: repointed_def)
  next
    case False
    then have "(if h = 0 then l else j) = l \<longrightarrow> n = m" using W(5) by auto
    then show ?thesis using False R b nl by (auto simp: repointed_def)
  qed
  obtain s1' s2 where c: "crawl_inode ino COMMIT_ATOMIC callback_set_mtime now s1 = Some (0, now, s2)" "noted s1 s1'"
      "put_mem l (set_inode_mtime ?b (inode_pos ino mod 4096) now) s1' = Some s2"
    by (rule write_inode_ok [OF at1 b1, where cb = callback_set_mtime and u = now and upd = "\<lambda>b a. set_inode_mtime b a now"])
       (simp_all add: callback_set_mtime_def)
  note F = noted_facts [OF c(2)] and G = put_mem_fields [OF c(3)]
  have "blocks_ok s2" "bitmap_clean (inode_alloc s2)" using K(1,3) F(2,10) G(1,3) ia by simp_all
  then obtain bm where s3: "bpfs_commit s2 = Some (s2\<lparr>block_alloc := bm\<rparr>)" "bitmap_clean bm" by (rule commit_ok)
  show thesis
  proof (rule that [OF c(1) s3(1)])
    show "same_size s (s2\<lparr>block_alloc := bm\<rparr>)" using K(2) F(8) G(2) by (simp add: same_size_def)
    show "mem q (s2\<lparr>block_alloc := bm\<rparr>) = mem q s1" if "q \<noteq> l" for q using mem_put_mem [OF c(3), of q] F(1) that by simp
    show "mem l (s2\<lparr>block_alloc := bm\<rparr>) = Some (new_inode ino h m n now b)" using mem_put_mem [OF c(3), of l] by (simp add: new_inode_def)
    show "\<exists>bs. staged (ac (s2\<lparr>block_alloc := bm\<rparr>)) bs" using K(4) F(4) G(4) by simp
  qed (use K(3) F(10) G(3) s3(2) in simp_all)
qed


section \<open>An example\<close>

text \<open>The file of \<^const>\<open>sample_mount\<close>, with the last block of the device in use.\<close>

definition busy_bitmap :: bitmap where
  "busy_bitmap = sample_bitmap\<lparr>bm_bytes := Some [255, 255, 15, 0, 0, 0, 0, 128], bm_nfree := 43\<rparr>"

definition busy_mount :: fs where
  "busy_mount = sample_mount\<lparr>block_alloc := busy_bitmap\<rparr>"

lemma regular_file_alloc:
  assumes "regular_file ino s l b N f" and "bitmap_clean bm"
  shows "regular_file ino (s\<lparr>block_alloc := bm\<rparr>) l b N f"
proof -
  let ?s = "s\<lparr>block_alloc := bm\<rparr>"
  have ss: "same_size s ?s" by (simp add: same_size_def)
  obtain ir i where "inode_at ino s ir i l" using assms(1) by (auto simp: regular_file_def)
  then have "inode_at ino ?s ir i l" by (rule inode_at_frame(1)) (simp_all add: ss)
  moreover have "file_reads P (Bpram l) r ?s N f" if "file_reads P (Bpram l) r s N f" for P r
    using that tree_reads_frame [OF _ _ ss] by (auto simp: file_reads_def)
  ultimately show ?thesis using assms by (auto simp: regular_file_def)
qed

lemma busy_mount_simps:
  "mem n busy_mount = mem n sample_mount" "block_alloc busy_mount = busy_bitmap" "resident n busy_mount = resident n sample_mount"
  "length (bpram busy_mount) = 64" "length (indir_mapping busy_mount) = 64" "ac busy_mount = new_cache 0"
proof -
  show "mem n busy_mount = mem n sample_mount" "block_alloc busy_mount = busy_bitmap" "resident n busy_mount = resident n sample_mount"
    by (simp_all add: busy_mount_def)
  show "length (bpram busy_mount) = 64" "length (indir_mapping busy_mount) = 64" "ac busy_mount = new_cache 0"
    by (simp_all add: busy_mount_def sample_mount_def sample_fs_def)
qed

lemma busy_used: "0 \<in> bitmap_used busy_bitmap" "1 \<in> bitmap_used busy_bitmap" "2 \<in> bitmap_used busy_bitmap"
  "3 \<in> bitmap_used busy_bitmap" "4 \<in> bitmap_used busy_bitmap" "6 \<in> bitmap_used busy_bitmap" "63 \<in> bitmap_used busy_bitmap"
  by code_simp+

lemma busy_blocks: "blocks_ok busy_mount" "mapping_ok busy_mount" "\<not> blocks_full busy_mount" "bitmap_clean busy_bitmap"
proof -
  have B: "bitmap_inv busy_bitmap" "unat (bm_ntotal busy_bitmap) = 64" "bm_prev_ntotal busy_bitmap = 0" "20 \<notin> bitmap_used busy_bitmap"
    "bm_allocs busy_bitmap = []" "bm_frees busy_bitmap = []" by code_simp+
  then show "blocks_ok busy_mount" "bitmap_clean busy_bitmap"
    using busy_used(1,2) by (simp_all add: blocks_ok_def busy_mount_simps bitmap_inv_fixed_def bitmap_persistent_def bitmap_clean_def)
  have "20 \<in> {..<unat (bm_ntotal busy_bitmap)}" unfolding B(2) by simp
  then show "\<not> blocks_full busy_mount" using B(4) unfolding blocks_full_def busy_mount_simps by blast
  show "mapping_ok busy_mount"
    unfolding mapping_ok_def busy_mount_simps
  proof (intro allI impI)
    fix n assume n: "resident n sample_mount \<and> unat n - 1 \<notin> bitmap_used busy_bitmap"
    then have "unat n - 1 \<noteq> 63" using busy_used(7) by auto
    then show "unat n < 64" using n by (auto simp: resident_def sample_mount_def sample_fs_def)
  qed
qed

lemma busy_root: "root_at (Bpram 4) (file_root 2) busy_mount 1 5 5000" "foot 1 busy_mount 5 5000 = {5, 7}" "unshared 1 busy_mount 5 5000"
  "leaf_at 1 busy_mount (- 1) 5 0 = Some (5, 7)"
proof -
  let ?b = "put_u64 (put_u64 (put_u32 (put_u32 zero_block 144 0x81A4) 148 1) 160 41) 168 5000"
  have h: "ha_height 41 = 1" "ha_addr 41 = 5" "file_root 2 = 160" by code_simp+
  have i: "root_nbytes ?b 160 = 5000" "root_ha ?b 160 = 41" by code_simp+
  have ind: "indir_addr (put_u64 zero_block 0 7) (of_nat 0) = 7" "indir_addr (put_u64 zero_block 0 7) (of_nat 1) = 0" by code_simp+
  have two: "{k. k < 512 \<and> 512 * k < 625} = {0, 1 :: nat}" by auto
  show "root_at (Bpram 4) (file_root 2) busy_mount 1 5 5000"
    by (simp add: root_at_def busy_mount_simps sample_mount_mem h i)
  show "foot 1 busy_mount 5 5000 = {5, 7}"
    using ind by (simp add: busy_mount_simps sample_mount_mem two)
  have "indir_addr (put_u64 zero_block 0 7) (of_nat k) = (if k = 0 then 7 else 0)" if "512 * k < 625" for k
  proof -
    have "k = 0 \<or> k = 1" using that by linarith
    then show ?thesis using ind by auto
  qed
  then show "unshared 1 busy_mount 5 5000"
    by (auto simp: busy_mount_simps sample_mount_mem split: if_splits)
  show "leaf_at 1 busy_mount (- 1) 5 0 = Some (5, 7)"
    using ind sample_mount_resident [of 5] by (simp add: busy_mount_simps sample_mount_mem)
qed

lemma busy_file: "writable_file 2 busy_mount 4
  (put_u64 (put_u64 (put_u32 (put_u32 zero_block 144 0x81A4) 148 1) 160 41) 168 5000) 5000 (\<lambda>x. if x < 4096 then 9 else 0) 0"
proof -
  let ?b = "put_u64 (put_u64 (put_u32 (put_u32 zero_block 144 0x81A4) 148 1) 160 41) 168 5000"
  have R: "regular_file 2 busy_mount 4 ?b 5000 (\<lambda>x. if x < 4096 then 9 else 0)"
    unfolding busy_mount_def by (rule regular_file_alloc [OF sample_file busy_blocks(4)])
  have h: "ha_height 32 = 0" by code_simp
  have ib: "inode_blocks 2 busy_mount 3 = {1, 3}"
    by (simp add: inode_blocks_def busy_mount_simps sample_mount_mem root_ha_def access_simps h)
  have se: "separate 2 busy_mount 3 4 1 5 5000"
    unfolding separate_def busy_root(2) ib busy_mount_simps(2) using busy_root(3) busy_used by (simp del: unshared.simps)
  have "bm_frees busy_bitmap = []" by code_simp
  then have "live_block 7 busy_mount"
    using sample_mount_resident [of 7] busy_used(6) by (auto simp: live_block_def busy_mount_simps)
  moreover have "inode_at 2 busy_mount 3 (- 1) 4"
    using sample_inode_at by (rule inode_at_frame(1)) (simp_all add: busy_mount_def same_size_def)
  moreover have "length (bpram busy_mount) < 2 ^ 61" unfolding busy_mount_simps by simp
  ultimately show ?thesis unfolding writable_file_def using R busy_blocks busy_root se by blast
qed


end
