(* ===== verification/Directories.thy ===== *)
theory Directories
  imports Inodes Dcache
begin

text \<open>
  Directories of \<^verbatim>\<open>bpfs.c\<close>. The blocks of a directory hold entries of variable length, each with the
  length of its record; a record length of 0 ends the entries of a block. The entries of a directory
  in use are in the directory entry cache, which is a second part of the state and is passed
  beside the file system. What the allocations of a call answer is a parameter.
\<close>

section \<open>Entries\<close>

definition set_dirent_ino :: "block \<Rightarrow> nat \<Rightarrow> u64 \<Rightarrow> block" where "set_dirent_ino b a v = put_u64 b a v"
definition set_dirent_rec_len :: "block \<Rightarrow> nat \<Rightarrow> u16 \<Rightarrow> block" where "set_dirent_rec_len b a v = put_u16 b (a + 8) v"
definition set_dirent_file_type :: "block \<Rightarrow> nat \<Rightarrow> u8 \<Rightarrow> block" where "set_dirent_file_type b a v = b(a + 10 := v)"
definition set_dirent_name_len :: "block \<Rightarrow> nat \<Rightarrow> u8 \<Rightarrow> block" where "set_dirent_name_len b a v = b(a + 11 := v)"

text \<open>A name with its end, as it is stored, and the string at the name of an entry; one
  that does not end in its block is not modelled.\<close>

definition name_bytes :: "string \<Rightarrow> u8 list" where
  "name_bytes name = map (\<lambda>c. of_nat (of_char c)) name @ [0]"

definition dirent_name :: "block \<Rightarrow> nat \<Rightarrow> string option" where
  "dirent_name b a = do {
     let bs = map b [dirent_name_off a..<4096];
     check (0 \<in> set bs);
     Some (map (\<lambda>c. char_of (unat c)) (takeWhile (\<lambda>c. c \<noteq> 0) bs))
   }"

text \<open>The answers of \<^verbatim>\<open>malloc\<close>: for a new directory of the cache, for the copy of an entry, for its element of the
  table, for a larger table, for a free entry and for the buffer of a reply.\<close>

record dirs_mem =
  m_dir :: dc_mem
  m_dup :: bool
  m_elt :: bool
  m_table :: hm_mem
  m_free :: bool
  m_buf :: bool

text \<open>A field of an inode, by its number.\<close>

definition inode_get :: "(block \<Rightarrow> nat \<Rightarrow> 'a) \<Rightarrow> u64 \<Rightarrow> fs \<Rightarrow> ('a \<times> fs) option" where
  "inode_get fld ino s = do {
     (ip, s) \<leftarrow> get_inode ino s;
     v \<leftarrow> inode_field fld ip s;
     Some (v, s)
   }"

definition mdirent_init_dirent :: "bptr \<Rightarrow> nat \<Rightarrow> u64 \<Rightarrow> fs \<Rightarrow> (mdirent \<times> fs) option" where
  "mdirent_init_dirent block a off s = do {
     b \<leftarrow> deref block s;
     (gen, s) \<leftarrow> inode_get inode_generation (dirent_ino b a) s;
     name \<leftarrow> dirent_name b a;
     Some (\<lparr>md_name = name, md_off = off, md_ino = dirent_ino b a, md_ino_generation = gen,
        md_rec_len = dirent_rec_len b a, md_file_type = dirent_file_type b a\<rparr>, s)
   }"

section \<open>Reading a directory\<close>

text \<open>The loop over the entries of a block that \<^verbatim>\<open>callback_read_dir\<close>, \<^verbatim>\<open>callback_load_directory\<close> and
  \<^verbatim>\<open>callback_empty_dir\<close> have in common: \<open>at_end\<close> is what they do at a record length of 0 and \<open>entry\<close> what
  they do with an entry in use at \<open>off\<close>, with the offset behind it; \<open>aligned\<close> is the assertion that the last
  one does not make. A result other than 0 ends the loop.\<close>

function dirent_loop ::
  "bool \<Rightarrow> (nat \<Rightarrow> 'u \<Rightarrow> fs \<Rightarrow> (int \<times> 'u \<times> fs) option) \<Rightarrow> (nat \<Rightarrow> nat \<Rightarrow> 'u \<Rightarrow> fs \<Rightarrow> (int \<times> 'u \<times> fs) option) \<Rightarrow>
   bptr \<Rightarrow> nat \<Rightarrow> nat \<Rightarrow> 'u \<Rightarrow> fs \<Rightarrow> (int \<times> 'u \<times> fs) option" where
  "dirent_loop aligned at_end entry block lim off u s =
     (if off + unat BPFS_DIRENT_MIN_LEN \<le> lim then do {
        b \<leftarrow> deref block s;
        check (aligned \<longrightarrow> off mod 8 = 0);
        let rec_len = unat (dirent_rec_len b off);
        if rec_len = 0 then at_end off u s
        else do {
          check (off + rec_len \<le> 4096);
          (r, u, s) \<leftarrow> (if dirent_ino b off \<noteq> BPFS_INO_INVALID then entry off (off + rec_len) u s else Some (0, u, s));
          if r \<noteq> 0 then Some (r, u, s)
          else dirent_loop aligned at_end entry block lim (off + rec_len) u s
        }
      } else Some (0, u, s))"
  by pat_completeness auto
termination by (relation "measure (\<lambda>(_, _, _, _, _, off, _, _). 4096 - off)") auto

declare dirent_loop.simps [simp del]

text \<open>\<^verbatim>\<open>assert(dirent->rec_len >= BPFS_DIRENT_LEN(dirent->name_len))\<close>\<close>

definition dirent_fits :: "block \<Rightarrow> nat \<Rightarrow> bool" where
  "dirent_fits b a \<longleftrightarrow> BPFS_DIRENT_LEN (ucast (dirent_name_len b a)) \<le> ucast (dirent_rec_len b a)"

text \<open>The callback of a \<^verbatim>\<open>struct read_dir_data\<close> gets the number of the block, the offset behind the entry
  and the entry.\<close>

type_synonym 'u read_dir_cb = "u64 \<Rightarrow> nat \<Rightarrow> bptr \<times> nat \<Rightarrow> 'u \<Rightarrow> fs \<Rightarrow> (int \<times> 'u \<times> fs) option"

definition callback_read_dir :: "'u read_dir_cb \<Rightarrow> 'u crawl_callback" where
  "callback_read_dir cb blockoff block off sz vld crawl_start commit u blockno s = do {
     (r, u, s) \<leftarrow> dirent_loop True (\<lambda>a u s. Some (0, u, s))
       (\<lambda>a next u s. do {
          b \<leftarrow> deref block s;
          check (dirent_fits b a);
          cb blockoff next (block, a) u s
        }) block (unat (off + sz)) (unat off) u s;
     Some (r, blockno, u, s)
   }"

definition read_dir :: "u64 \<Rightarrow> u64 \<Rightarrow> 'u read_dir_cb \<Rightarrow> 'u \<Rightarrow> fs \<Rightarrow> (int \<times> 'u \<times> fs) option" where
  "read_dir ino off cb u s = crawl_data ino off BPFS_EOF COMMIT_NONE (callback_read_dir cb) u s"

text \<open>The result of \<^verbatim>\<open>dcache_add_free\<close> and \<^verbatim>\<open>dcache_add_dirent\<close> is 0 or negative.\<close>

definition callback_load_directory :: "dirs_mem \<Rightarrow> u64 \<Rightarrow> dcache crawl_callback" where
  "callback_load_directory m parent_ino blockoff block off sz vld crawl_start commit dc blockno s = do {
     (r, dc, s) \<leftarrow> dirent_loop True
       (\<lambda>a dc s. do {
          (r, dc) \<leftarrow> dcache_add_free (m_free m) parent_ino (blockoff * BPFS_BLOCK_SIZE + of_nat a) (of_nat (4096 - a)) dc;
          Some (r, dc, s)
        })
       (\<lambda>a next dc s. do {
          b \<leftarrow> deref block s;
          check (dirent_fits b a);
          (md, s) \<leftarrow> mdirent_init_dirent block a (blockoff * BPFS_BLOCK_SIZE + of_nat a) s;
          (r, dc) \<leftarrow> dcache_add_dirent (m_dup m) (m_elt m) (m_table m) parent_ino md dc;
          Some (r, dc, s)
        }) block (unat (off + sz)) (unat off) dc s;
     Some (r, blockno, dc, s)
   }"

text \<open>The entry is the cache's own object; nothing frees or changes it while the callers use it, and here
  they get a copy.\<close>

definition find_dirent :: "dirs_mem \<Rightarrow> u64 \<Rightarrow> string \<Rightarrow> dcache \<times> fs \<Rightarrow> (int \<times> mdirent option \<times> dcache \<times> fs) option" where
  "find_dirent m parent_ino name st = do {
     let (dc, s) = st;
     has \<leftarrow> dcache_has_dir dc parent_ino;
     (r, dc, s) \<leftarrow> (if has then Some (0, dc, s)
        else do {
          (r, dc) \<leftarrow> dcache_add_dir (m_dir m) parent_ino dc;
          if r < 0 then Some (r, dc, s)
          else do {
            (r, dc, s) \<leftarrow> crawl_data parent_ino 0 BPFS_EOF COMMIT_NONE (callback_load_directory m parent_ino) dc s;
            if r < 0 then do { dc \<leftarrow> dcache_rem_dir parent_ino dc; Some (r, dc, s) }
            else Some (0, dc, s)
          }
        });
     if r < 0 then Some (r, None, dc, s)
     else do {
       (md, dc) \<leftarrow> dcache_get_dirent parent_ino name dc;
       Some (if md = None then - ENOENT else 0, md, dc, s)
     }
   }"

text \<open>The variable \<^verbatim>\<open>dirent\<close> of \<^verbatim>\<open>get_dirent\<close> is uninitialised (\<open>None\<close>) until the callback sets it.\<close>

definition callback_get_dirent :: "(bptr \<times> nat) option crawl_callback" where
  "callback_get_dirent blockoff block off sz vld crawl_start commit d blockno s = do {
     b \<leftarrow> deref block s;
     check (off + ucast (dirent_rec_len b (unat off)) \<le> vld);
     Some (0, blockno, Some (block, unat off), s)
   }"

text \<open>The result \<open>None\<close> inside of the pair is \<^verbatim>\<open>NULL\<close>.\<close>

definition get_dirent :: "u64 \<Rightarrow> u64 \<Rightarrow> fs \<Rightarrow> ((bptr \<times> nat) option \<times> fs) option" where
  "get_dirent parent_ino dirent_off s = do {
     (n, s) \<leftarrow> inode_get inode_nlinks parent_ino s;
     check (n \<noteq> 0);
     (nbytes, s) \<leftarrow> inode_get inode_nbytes parent_ino s;
     check (dirent_off + BPFS_DIRENT_MIN_LEN \<le> nbytes);
     (r, d, s) \<leftarrow> crawl_data parent_ino dirent_off 1 COMMIT_NONE callback_get_dirent None s;
     if r < 0 then Some (None, s)
     else do { d \<leftarrow> d; Some (Some d, s) }
   }"

section \<open>Adding an entry\<close>

text \<open>\<^verbatim>\<open>struct str_dirent\<close>: the name with its end, and where its entry is.\<close>

record str_dirent =
  sd_str :: "u8 list"
  sd_dirent_off :: u64
  sd_dirent :: "(bptr \<times> nat) option"

definition sd_len :: "str_dirent \<Rightarrow> u64" where
  "sd_len sd = of_nat (length (sd_str sd))"

text \<open>Writing \<^verbatim>\<open>name_len\<close> and the name; the length is cut to eight bits.\<close>

definition put_name :: "block \<Rightarrow> nat \<Rightarrow> u8 list \<Rightarrow> block" where
  "put_name b a str = blk_copy (set_dirent_name_len b a (of_nat (length str))) (dirent_name_off a) (\<lambda>i. str ! i) 0 (length str)"

text \<open>The entry behind a new one, which ends the entries of the block.\<close>

definition end_entries :: "dirs_mem \<Rightarrow> u64 \<Rightarrow> u64 \<Rightarrow> nat \<Rightarrow> block \<Rightarrow> dcache \<Rightarrow> (int \<times> block \<times> dcache) option" where
  "end_entries m parent_ino blockoff next b dc =
     (if next + unat BPFS_DIRENT_MIN_LEN \<le> 4096 then do {
        let b = set_dirent_rec_len b next 0;
        (r, dc) \<leftarrow> dcache_add_free (m_free m) parent_ino (blockoff * BPFS_BLOCK_SIZE + of_nat next) (of_nat (4096 - next)) dc;
        Some (r, b, dc)
      } else Some (0, b, dc))"

text \<open>A copy is never made: \<^verbatim>\<open>assert(COMMIT_COPY == COMMIT_ATOMIC)\<close> fails with the build's settings.\<close>

definition callback_dirent_plug :: "dirs_mem \<Rightarrow> u64 \<Rightarrow> (str_dirent \<times> dcache) crawl_callback" where
  "callback_dirent_plug m parent_ino blockoff block off sz vld crawl_start commit u blockno s = do {
     let (sd, dc) = u;
     let a = unat off;
     let min_hole_size = BPFS_DIRENT_LEN (sd_len sd);
     b \<leftarrow> deref block s;
     check (commit \<noteq> COMMIT_NONE);
     check (a mod 8 = 0);
     check (of_nat a + min_hole_size \<le> ucast (off + sz));
     check (dirent_rec_len b a = 0 \<or> min_hole_size \<le> ucast (dirent_rec_len b a));
     check (a + unat (dirent_rec_len b a) \<le> 4096);
     check (min_hole_size \<le> BPFS_BLOCK_SIZE - of_nat a);
     check (commit \<noteq> COMMIT_COPY);
     (b, dc) \<leftarrow> (if dirent_rec_len b a = 0 then do {
          (r, b, dc) \<leftarrow> end_entries m parent_ino blockoff (a + unat min_hole_size) b dc;
          check (r = 0);
          Some (set_dirent_rec_len (set_dirent_ino b a BPFS_INO_INVALID) a (ucast min_hole_size), dc)
        } else Some (b, dc));
     s \<leftarrow> assign block (put_name b a (sd_str sd)) s;
     Some (1, blockno, (sd\<lparr>sd_dirent_off := blockoff * BPFS_BLOCK_SIZE + ucast off, sd_dirent := Some (block, a)\<rparr>, dc), s)
   }"

definition callback_dirent_append :: "dirs_mem \<Rightarrow> u64 \<Rightarrow> (str_dirent \<times> dcache) crawl_callback" where
  "callback_dirent_append m parent_ino blockoff block off sz vld crawl_start commit u blockno s = do {
     let (sd, dc) = u;
     let hole_size = BPFS_DIRENT_LEN (sd_len sd);
     check (off = 0 \<and> sz = 4096);
     check (crawl_start = blockoff * BPFS_BLOCK_SIZE);
     check (vld = 0);
     check (commit = COMMIT_FREE);
     let sd = sd\<lparr>sd_dirent_off := blockoff * BPFS_BLOCK_SIZE, sd_dirent := Some (block, 0)\<rparr>;
     b \<leftarrow> deref block s;
     (r, b, dc) \<leftarrow> end_entries m parent_ino blockoff (unat hole_size) b dc;
     if r < 0 then do { s \<leftarrow> assign block b s; Some (r, blockno, (sd, dc), s) }
     else do {
       s \<leftarrow> assign block (put_name (set_dirent_rec_len b 0 (ucast hole_size)) 0 (sd_str sd)) s;
       Some (0, blockno, (sd, dc), s)
     }
   }"

definition alloc_dirent :: "dirs_mem \<Rightarrow> u64 \<Rightarrow> str_dirent \<Rightarrow> dcache \<times> fs \<Rightarrow> (int \<times> str_dirent \<times> dcache \<times> fs) option" where
  "alloc_dirent m parent_ino sd st = do {
     let (dc, s) = st;
     (off, dc) \<leftarrow> dcache_take_free parent_ino (ucast (BPFS_DIRENT_LEN (sd_len sd))) dc;
     (r, (sd, dc), s) \<leftarrow> (if off \<noteq> DCACHE_FREE_NONE then do {
          (r, u, s) \<leftarrow> crawl_data parent_ino off (BPFS_BLOCK_SIZE - off mod BPFS_BLOCK_SIZE) COMMIT_ATOMIC
             (callback_dirent_plug m parent_ino) (sd, dc) s;
          check (r = 1);
          Some (r, u, s)
        } else crawl_data parent_ino BPFS_EOF BPFS_BLOCK_SIZE COMMIT_ATOMIC
             (callback_dirent_append m parent_ino) (sd, dc) s);
     if r < 0 then Some (r, sd, dc, s)
     else do {
       check (sd_dirent_off sd \<noteq> BPFS_EOF \<and> sd_dirent sd \<noteq> None);
       Some (0, sd, dc, s)
     }
   }"

section \<open>Linking and unlinking an entry\<close>

text \<open>The inode number of the entry at \<open>off\<close> is changed, in a copy unless it may be written in place. \<open>ino\<close>
  is what the user data points at.\<close>

definition callback_set_dirent_ino :: "('u \<Rightarrow> u64) \<Rightarrow> 'u crawl_callback" where
  "callback_set_dirent_ino ino blockoff block off sz vld crawl_start commit u blockno s = do {
     check (commit \<noteq> COMMIT_NONE);
     check (unat off mod 8 = 0);
     (failed, block, new_blockno, s) \<leftarrow> cow_unless (commit \<noteq> COMMIT_COPY) block blockno s;
     if failed then Some (- ENOSPC, blockno, u, s)
     else do {
       s \<leftarrow> modify block (\<lambda>b. set_dirent_ino b (unat off) (ino u)) s;
       Some (0, new_blockno, u, s)
     }
   }"

definition callback_clear_dirent_ino :: "u64 crawl_callback" where
  "callback_clear_dirent_ino blockoff block off sz vld crawl_start commit u blockno s = do {
     check (commit \<noteq> COMMIT_NONE);
     check (unat off mod 8 = 0);
     (failed, block, new_blockno, s) \<leftarrow> cow_unless (commit \<noteq> COMMIT_COPY) block blockno s;
     if failed then Some (- ENOSPC, blockno, u, s)
     else do {
       b \<leftarrow> deref block s;
       s \<leftarrow> assign block (set_dirent_ino b (unat off) BPFS_INO_INVALID) s;
       Some (0, new_blockno, dirent_ino b (unat off), s)
     }
   }"

record callback_addrem_dirent_data =
  cadd_add :: bool
  cadd_dirent_off :: u64
  cadd_ino :: u64
  cadd_dir :: bool

definition callback_addrem_dirent :: "callback_addrem_dirent_data crawl_callback_inode" where
  "callback_addrem_dirent block off commit cadd blockno s = do {
     check (commit \<noteq> COMMIT_NONE);
     let a = unat off;
     n \<leftarrow> inode_field inode_nlinks (block, a) s;
     if cadd_dir cadd \<and> cadd_add cadd \<and> n + 1 = 0 then Some (- EMLINK, blockno, cadd, s)
     else do {
       (failed, block, new_blockno, s) \<leftarrow> cow_unless (\<not> (cadd_dir cadd \<and> commit = COMMIT_COPY)) block blockno s;
       if failed then Some (- ENOSPC, blockno, cadd, s)
       else do {
         s \<leftarrow> (if cadd_dir cadd then do {
              b \<leftarrow> deref block s;
              let n = (if cadd_add cadd then inode_nlinks b a + 1 else inode_nlinks b a - 1);
              s \<leftarrow> assign block (set_inode_nlinks b a n) s;
              check (2 \<le> n);
              Some s
            } else Some s);
         (r, new_blockno, ino, s) \<leftarrow> crawl_tree block (inode_root_off a) (cadd_dirent_off cadd) 1 commit
            (if cadd_add cadd then callback_set_dirent_ino (\<lambda>u. u) else callback_clear_dirent_ino)
            (cadd_ino cadd) new_blockno s;
         if r < 0 then Some (r, blockno, cadd\<lparr>cadd_ino := ino\<rparr>, s)
         else do {
           check (blockno = new_blockno);
           Some (0, new_blockno, cadd\<lparr>cadd_ino := ino\<rparr>, s)
         }
       }
     }
   }"

end
