(* ===== verification/Dir_Handlers.thy ===== *)
theory Dir_Handlers
  imports Directories
begin

text \<open>
  The handlers of \<^verbatim>\<open>bpfs.c\<close> that work on directories: creating, linking, renaming and removing files,
  looking them up and listing a directory. A handler takes the directory entry cache and the file
  system and returns its reply and both. The encoding of a listing is that of \<^verbatim>\<open>fuse_lowlevel.c\<close>.
\<close>

section \<open>Creating a file\<close>

abbreviation (input) S_ISDIR :: "u32 \<Rightarrow> bool" where "S_ISDIR mode \<equiv> mode AND S_IFMT = S_IFDIR"
abbreviation (input) S_ISLNK :: "u32 \<Rightarrow> bool" where "S_ISLNK mode \<equiv> mode AND S_IFMT = S_IFLNK"
abbreviation (input) S_ISBLK :: "u32 \<Rightarrow> bool" where "S_ISBLK mode \<equiv> mode AND S_IFMT = S_IFBLK"
abbreviation (input) S_ISCHR :: "u32 \<Rightarrow> bool" where "S_ISCHR mode \<equiv> mode AND S_IFMT = S_IFCHR"

text \<open>The user data: the mode, and the user and the group of the request.\<close>

definition callback_init_inode :: "u32 \<Rightarrow> (u32 \<times> u32 \<times> u32) crawl_callback_inode" where
  "callback_init_inode now block off commit ciid blockno s = do {
     let (mode, uid, gid) = ciid;
     let a = unat off;
     check (commit \<noteq> COMMIT_NONE);
     (failed, block, new_blockno, s) \<leftarrow> cow_unless (commit \<noteq> COMMIT_COPY) block blockno s;
     if failed then Some (- ENOSPC, blockno, ciid, s)
     else do {
       b \<leftarrow> deref block s;
       check (inode_generation b a + 1 \<noteq> 0);
       md \<leftarrow> f2b_mode mode;
       let b = set_inode_generation b a (inode_generation b a + 1);
       let b = set_inode_gid (set_inode_uid (set_inode_mode b a md) a uid) a gid;
       let b = set_inode_flags b a 0;
       let b = set_inode_mtime (set_inode_ctime (set_inode_atime b a now) a now) a now;
       s \<leftarrow> assign block b s;
       Some (0, new_blockno, ciid, s)
     }
   }"

text \<open>The part of \<^verbatim>\<open>create_file\<close> that sets the links and the contents of the new inode.\<close>

definition init_contents :: "u32 \<Rightarrow> string option \<Rightarrow> iptr \<Rightarrow> fs \<Rightarrow> (int \<times> fs) option" where
  "init_contents mode link ip s = do {
     let (p, a) = ip;
     let ro = inode_root_off a;
     if S_ISDIR mode \<or> S_ISLNK mode then do {
       (no, s) \<leftarrow> alloc_block s;
       b \<leftarrow> deref p s;
       b \<leftarrow> ha_set b ro 0 no;
       s \<leftarrow> assign p b s;
       if no = BPFS_BLOCKNO_INVALID then Some (- ENOSPC, s)
       else if S_ISDIR mode then do {
         s \<leftarrow> modify p (\<lambda>b. set_root_nbytes (set_inode_nlinks b a 2) ro BPFS_BLOCK_SIZE) s;
         (q, s) \<leftarrow> get_block no s;
         s \<leftarrow> modify (Bpram q) (\<lambda>b. set_dirent_rec_len b 0 0) s;
         Some (0, s)
       } else do {
         str \<leftarrow> map_option name_bytes link;
         s \<leftarrow> modify p (\<lambda>b. set_root_nbytes (set_inode_nlinks b a 1) ro (of_nat (length str))) s;
         check (length str \<le> 4096);
         (q, s) \<leftarrow> get_block no s;
         s \<leftarrow> modify (Bpram q) (\<lambda>b. blk_copy b 0 (\<lambda>i. str ! i) 0 (length str)) s;
         Some (0, s)
       }
     } else do {
       b \<leftarrow> deref p s;
       b \<leftarrow> ha_set (set_root_nbytes (set_inode_nlinks b a 1) ro 0) ro 0 BPFS_BLOCKNO_INVALID;
       s \<leftarrow> assign p b s;
       Some (0, s)
     }
   }"

text \<open>The end of \<^verbatim>\<open>create_file\<close>, \<^verbatim>\<open>fuse_link\<close> and \<^verbatim>\<open>fuse_rename\<close>: the entry goes into the cache.\<close>

definition cache_dirent :: "dirs_mem \<Rightarrow> u64 \<Rightarrow> u64 \<Rightarrow> dcache \<times> fs \<Rightarrow> ((bptr \<times> nat) \<times> dcache \<times> fs) option" where
  "cache_dirent m parent_ino off st = do {
     let (dc, s) = st;
     (d, s) \<leftarrow> get_dirent parent_ino off s;
     d \<leftarrow> d;
     (md, s) \<leftarrow> mdirent_init_dirent (fst d) (snd d) off s;
     (r, dc) \<leftarrow> dcache_add_dirent (m_dup m) (m_elt m) (m_table m) parent_ino md dc;
     check (r = 0);
     Some (d, dc, s)
   }"

definition create_file :: "dirs_mem \<Rightarrow> u32 \<Rightarrow> u32 \<times> u32 \<Rightarrow> u64 \<Rightarrow> string \<Rightarrow> u32 \<Rightarrow> string option \<Rightarrow> dcache \<times> fs \<Rightarrow>
    (int \<times> (bptr \<times> nat) option \<times> dcache \<times> fs) option" where
  "create_file m now ctx parent_ino name mode link st = do {
     let (dc, s) = st;
     check ((link \<noteq> None) = S_ISLNK mode);
     let sd = \<lparr>sd_str = name_bytes name, sd_dirent_off = BPFS_EOF, sd_dirent = None\<rparr>;
     if sd_len sd > BPFS_DIRENT_MAX_NAME_LEN then Some (- ENAMETOOLONG, None, dc, s)
     else do {
       (n, s) \<leftarrow> inode_get inode_nlinks parent_ino s;
       check (2 \<le> n);
       (md, s) \<leftarrow> inode_get inode_mode parent_ino s;
       check (BPFS_S_ISDIR md);
       (r, e, dc, s) \<leftarrow> find_dirent m parent_ino name (dc, s);
       if r = 0 then Some (- EEXIST, None, dc, s)
       else do {
         (ino, s) \<leftarrow> alloc_inode s;
         if ino = BPFS_INO_INVALID then Some (- ENOSPC, None, dc, s)
         else do {
           (r, sd, dc, s) \<leftarrow> alloc_dirent m parent_ino sd (dc, s);
           if r < 0 then Some (r, None, dc, s)
           else do {
             (r, u, s) \<leftarrow> crawl_inode ino COMMIT_ATOMIC (callback_init_inode now) (mode, ctx) s;
             if r < 0 then Some (r, None, dc, s)
             else do {
               (mtime, s) \<leftarrow> inode_get inode_mtime ino s;
               (r, u, s) \<leftarrow> crawl_inode parent_ino COMMIT_ATOMIC callback_set_cmtime mtime s;
               if r < 0 then Some (r, None, dc, s)
               else do {
                 (ip, s) \<leftarrow> get_inode ino s;
                 (r, s) \<leftarrow> init_contents mode link ip s;
                 if r < 0 then Some (r, None, dc, s)
                 else do {
                   ft \<leftarrow> f2b_filetype mode;
                   d \<leftarrow> sd_dirent sd;
                   s \<leftarrow> modify (fst d) (\<lambda>b. set_dirent_file_type b (snd d) (ucast ft)) s;
                   (r, u, s) \<leftarrow> crawl_inode parent_ino COMMIT_ATOMIC callback_addrem_dirent
                     \<lparr>cadd_add = True, cadd_dirent_off = sd_dirent_off sd, cadd_ino = ino, cadd_dir = S_ISDIR mode\<rparr> s;
                   if r < 0 then Some (r, None, dc, s)
                   else do {
                     (d, dc, s) \<leftarrow> cache_dirent m parent_ino (sd_dirent_off sd) (dc, s);
                     Some (0, Some d, dc, s)
                   }
                 }
               }
             }
           }
         }
       }
     }
   }"

definition fill_fuse_entry :: "bptr \<times> nat \<Rightarrow> fs \<Rightarrow> (fuse_entry_param \<times> fs) option" where
  "fill_fuse_entry d s = do {
     b \<leftarrow> deref (fst d) s;
     let ino = dirent_ino b (snd d);
     (n, s) \<leftarrow> inode_get inode_nlinks ino s;
     check (n \<noteq> 0);
     (gen, s) \<leftarrow> inode_get inode_generation ino s;
     (attr, s) \<leftarrow> bpfs_stat ino s;
     Some (\<lparr>e_ino = ino, e_generation = gen, e_attr = attr\<rparr>, s)
   }"

definition mfill_fuse_entry :: "mdirent \<Rightarrow> fs \<Rightarrow> (fuse_entry_param \<times> fs) option" where
  "mfill_fuse_entry md s = do {
     (attr, s) \<leftarrow> bpfs_stat (md_ino md) s;
     Some (\<lparr>e_ino = md_ino md, e_generation = md_ino_generation md, e_attr = attr\<rparr>, s)
   }"

text \<open>The abort and the reply of a failed handler, and the last lines of one that creates a file.\<close>

definition dir_abort :: "int \<Rightarrow> dcache \<times> fs \<Rightarrow> (reply \<times> dcache \<times> fs) option" where
  "dir_abort r st = do { (rep, s) \<leftarrow> abort_reply r (snd st); Some (rep, fst st, s) }"

definition dir_commit :: "reply \<Rightarrow> dcache \<times> fs \<Rightarrow> (reply \<times> dcache \<times> fs) option" where
  "dir_commit rep st = do { s \<leftarrow> bpfs_commit (snd st); Some (rep, fst st, s) }"

definition reply_created :: "(fuse_entry_param \<Rightarrow> reply) \<Rightarrow> int \<times> (bptr \<times> nat) option \<times> dcache \<times> fs \<Rightarrow>
    (reply \<times> dcache \<times> fs) option" where
  "reply_created rep x = do {
     let (r, d, dc, s) = x;
     if r < 0 then dir_abort r (dc, s)
     else do {
       d \<leftarrow> d;
       (e, s) \<leftarrow> fill_fuse_entry d s;
       dir_commit (rep e) (dc, s)
     }
   }"

definition fuse_mknod :: "dirs_mem \<Rightarrow> u32 \<Rightarrow> u32 \<times> u32 \<Rightarrow> u64 \<Rightarrow> string \<Rightarrow> u32 \<Rightarrow> dcache \<times> fs \<Rightarrow> (reply \<times> dcache \<times> fs) option" where
  "fuse_mknod m now ctx parent_ino name mode st =
     (if S_ISBLK mode \<or> S_ISCHR mode then dir_abort (- ENOSYS) st
      else do { x \<leftarrow> create_file m now ctx parent_ino name mode None st; reply_created Reply_entry x })"

definition fuse_mkdir :: "dirs_mem \<Rightarrow> u32 \<Rightarrow> u32 \<times> u32 \<Rightarrow> u64 \<Rightarrow> string \<Rightarrow> u32 \<Rightarrow> dcache \<times> fs \<Rightarrow> (reply \<times> dcache \<times> fs) option" where
  "fuse_mkdir m now ctx parent_ino name mode st = do {
     x \<leftarrow> create_file m now ctx parent_ino name (mode OR S_IFDIR) None st;
     reply_created Reply_entry x
   }"

definition fuse_symlink :: "dirs_mem \<Rightarrow> u32 \<Rightarrow> u32 \<times> u32 \<Rightarrow> string \<Rightarrow> u64 \<Rightarrow> string \<Rightarrow> dcache \<times> fs \<Rightarrow> (reply \<times> dcache \<times> fs) option" where
  "fuse_symlink m now ctx link parent_ino name st = do {
     x \<leftarrow> create_file m now ctx parent_ino name (S_IFLNK OR 0x1FF) (Some link) st;
     reply_created Reply_entry x
   }"

definition fuse_create :: "dirs_mem \<Rightarrow> u32 \<Rightarrow> u32 \<times> u32 \<Rightarrow> u64 \<Rightarrow> string \<Rightarrow> u32 \<Rightarrow> dcache \<times> fs \<Rightarrow> (reply \<times> dcache \<times> fs) option" where
  "fuse_create m now ctx parent_ino name mode st = do {
     x \<leftarrow> create_file m now ctx parent_ino name mode None st;
     reply_created Reply_create x
   }"

section \<open>Looking up and removing a file\<close>

definition fuse_lookup :: "dirs_mem \<Rightarrow> u64 \<Rightarrow> string \<Rightarrow> dcache \<times> fs \<Rightarrow> (reply \<times> dcache \<times> fs) option" where
  "fuse_lookup m parent_ino name st = do {
     (r, md, dc, s) \<leftarrow> find_dirent m parent_ino name st;
     if r < 0 then dir_abort r (dc, s)
     else do {
       md \<leftarrow> md;
       (e, s) \<leftarrow> mfill_fuse_entry md s;
       dir_commit (Reply_entry e) (dc, s)
     }
   }"

definition do_unlink_inode :: "u64 \<Rightarrow> u32 \<Rightarrow> dcache \<times> fs \<Rightarrow> (int \<times> dcache \<times> fs) option" where
  "do_unlink_inode ino time_now st = do {
     let (dc, s) = st;
     (ip, s) \<leftarrow> get_inode ino s;
     b \<leftarrow> deref (fst ip) s;
     let n = inode_nlinks b (snd ip);
     let is_dir = BPFS_S_ISDIR (inode_mode b (snd ip));
     check (n \<noteq> 0);
     if n = 1 \<or> is_dir then do {
       check (\<not> is_dir \<or> n = 2);
       s \<leftarrow> truncate_block_free (fst ip) (inode_root_off (snd ip)) 0 s;
       s \<leftarrow> free_inode ino s;
       md \<leftarrow> inode_field inode_mode ip s;
       has \<leftarrow> (if BPFS_S_ISDIR md then dcache_has_dir dc ino else Some False);
       dc \<leftarrow> (if has then dcache_rem_dir ino dc else Some dc);
       Some (0, dc, s)
     } else do {
       (r, u, s) \<leftarrow> crawl_inode ino COMMIT_ATOMIC callback_change_nlinks (- 1) s;
       if r < 0 then Some (r, dc, s)
       else do {
         (r, u, s) \<leftarrow> crawl_inode ino COMMIT_ATOMIC callback_set_ctime time_now s;
         Some (if r < 0 then r else 0, dc, s)
       }
     }
   }"

definition do_unlink :: "dirs_mem \<Rightarrow> u32 \<Rightarrow> u64 \<Rightarrow> mdirent \<Rightarrow> dcache \<times> fs \<Rightarrow> (int \<times> dcache \<times> fs) option" where
  "do_unlink m time_now parent_ino md st = do {
     let (dc, s) = st;
     (mode, s) \<leftarrow> inode_get inode_mode (md_ino md) s;
     (n, s) \<leftarrow> inode_get inode_nlinks (md_ino md) s;
     check (n \<noteq> 0);
     (r, u, s) \<leftarrow> crawl_inode parent_ino COMMIT_ATOMIC callback_addrem_dirent
       \<lparr>cadd_add = False, cadd_dirent_off = md_off md, cadd_ino = BPFS_INO_INVALID, cadd_dir = BPFS_S_ISDIR mode\<rparr> s;
     if r < 0 then Some (r, dc, s)
     else do {
       (r, u, s) \<leftarrow> crawl_inode parent_ino COMMIT_ATOMIC callback_set_cmtime time_now s;
       if r < 0 then Some (r, dc, s)
       else do {
         (r, dc, s) \<leftarrow> do_unlink_inode (md_ino md) time_now (dc, s);
         if r < 0 then Some (r, dc, s)
         else do {
           (r, dc) \<leftarrow> dcache_add_free (m_free m) parent_ino (md_off md) (md_rec_len md) dc;
           check (r = 0);
           (r, dc) \<leftarrow> dcache_rem_dirent parent_ino (md_name md) dc;
           check (r = 0);
           Some (0, dc, s)
         }
       }
     }
   }"

definition reply_status :: "int \<times> dcache \<times> fs \<Rightarrow> (reply \<times> dcache \<times> fs) option" where
  "reply_status x = do {
     let (r, st) = x;
     if r < 0 then dir_abort r st else dir_commit (Reply_err 0) st
   }"

definition fuse_unlink :: "dirs_mem \<Rightarrow> u32 \<Rightarrow> u64 \<Rightarrow> string \<Rightarrow> dcache \<times> fs \<Rightarrow> (reply \<times> dcache \<times> fs) option" where
  "fuse_unlink m now parent_ino name st = do {
     (r, md, st) \<leftarrow> find_dirent m parent_ino name st;
     if r < 0 then dir_abort r st
     else do { md \<leftarrow> md; x \<leftarrow> do_unlink m now parent_ino md st; reply_status x }
   }"

definition callback_empty_dir :: "u64 crawl_callback" where
  "callback_empty_dir blockoff block off sz vld crawl_start commit parent_ino blockno s = do {
     (r, u, s) \<leftarrow> dirent_loop False (\<lambda>a u s. Some (0, u, s))
       (\<lambda>a next u s. do {
          b \<leftarrow> deref block s;
          Some (if dirent_ino b a = parent_ino then 0 else 1, u, s)
        }) block (unat (off + sz)) (unat off) parent_ino s;
     Some (r, blockno, u, s)
   }"

definition fuse_rmdir :: "dirs_mem \<Rightarrow> u32 \<Rightarrow> u64 \<Rightarrow> string \<Rightarrow> dcache \<times> fs \<Rightarrow> (reply \<times> dcache \<times> fs) option" where
  "fuse_rmdir m now parent_ino name st = do {
     (r, md, dc, s) \<leftarrow> find_dirent m parent_ino name st;
     if r < 0 then dir_abort r (dc, s)
     else do {
       md \<leftarrow> md;
       (r, u, s) \<leftarrow> crawl_data (md_ino md) 0 BPFS_EOF COMMIT_NONE callback_empty_dir parent_ino s;
       check (r \<ge> 0);
       if r = 1 then dir_abort (- ENOTEMPTY) (dc, s)
       else do { x \<leftarrow> do_unlink m now parent_ino md (dc, s); reply_status x }
     }
   }"

section \<open>Renaming and linking\<close>

text \<open>The inode number of the entry at an offset of a directory.\<close>

definition dirent_at_ino :: "u64 \<Rightarrow> u64 \<Rightarrow> fs \<Rightarrow> (u64 \<times> fs) option" where
  "dirent_at_ino parent_ino off s = do {
     (d, s) \<leftarrow> get_dirent parent_ino off s;
     d \<leftarrow> d;
     b \<leftarrow> deref (fst d) s;
     Some (dirent_ino b (snd d), s)
   }"

text \<open>The parts of \<^verbatim>\<open>fuse_rename\<close>: where the new entry goes; the link counts and the time of a directory; the update of
  the cache. Each returns a negative status where the code jumps to \<^verbatim>\<open>abort\<close>.\<close>

definition rename_target :: "dirs_mem \<Rightarrow> u64 \<Rightarrow> string \<Rightarrow> mdirent \<Rightarrow> mdirent option \<Rightarrow> dcache \<times> fs \<Rightarrow>
    (int \<times> u64 \<times> dcache \<times> fs) option" where
  "rename_target m dst_parent_ino dst_name src_md edst_md st = do {
     let (dc, s) = st;
     case edst_md of
       Some e \<Rightarrow> do {
         (n, s) \<leftarrow> inode_get inode_nlinks (md_ino e) s;
         check (n \<noteq> 0);
         Some (0, md_off e, dc, s)
       }
     | None \<Rightarrow> do {
         (r, sd, dc, s) \<leftarrow> alloc_dirent m dst_parent_ino
            \<lparr>sd_str = name_bytes dst_name, sd_dirent_off = BPFS_EOF, sd_dirent = None\<rparr> (dc, s);
         if r < 0 then Some (r, 0, dc, s)
         else do {
           d \<leftarrow> sd_dirent sd;
           s \<leftarrow> modify (fst d) (\<lambda>b. set_dirent_file_type b (snd d) (md_file_type src_md)) s;
           Some (0, sd_dirent_off sd, dc, s)
         }
       }
   }"

definition change_nlinks_if :: "bool \<Rightarrow> u64 \<Rightarrow> int \<Rightarrow> fs \<Rightarrow> (int \<times> fs) option" where
  "change_nlinks_if c ino delta s =
     (if c then do { (r, u, s) \<leftarrow> crawl_inode ino COMMIT_ATOMIC callback_change_nlinks delta s; Some (r, s) }
      else Some (0, s))"

definition rename_links :: "u64 \<Rightarrow> u64 \<Rightarrow> mdirent \<Rightarrow> bool \<Rightarrow> u32 \<Rightarrow> fs \<Rightarrow> (int \<times> fs) option" where
  "rename_links src_parent_ino dst_parent_ino src_md dst_existed time_now s = do {
     (r, u, s) \<leftarrow> crawl_inode dst_parent_ino COMMIT_ATOMIC callback_set_cmtime time_now s;
     if r < 0 then Some (r, s)
     else do {
       (r, s) \<leftarrow> (if dst_parent_ino \<noteq> src_parent_ino then do {
            (r, u, s) \<leftarrow> crawl_inode src_parent_ino COMMIT_ATOMIC callback_set_cmtime time_now s;
            Some (r, s)
          } else Some (0, s));
       if r < 0 then Some (r, s)
       else if ucast (md_file_type src_md) = BPFS_TYPE_DIR then do {
         (r, s) \<leftarrow> change_nlinks_if (src_parent_ino \<noteq> dst_parent_ino) src_parent_ino (- 1) s;
         if r < 0 then Some (r, s)
         else do {
           (r, s) \<leftarrow> change_nlinks_if ((src_parent_ino \<noteq> dst_parent_ino) \<noteq> dst_existed) dst_parent_ino
              (if dst_existed then - 1 else 1) s;
           if r < 0 then Some (r, s)
           else do {
             (r, u, s) \<leftarrow> crawl_inode (md_ino src_md) COMMIT_ATOMIC callback_set_ctime time_now s;
             Some (r, s)
           }
         }
       } else Some (0, s)
     }
   }"

definition do_rename :: "dirs_mem \<Rightarrow> u32 \<Rightarrow> u64 \<Rightarrow> string \<Rightarrow> u64 \<Rightarrow> string \<Rightarrow> dcache \<times> fs \<Rightarrow> (int \<times> dcache \<times> fs) option" where
  "do_rename m time_now src_parent_ino src_name dst_parent_ino dst_name st = do {
     (r, src_md, dc, s) \<leftarrow> find_dirent m src_parent_ino src_name st;
     if r < 0 then Some (r, dc, s)
     else do {
       src_md \<leftarrow> src_md;
       (n, s) \<leftarrow> inode_get inode_nlinks (md_ino src_md) s;
       check (n \<noteq> 0);
       (r, edst_md, dc, s) \<leftarrow> find_dirent m dst_parent_ino dst_name (dc, s);
       if r < 0 \<and> r \<noteq> - ENOENT then Some (r, dc, s)
       else do {
         (r, dst_off, dc, s) \<leftarrow> rename_target m dst_parent_ino dst_name src_md edst_md (dc, s);
         if r < 0 then Some (r, dc, s)
         else do {
           (r, u, s) \<leftarrow> crawl_data_2 dst_parent_ino dst_off 1 (callback_set_dirent_ino fst)
              src_parent_ino (md_off src_md) 1 (callback_set_dirent_ino snd) COMMIT_ATOMIC (md_ino src_md, BPFS_INO_INVALID) s;
           if r < 0 then Some (r, dc, s)
           else do {
             (i, s) \<leftarrow> dirent_at_ino src_parent_ino (md_off src_md) s;
             check (i = BPFS_INO_INVALID);
             (i, s) \<leftarrow> dirent_at_ino dst_parent_ino dst_off s;
             check (i = md_ino src_md);
             (r, s) \<leftarrow> rename_links src_parent_ino dst_parent_ino src_md (edst_md \<noteq> None) time_now s;
             if r < 0 then Some (r, dc, s)
             else do {
               (r, dc, s) \<leftarrow> (case edst_md of
                   None \<Rightarrow> Some (0, dc, s)
                 | Some e \<Rightarrow> do {
                     (r, dc, s) \<leftarrow> do_unlink_inode (md_ino e) time_now (dc, s);
                     if r < 0 then Some (r, dc, s)
                     else do {
                       (r, dc) \<leftarrow> dcache_rem_dirent dst_parent_ino dst_name dc;
                       check (r = 0);
                       Some (0, dc, s)
                     }
                   });
               if r < 0 then Some (r, dc, s)
               else do {
                 (r, dc) \<leftarrow> dcache_add_free (m_free m) src_parent_ino (md_off src_md) (md_rec_len src_md) dc;
                 check (r = 0);
                 (r, dc) \<leftarrow> dcache_rem_dirent src_parent_ino src_name dc;
                 check (r = 0);
                 (d, dc, s) \<leftarrow> cache_dirent m dst_parent_ino dst_off (dc, s);
                 Some (0, dc, s)
               }
             }
           }
         }
       }
     }
   }"

definition fuse_rename :: "dirs_mem \<Rightarrow> u32 \<Rightarrow> u64 \<Rightarrow> string \<Rightarrow> u64 \<Rightarrow> string \<Rightarrow> dcache \<times> fs \<Rightarrow> (reply \<times> dcache \<times> fs) option" where
  "fuse_rename m now src_parent_ino src_name dst_parent_ino dst_name st = do {
     x \<leftarrow> do_rename m now src_parent_ino src_name dst_parent_ino dst_name st;
     reply_status x
   }"

definition do_link :: "dirs_mem \<Rightarrow> u32 \<Rightarrow> u64 \<Rightarrow> u64 \<Rightarrow> string \<Rightarrow> dcache \<times> fs \<Rightarrow> (int \<times> (bptr \<times> nat) option \<times> dcache \<times> fs) option" where
  "do_link m time_now ino parent_ino name st = do {
     let (dc, s) = st;
     let sd = \<lparr>sd_str = name_bytes name, sd_dirent_off = BPFS_EOF, sd_dirent = None\<rparr>;
     if sd_len sd > BPFS_DIRENT_MAX_NAME_LEN then Some (- ENAMETOOLONG, None, dc, s)
     else do {
       (md, s) \<leftarrow> inode_get inode_mode ino s;
       check (\<not> BPFS_S_ISDIR md);
       (n, s) \<leftarrow> inode_get inode_nlinks ino s;
       check (n \<noteq> 0);
       if n + 1 = 0 then Some (- EMLINK, None, dc, s)
       else do {
         (n, s) \<leftarrow> inode_get inode_nlinks parent_ino s;
         check (n \<noteq> 0);
         (md, s) \<leftarrow> inode_get inode_mode parent_ino s;
         check (BPFS_S_ISDIR md);
         (r, e, dc, s) \<leftarrow> find_dirent m parent_ino name (dc, s);
         if r = 0 then Some (- EEXIST, None, dc, s)
         else do {
           (r, sd, dc, s) \<leftarrow> alloc_dirent m parent_ino sd (dc, s);
           if r < 0 then Some (r, None, dc, s)
           else do {
             (r, u, s) \<leftarrow> crawl_inode parent_ino COMMIT_ATOMIC callback_set_cmtime time_now s;
             if r < 0 then Some (r, None, dc, s)
             else do {
               (r, u, s) \<leftarrow> crawl_inode ino COMMIT_ATOMIC callback_change_nlinks 1 s;
               if r < 0 then Some (r, None, dc, s)
               else do {
                 (r, u, s) \<leftarrow> crawl_inode ino COMMIT_ATOMIC callback_set_ctime time_now s;
                 if r < 0 then Some (r, None, dc, s)
                 else do {
                   (md, s) \<leftarrow> inode_get inode_mode ino s;
                   ft \<leftarrow> f2b_filetype md;
                   d \<leftarrow> sd_dirent sd;
                   s \<leftarrow> modify (fst d) (\<lambda>b. set_dirent_file_type b (snd d) (ucast ft)) s;
                   (r, u, s) \<leftarrow> crawl_data parent_ino (sd_dirent_off sd) 1 COMMIT_ATOMIC (callback_set_dirent_ino (\<lambda>u. u)) ino s;
                   if r < 0 then Some (r, None, dc, s)
                   else do {
                     (d, dc, s) \<leftarrow> cache_dirent m parent_ino (sd_dirent_off sd) (dc, s);
                     Some (0, Some d, dc, s)
                   }
                 }
               }
             }
           }
         }
       }
     }
   }"

definition fuse_link :: "dirs_mem \<Rightarrow> u32 \<Rightarrow> u64 \<Rightarrow> u64 \<Rightarrow> string \<Rightarrow> dcache \<times> fs \<Rightarrow> (reply \<times> dcache \<times> fs) option" where
  "fuse_link m now ino parent_ino name st = do {
     x \<leftarrow> do_link m now ino parent_ino name st;
     reply_created Reply_entry x
   }"

section \<open>Listing a directory\<close>

definition fuse_dirent_size :: "u64 \<Rightarrow> u64" where
  "fuse_dirent_size namelen = (24 + namelen + 7) AND NOT 7"

text \<open>The bytes that \<^verbatim>\<open>fuse_add_dirent\<close> writes; of the status it reads the inode number and the mode.\<close>

definition fuse_add_dirent :: "string \<Rightarrow> u64 \<Rightarrow> u32 \<Rightarrow> u64 \<Rightarrow> u8 list" where
  "fuse_add_dirent name ino mode off = (
     let namelen = of_nat (length name) :: u32;
         entsize = unat (fuse_dirent_size (ucast namelen));
         d = put_u32 (put_u32 (put_u64 (put_u64 zero_block 0 ino) 8 off) 16 namelen) 20 (drop_bit 12 (mode AND 0xF000))
     in map (blk_copy d 24 (\<lambda>i. name_bytes name ! i) 0 (unat namelen)) [0..<entsize])"

text \<open>The size of the entry, and the bytes when the buffer is large enough for them.\<close>

definition fuse_add_direntry :: "u64 \<Rightarrow> string \<Rightarrow> u64 \<Rightarrow> u32 \<Rightarrow> u64 \<Rightarrow> u64 \<times> u8 list" where
  "fuse_add_direntry bufsize name ino mode off = (
     let entsize = fuse_dirent_size (of_nat (length name))
     in (entsize, if entsize \<le> bufsize then fuse_add_dirent name ino mode off else []))"

text \<open>\<^verbatim>\<open>struct readdir_params\<close>: the size and the bytes of the buffer. The reallocation and the second call
  of \<^verbatim>\<open>fuse_add_direntry\<close>.\<close>

definition add_listed :: "dirs_mem \<Rightarrow> u64 \<Rightarrow> string \<Rightarrow> u64 \<Rightarrow> u32 \<Rightarrow> u64 \<Rightarrow> u64 \<times> u8 list \<Rightarrow> int \<times> u64 \<times> u8 list" where
  "add_listed m sz name ino mode off p =
     (if m_buf m then (0, fst p + sz, snd p @ snd (fuse_add_direntry (fst p + sz - fst p) name ino mode off))
      else (- ENOMEM, fst p + sz, []))"

definition read_dir_readdir :: "dirs_mem \<Rightarrow> u64 \<Rightarrow> (u64 \<times> u8 list) read_dir_cb" where
  "read_dir_readdir m max_size blockoff off d p s = do {
     b \<leftarrow> deref (fst d) s;
     name \<leftarrow> dirent_name b (snd d);
     mode \<leftarrow> b2f_filetype (ucast (dirent_file_type b (snd d)));
     let sz = fst (fuse_add_direntry 0 name 0 0 0);
     if fst p + sz > max_size then Some (1, p, s)
     else do {
       let (r, p) = add_listed m sz name (dirent_ino b (snd d)) mode (2 + blockoff * BPFS_BLOCK_SIZE + of_nat off) p;
       Some (r, p, s)
     }
   }"

text \<open>The loop for the entries that are not stored, from offset \<open>off\<close> (\<open>n\<close> of them); the name is looked
  up in an array of two.\<close>

primrec dot_loop :: "dirs_mem \<Rightarrow> u64 \<Rightarrow> u64 \<Rightarrow> u64 \<Rightarrow> nat \<Rightarrow> int \<Rightarrow> u64 \<times> u8 list \<Rightarrow> (int \<times> u64 \<times> u8 list) option" where
  "dot_loop m ino parent_ino max_size 0 off p = Some (0, p)"
| "dot_loop m ino parent_ino max_size (Suc n) off p = do {
     check (0 \<le> off);
     let name = (if off = 0 then ''.'' else ''..'');
     let sz = fst (fuse_add_direntry 0 name 0 0 0);
     check (fst p + sz \<le> max_size);
     let (r, p) = add_listed m sz name (if off = 0 then ino else parent_ino) S_IFDIR (of_int (off + 1)) p;
     if r < 0 then Some (r, p)
     else dot_loop m ino parent_ino max_size n (off + 1) p
   }"

definition fuse_readdir :: "dirs_mem \<Rightarrow> u32 \<Rightarrow> u64 \<Rightarrow> u64 \<Rightarrow> int \<Rightarrow> u64 \<Rightarrow> fs \<Rightarrow> (reply \<times> fs) option" where
  "fuse_readdir m now ino max_size off fh s = do {
     (ip, s) \<leftarrow> get_inode ino s;
     b \<leftarrow> deref (fst ip) s;
     check (inode_nlinks b (snd ip) \<noteq> 0);
     if \<not> BPFS_S_ISDIR (inode_mode b (snd ip)) then abort_reply (- ENOTDIR) s
     else do {
       (r, p) \<leftarrow> dot_loop m ino fh max_size (nat (2 - off)) off (0, []);
       if r < 0 then abort_reply r s
       else do {
         (r, p, s) \<leftarrow> read_dir ino (of_int (max off 2 - 2)) (read_dir_readdir m max_size) p s;
         if r < 0 then abort_reply r s
         else do {
           (r, u, s) \<leftarrow> crawl_inode ino COMMIT_ATOMIC callback_set_atime now s;
           if r < 0 then abort_reply r s
           else do { s \<leftarrow> bpfs_commit s; Some (Reply_bytes (snd p), s) }
         }
       }
     }
   }"

section \<open>The file system as a whole\<close>

definition fuse_init :: "fs \<Rightarrow> fs option" where
  "fuse_init s = bpfs_commit s"

definition set_super_ephemeral_valid :: "block \<Rightarrow> u8 \<Rightarrow> block" where "set_super_ephemeral_valid b v = b(49 := v)"

definition fuse_destroy :: "fs \<Rightarrow> fs option" where
  "fuse_destroy s = do {
     super \<leftarrow> get_super s;
     s \<leftarrow> (if super_ephemeral_valid super = 0 then put_mem BPFS_BLOCKNO_SUPER (set_super_ephemeral_valid super 1) s else Some s);
     bpfs_commit s
   }"

definition fuse_statfs :: "u64 \<Rightarrow> fs \<Rightarrow> (reply \<times> fs) option" where
  "fuse_statfs ino s = do {
     (ip, s) \<leftarrow> get_inode ino s;
     super \<leftarrow> get_super s;
     let bf = bm_nfree (block_alloc s);
     let nf = bm_nfree (inode_alloc s);
     let stv = \<lparr>f_bsize = BPFS_BLOCK_SIZE, f_frsize = BPFS_BLOCK_SIZE, f_blocks = super_nblocks super, f_bfree = bf,
        f_bavail = bf, f_files = bm_ntotal (inode_alloc s) - nf, f_ffree = nf, f_favail = nf, f_flag = 0,
        f_namemax = BPFS_DIRENT_MAX_NAME_LEN - 1\<rparr>;
     s \<leftarrow> bpfs_commit s;
     Some (Reply_statfs stv, s)
   }"

definition fuse_fsyncdir :: "u64 \<Rightarrow> fs \<Rightarrow> (reply \<times> fs) option" where
  "fuse_fsyncdir ino s = do {
     (r, s) \<leftarrow> sync_inode ino s;
     if r < 0 then abort_reply r s
     else do { s \<leftarrow> bpfs_commit s; Some (Reply_err 0, s) }
   }"

end
