(* ===== verification/Dir_Entries.thy ===== *)
theory Dir_Entries
  imports Directories File_Read
begin

text \<open>
  The entries of a directory block as a list. A block is well-formed when its records follow each other
  up to an end mark or the end of the block. Writing a new entry into a hole or behind the last entry changes no
  entry in use, so that the later write of the inode number is what makes it appear.
\<close>

section \<open>Records\<close>

abbreviation (input) rlen :: "block \<Rightarrow> nat \<Rightarrow> nat" where "rlen b a \<equiv> unat (dirent_rec_len b a)"

text \<open>The records from \<open>off\<close> are \<open>xs\<close>, offset and length of each, and end at \<open>e\<close>; each has room for its header.\<close>

fun records :: "block \<Rightarrow> nat \<Rightarrow> (nat \<times> nat) list \<Rightarrow> nat \<Rightarrow> bool" where
  "records b off [] e \<longleftrightarrow> off = e"
| "records b off ((a, r) # xs) e \<longleftrightarrow> a = off \<and> off + 16 \<le> 4096 \<and> off mod 8 = 0 \<and> rlen b off = r \<and> 16 \<le> r \<and> off + r \<le> 4096 \<and>
     records b (off + r) xs e"

definition dir_block :: "block \<Rightarrow> (nat \<times> nat) list \<Rightarrow> nat \<Rightarrow> bool" where
  "dir_block b xs e \<longleftrightarrow> records b 0 xs e \<and> (e + 16 \<le> 4096 \<longrightarrow> e mod 8 = 0 \<and> rlen b e = 0)"

text \<open>The entries in use, with all their bytes.\<close>

definition in_use :: "block \<Rightarrow> (nat \<times> nat) list \<Rightarrow> (nat \<times> nat) list" where
  "in_use b xs = filter (\<lambda>(a, r). dirent_ino b a \<noteq> 0) xs"

definition entries :: "block \<Rightarrow> (nat \<times> nat) list \<Rightarrow> (nat \<times> u8 list) list" where
  "entries b xs = map (\<lambda>(a, r). (a, map b [a..<a + r])) (in_use b xs)"

lemma records_append: "records b off (xs @ ys) e \<longleftrightarrow> (\<exists>m. records b off xs m \<and> records b m ys e)"
  by (induction xs arbitrary: off) auto

lemma records_bounds:
  assumes "records b off xs e"
  shows "off \<le> e" "(a, r) \<in> set xs \<Longrightarrow> off \<le> a \<and> a + r \<le> e \<and> a + 16 \<le> 4096 \<and> a mod 8 = 0 \<and> rlen b a = r \<and> 16 \<le> r"
    "xs \<noteq> [] \<Longrightarrow> e \<le> 4096"
proof -
  have "off \<le> e \<and> (\<forall>(a, r) \<in> set xs. off \<le> a \<and> a + r \<le> e \<and> a + 16 \<le> 4096 \<and> a mod 8 = 0 \<and> rlen b a = r \<and> 16 \<le> r) \<and> (xs \<noteq> [] \<longrightarrow> e \<le> 4096)"
    using assms
  proof (induction xs arbitrary: off)
    case (Cons x xs)
    obtain a r where x: "x = (a, r)" by (cases x)
    have R: "a = off" "off + 16 \<le> 4096" "off mod 8 = 0" "rlen b off = r" "16 \<le> r" "off + r \<le> 4096" "records b (off + r) xs e"
      using Cons.prems x by auto
    note IH = Cons.IH [OF R(7)]
    have "off \<le> a' \<and> a' + r' \<le> e \<and> a' + 16 \<le> 4096 \<and> a' mod 8 = 0 \<and> rlen b a' = r' \<and> 16 \<le> r'" if "(a', r') \<in> set (x # xs)" for a' r'
      using that IH R x by (cases "(a', r') = x") fastforce+
    moreover have "e \<le> 4096" using IH R by (cases xs) auto
    ultimately show ?case using IH by auto
  qed simp
  then show "off \<le> e" "(a, r) \<in> set xs \<Longrightarrow> off \<le> a \<and> a + r \<le> e \<and> a + 16 \<le> 4096 \<and> a mod 8 = 0 \<and> rlen b a = r \<and> 16 \<le> r"
    "xs \<noteq> [] \<Longrightarrow> e \<le> 4096" by auto
qed

lemma records_disjoint:
  "records b off xs e \<Longrightarrow> (a, r) \<in> set xs \<Longrightarrow> (a', r') \<in> set xs \<Longrightarrow> a \<noteq> a' \<Longrightarrow> a + r \<le> a' \<or> a' + r' \<le> a"
proof (induction xs arbitrary: off)
  case (Cons x xs)
  obtain c t where x: "x = (c, t)" by (cases x)
  have R: "c = off" "records b (off + t) xs e" using Cons.prems(1) x by auto
  note B = records_bounds(2) [OF R(2)]
  consider "(a, r) = x" "(a', r') \<in> set xs" | "(a', r') = x" "(a, r) \<in> set xs" | "(a, r) \<in> set xs" "(a', r') \<in> set xs" | "a = a'"
    using Cons.prems(2,3) x by auto
  then show ?case
  proof cases
    case 1
    then show ?thesis using B [OF 1(2)] R(1) x by auto
  next
    case 2
    then show ?thesis using B [OF 2(2)] R(1) x by auto
  next
    case 3
    then show ?thesis using Cons.IH [OF R(2)] Cons.prems(4) by blast
  qed (use Cons.prems(4) in simp)
qed simp

lemma records_cong:
  "records b off xs e \<Longrightarrow> (\<And>a r. (a, r) \<in> set xs \<Longrightarrow> dirent_rec_len b' a = dirent_rec_len b a) \<Longrightarrow> records b' off xs e"
proof (induction xs arbitrary: off)
  case (Cons x xs)
  then show ?case by (cases x) auto
qed simp

lemma records_distinct: "records b off xs e \<Longrightarrow> (a, r) \<in> set xs \<Longrightarrow> (a, r') \<in> set xs \<Longrightarrow> r = r'"
  using records_bounds(2) by metis

lemma field_cong:
  "(\<And>i. a \<le> i \<Longrightarrow> i < a + 8 \<Longrightarrow> b' i = b i) \<Longrightarrow> dirent_ino b' a = dirent_ino b a"
  "b' (a + 8) = b (a + 8) \<Longrightarrow> b' (a + 9) = b (a + 9) \<Longrightarrow> dirent_rec_len b' a = dirent_rec_len b a"
proof -
  show "dirent_ino b' a = dirent_ino b a" if "\<And>i. a \<le> i \<Longrightarrow> i < a + 8 \<Longrightarrow> b' i = b i"
    unfolding dirent_ino_def get_u64_def by (rule load_le_cong) (use that in simp)
  show "dirent_rec_len b' a = dirent_rec_len b a" if "b' (a + 8) = b (a + 8)" "b' (a + 9) = b (a + 9)"
    unfolding dirent_rec_len_def get_u16_def
  proof (rule load_le_cong)
    fix i assume "a + 8 \<le> i" "i < a + 8 + 2"
    then have "i = a + 8 \<or> i = a + 9" by linarith
    then show "b' i = b i" using that by auto
  qed
qed

lemma entries_mem: "(c, w) \<in> set (entries b xs) \<longleftrightarrow> (\<exists>t. (c, t) \<in> set xs \<and> dirent_ino b c \<noteq> 0 \<and> w = map b [c..<c + t])"
  by (force simp: entries_def in_use_def)

text \<open>Blocks that agree on the records in use have the same entries.\<close>

lemma entries_cong:
  assumes "\<And>a r. (a, r) \<in> set xs \<Longrightarrow> dirent_ino b' a = dirent_ino b a"
    and "\<And>a r i. (a, r) \<in> set xs \<Longrightarrow> dirent_ino b a \<noteq> 0 \<Longrightarrow> a \<le> i \<Longrightarrow> i < a + r \<Longrightarrow> b' i = b i"
  shows "entries b' xs = entries b xs"
proof -
  have "in_use b' xs = in_use b xs" unfolding in_use_def by (rule filter_cong) (use assms(1) in auto)
  then show ?thesis unfolding entries_def by (auto simp: in_use_def assms(2) intro!: map_cong)
qed

section \<open>Writing a new entry\<close>

lemma write_bytes:
  "put_name b a str i = (if a + 12 \<le> i \<and> i < a + 12 + length str then str ! (i - (a + 12)) else if i = a + 11 then of_nat (length str) else b i)"
  "i < a + 8 \<or> a + 10 \<le> i \<Longrightarrow> set_dirent_rec_len b a v i = b i" "i < a \<or> a + 8 \<le> i \<Longrightarrow> set_dirent_ino b a w i = b i"
  by (auto simp: put_name_def blk_copy_def set_dirent_name_len_def dirent_name_off_def set_dirent_rec_len_def set_dirent_ino_def
      put_u16_def put_u64_def store_le_def)

lemma put_name_fields:
  "dirent_ino (put_name b a str) a = dirent_ino b a" "dirent_rec_len (put_name b a str) a = dirent_rec_len b a"
  by (rule field_cong; simp add: write_bytes)+

text \<open>A hole: the record stays as it is.\<close>

lemma plug_hole:
  assumes b: "dir_block b xs e" and a: "(a, r) \<in> set xs" "dirent_ino b a = 0" and n: "12 + length str \<le> r"
  shows "dir_block (put_name b a str) xs e" "entries (put_name b a str) xs = entries b xs"
proof -
  let ?b = "put_name b a str"
  have R: "records b 0 xs e" using b by (simp add: dir_block_def)
  note A = records_bounds(2) [OF R a(1)]
  have out: "?b i = b i" if "i < a \<or> a + r \<le> i" for i using that n by (auto simp: write_bytes)
  have other: "?b i = b i" if "(c, t) \<in> set xs" "c \<noteq> a" "c \<le> i" "i < c + t" for c t i
    using out records_disjoint [OF R that(1) a(1) that(2)] that(3,4) by auto
  have f: "dirent_ino ?b c = dirent_ino b c" "dirent_rec_len ?b c = dirent_rec_len b c" if c: "(c, t) \<in> set xs" for c t
  proof -
    have "dirent_ino ?b c = dirent_ino b c \<and> dirent_rec_len ?b c = dirent_rec_len b c"
      using other [OF c] records_bounds(2) [OF R c] put_name_fields by (cases "c = a") (auto intro!: field_cong)
    then show "dirent_ino ?b c = dirent_ino b c" "dirent_rec_len ?b c = dirent_rec_len b c" by simp_all
  qed
  have "dirent_rec_len ?b e = dirent_rec_len b e" by (rule field_cong(2)) (use out A in auto)
  then show "dir_block ?b xs e" using b records_cong [OF R f(2)] by (auto simp: dir_block_def)
  show "entries ?b xs = entries b xs"
  proof (rule entries_cong)
    fix c t i assume "(c, t) \<in> set xs" "dirent_ino b c \<noteq> 0" "c \<le> i" "i < c + t"
    moreover from this a(2) have "c \<noteq> a" by auto
    ultimately show "?b i = b i" using other by blast
  qed (use f in blast)
qed

text \<open>The end of the entries: a new record, and a new end mark when there is room for one.\<close>

definition plug_end :: "block \<Rightarrow> nat \<Rightarrow> nat \<Rightarrow> u8 list \<Rightarrow> block" where
  "plug_end b e len str = put_name (set_dirent_rec_len (set_dirent_ino
     (if e + len + 16 \<le> 4096 then set_dirent_rec_len b (e + len) 0 else b) e 0) e (of_nat len)) e str"

lemma plug_end_ok:
  assumes b: "dir_block b xs e" and len: "e + len \<le> 4096" "12 + length str \<le> len" "16 \<le> len" "len mod 8 = 0"
  shows "dir_block (plug_end b e len str) (xs @ [(e, len)]) (e + len)" "entries (plug_end b e len str) (xs @ [(e, len)]) = entries b xs"
    "dirent_ino (plug_end b e len str) e = 0"
proof -
  let ?b = "plug_end b e len str"
  have R: "records b 0 xs e" and e: "e mod 8 = 0" using b len by (auto simp: dir_block_def)
  have out: "?b i = b i" if "i < e" for i using that unfolding plug_end_def by (simp add: write_bytes)
  have f: "dirent_ino ?b c = dirent_ino b c" "dirent_rec_len ?b c = dirent_rec_len b c" if c: "(c, t) \<in> set xs" for c t
  proof -
    have "c + 16 \<le> e" using records_bounds(2) [OF R c] by linarith
    then have o: "?b i = b i" if "i < c + 16" for i using out that by simp
    show "dirent_ino ?b c = dirent_ino b c" by (rule field_cong(1)) (rule o, simp)
    show "dirent_rec_len ?b c = dirent_rec_len b c" by (rule field_cong(2)) (rule o, simp)+
  qed
  have "dirent_rec_len ?b e = of_nat len" "dirent_ino ?b e = 0"
    unfolding plug_end_def put_name_fields
    by (simp_all add: dirent_rec_len_def dirent_ino_def set_dirent_rec_len_def set_dirent_ino_def access_simps)
  then have E: "rlen ?b e = len" "dirent_ino ?b e = 0" using len(1) by (simp_all add: unsigned_of_nat take_bit_nat_eq_self)
  then show "dirent_ino ?b e = 0" by simp
  have "rlen ?b (e + len) = 0" if "e + len + 16 \<le> 4096"
  proof -
    have "dirent_rec_len ?b (e + len) = dirent_rec_len (set_dirent_rec_len b (e + len) 0) (e + len)"
      by (rule field_cong(2)) (use that len in \<open>simp_all add: plug_end_def write_bytes\<close>)
    then show ?thesis by (simp add: dirent_rec_len_def set_dirent_rec_len_def access_simps)
  qed
  moreover have "(e + len) mod 8 = 0" using e len(4) by (metis mod_add_eq add_0 mod_0)
  moreover have "records ?b 0 (xs @ [(e, len)]) (e + len)"
    unfolding records_append using records_cong [OF R f(2)] E(1) e len by auto
  ultimately show "dir_block ?b (xs @ [(e, len)]) (e + len)" by (simp add: dir_block_def)
  have "entries ?b xs = entries b xs"
  proof (rule entries_cong)
    fix c t i assume "(c, t) \<in> set xs" "i < c + t"
    then have "i < e" using records_bounds(2) [OF R] by (meson less_le_trans)
    then show "?b i = b i" by (rule out)
  qed (use f(1) in blast)
  then show "entries ?b (xs @ [(e, len)]) = entries b xs" using E(2) by (simp add: entries_def in_use_def)
qed

lemma dirent_name_put_name:
  assumes "CHR 0x00 \<notin> set nm" and "a + 13 + length nm \<le> 4096"
  shows "dirent_name (put_name b a (name_bytes nm)) a = Some nm"
proof -
  let ?n = "length nm" and ?b = "put_name b a (name_bytes nm)" and ?g = "\<lambda>c. of_nat (of_char c) :: u8"
  have len: "length (name_bytes nm) = ?n + 1" by (simp add: name_bytes_def)
  have "map ?b [a + 12..<a + 12 + (?n + 1)] = name_bytes nm"
    by (rule nth_equalityI) (simp_all add: len write_bytes)
  moreover have "[a + 12..<4096] = [a + 12..<a + 12 + (?n + 1)] @ [a + 12 + (?n + 1)..<4096]"
    using upt_add_eq_append [of "a + 12" "a + 12 + (?n + 1)" "4096 - (a + 13 + ?n)"] assms(2) by simp
  ultimately have m: "map ?b [dirent_name_off a..<4096] = map ?g nm @ 0 # map ?b [a + 12 + (?n + 1)..<4096]"
    unfolding dirent_name_off_def by (simp only: map_append name_bytes_def append_assoc append_Cons append_Nil)
  have z: "?g c \<noteq> 0 \<and> char_of (unat (?g c)) = c" if "c \<in> set nm" for c
  proof -
    have "(of_char c :: nat) < 256" by (simp add: less_le_trans)
    then have u: "unat (?g c) = of_char c" by (simp add: unsigned_of_nat take_bit_nat_eq_self)
    have "c \<noteq> CHR 0x00" using that assms(1) by auto
    moreover have "char_of (0 :: nat) = CHR 0x00" by code_simp
    ultimately have "(of_char c :: nat) \<noteq> 0" by (metis char_of_char)
    then show ?thesis using u by (metis char_of_char unat_0)
  qed
  then have "takeWhile (\<lambda>c. c \<noteq> 0) (map ?g nm @ 0 # map ?b [a + 12 + (?n + 1)..<4096]) = map ?g nm"
    by (subst takeWhile_append2) auto
  then show ?thesis unfolding dirent_name_def Let_def m using z by (simp add: map_idI)
qed

lemma add_free_ok:
  assumes "dcache_inv dc rs" and "x \<in> set rs" and "off \<noteq> DCACHE_FREE_NONE"
  shows "\<exists>dc'. dcache_add_free True x off len dc = Some (0, dc') \<and> dcache_inv dc' rs \<and> dc_entries dc' = dc_entries dc \<and>
    dc_free dc' = (dc_free dc)(x := (off, len) # dc_free dc x)"
proof -
  obtain d where d: "mdir_get dc x = Some d" "dc_mdirs dc x = Some d" "str_map_ok (dirents d)" "dc_free dc x = free_dirents d"
    "dc_entries dc x = (\<lambda>n. hm_map (dirents d) (KStr n))"
    using cached_dir [OF assms(1,2)] by metis
  let ?dc = "mdir_put x (d\<lparr>free_dirents := (off, len) # free_dirents d\<rparr>) dc"
  have "dcache_inv ?dc rs" using d(3) by (intro mdir_put_ok [OF assms(1) d(2)]) simp_all
  moreover have "dc_data dc x = Some (mdir_data d)" using d(2) by (simp add: dc_data_def)
  then have "dc_entries ?dc = dc_entries dc" "dc_free ?dc = (dc_free dc)(x := (off, len) # dc_free dc x)"
    using d(4) by (auto simp: dc_entries_def dc_free_def mdir_data_def fun_eq_iff)
  moreover have "find_dir dc x = Some (Some x)" using find_dir_ok [OF dcache_invD(2) [OF assms(1)]] assms(2) by simp
  ultimately show ?thesis using d(1) assms(3) by (auto simp: dcache_add_free_def)
qed

text \<open>Writing the inode number makes the entry at \<open>a\<close> appear.\<close>

lemma set_ino_adds:
  assumes "dir_block b xs e" and "(a, r) \<in> set xs" and "dirent_ino b a = 0" and "ino \<noteq> 0"
  shows "dir_block (set_dirent_ino b a ino) xs e"
    "set (entries (set_dirent_ino b a ino) xs) = insert (a, map (set_dirent_ino b a ino) [a..<a + r]) (set (entries b xs))"
proof -
  let ?b = "set_dirent_ino b a ino"
  have R: "records b 0 xs e" using assms(1) by (simp add: dir_block_def)
  have other: "?b i = b i" if "(c, t) \<in> set xs" "c \<noteq> a" "c \<le> i" "i < c + t" for c t i
    using records_disjoint [OF R that(1) assms(2) that(2)] that(3,4) records_bounds(2) [OF R assms(2)] write_bytes(3) [of i a] by auto
  have rl: "dirent_rec_len ?b c = dirent_rec_len b c" if "(c, t) \<in> set xs" for c t
    using other [OF that] records_bounds(2) [OF R that] by (cases "c = a") (auto intro!: field_cong(2) simp: write_bytes)
  have e: "dirent_rec_len ?b e = dirent_rec_len b e"
    using records_bounds(2) [OF R assms(2)] by (intro field_cong(2)) (auto simp: write_bytes)
  then show "dir_block ?b xs e" using assms(1) records_cong [OF R rl] by (auto simp: dir_block_def)
  have ino: "dirent_ino ?b c = (if c = a then ino else dirent_ino b c)" if "(c, t) \<in> set xs" for c t
  proof (cases "c = a")
    case False
    then have "dirent_ino ?b c = dirent_ino b c"
      using other [OF that False] records_bounds(2) [OF R that] by (intro field_cong(1)) auto
    then show ?thesis using False by simp
  qed (simp add: dirent_ino_def set_dirent_ino_def access_simps)
  have bytes: "map ?b [c..<c + t] = map b [c..<c + t]" if "(c, t) \<in> set xs" "c \<noteq> a" for c t using other that by simp
  have "(c, w) \<in> set (entries ?b xs) \<longleftrightarrow> (c, w) \<in> insert (a, map ?b [a..<a + r]) (set (entries b xs))" for c w
  proof (cases "c = a")
    case True
    have "(a, w) \<in> set (entries ?b xs) \<longleftrightarrow> w = map ?b [a..<a + r]"
      unfolding entries_mem using assms(2,4) ino [OF assms(2)] records_distinct [OF R assms(2)] by metis
    moreover have "(a, w) \<notin> set (entries b xs)" unfolding entries_mem using assms(3) by simp
    ultimately show ?thesis using True by simp
  next
    case False
    have "(c, w) \<in> set (entries ?b xs) \<longleftrightarrow> (c, w) \<in> set (entries b xs)"
      unfolding entries_mem using ino bytes False by metis
    then show ?thesis using False by simp
  qed
  then show "set (entries ?b xs) = insert (a, map ?b [a..<a + r]) (set (entries b xs))" by auto
qed

section \<open>The callback\<close>

text \<open>\<open>a\<close> is the end of the entries, or a hole of at least \<open>len\<close> bytes.\<close>

definition free_slot :: "block \<Rightarrow> (nat \<times> nat) list \<Rightarrow> nat \<Rightarrow> nat \<Rightarrow> nat \<Rightarrow> bool" where
  "free_slot b xs e a len \<longleftrightarrow> a = e \<and> e + len \<le> 4096 \<or> (\<exists>r. (a, r) \<in> set xs \<and> dirent_ino b a = 0 \<and> len \<le> r)"

definition name_ok :: "string \<Rightarrow> bool" where
  "name_ok nm \<longleftrightarrow> CHR 0x00 \<notin> set nm \<and> length nm \<le> 255"

definition entry_len :: "string \<Rightarrow> nat" where
  "entry_len nm = (length nm + 20) div 8 * 8"

lemma entry_len_bounds: "13 + length nm \<le> entry_len nm" "16 \<le> entry_len nm" "entry_len nm mod 8 = 0"
proof -
  obtain q m where q: "q = (length nm + 20) div 8" "m = (length nm + 20) mod 8" by blast
  have "length nm + 20 = q * 8 + m" "m < 8" by (simp_all add: q)
  moreover have "entry_len nm = q * 8" by (simp add: entry_len_def q)
  ultimately show "13 + length nm \<le> entry_len nm" "16 \<le> entry_len nm" "entry_len nm mod 8 = 0" by simp_all
qed

lemma free_slot_bounds:
  assumes "dir_block b xs e" and "free_slot b xs e a len" and "16 \<le> len"
  shows "a mod 8 = 0" "a + len \<le> 4096" "rlen b a = 0 \<or> len \<le> rlen b a" "a + rlen b a \<le> 4096" "rlen b a = 0 \<longleftrightarrow> a = e"
proof -
  have R: "records b 0 xs e" and E: "e + 16 \<le> 4096 \<longrightarrow> e mod 8 = 0 \<and> rlen b e = 0" using assms(1) by (auto simp: dir_block_def)
  have "a mod 8 = 0 \<and> a + len \<le> 4096 \<and> (rlen b a = 0 \<or> len \<le> rlen b a) \<and> a + rlen b a \<le> 4096 \<and> (rlen b a = 0 \<longleftrightarrow> a = e)"
  proof (cases "a = e \<and> e + len \<le> 4096")
    case True
    then show ?thesis using E assms(3) by auto
  next
    case False
    then obtain r where r: "(a, r) \<in> set xs" "len \<le> r" using assms(2) by (auto simp: free_slot_def)
    have "xs \<noteq> []" using r(1) by auto
    then have "e \<le> 4096" by (rule records_bounds(3) [OF R])
    then show ?thesis using records_bounds(2) [OF R r(1)] r(2) by auto
  qed
  then show "a mod 8 = 0" "a + len \<le> 4096" "rlen b a = 0 \<or> len \<le> rlen b a" "a + rlen b a \<le> 4096" "rlen b a = 0 \<longleftrightarrow> a = e"
    by - (elim conjE, assumption)+
qed

lemma unat_of_nat_small: "n < 2 ^ 64 \<Longrightarrow> unat (of_nat n :: u64) = n"
  by (simp add: unsigned_of_nat take_bit_nat_eq_self)

lemma block_position:
  assumes "unat blockoff < 2 ^ 51" and "x \<le> 4096"
  shows "blockoff * 4096 + of_nat x \<noteq> DCACHE_FREE_NONE"
proof -
  have "unat (blockoff * 4096) = unat blockoff * 4096" using assms(1) unat_word_mult [of blockoff 4096] by simp
  moreover have "unat (of_nat x :: u64) = x" using assms(2) by (intro unat_of_nat_small) simp
  ultimately have "unat (blockoff * 4096 + of_nat x) = unat blockoff * 4096 + x"
    using unat_word_add [of "blockoff * 4096" "of_nat x"] assms by simp
  moreover have "unat blockoff * 4096 + x < 2 ^ 64 - 1" using assms by simp
  moreover have "unat (- 1 :: u64) = 2 ^ 64 - 1" by (simp add: unat_minus_1)
  ultimately show ?thesis by (metis nat_neq_iff)
qed

lemma end_entries_ok:
  assumes "dcache_inv dc rs" and "parent \<in> set rs" and "m_free m" and "unat blockoff < 2 ^ 51" and "x \<le> 4096"
  shows "\<exists>dc'. end_entries m parent blockoff x b dc = Some (0, if x + 16 \<le> 4096 then set_dirent_rec_len b x 0 else b, dc') \<and>
    dcache_inv dc' rs \<and> dc_entries dc' = dc_entries dc"
  using add_free_ok [OF assms(1,2) block_position [OF assms(4,5)], of "of_nat (4096 - x)"] assms(1,3)
  by (auto simp: end_entries_def)

text \<open>What the new block looks like.\<close>

definition plugged :: "string \<Rightarrow> nat \<Rightarrow> block \<Rightarrow> (nat \<times> nat) list \<Rightarrow> block \<Rightarrow> bool" where
  "plugged nm a b xs b' \<longleftrightarrow> (\<exists>xs' e' r. dir_block b' xs' e' \<and> (a, r) \<in> set xs' \<and> entries b' xs' = entries b xs \<and>
     dirent_ino b' a = 0 \<and> dirent_name b' a = Some nm \<and>
     (\<forall>ino. ino \<noteq> 0 \<longrightarrow> set (entries (set_dirent_ino b' a ino) xs') =
        insert (a, map (set_dirent_ino b' a ino) [a..<a + r]) (set (entries b xs))))"

lemma pluggedI:
  assumes "dir_block b' xs' e'" "(a, r) \<in> set xs'" "entries b' xs' = entries b xs" "dirent_ino b' a = 0" "dirent_name b' a = Some nm"
  shows "plugged nm a b xs b'"
  unfolding plugged_def using assms set_ino_adds(2) [OF assms(1,2,4)] by metis

text \<open>C8. A new directory entry stays invisible until its inode number is written: when \<^verbatim>\<open>callback_dirent_plug\<close> puts a
  name into a free slot of a well-formed directory block, the callback returns 1, the block stays well-formed
  and every entry in use keeps all its bytes; the slot holds the name and inode number 0. A store of an inode
  number into it then adds exactly this entry. No other block changes, and the cache keeps its entries.\<close>

theorem dirent_plug_invisible:
  assumes b: "mem p s = Some b" "dir_block b xs e" and slot: "free_slot b xs e a (entry_len nm)" and nm: "name_ok nm"
    and o: "unat off = a" "off + sz = 4096" "unat blockoff < 2 ^ 51"
    and dc: "dcache_inv dc rs" "parent \<in> set rs" "m_free m" and sd: "sd_str sd = name_bytes nm"
  shows "\<exists>dc' s' b'. callback_dirent_plug m parent blockoff (Bpram p) off sz vld cs COMMIT_ATOMIC (sd, dc) blockno s =
      Some (1, blockno, (sd\<lparr>sd_dirent_off := blockoff * 4096 + ucast off, sd_dirent := Some (Bpram p, a)\<rparr>, dc'), s') \<and>
    mem p s' = Some b' \<and> plugged nm a b xs b' \<and> (\<forall>q. q \<noteq> p \<longrightarrow> mem q s' = mem q s) \<and>
    dcache_inv dc' rs \<and> dc_entries dc' = dc_entries dc"
proof -
  let ?l = "entry_len nm" and ?L = "BPFS_DIRENT_LEN (sd_len sd)"
  note el = entry_len_bounds [of nm]
  have n: "unat (sd_len sd) = length nm + 1"
    unfolding sd_len_def sd using nm unat_of_nat_small [of "length nm + 1"] by (simp add: name_bytes_def name_ok_def)
  then have L: "unat ?L = ?l" using BPFS_DIRENT_LEN_unat [of "sd_len sd"] nm by (simp add: name_ok_def entry_len_def)
  note S = free_slot_bounds [OF b(2) slot el(2)]
  have oa: "unat (of_nat a :: u64) = a" using S(2) by (intro unat_of_nat_small) simp
  have c1: "of_nat a + ?L \<le> ucast (off + sz)"
    unfolding o(2) word_le_nat_alt using unat_word_add [of "of_nat a" ?L] oa L S(2) by simp
  have c2: "dirent_rec_len b a = 0 \<or> ?L \<le> ucast (dirent_rec_len b a)"
  proof -
    have "unat (dirent_rec_len b a) < 2 ^ 64" using unat_bounded [of "dirent_rec_len b a"] by simp
    then have "unat (ucast (dirent_rec_len b a) :: u64) = rlen b a" by (simp add: unsigned_ucast_eq take_bit_nat_eq_self)
    then show ?thesis using S(3) L by (simp add: word_le_nat_alt unat_eq_0)
  qed
  have c3: "?L \<le> 4096 - of_nat a" using unat_word_sub [of "of_nat a" 4096] oa L S(2) by (simp add: word_le_nat_alt)
  have z: "dirent_rec_len b a = 0 \<longleftrightarrow> a = e" using S(5) unat_eq_0 by metis
  have nb: "length (name_bytes nm) = length nm + 1" by (simp add: name_bytes_def)
  have dn: "dirent_name (put_name c a (name_bytes nm)) a = Some nm" for c
    by (rule dirent_name_put_name) (use nm S(2) el(1) in \<open>simp_all add: name_ok_def\<close>)
  show ?thesis
  proof (cases "a = e")
    case True
    have l16: "ucast ?L = (of_nat ?l :: u16)" unfolding L [symmetric] by (rule of_nat_unat [symmetric])
    obtain dc' where d: "end_entries m parent blockoff (a + ?l) b dc = Some (0, if e + ?l + 16 \<le> 4096 then set_dirent_rec_len b (e + ?l) 0 else b, dc')"
        "dcache_inv dc' rs" "dc_entries dc' = dc_entries dc"
      using end_entries_ok [OF dc o(3), of "a + ?l" b] True S(2) by auto
    let ?b = "plug_end b e ?l (name_bytes nm)"
    obtain s' where s': "put_mem p ?b s = Some s'" using b(1) by (auto simp: put_mem_def mem_def split: if_splits)
    have run: "callback_dirent_plug m parent blockoff (Bpram p) off sz vld cs COMMIT_ATOMIC (sd, dc) blockno s =
      Some (1, blockno, (sd\<lparr>sd_dirent_off := blockoff * 4096 + ucast off, sd_dirent := Some (Bpram p, a)\<rparr>, dc'), s')"
      using b(1) S(1,4) c1 c2 c3 z True d(1) s' unfolding callback_dirent_plug_def Let_def o(1)
      by (simp add: L l16 sd plug_end_def)
    have "12 + length (name_bytes nm) \<le> ?l" using nb el(1) by simp
    note P = plug_end_ok [OF b(2) _ this el(2,3)]
    have "plugged nm a b xs ?b"
      by (rule pluggedI [where r = ?l and xs' = "xs @ [(e, ?l)]"]) (use P S(2) True dn in \<open>simp_all add: plug_end_def\<close>)
    then show ?thesis using run mem_put_mem [OF s'] d(2,3) by (intro exI [of _ dc'] exI [of _ s'] exI [of _ ?b]) simp
  next
    case False
    then obtain r where r: "(a, r) \<in> set xs" "dirent_ino b a = 0" "?l \<le> r" using slot by (auto simp: free_slot_def)
    let ?b = "put_name b a (name_bytes nm)"
    obtain s' where s': "put_mem p ?b s = Some s'" using b(1) by (auto simp: put_mem_def mem_def split: if_splits)
    have run: "callback_dirent_plug m parent blockoff (Bpram p) off sz vld cs COMMIT_ATOMIC (sd, dc) blockno s =
      Some (1, blockno, (sd\<lparr>sd_dirent_off := blockoff * 4096 + ucast off, sd_dirent := Some (Bpram p, a)\<rparr>, dc), s')"
      using b(1) S(1,4) c1 c2 c3 z False s' unfolding callback_dirent_plug_def Let_def o(1) by (simp add: sd)
    have "12 + length (name_bytes nm) \<le> r" using nb el(1) r(3) by simp
    note P = plug_hole [OF b(2) r(1,2) this]
    have "plugged nm a b xs ?b" by (rule pluggedI [OF P(1) r(1)]) (use P dn r(2) put_name_fields in simp_all)
    then show ?thesis using run mem_put_mem [OF s'] dc(1) by (intro exI [of _ dc] exI [of _ s'] exI [of _ ?b]) simp
  qed
qed

text \<open>One entry of 24 bytes; the name ``ab'' goes behind it.\<close>

definition sample_dir :: block where
  "sample_dir = set_dirent_rec_len (set_dirent_ino zero_block 0 9) 0 24"

lemma sample_dir_block: "dir_block sample_dir [(0, 24)] 24" "free_slot sample_dir [(0, 24)] 24 24 (entry_len ''ab'')"
proof -
  have "get_u16 zero_block 32 = 0" by code_simp
  then show "dir_block sample_dir [(0, 24)] 24" "free_slot sample_dir [(0, 24)] 24 24 (entry_len ''ab'')"
    by (simp_all add: sample_dir_def dir_block_def free_slot_def entry_len_def dirent_rec_len_def set_dirent_rec_len_def set_dirent_ino_def
        access_simps)
qed

theorem dirent_plug_invisible_witness:
  "\<exists>u s' b'. callback_dirent_plug \<lparr>m_dir = mem_ok, m_dup = True, m_elt = True, m_table = (True, True, True), m_free = True, m_buf = True\<rparr>
      1 0 (Bpram 1) 24 4072 24 0 COMMIT_ATOMIC
      (\<lparr>sd_str = name_bytes ''ab'', sd_dirent_off = 0, sd_dirent = None\<rparr>, one_dir) 8 (sample_mount\<lparr>bpram := [sample_dir]\<rparr>) = Some (1, 8, u, s') \<and>
    mem 1 s' = Some b' \<and> plugged ''ab'' 24 sample_dir [(0, 24)] b'"
proof -
  have b: "mem 1 (sample_mount\<lparr>bpram := [sample_dir]\<rparr>) = Some sample_dir" by (simp add: mem_def)
  have n: "name_ok ''ab''" by (simp add: name_ok_def)
  have s: "sd_str \<lparr>sd_str = name_bytes ''ab'', sd_dirent_off = 0, sd_dirent = None\<rparr> = name_bytes ''ab''" by simp
  show ?thesis
    by (rule exE [OF dirent_plug_invisible [OF b sample_dir_block n _ _ _ one_dir_inv _ _ s, of 24 4072 0 1
          "\<lparr>m_dir = mem_ok, m_dup = True, m_elt = True, m_table = (True, True, True), m_free = True, m_buf = True\<rparr>" 24 0 8]]) auto
qed

end
