(* ===== verification/Dir_Load.thy ===== *)
theory Dir_Load
  imports Dir_Entries File_Write
begin

text \<open>
  Loading a block of a directory into the directory entry cache. The reference is the list of the
  entries in use of a well-formed block; \<^verbatim>\<open>callback_load_directory\<close> leaves the cache with exactly these entries
  added and the rest of the block as free space.
\<close>

section \<open>The entries of a block\<close>

text \<open>The inode with this number is present and has generation \<open>g\<close>.\<close>

definition has_generation :: "fs \<Rightarrow> u64 \<Rightarrow> u64 \<Rightarrow> bool" where
  "has_generation s ino g \<longleftrightarrow> (\<exists>ir i l b. inode_at ino s ir i l \<and> mem l s = Some b \<and> inode_generation b (inode_pos ino mod 4096) = g)"

definition entry_of :: "(u64 \<Rightarrow> u64) \<Rightarrow> block \<Rightarrow> u64 \<Rightarrow> nat \<Rightarrow> mdirent" where
  "entry_of gen b pos a = \<lparr>md_name = the (dirent_name b a), md_off = pos + of_nat a, md_ino = dirent_ino b a,
     md_ino_generation = gen (dirent_ino b a), md_rec_len = dirent_rec_len b a, md_file_type = dirent_file_type b a\<rparr>"

definition listing :: "(u64 \<Rightarrow> u64) \<Rightarrow> block \<Rightarrow> u64 \<Rightarrow> (nat \<times> nat) list \<Rightarrow> (string \<times> mdirent) list" where
  "listing gen b pos xs = map (\<lambda>(a, r). (the (dirent_name b a), entry_of gen b pos a)) (in_use b xs)"

definition loadable :: "fs \<Rightarrow> (u64 \<Rightarrow> u64) \<Rightarrow> block \<Rightarrow> (nat \<times> nat) list \<Rightarrow> bool" where
  "loadable s gen b xs \<longleftrightarrow> (\<forall>(a, r) \<in> set (in_use b xs). dirent_fits b a \<and> dirent_name b a \<noteq> None \<and> has_generation s (dirent_ino b a) (gen (dirent_ino b a)))"

lemma in_use_Cons: "in_use b ((a, r) # xs) = (if dirent_ino b a \<noteq> 0 then (a, r) # in_use b xs else in_use b xs)"
  by (simp add: in_use_def)

lemma has_generation_touched: "touched s s' \<Longrightarrow> has_generation s ino g \<Longrightarrow> has_generation s' ino g"
  unfolding has_generation_def using inode_at_touched touched_mem(1) by metis

lemma loadable_touched: "touched s s' \<Longrightarrow> loadable s gen b xs \<Longrightarrow> loadable s' gen b xs"
  unfolding loadable_def using has_generation_touched by blast

lemma inode_get_generation:
  assumes "has_generation s ino g"
  obtains s1 where "inode_get inode_generation ino s = Some (g, s1)" "touched s s1"
proof -
  obtain ir i l b where at: "inode_at ino s ir i l" "mem l s = Some b" "inode_generation b (inode_pos ino mod 4096) = g"
    using assms by (auto simp: has_generation_def)
  obtain s1 where s1: "get_inode ino s = Some ((Bpram l, inode_pos ino mod 4096), s1)" "noted s s1" using get_inode_ok [OF at(1)] .
  have "mem l s1 = Some b" using touched_mem(1) [OF noted_touched [OF s1(2)]] at(2) by simp
  then show thesis using that s1 at(3) noted_touched by (simp add: inode_get_def inode_field_def)
qed

lemma mdirent_init_dirent_ok:
  assumes "deref bp s = Some b" and "dirent_name b a \<noteq> None" and "has_generation s (dirent_ino b a) (gen (dirent_ino b a))"
  obtains s1 where "mdirent_init_dirent bp a (pos + of_nat a) s = Some (entry_of gen b pos a, s1)" "touched s s1"
proof -
  obtain s1 where "inode_get inode_generation (dirent_ino b a) s = Some (gen (dirent_ino b a), s1)" "touched s s1"
    using inode_get_generation [OF assms(3)] .
  then show thesis using that assms(1,2) by (auto simp: mdirent_init_dirent_def entry_of_def)
qed

lemma add_dirent_entries:
  assumes "dcache_inv dc rs" and "x \<in> set rs" and "dc_entries dc x (md_name md) = None"
  obtains dc' where "dcache_add_dirent True True t x md dc = Some (0, dc')" "dcache_inv dc' (x # remove1 x rs)"
    "dc_entries dc' = (dc_entries dc)(x := (dc_entries dc x)(md_name md \<mapsto> md))" "dc_free dc' = dc_free dc"
proof -
  obtain dc' where d: "dcache_add_dirent True True t x md dc = Some (0, dc')" "dcache_inv dc' (x # remove1 x rs)"
    "dc_entries dc' x = (dc_entries dc x)(md_name md \<mapsto> md)" "dc_free dc' x = dc_free dc x"
    "\<And>i. i \<noteq> x \<Longrightarrow> dc_data dc' i = dc_data dc i"
    using add_dirent_ok [OF assms, of t] by blast
  have "dc_entries dc' i = dc_entries dc i" "dc_free dc' i = dc_free dc i" if "i \<noteq> x" for i
    using d(5) [OF that] by (simp_all add: dc_entries_def dc_free_def fun_eq_iff)
  then have "dc_entries dc' = (dc_entries dc)(x := (dc_entries dc x)(md_name md \<mapsto> md))" "dc_free dc' = dc_free dc"
    using d(3,4) by (simp_all add: fun_eq_iff) (metis)+
  then show thesis using that d(1,2) by blast
qed

section \<open>The loop\<close>

definition mem_answers :: "dirs_mem \<Rightarrow> bool" where
  "mem_answers m \<longleftrightarrow> m_dup m \<and> m_elt m \<and> m_free m"

text \<open>What is left of the block behind the last entry.\<close>

definition rest_of :: "u64 \<Rightarrow> nat \<Rightarrow> (u64 \<times> u16) list" where
  "rest_of pos e = (if e + 16 \<le> 4096 then [(pos + of_nat e, of_nat (4096 - e))] else [])"

text \<open>The cache got the entries \<open>ds\<close> and the free space \<open>fs\<close> of directory \<open>x\<close>; it still knows the same directories.\<close>

definition loaded :: "u64 \<Rightarrow> (string \<times> mdirent) list \<Rightarrow> (u64 \<times> u16) list \<Rightarrow> u64 set \<Rightarrow> dcache \<Rightarrow> dcache \<Rightarrow> bool" where
  "loaded x ds fs A dc dc' \<longleftrightarrow> dc_entries dc' = (dc_entries dc)(x := dc_entries dc x ++ map_of ds) \<and>
     dc_free dc' = (dc_free dc)(x := fs @ dc_free dc x) \<and> (\<exists>rs. dcache_inv dc' rs \<and> set rs = A)"

lemma loaded_refl: "dcache_inv dc rs \<Longrightarrow> loaded x [] [] (set rs) dc dc"
  by (auto simp: loaded_def)

lemma loaded_trans:
  assumes "loaded x ds fs A dc dc1" and "loaded x ds' fs' A dc1 dc2" and "fst ` set ds \<inter> fst ` set ds' = {}"
  shows "loaded x (ds @ ds') (fs' @ fs) A dc dc2"
proof -
  have "map_of ds ++ map_of ds' = map_of ds' ++ map_of ds"
    by (rule map_add_comm) (use assms(3) in \<open>simp add: dom_map_of_conv_image_fst\<close>)
  moreover have "dc_entries dc2 = (dc_entries dc)(x := dc_entries dc x ++ (map_of ds ++ map_of ds'))" "dc_free dc2 = (dc_free dc)(x := fs' @ fs @ dc_free dc x)"
    using assms(1,2) by (simp_all add: loaded_def)
  moreover have "\<exists>rs. dcache_inv dc2 rs \<and> set rs = A" using assms(2) by (simp add: loaded_def)
  ultimately show ?thesis unfolding loaded_def by (simp add: map_of_append)
qed

text \<open>The two functions of the loop.\<close>

definition load_end :: "dirs_mem \<Rightarrow> u64 \<Rightarrow> u64 \<Rightarrow> nat \<Rightarrow> dcache \<Rightarrow> fs \<Rightarrow> (int \<times> dcache \<times> fs) option" where
  "load_end m x blockoff a dc s = do {
     (r, dc) \<leftarrow> dcache_add_free (m_free m) x (blockoff * BPFS_BLOCK_SIZE + of_nat a) (of_nat (4096 - a)) dc;
     Some (r, dc, s)
   }"

definition load_entry :: "dirs_mem \<Rightarrow> u64 \<Rightarrow> u64 \<Rightarrow> bptr \<Rightarrow> nat \<Rightarrow> nat \<Rightarrow> dcache \<Rightarrow> fs \<Rightarrow> (int \<times> dcache \<times> fs) option" where
  "load_entry m x blockoff bp a next dc s = do {
     b \<leftarrow> deref bp s;
     check (dirent_fits b a);
     (md, s) \<leftarrow> mdirent_init_dirent bp a (blockoff * BPFS_BLOCK_SIZE + of_nat a) s;
     (r, dc) \<leftarrow> dcache_add_dirent (m_dup m) (m_elt m) (m_table m) x md dc;
     Some (r, dc, s)
   }"

lemma callback_load_directory_eq:
  "callback_load_directory m x blockoff bp off sz vld cs commit dc blockno s = do {
     (r, dc, s) \<leftarrow> dirent_loop True (load_end m x blockoff) (load_entry m x blockoff bp) bp (unat (off + sz)) (unat off) dc s;
     Some (r, blockno, dc, s)
   }"
  by (simp add: callback_load_directory_def load_end_def [abs_def] load_entry_def [abs_def])

lemma load_end_ok:
  assumes "dcache_inv dc rs" and "x \<in> set rs" and "mem_answers m" and "unat blockoff < 2 ^ 51" and "e + 16 \<le> 4096"
  obtains dc' where "load_end m x blockoff e dc s = Some (0, dc', s)" "loaded x [] (rest_of (blockoff * 4096) e) (set rs) dc dc'"
proof -
  obtain dc' where d: "dcache_add_free True x (blockoff * 4096 + of_nat e) (of_nat (4096 - e)) dc = Some (0, dc')" "dcache_inv dc' rs"
    "dc_entries dc' = dc_entries dc" "dc_free dc' = (dc_free dc)(x := (blockoff * 4096 + of_nat e, of_nat (4096 - e)) # dc_free dc x)"
    using add_free_ok [OF assms(1,2) block_position [OF assms(4)], of e "of_nat (4096 - e)"] assms(5) by auto
  have "loaded x [] (rest_of (blockoff * 4096) e) (set rs) dc dc'" using d assms(5) by (auto simp: loaded_def rest_of_def)
  then show thesis using that d(1) assms(3) by (simp add: load_end_def mem_answers_def)
qed

lemma load_entry_ok:
  assumes b: "deref bp s = Some b" "dirent_fits b a" "dirent_name b a \<noteq> None" "has_generation s (dirent_ino b a) (gen (dirent_ino b a))"
    and dc: "dcache_inv dc rs" "x \<in> set rs" "dc_entries dc x (the (dirent_name b a)) = None" and m: "mem_answers m"
  obtains dc1 s1 where "load_entry m x blockoff bp a next dc s = Some (0, dc1, s1)" "touched s s1"
    "loaded x [(the (dirent_name b a), entry_of gen b (blockoff * 4096) a)] [] (set rs) dc dc1"
proof -
  let ?e = "entry_of gen b (blockoff * 4096) a"
  have n: "md_name ?e = the (dirent_name b a)" by (simp add: entry_of_def)
  obtain s1 where s1: "mdirent_init_dirent bp a (blockoff * 4096 + of_nat a) s = Some (?e, s1)" "touched s s1"
    using mdirent_init_dirent_ok [of bp s b a gen, OF b(1,3,4)] .
  obtain dc1 where d: "dcache_add_dirent True True (m_table m) x ?e dc = Some (0, dc1)" "dcache_inv dc1 (x # remove1 x rs)"
    "dc_entries dc1 = (dc_entries dc)(x := (dc_entries dc x)(md_name ?e \<mapsto> ?e))" "dc_free dc1 = dc_free dc"
    using add_dirent_entries [OF dc(1,2) dc(3) [folded n]] .
  have "set (x # remove1 x rs) = set rs" using dc(2) dcache_invD(3) [OF dc(1)] by (simp add: insert_absorb)
  then have "loaded x [(the (dirent_name b a), ?e)] [] (set rs) dc dc1" using d(2-4) n unfolding loaded_def by auto
  then show thesis using that s1 b(1,2) d(1) m by (simp add: load_entry_def mem_answers_def)
qed

text \<open>One round of the loop.\<close>

lemma dirent_loop_step:
  assumes "deref bp s = Some b" and "off + 16 \<le> 4096" and "off mod 8 = 0" and "off + rlen b off \<le> 4096" and "rlen b off \<noteq> 0"
  shows "dirent_ino b off = 0 \<Longrightarrow> dirent_loop True A E bp 4096 off u s = dirent_loop True A E bp 4096 (off + rlen b off) u s"
    "dirent_ino b off \<noteq> 0 \<Longrightarrow> E off (off + rlen b off) u s = Some (0, u', s') \<Longrightarrow>
      dirent_loop True A E bp 4096 off u s = dirent_loop True A E bp 4096 (off + rlen b off) u' s'"
  using assms by (subst dirent_loop.simps, simp)+

lemma load_loop:
  assumes "records b off xs e" "e + 16 \<le> 4096 \<longrightarrow> e mod 8 = 0 \<and> rlen b e = 0" "deref bp s = Some b" "loadable s gen b xs"
    "distinct (map fst (listing gen b (blockoff * 4096) xs))"
    "\<forall>n \<in> fst ` set (listing gen b (blockoff * 4096) xs). dc_entries dc x n = None"
    "dcache_inv dc rs" "x \<in> set rs" "mem_answers m" "unat blockoff < 2 ^ 51"
  shows "\<exists>dc' s'. dirent_loop True (load_end m x blockoff) (load_entry m x blockoff bp) bp 4096 off dc s = Some (0, dc', s') \<and>
    touched s s' \<and> loaded x (listing gen b (blockoff * 4096) xs) (rest_of (blockoff * 4096) e) (set rs) dc dc'"
  using assms
proof (induction xs arbitrary: off dc s rs)
  case Nil
  have off: "off = e" and l: "listing gen b (blockoff * 4096) [] = []" using Nil.prems(1) by (simp_all add: listing_def in_use_def)
  show ?case
  proof (cases "e + 16 \<le> 4096")
    case True
    obtain dc' where d: "load_end m x blockoff e dc s = Some (0, dc', s)" "loaded x [] (rest_of (blockoff * 4096) e) (set rs) dc dc'"
      using load_end_ok [OF Nil.prems(7-10) True] .
    have "dirent_loop True (load_end m x blockoff) (load_entry m x blockoff bp) bp 4096 off dc s = Some (0, dc', s)"
      using True Nil.prems(2,3) d(1) off by (subst dirent_loop.simps) simp
    then show ?thesis using d(2) l by auto
  next
    case False
    then have "dirent_loop True (load_end m x blockoff) (load_entry m x blockoff bp) bp 4096 off dc s = Some (0, dc, s)" "rest_of (blockoff * 4096) e = []"
      using off by (subst dirent_loop.simps, simp, simp add: rest_of_def)
    then show ?thesis using loaded_refl [OF Nil.prems(7)] l by auto
  qed
next
  case (Cons y xs)
  obtain a r where y: "y = (a, r)" by (cases y)
  have R: "a = off" "off + 16 \<le> 4096" "off mod 8 = 0" "off + rlen b off \<le> 4096" "rlen b off \<noteq> 0" "records b (off + rlen b off) xs e"
    using Cons.prems(1) y by auto
  note step = dirent_loop_step [OF Cons.prems(3) R(2-5)]
  show ?case
  proof (cases "dirent_ino b off = 0")
    case True
    have u: "in_use b (y # xs) = in_use b xs" "listing gen b (blockoff * 4096) (y # xs) = listing gen b (blockoff * 4096) xs"
      using True y R(1) by (simp_all add: listing_def in_use_Cons)
    moreover have "loadable s gen b xs" using Cons.prems(4) u by (simp add: loadable_def)
    ultimately show ?thesis using Cons.IH [OF R(6) Cons.prems(2,3) _ _ _ Cons.prems(7-10)] Cons.prems(5,6) unfolding step(1) [OF True] u(2) by blast
  next
    case False
    let ?n = "the (dirent_name b off)" and ?l = "listing gen b (blockoff * 4096) xs"
    have u: "in_use b (y # xs) = y # in_use b xs" using False y R(1) by (simp add: in_use_Cons)
    then have l: "listing gen b (blockoff * 4096) (y # xs) = (?n, entry_of gen b (blockoff * 4096) off) # ?l"
      using y R(1) by (simp add: listing_def)
    have L: "dirent_fits b off" "dirent_name b off \<noteq> None" "has_generation s (dirent_ino b off) (gen (dirent_ino b off))" "loadable s gen b xs"
      using Cons.prems(4) y R(1) u by (auto simp: loadable_def)
    have D: "distinct (map fst ?l)" "?n \<notin> fst ` set ?l" "dc_entries dc x ?n = None" "\<forall>n \<in> fst ` set ?l. dc_entries dc x n = None"
      using Cons.prems(5,6) unfolding l by simp_all
    obtain dc1 s1 where E: "load_entry m x blockoff bp off (off + rlen b off) dc s = Some (0, dc1, s1)" "touched s s1"
        "loaded x [(?n, entry_of gen b (blockoff * 4096) off)] [] (set rs) dc dc1"
      using load_entry_ok [of bp s b off gen, OF Cons.prems(3) L(1-3) Cons.prems(7,8) D(3) Cons.prems(9)] .
    obtain rs1 where rs1: "dcache_inv dc1 rs1" "set rs1 = set rs" using E(3) by (auto simp: loaded_def)
    have N: "\<forall>n \<in> fst ` set ?l. dc_entries dc1 x n = None"
    proof
      fix n assume n: "n \<in> fst ` set ?l"
      with D(4) have "dc_entries dc x n = None" by (rule bspec)
      moreover have "n \<noteq> ?n" using n D(2) by blast
      ultimately show "dc_entries dc1 x n = None" using E(3) by (simp add: loaded_def map_add_def)
    qed
    have "deref bp s1 = Some b" "x \<in> set rs1" using touched_mem(2) [OF E(2)] Cons.prems(3,8) rs1(2) by simp_all
    then obtain dc' s' where I: "dirent_loop True (load_end m x blockoff) (load_entry m x blockoff bp) bp 4096 (off + rlen b off) dc1 s1 = Some (0, dc', s')"
      "touched s1 s'" "loaded x ?l (rest_of (blockoff * 4096) e) (set rs) dc1 dc'"
      using Cons.IH [OF R(6) Cons.prems(2) _ loadable_touched [OF E(2) L(4)] D(1) N rs1(1) _ Cons.prems(9,10)] unfolding rs1(2) by blast
    have "loaded x (listing gen b (blockoff * 4096) (y # xs)) (rest_of (blockoff * 4096) e) (set rs) dc dc'"
      using loaded_trans [OF E(3) I(3)] D(2) unfolding l by simp
    then show ?thesis using step(2) [where E = "load_entry m x blockoff bp", OF False E(1)] I(1) touched_trans [OF E(2) I(2)] by auto
  qed
qed

lemma load_directory_ok:
  assumes "deref bp s = Some b" "dir_block b xs e" "loadable s gen b xs"
    "distinct (map fst (listing gen b (blockoff * 4096) xs))"
    "\<forall>n \<in> fst ` set (listing gen b (blockoff * 4096) xs). dc_entries dc x n = None"
    "dcache_inv dc rs" "x \<in> set rs" "mem_answers m" "unat blockoff < 2 ^ 51" "unat off = 0" "unat (off + sz) = 4096"
  shows "\<exists>dc' s'. callback_load_directory m x blockoff bp off sz vld cs commit dc blockno s = Some (0, blockno, dc', s') \<and>
    touched s s' \<and> loaded x (listing gen b (blockoff * 4096) xs) (rest_of (blockoff * 4096) e) (set rs) dc dc'"
proof -
  have "records b 0 xs e" "e + 16 \<le> 4096 \<longrightarrow> e mod 8 = 0 \<and> rlen b e = 0" using assms(2) by (simp_all add: dir_block_def)
  from load_loop [OF this assms(1,3-9)] show ?thesis unfolding callback_load_directory_eq assms(10,11) by auto
qed

text \<open>C9. Loading a block of a directory is the same as listing its records: on a well-formed block whose names are
  distinct and not in the cache, \<^verbatim>\<open>callback_load_directory\<close> returns 0 and adds to the cached directory exactly the
  entries in use, under their names, with offset, length, type, inode number and the generation of the inode, and the
  space behind the last entry as its only free space. Other directories keep their entries, the cache's invariant
  holds, and no block changes.\<close>

theorem load_directory_lists_block:
  assumes b: "mem p s = Some b" "dir_block b xs e" and l: "loadable s gen b xs"
    and n: "distinct (map fst (listing gen b (blockoff * 4096) xs))"
      "\<forall>n \<in> fst ` set (listing gen b (blockoff * 4096) xs). dc_entries dc parent n = None"
    and dc: "dcache_inv dc rs" "parent \<in> set rs" and m: "mem_answers m" and o: "unat blockoff < 2 ^ 51"
  shows "\<exists>dc' s' rs'. callback_load_directory m parent blockoff (Bpram p) 0 4096 vld cs commit dc blockno s = Some (0, blockno, dc', s') \<and>
    dc_entries dc' = (dc_entries dc)(parent := dc_entries dc parent ++ map_of (listing gen b (blockoff * 4096) xs)) \<and>
    dc_free dc' = (dc_free dc)(parent := rest_of (blockoff * 4096) e @ dc_free dc parent) \<and>
    dcache_inv dc' rs' \<and> set rs' = set rs \<and> (\<forall>q. mem q s' = mem q s)"
proof -
  have d: "deref (Bpram p) s = Some b" using b(1) by simp
  obtain dc' s' where "callback_load_directory m parent blockoff (Bpram p) 0 4096 vld cs commit dc blockno s = Some (0, blockno, dc', s')"
      "touched s s'" "loaded parent (listing gen b (blockoff * 4096) xs) (rest_of (blockoff * 4096) e) (set rs) dc dc'"
    using load_directory_ok [OF d b(2) l n dc m o, of 0 4096 vld cs commit blockno] by auto
  then show ?thesis by (auto simp: loaded_def touched_mem)
qed

text \<open>A block with the entry ``ab'' for inode 2.\<close>

definition named_dir :: block where
  "named_dir = put_name (set_dirent_rec_len (set_dirent_ino zero_block 0 2) 0 24) 0 (name_bytes ''ab'')"

lemma named_dir_fields:
  "dirent_ino named_dir 0 = 2" "dirent_rec_len named_dir 0 = 24" "dirent_name named_dir 0 = Some ''ab''" "rlen named_dir 24 = 0"
  "dirent_name_len named_dir 0 = 3"
proof -
  show "dirent_ino named_dir 0 = 2" "dirent_rec_len named_dir 0 = 24" "rlen named_dir 24 = 0" "dirent_name_len named_dir 0 = 3" by code_simp+
  show "dirent_name named_dir 0 = Some ''ab''" unfolding named_dir_def by (rule dirent_name_put_name) simp_all
qed

lemma inode2_generation:
  "inode_generation (put_u64 (put_u64 (put_u32 (put_u32 zero_block 144 0x81A4) 148 1) 160 41) 168 5000) (inode_pos 2 mod 4096) = 0"
  by code_simp

lemma one_dir_empty: "dc_entries one_dir 1 ''ab'' = None" "dc_free one_dir 1 = []"
  by code_simp+

theorem load_directory_lists_block_witness:
  "\<exists>dc' s'. callback_load_directory \<lparr>m_dir = mem_ok, m_dup = True, m_elt = True, m_table = (True, True, True), m_free = True, m_buf = True\<rparr>
      1 0 (Bpram 8) 0 4096 4096 0 COMMIT_NONE one_dir 8 (sample_mount\<lparr>bpram := (bpram sample_mount)[7 := named_dir]\<rparr>) = Some (0, 8, dc', s') \<and>
    map_option md_ino (dc_entries dc' 1 ''ab'') = Some 2 \<and> dc_free dc' 1 = [(24, 4072)]"
proof -
  let ?s = "sample_mount\<lparr>bpram := (bpram sample_mount)[7 := named_dir]\<rparr>" and ?gen = "\<lambda>_. 0 :: u64"
  let ?m = "\<lparr>m_dir = mem_ok, m_dup = True, m_elt = True, m_table = (True, True, True), m_free = True, m_buf = True\<rparr>"
  have b: "mem 8 ?s = Some named_dir" by (simp add: mem_def sample_mount_def sample_fs_def)
  have u: "in_use named_dir [(0, 24)] = [(0, 24)]" by (simp add: in_use_def named_dir_fields)
  have db: "dir_block named_dir [(0, 24)] 24" by (simp add: dir_block_def named_dir_fields)
  have h: "ha_height 32 = 0" and fits: "BPFS_DIRENT_LEN 3 \<le> 24" by code_simp+
  have ib: "inode_blocks 2 sample_mount 3 = {1, 3}"
    by (simp add: inode_blocks_def sample_mount_mem root_ha_def access_simps h)
  have m: "mem q ?s = mem q sample_mount" if "q \<noteq> 8" for q
  proof -
    have "unat q \<noteq> unat (8 :: u64)" using that by (simp only: word_unat_eq_iff not_False_eq_True)
    then have "unat q \<noteq> 8" by simp
    then have "unat q = 0 \<or> unat q - 1 \<noteq> 7" by linarith
    then have "unat q - 1 \<noteq> 7 \<or> q = 0" by (auto simp: unat_eq_0)
    then show ?thesis by (auto simp: mem_def)
  qed
  have "inode_at 2 ?s 3 (- 1) 4"
    using sample_inode_at by (rule inode_at_frame(1)) (simp_all add: ib m same_size_def)
  moreover have "mem 4 ?s = mem 4 sample_mount" by (rule m) simp
  ultimately have "has_generation ?s 2 0" unfolding has_generation_def
    using sample_mount_mem(3) inode2_generation by metis
  then have l: "loadable ?s ?gen named_dir [(0, 24)]"
    using fits by (simp add: loadable_def u named_dir_fields dirent_fits_def)
  have n: "\<forall>n \<in> fst ` set (listing ?gen named_dir (0 * 4096) [(0, 24)]). dc_entries one_dir 1 n = None"
    using one_dir_empty by (simp add: listing_def u named_dir_fields)
  have "distinct (map fst (listing ?gen named_dir (0 * 4096) [(0, 24)]))" by (simp add: listing_def u)
  from load_directory_lists_block [OF b db l this n one_dir_inv, of ?m 4096 0 COMMIT_NONE 8] show ?thesis
    by (auto simp: mem_answers_def listing_def u named_dir_fields entry_of_def rest_of_def one_dir_empty)
qed

end
