(* ===== verification/Dir_Lookup.thy ===== *)
theory Dir_Lookup
  imports Dir_Load
begin

text \<open>
  Finding an entry of a directory. A directory that is not in the cache is loaded through the crawler, block by
  block; the callback is a reader in the sense of \<open>Crawl_Reader\<close>, whose rule covers directories with any number of
  blocks and indirect blocks. The result is the entry of the directory's records with the name.
\<close>

section \<open>The contents of a directory\<close>

definition dir_bytes :: "(nat \<Rightarrow> u8) \<Rightarrow> nat \<Rightarrow> block" where
  "dir_bytes f j = (\<lambda>i. f (j * 4096 + i))"

text \<open>The entries and the free space of the first \<open>k\<close> blocks; \<open>xs j\<close> are the records of block \<open>j\<close>, which end at \<open>es j\<close>.\<close>

definition dir_list :: "(u64 \<Rightarrow> u64) \<Rightarrow> (nat \<Rightarrow> u8) \<Rightarrow> (nat \<Rightarrow> (nat \<times> nat) list) \<Rightarrow> nat \<Rightarrow> (string \<times> mdirent) list" where
  "dir_list gen f xs k = concat (map (\<lambda>j. listing gen (dir_bytes f j) (of_nat j * 4096) (xs j)) [0..<k])"

definition dir_rest :: "(nat \<Rightarrow> nat) \<Rightarrow> nat \<Rightarrow> (u64 \<times> u16) list" where
  "dir_rest es k = concat (map (\<lambda>j. rest_of (of_nat j * 4096) (es j)) (rev [0..<k]))"

definition dir_file :: "fs \<Rightarrow> (u64 \<Rightarrow> u64) \<Rightarrow> (nat \<Rightarrow> u8) \<Rightarrow> (nat \<Rightarrow> (nat \<times> nat) list) \<Rightarrow> (nat \<Rightarrow> nat) \<Rightarrow> nat \<Rightarrow> bool" where
  "dir_file s gen f xs es n \<longleftrightarrow> (\<forall>j < n. dir_block (dir_bytes f j) (xs j) (es j) \<and> loadable s gen (dir_bytes f j) (xs j)) \<and>
     distinct (map fst (dir_list gen f xs n)) \<and> n < 2 ^ 51"

lemma dir_list_Suc: "dir_list gen f xs (Suc k) = dir_list gen f xs k @ listing gen (dir_bytes f k) (of_nat k * 4096) (xs k)"
  by (simp add: dir_list_def)

lemma dir_rest_Suc: "dir_rest es (Suc k) = rest_of (of_nat k * 4096) (es k) @ dir_rest es k"
  by (simp add: dir_rest_def)

lemma dir_list_names:
  assumes "distinct (map fst (dir_list gen f xs n))" and "k < n"
  shows "distinct (map fst (listing gen (dir_bytes f k) (of_nat k * 4096) (xs k)))"
    "fst ` set (dir_list gen f xs k) \<inter> fst ` set (listing gen (dir_bytes f k) (of_nat k * 4096) (xs k)) = {}"
proof -
  have "\<exists>r. dir_list gen f xs n = dir_list gen f xs (Suc k) @ r"
    using assms(2)
  proof (induction n)
    case (Suc n)
    then show ?case by (cases "n = k") (auto simp: dir_list_Suc [of _ _ _ n])
  qed simp
  then have "distinct (map fst (dir_list gen f xs (Suc k)))" using assms(1) by auto
  then show "distinct (map fst (listing gen (dir_bytes f k) (of_nat k * 4096) (xs k)))"
    "fst ` set (dir_list gen f xs k) \<inter> fst ` set (listing gen (dir_bytes f k) (of_nat k * 4096) (xs k)) = {}"
    by (simp_all add: dir_list_Suc)
qed

text \<open>Only the bytes of the block matter.\<close>

lemma dirent_cong:
  assumes "\<And>i. i < 4096 \<Longrightarrow> b' i = b i" and "a + 16 \<le> 4096"
  shows "dirent_ino b' a = dirent_ino b a" "dirent_rec_len b' a = dirent_rec_len b a" "dirent_file_type b' a = dirent_file_type b a"
    "dirent_name_len b' a = dirent_name_len b a" "dirent_name b' a = dirent_name b a"
proof -
  have o: "b' i = b i" if "i < a + 16" for i using assms that by simp
  show "dirent_ino b' a = dirent_ino b a" by (rule field_cong(1)) (rule o, simp)
  show "dirent_rec_len b' a = dirent_rec_len b a" by (rule field_cong(2)) (rule o, simp)+
  show "dirent_file_type b' a = dirent_file_type b a" "dirent_name_len b' a = dirent_name_len b a"
    using o by (simp_all add: dirent_file_type_def dirent_name_len_def)
  have "map b' [dirent_name_off a..<4096] = map b [dirent_name_off a..<4096]" using assms(1) by simp
  then show "dirent_name b' a = dirent_name b a" by (simp only: dirent_name_def)
qed

lemma dir_block_cong:
  assumes c: "\<And>i. i < 4096 \<Longrightarrow> b' i = b i" and b: "dir_block b xs e"
  shows "dir_block b' xs e" "listing gen b' pos xs = listing gen b pos xs" "loadable s gen b' xs = loadable s gen b xs"
proof -
  have R: "records b 0 xs e" and E: "e + 16 \<le> 4096 \<longrightarrow> e mod 8 = 0 \<and> rlen b e = 0" using b by (simp_all add: dir_block_def)
  have f: "a + 16 \<le> 4096" if "(a, r) \<in> set xs" for a r using records_bounds(2) [OF R that] by simp
  have F: "dirent_ino b' a = dirent_ino b a" "dirent_rec_len b' a = dirent_rec_len b a" "dirent_file_type b' a = dirent_file_type b a"
      "dirent_name_len b' a = dirent_name_len b a" "dirent_name b' a = dirent_name b a" if "(a, r) \<in> set xs" for a r
    by (rule dirent_cong; use c f [OF that] in simp)+
  have "records b' 0 xs e" by (rule records_cong [OF R]) (rule F(2))
  then show "dir_block b' xs e" using E dirent_cong(2) [of b' b e, OF c] by (auto simp: dir_block_def)
  have u: "in_use b' xs = in_use b xs" unfolding in_use_def by (rule filter_cong) (use F(1) in auto)
  show "listing gen b' pos xs = listing gen b pos xs" unfolding listing_def u
  proof (rule map_cong [OF refl])
    fix p assume "p \<in> set (in_use b xs)"
    then have x: "(fst p, snd p) \<in> set xs" by (simp add: in_use_def)
    show "(case p of (a, r) \<Rightarrow> (the (dirent_name b' a), entry_of gen b' pos a)) = (case p of (a, r) \<Rightarrow> (the (dirent_name b a), entry_of gen b pos a))"
      using F [OF x] by (simp add: entry_of_def case_prod_beta)
  qed
  show "loadable s gen b' xs = loadable s gen b xs" unfolding loadable_def u
  proof (rule ball_cong [OF refl])
    fix p assume "p \<in> set (in_use b xs)"
    then have x: "(fst p, snd p) \<in> set xs" by (simp add: in_use_def)
    show "(case p of (a, r) \<Rightarrow> dirent_fits b' a \<and> dirent_name b' a \<noteq> None \<and> has_generation s (dirent_ino b' a) (gen (dirent_ino b' a))) =
      (case p of (a, r) \<Rightarrow> dirent_fits b a \<and> dirent_name b a \<noteq> None \<and> has_generation s (dirent_ino b a) (gen (dirent_ino b a)))"
      using F [OF x] by (simp add: dirent_fits_def case_prod_beta)
  qed
qed

section \<open>Loading all blocks\<close>

definition load_inv :: "dirs_mem \<Rightarrow> (u64 \<Rightarrow> u64) \<Rightarrow> (nat \<Rightarrow> u8) \<Rightarrow> (nat \<Rightarrow> (nat \<times> nat) list) \<Rightarrow> (nat \<Rightarrow> nat) \<Rightarrow> nat \<Rightarrow> u64 \<Rightarrow> u64 set \<Rightarrow>
    dcache \<Rightarrow> fs \<Rightarrow> nat \<Rightarrow> dcache \<Rightarrow> fs \<Rightarrow> bool" where
  "load_inv m gen f xs es n x A dc0 s0 y dc s \<longleftrightarrow> mem_answers m \<and> x \<in> A \<and> dc_entries dc0 x = Map.empty \<and> dir_file s0 gen f xs es n \<and>
     touched s0 s \<and> y mod 4096 = 0 \<and> loaded x (dir_list gen f xs (y div 4096)) (dir_rest es (y div 4096)) A dc0 dc"

lemma load_block:
  assumes I: "load_inv m gen f xs es n x A dc0 s0 (k * 4096) dc s" and k: "k < n" "unat bo = k"
    and b: "deref bp s = Some b" "\<And>i. i < 4096 \<Longrightarrow> b i = f (k * 4096 + i)" and o: "unat po = 0" "unat (po + pl) = 4096"
  shows "\<exists>dc' s'. callback_load_directory m x bo bp po pl v st c dc no s = Some (0, no, dc', s') \<and>
    load_inv m gen f xs es n x A dc0 s0 ((k + 1) * 4096) dc' s' \<and> touched s s'"
proof -
  have L: "mem_answers m" "x \<in> A" "dc_entries dc0 x = Map.empty" "dir_file s0 gen f xs es n" "touched s0 s"
      "loaded x (dir_list gen f xs k) (dir_rest es k) A dc0 dc" using I by (simp_all add: load_inv_def)
  have D: "dir_block (dir_bytes f k) (xs k) (es k)" "loadable s gen (dir_bytes f k) (xs k)" "unat bo < 2 ^ 51"
      "distinct (map fst (dir_list gen f xs n))"
    using L(4) k loadable_touched [OF L(5)] by (auto simp: dir_file_def)
  have bo: "bo = of_nat k" using k(2) by (metis of_nat_unat ucast_id)
  have c: "b i = dir_bytes f k i" if "i < 4096" for i using b(2) that by (simp add: dir_bytes_def)
  note C = dir_block_cong [where b' = b, OF c D(1)]
  note N = dir_list_names [OF D(4) k(1)]
  obtain rs where rs: "dcache_inv dc rs" "set rs = A" using L(6) by (auto simp: loaded_def)
  have E: "dc_entries dc x = map_of (dir_list gen f xs k)" using L(3,6) by (simp add: loaded_def)
  have l: "listing gen b (bo * 4096) (xs k) = listing gen (dir_bytes f k) (of_nat k * 4096) (xs k)" using C(2) bo by simp
  have "\<forall>nm \<in> fst ` set (listing gen b (bo * 4096) (xs k)). dc_entries dc x nm = None"
    unfolding E l using N(2) by (auto simp: map_of_eq_None_iff)
  moreover have "loadable s gen b (xs k)" "distinct (map fst (listing gen b (bo * 4096) (xs k)))" "x \<in> set rs"
    using C(3) D(2) N(1) l L(2) rs(2) by simp_all
  ultimately obtain dc' s' where r: "callback_load_directory m x bo bp po pl v st c dc no s = Some (0, no, dc', s')" "touched s s'"
      "loaded x (listing gen (dir_bytes f k) (of_nat k * 4096) (xs k)) (rest_of (of_nat k * 4096) (es k)) A dc dc'"
    using load_directory_ok [OF b(1) C(1) _ _ _ rs(1) _ L(1) D(3) o, of gen x v st c no] l bo rs(2) by auto
  have "loaded x (dir_list gen f xs (Suc k)) (dir_rest es (Suc k)) A dc0 dc'"
    unfolding dir_list_Suc dir_rest_Suc by (rule loaded_trans [OF L(6) r(3) N(2)])
  then have "load_inv m gen f xs es n x A dc0 s0 ((k + 1) * 4096) dc' s'"
    using L touched_trans [OF L(5) r(2)] by (simp add: load_inv_def)
  then show ?thesis using r(1,2) by blast
qed

interpretation dirs: reader "callback_load_directory m x" P 0 "n * 4096" f "load_inv m gen f xs es n x A dc0 s0" for m x P n f gen xs es A dc0 s0
proof
  fix y u s s'
  assume "load_inv m gen f xs es n x A dc0 s0 y u s" "noted s s'"
  then show "load_inv m gen f xs es n x A dc0 s0 y u s'" unfolding load_inv_def using touched_noted by blast
next
  fix p u s q no b v and bo st :: u64 and po pl :: u32
  assume I: "load_inv m gen f xs es n x A dc0 s0 p u s"
    and p: "p mod 4096 = 0 \<or> p = 0" "p < q" "q \<le> n * 4096" "q mod 4096 = 0 \<or> q = n * 4096" "q \<le> (p div 4096 + 1) * 4096"
    and bo: "unat bo = p div 4096" and b: "deref (leaf_ptr no) s = Some b" "\<forall>i. p \<le> i \<and> i < q \<longrightarrow> b (i mod 4096) = f i"
    and w: "unat po = p mod 4096" "unat pl = q - p"
  obtain k where k: "p = k * 4096" using p(1) by (metis div_mult_mod_eq add.right_neutral mult_zero_left)
  obtain l where l: "q = l * 4096" using p(4) by (metis div_mult_mod_eq add.right_neutral)
  have "k < l" "l \<le> k + 1" "l \<le> n" using p(2,3,5) unfolding k l by simp_all
  then have q: "q = (k + 1) * 4096" "k < n" unfolding l by simp_all
  have o: "unat po = 0" "unat (po + pl) = 4096" using w unfolding k q by (simp_all add: unat_word_ariths)
  have bytes: "b i = f (k * 4096 + i)" if "i < 4096" for i using b(2) [rule_format, of "k * 4096 + i"] that unfolding k q by simp
  have "\<exists>dc' s'. callback_load_directory m x bo (leaf_ptr no) po pl v st COMMIT_NONE u no s = Some (0, no, dc', s') \<and>
      load_inv m gen f xs es n x A dc0 s0 ((k + 1) * 4096) dc' s' \<and> touched s s'"
    by (rule load_block [OF I [unfolded k] q(2) _ b(1) bytes o]) (use bo k in simp)
  then show "\<exists>u' s'. callback_load_directory m x bo (leaf_ptr no) po pl v st COMMIT_NONE u no s = Some (0, no, u', s') \<and>
      load_inv m gen f xs es n x A dc0 s0 q u' s' \<and> same_mem s s'" unfolding q using touched_same_mem by blast
qed

text \<open>A crawl to the end of the file covers all its bytes.\<close>

lemma crawl_tree_eof:
  assumes "deref rp s = Some R" and "root_nbytes R ro \<noteq> BPFS_EOF"
  shows "crawl_tree rp ro 0 BPFS_EOF COMMIT_NONE cb u prev s = crawl_tree rp ro 0 (root_nbytes R ro) COMMIT_NONE cb u prev s"
proof -
  have z: "root_nbytes R ro - 0 = root_nbytes R ro" "(0 :: u64) \<noteq> BPFS_EOF" "0 \<le> root_nbytes R ro" by simp_all
  show ?thesis
    unfolding crawl_tree_def crawl_tree_ref_def assms(1) Option.bind.bind_lunit
    by (simp only: Let_def [of 0] z assms(2) if_True if_False refl simp_thms check_simps bind.bind_lunit)
qed

lemma load_directory_file:
  assumes at: "inode_at x s ir i l" and f: "file_reads P (Bpram l) (inode_root_off (inode_pos x mod 4096)) s (n * 4096) f" "0 < n"
    and d: "dir_file s gen f xs es n" and dc: "dcache_inv dc rs" "x \<in> set rs" "dc_entries dc x = Map.empty" and m: "mem_answers m"
  shows "\<exists>dc' s'. crawl_data x 0 BPFS_EOF COMMIT_NONE (callback_load_directory m x) dc s = Some (0, dc', s') \<and> touched s s' \<and>
    loaded x (dir_list gen f xs n) (dir_rest es n) (set rs) dc dc'"
proof (rule inode_at_note [OF at])
  fix s1 assume s1: "note_parent l i s = Some s1" "noted s s1"
  let ?ro = "inode_root_off (inode_pos x mod 4096)"
  have t: "touched s s1" using noted_touched s1(2) .
  have sup: "get_super s1 \<noteq> None" using at touched_same_inodes [OF t, of ir] by (auto simp: same_inodes_def inode_at_def)
  have fr: "file_reads P (Bpram l) ?ro s1 (n * 4096) f" using f(1) file_reads_touched [OF t] by simp
  then obtain R h where R: "deref (Bpram l) s1 = Some R" "unat (root_nbytes R ?ro) = n * 4096" "h \<le> 5" "n * 4096 \<le> capacity h"
    unfolding file_reads_def by blast
  have "n * 4096 \<le> 2 ^ 57" using R(3,4) capacity_bound [of h] by linarith
  then have ne: "root_nbytes R ?ro \<noteq> BPFS_EOF" "root_nbytes R ?ro \<noteq> 0" using R(2) f(2) by (auto simp: unat_minus_1)
  have "loaded x (dir_list gen f xs 0) (dir_rest es 0) (set rs) dc dc" using loaded_refl [OF dc(1)] by (simp add: dir_list_def dir_rest_def)
  then have I: "load_inv m gen f xs es n x (set rs) dc s 0 dc s1" using m dc(2,3) d t by (simp add: load_inv_def)
  have "\<exists>u' s'. crawl_tree (Bpram l) ?ro 0 (root_nbytes R ?ro) COMMIT_NONE (callback_load_directory m x) dc l s1 = Some (0, l, u', s') \<and>
      load_inv m gen f xs es n x (set rs) dc s (0 + unat (root_nbytes R ?ro)) u' s' \<and> same_mem s1 s'"
    by (rule dirs.crawl_tree_read [OF fr _ _ ne(2) _ I sup]) (use R(2) in simp_all)
  then obtain dc' s' where c: "crawl_tree (Bpram l) ?ro 0 BPFS_EOF COMMIT_NONE (callback_load_directory m x) dc l s1 = Some (0, l, dc', s')"
      "load_inv m gen f xs es n x (set rs) dc s (n * 4096) dc' s'"
    unfolding crawl_tree_eof [OF R(1) ne(1)] using R(2) by auto
  have "touched s s'" using c(2) by (simp add: load_inv_def)
  moreover from this have "crawl_data x 0 BPFS_EOF COMMIT_NONE (callback_load_directory m x) dc s = Some (0, dc', s')"
    unfolding crawl_data_def
    by (intro crawl_inode_single [OF at _ s1(1)]) (use c(1) touched_same_inodes in \<open>auto simp: callback_crawl_data_def\<close>)
  ultimately show ?thesis using c(2) by (auto simp: load_inv_def)
qed

section \<open>Looking an entry up\<close>

definition found :: "mdirent option \<Rightarrow> int" where
  "found md = (if md = None then - ENOENT else 0)"

lemma find_dirent_cached:
  assumes "dcache_inv dc rs" and "x \<in> set rs"
  shows "\<exists>dc'. find_dirent m x name (dc, s) = Some (found (dc_entries dc x name), dc_entries dc x name, dc', s) \<and>
    dcache_inv dc' (x # remove1 x rs) \<and> dc_data dc' = dc_data dc"
proof -
  have "dcache_has_dir dc x = Some True" using find_dir_ok [OF dcache_invD(2) [OF assms(1)]] assms(2) by (simp add: dcache_has_dir_def)
  moreover obtain dc' where "dcache_get_dirent x name dc = Some (dc_entries dc x name, dc')" "dcache_inv dc' (x # remove1 x rs)" "dc_data dc' = dc_data dc"
    using get_dirent_ok [OF assms] by blast
  ultimately show ?thesis by (auto simp: find_dirent_def found_def)
qed

text \<open>C3. \<^verbatim>\<open>find_dirent\<close> on a directory that is not in the cache loads it, over any number of blocks and levels of indirect
  blocks, and returns the entry with the name of the directory's records, or \<^verbatim>\<open>-ENOENT\<close> when there is none. Afterwards the
  cached directory has exactly the entries of the records, another lookup finds the same without touching the memory, and no
  block has changed.\<close>

theorem find_dirent_finds:
  assumes at: "inode_at x s ir i l" and f: "file_reads P (Bpram l) (inode_root_off (inode_pos x mod 4096)) s (n * 4096) f" "0 < n"
    and d: "dir_file s gen f xs es n" and dc: "dcache_inv dc rs" "x \<notin> set rs"
    and m: "dc_mem_ok (m_dir m)" "fst (snd (snd (m_dir m)))" "mem_answers m"
  shows "\<exists>dc' s'. find_dirent m x name (dc, s) =
      Some (case map_of (dir_list gen f xs n) name of None \<Rightarrow> - ENOENT | Some _ \<Rightarrow> 0, map_of (dir_list gen f xs n) name, dc', s') \<and>
    dc_entries dc' x = map_of (dir_list gen f xs n) \<and> (\<forall>q. mem q s' = mem q s) \<and>
    (\<forall>name' m'. \<exists>dc2 r. find_dirent m' x name' (dc', s') = Some (r, map_of (dir_list gen f xs n) name', dc2, s'))"
proof -
  have has: "dcache_has_dir dc x = Some False" using find_dir_ok [OF dcache_invD(2) [OF dc(1)]] dc(2) by (simp add: dcache_has_dir_def)
  let ?rs = "x # lru_keep rs"
  obtain dc1 where a: "dcache_add_dir (m_dir m) x dc = Some (0, dc1)" "dcache_inv dc1 ?rs" "dc_entries dc1 x = Map.empty"
    using add_dir_ok [OF dc m(2)] m(1) by auto
  obtain dc2 s' where c: "crawl_data x 0 BPFS_EOF COMMIT_NONE (callback_load_directory m x) dc1 s = Some (0, dc2, s')" "touched s s'"
      "loaded x (dir_list gen f xs n) (dir_rest es n) (set ?rs) dc1 dc2"
    using load_directory_file [OF at f d a(2) _ a(3) m(3)] by auto
  obtain rs2 where rs2: "dcache_inv dc2 rs2" "set rs2 = set ?rs" using c(3) by (auto simp: loaded_def)
  have x2: "x \<in> set rs2" using rs2(2) by simp
  have e: "dc_entries dc2 x = map_of (dir_list gen f xs n)" using c(3) a(3) by (simp add: loaded_def)
  obtain dc' where g: "dcache_get_dirent x name dc2 = Some (dc_entries dc2 x name, dc')" "dcache_inv dc' (x # remove1 x rs2)" "dc_data dc' = dc_data dc2"
    using get_dirent_ok [OF rs2(1) x2] by blast
  have e': "dc_entries dc' x = map_of (dir_list gen f xs n)" using e g(3) by (simp add: dc_entries_def fun_eq_iff)
  have "find_dirent m x name (dc, s) =
      Some (case map_of (dir_list gen f xs n) name of None \<Rightarrow> - ENOENT | Some _ \<Rightarrow> 0, map_of (dir_list gen f xs n) name, dc', s')"
    using has a(1) c(1) g(1) e by (simp add: find_dirent_def split: option.splits)
  moreover have "\<exists>dc2 r. find_dirent m' x name' (dc', s') = Some (r, map_of (dir_list gen f xs n) name', dc2, s')" for name' m'
    using find_dirent_cached [OF g(2), of x m' name' s'] e' by auto
  ultimately show ?thesis using e' touched_mem(1) [OF c(2)] by blast
qed

text \<open>Inode 2 as a directory of one block, block 8, with the entry ``ab''.\<close>

definition dir_inode :: block where
  "dir_inode = put_u64 (put_u64 (put_u32 (put_u32 zero_block 144 0x41A4) 148 1) 160 64) 168 4096"

definition dir_mount :: fs where
  "dir_mount = sample_mount\<lparr>bpram := (bpram sample_mount)[3 := dir_inode, 7 := named_dir]\<rparr>"

lemma dir_mount_mem:
  "mem 1 dir_mount = mem 1 sample_mount" "mem 3 dir_mount = mem 3 sample_mount" "mem 4 dir_mount = Some dir_inode" "mem 8 dir_mount = Some named_dir"
  by (simp_all add: mem_def dir_mount_def sample_mount_def sample_fs_def)

lemma dir_mount_inode: "inode_at 2 dir_mount 3 (- 1) 4"
proof -
  have h: "ha_height 32 = 0" by code_simp
  have "inode_blocks 2 sample_mount 3 = {1, 3}" by (simp add: inode_blocks_def sample_mount_mem root_ha_def access_simps h)
  then have "\<forall>n \<in> inode_blocks 2 sample_mount 3. mem n dir_mount = mem n sample_mount" using dir_mount_mem(1,2) by simp
  then show ?thesis by (rule inode_at_frame(1) [OF sample_inode_at]) (simp_all add: dir_mount_def same_size_def)
qed

lemma dir_mount_reads: "file_reads (\<lambda>_. True) (Bpram 4) (inode_root_off (inode_pos 2 mod 4096)) dir_mount (1 * 4096) named_dir"
proof -
  have i: "inode_pos 2 mod 4096 = 128" "root_nbytes dir_inode 160 = 4096" "ha_height (root_ha dir_inode 160) = 0" "ha_addr (root_ha dir_inode 160) = 8"
    by code_simp+
  have "leaf_ok 8 dir_mount" using sample_mount_resident [of 8] by (simp add: leaf_ok_def resident_def dir_mount_def sample_mount_def sample_fs_def)
  then have "tree_reads (\<lambda>_. True) 0 dir_mount 8 named_dir 4096" by (simp add: leaf_ptr_def dir_mount_mem)
  then show ?thesis using i dir_mount_mem(3) by (simp add: file_reads_def inode_root_off_def capacity_def)
qed

lemma dir_mount_file: "dir_file dir_mount (\<lambda>_. 0) named_dir (\<lambda>_. [(0, 24)]) (\<lambda>_. 24) 1"
proof -
  have u: "in_use named_dir [(0, 24)] = [(0, 24)]" by (simp add: in_use_def named_dir_fields)
  have b: "dir_bytes named_dir 0 = named_dir" by (simp add: dir_bytes_def)
  have "inode_generation dir_inode (inode_pos 2 mod 4096) = 0" and fits: "BPFS_DIRENT_LEN 3 \<le> 24" by code_simp+
  then have "has_generation dir_mount 2 0" unfolding has_generation_def using dir_mount_inode dir_mount_mem(3) by blast
  then have "loadable dir_mount (\<lambda>_. 0) named_dir [(0, 24)]" using fits by (simp add: loadable_def u named_dir_fields dirent_fits_def)
  moreover have "dir_block named_dir [(0, 24)] 24" by (simp add: dir_block_def named_dir_fields)
  ultimately show ?thesis by (simp add: dir_file_def b dir_list_def listing_def u)
qed

theorem find_dirent_finds_witness:
  "\<exists>md dc' s'. find_dirent \<lparr>m_dir = mem_ok, m_dup = True, m_elt = True, m_table = (True, True, True), m_free = True, m_buf = True\<rparr>
      2 ''ab'' (one_dir, dir_mount) = Some (0, Some md, dc', s') \<and> md_ino md = 2 \<and> mem 8 s' = Some named_dir"
proof -
  let ?m = "\<lparr>m_dir = mem_ok, m_dup = True, m_elt = True, m_table = (True, True, True), m_free = True, m_buf = True\<rparr>"
  have u: "in_use named_dir [(0, 24)] = [(0, 24)]" by (simp add: in_use_def named_dir_fields)
  have b: "dir_bytes named_dir 0 = named_dir" by (simp add: dir_bytes_def)
  have l: "dir_list (\<lambda>_. 0) named_dir (\<lambda>_. [(0, 24)]) 1 = [(''ab'', entry_of (\<lambda>_. 0) named_dir 0 0)]"
    by (simp add: dir_list_def listing_def u b named_dir_fields)
  have m: "dc_mem_ok (m_dir ?m)" "fst (snd (snd (m_dir ?m)))" "mem_answers ?m"
    by (simp_all add: dc_mem_ok_def hash_map_create_str_def hash_map_create_size_type_def vector_create_size_def vector_create_elts_def mem_answers_def)
  have "(2 :: u64) \<notin> set [1]" by simp
  from find_dirent_finds [OF dir_mount_inode dir_mount_reads zero_less_one dir_mount_file one_dir_inv this m, of "''ab''", unfolded l]
  obtain dc' s' where "find_dirent ?m 2 ''ab'' (one_dir, dir_mount) = Some (0, Some (entry_of (\<lambda>_. 0) named_dir 0 0), dc', s')"
      "\<forall>q. mem q s' = mem q dir_mount" by auto
  then show ?thesis by (auto simp: entry_of_def named_dir_fields dir_mount_mem)
qed

end
