(* ===== verification/Super.thy ===== *)
theory Super
  imports Blocks
begin

text \<open>
  The two super blocks of \<^verbatim>\<open>bpfs.c\<close>. With shadow paging (\<^verbatim>\<open>MODE_SP\<close>) a commit writes a new super block
  over the first and then over the second copy; after a crash \<^verbatim>\<open>recover_superblock\<close> repairs the copy that
  was being written. The theorem of this theory says which root of the inode file is found after any
  crash: the old or the new one, or the one of the second copy when the first copy was torn.
\<close>

section \<open>The functions\<close>

definition set_super_inode_root_addr :: "block \<Rightarrow> u64 \<Rightarrow> block" where "set_super_inode_root_addr b v = put_u64 b 32 v"
definition set_super_inode_root_addr_2 :: "block \<Rightarrow> u64 \<Rightarrow> block" where "set_super_inode_root_addr_2 b v = put_u64 b 40 v"

definition recover_superblock :: "fs \<Rightarrow> (int \<times> fs) option" where
  "recover_superblock s = do {
     super \<leftarrow> mem BPFS_BLOCKNO_SUPER s;
     super_2 \<leftarrow> mem BPFS_BLOCKNO_SUPER_2 s;
     if super_commit_mode super \<noteq> super_commit_mode super_2 then Some (- 1, s)
     else if super_commit_mode super = BPFS_COMMIT_SCSP then Some (0, s)
     else if super_commit_mode super \<noteq> BPFS_COMMIT_SP then Some (- 1, s)
     else if super_magic super_2 \<noteq> BPFS_FS_MAGIC then Some (- 1, s)
     else if super_inode_root_addr super = super_inode_root_addr_2 super then
       (if super_inode_root_addr super_2 \<noteq> super_inode_root_addr_2 super_2
        then do { s \<leftarrow> put_mem BPFS_BLOCKNO_SUPER_2 super s; Some (0, s) } else Some (0, s))
     else if super_inode_root_addr super_2 = super_inode_root_addr_2 super_2
     then do { s \<leftarrow> put_mem BPFS_BLOCKNO_SUPER super_2 s; Some (0, s) }
     else Some (- 2, s)
   }"

text \<open>The state of shadow paging: the memory with both super blocks, the staged one, and whether this
  is the first update.\<close>

record sp_state =
  sp_fs :: fs
  staged_super :: block
  first_run :: bool

definition super_eq :: "block \<Rightarrow> block \<Rightarrow> bool" where
  "super_eq a b \<longleftrightarrow> (\<forall>i \<in> {..<4096}. a i = b i)"

definition revert_superblock :: "sp_state \<Rightarrow> sp_state option" where
  "revert_superblock p = do {
     persistent \<leftarrow> mem BPFS_BLOCKNO_SUPER (sp_fs p);
     let st = set_super_inode_root_addr (staged_super p) (super_inode_root_addr persistent);
     check (super_eq persistent st);
     Some (p\<lparr>staged_super := st\<rparr>)
   }"

text \<open>The three steps of an update: the check and the second address; the first copy; the second copy.\<close>

definition persist_begin :: "sp_state \<Rightarrow> (bool \<times> sp_state) option" where
  "persist_begin p = do {
     persistent \<leftarrow> mem BPFS_BLOCKNO_SUPER (sp_fs p);
     persistent_2 \<leftarrow> mem BPFS_BLOCKNO_SUPER_2 (sp_fs p);
     if super_eq persistent (staged_super p) then Some (False, p)
     else do {
       check (first_run p \<or> super_eq persistent persistent_2);
       let st = set_super_inode_root_addr_2 (staged_super p) (super_inode_root_addr (staged_super p));
       Some (True, p\<lparr>staged_super := st, first_run := False\<rparr>)
     }
   }"

definition persist_copy :: "u64 \<Rightarrow> sp_state \<Rightarrow> sp_state option" where
  "persist_copy n p = do {
     b \<leftarrow> mem n (sp_fs p);
     s \<leftarrow> put_mem n (blk_copy b 0 (staged_super p) 0 4096) (sp_fs p);
     Some (p\<lparr>sp_fs := s\<rparr>)
   }"

definition persist_superblock :: "sp_state \<Rightarrow> sp_state option" where
  "persist_superblock p = do {
     (update, p) \<leftarrow> persist_begin p;
     if \<not> update then Some p
     else do {
       p \<leftarrow> persist_copy BPFS_BLOCKNO_SUPER p;
       persist_copy BPFS_BLOCKNO_SUPER_2 p
     }
   }"

section \<open>Crashes\<close>

text \<open>Memory is written in words of eight bytes; a crash in the middle of a copy leaves each word of the
  block old or new.\<close>

definition torn :: "block \<Rightarrow> block \<Rightarrow> block \<Rightarrow> bool" where
  "torn old new b \<longleftrightarrow> (\<forall>w. (\<forall>i < 8. b (8 * w + i) = old (8 * w + i)) \<or> (\<forall>i < 8. b (8 * w + i) = new (8 * w + i)))"

text \<open>The memory after a crash during \<^verbatim>\<open>persist_superblock\<close>. The barrier between the copies orders them.\<close>

inductive sp_crash :: "sp_state \<Rightarrow> fs \<Rightarrow> bool" where
  before: "sp_crash p (sp_fs p)"
| first: "persist_begin p = Some (True, q) \<Longrightarrow> mem BPFS_BLOCKNO_SUPER (sp_fs q) = Some b \<Longrightarrow>
    torn b (staged_super q) t \<Longrightarrow> put_mem BPFS_BLOCKNO_SUPER t (sp_fs q) = Some s \<Longrightarrow> sp_crash p s"
| second: "persist_begin p = Some (True, q) \<Longrightarrow> persist_copy BPFS_BLOCKNO_SUPER q = Some q' \<Longrightarrow>
    mem BPFS_BLOCKNO_SUPER_2 (sp_fs q') = Some b \<Longrightarrow> torn b (staged_super q') t \<Longrightarrow>
    put_mem BPFS_BLOCKNO_SUPER_2 t (sp_fs q') = Some s \<Longrightarrow> sp_crash p s"
| after: "persist_superblock p = Some q \<Longrightarrow> sp_crash p (sp_fs q)"

text \<open>A file system in this mode, between two updates: both copies are complete and name the roots \<open>old\<close> and \<open>old2\<close>, and the
  staged super block names the root \<open>new\<close>. The roots of the copies are the same after an update; recovery from a crash between
  the two copies leaves them different.\<close>

definition sp_super :: "block \<Rightarrow> bool" where
  "sp_super b \<longleftrightarrow> super_magic b = BPFS_FS_MAGIC \<and> super_commit_mode b = BPFS_COMMIT_SP"

definition sp_complete :: "block \<Rightarrow> bool" where
  "sp_complete b \<longleftrightarrow> sp_super b \<and> super_inode_root_addr b = super_inode_root_addr_2 b"

definition sp_ready :: "sp_state \<Rightarrow> u64 \<Rightarrow> u64 \<Rightarrow> u64 \<Rightarrow> bool" where
  "sp_ready p old old2 new \<longleftrightarrow> (\<exists>b b2. mem 1 (sp_fs p) = Some b \<and> mem 2 (sp_fs p) = Some b2 \<and> sp_complete b \<and> sp_complete b2 \<and>
     super_inode_root_addr b = old \<and> super_inode_root_addr b2 = old2) \<and>
     sp_super (staged_super p) \<and> super_inode_root_addr (staged_super p) = new"

lemma get_word_cong:
  "(\<And>i. i < 8 \<Longrightarrow> b (a + i) = c (a + i)) \<Longrightarrow> get_u64 b a = get_u64 c a"
  "(\<And>i. i < 4 \<Longrightarrow> b (a + i) = c (a + i)) \<Longrightarrow> get_u32 b a = get_u32 c a"
proof -
  have "b i = c i" if "\<And>i. i < n \<Longrightarrow> b (a + i) = c (a + i)" "a \<le> i" "i < a + n" for i n using that(1) [of "i - a"] that(2,3) by simp
  then show "(\<And>i. i < 8 \<Longrightarrow> b (a + i) = c (a + i)) \<Longrightarrow> get_u64 b a = get_u64 c a"
    "(\<And>i. i < 4 \<Longrightarrow> b (a + i) = c (a + i)) \<Longrightarrow> get_u32 b a = get_u32 c a"
    unfolding get_u64_def get_u32_def by (meson load_le_cong)+
qed

text \<open>Each field of a torn block is old or new.\<close>

lemma torn_fields:
  assumes "torn old new b"
  shows "super_inode_root_addr b = super_inode_root_addr old \<or> super_inode_root_addr b = super_inode_root_addr new"
    "super_inode_root_addr_2 b = super_inode_root_addr_2 old \<or> super_inode_root_addr_2 b = super_inode_root_addr_2 new"
    "sp_super old \<Longrightarrow> sp_super new \<Longrightarrow> sp_super b"
proof -
  have w: "(\<forall>i < n. b (8 * k + i) = old (8 * k + i)) \<or> (\<forall>i < n. b (8 * k + i) = new (8 * k + i))" if "n \<le> 8" for k n
    using assms that unfolding torn_def by (meson less_le_trans)
  show "super_inode_root_addr b = super_inode_root_addr old \<or> super_inode_root_addr b = super_inode_root_addr new"
    using w [of 8 4] get_word_cong(1) [of b 32 old] get_word_cong(1) [of b 32 new] unfolding super_inode_root_addr_def by auto
  show "super_inode_root_addr_2 b = super_inode_root_addr_2 old \<or> super_inode_root_addr_2 b = super_inode_root_addr_2 new"
    using w [of 8 5] get_word_cong(1) [of b 40 old] get_word_cong(1) [of b 40 new] unfolding super_inode_root_addr_2_def by auto
  have "get_u32 b 0 = get_u32 old 0 \<or> get_u32 b 0 = get_u32 new 0"
    using w [of 4 0] get_word_cong(2) [of b 0 old] get_word_cong(2) [of b 0 new] by auto
  moreover have "b 48 = old 48 \<or> b 48 = new 48" using w [of 1 6] by simp
  ultimately show "sp_super b" if "sp_super old" "sp_super new"
    using that unfolding sp_super_def super_magic_def super_commit_mode_def by auto
qed

text \<open>Recovery when at least one copy is complete.\<close>

lemma recover_ok:
  assumes m: "mem 1 s = Some b" "mem 2 s = Some b2" and sp: "sp_super b" "sp_super b2" and c: "sp_complete b \<or> sp_complete b2"
  shows "\<exists>s' c c2. recover_superblock s = Some (0, s') \<and> mem 1 s' = Some c \<and> mem 2 s' = Some c2 \<and> sp_complete c \<and> sp_complete c2 \<and>
    c = (if sp_complete b then b else b2) \<and> c2 = (if sp_complete b2 then b2 else b)"
proof -
  have R: "recover_superblock s = (if sp_complete b then if sp_complete b2 then Some (0, s) else map_option (Pair 0) (put_mem 2 b s)
      else if sp_complete b2 then map_option (Pair 0) (put_mem 1 b2 s) else Some (- 2, s))"
    using m sp by (auto simp: recover_superblock_def sp_super_def sp_complete_def map_option_case split: option.split)
  have put: "\<exists>s'. put_mem n x s = Some s' \<and> (\<forall>q. mem q s' = (if q = n then Some x else mem q s))" if "mem n s \<noteq> None" for n x
  proof -
    obtain s' where "put_mem n x s = Some s'" using \<open>mem n s \<noteq> None\<close> by (auto simp: put_mem_def mem_def split: if_splits)
    then show ?thesis using mem_put_mem by blast
  qed
  show ?thesis
  proof (cases "sp_complete b \<and> sp_complete b2")
    case False
    then show ?thesis using R c m put [of 1 b2] put [of 2 b] by auto
  qed (use R m in auto)
qed

lemma persist_begin_facts:
  assumes "persist_begin p = Some (True, q)" and "sp_ready p old old2 new"
  shows "sp_fs q = sp_fs p" "sp_complete (staged_super q)" "super_inode_root_addr (staged_super q) = new"
proof -
  have q: "staged_super q = set_super_inode_root_addr_2 (staged_super p) (super_inode_root_addr (staged_super p))" "sp_fs q = sp_fs p"
    using assms(1) by (auto simp: persist_begin_def Let_def bind_eq_Some_conv split: if_splits)
  then show "sp_fs q = sp_fs p" by simp
  have "put_u64 c 40 v 48 = c 48" for c v by (simp add: put_u64_def store_le_def)
  then show "sp_complete (staged_super q)" "super_inode_root_addr (staged_super q) = new"
    using assms(2) q by (simp_all add: sp_complete_def sp_super_def sp_ready_def set_super_inode_root_addr_2_def super_inode_root_addr_def
        super_inode_root_addr_2_def super_magic_def super_commit_mode_def access_simps)
qed

lemma copy_fields:
  "super_inode_root_addr (blk_copy b 0 c 0 4096) = super_inode_root_addr c" "sp_complete (blk_copy b 0 c 0 4096) = sp_complete c"
proof -
  have "get_u64 (blk_copy b 0 c 0 4096) a = get_u64 c a" "get_u32 (blk_copy b 0 c 0 4096) a = get_u32 c a" if "a + 8 \<le> 4096" for a
    by (rule get_word_cong, use that in \<open>simp add: blk_copy_def\<close>)+
  then show "super_inode_root_addr (blk_copy b 0 c 0 4096) = super_inode_root_addr c" "sp_complete (blk_copy b 0 c 0 4096) = sp_complete c"
    by (simp_all add: super_inode_root_addr_def super_inode_root_addr_2_def sp_complete_def sp_super_def super_magic_def super_commit_mode_def)
       (simp add: blk_copy_def)
qed

text \<open>The memory at every crash: both blocks are super blocks, and either the first one is complete and names the old or the new
  root, or the second one is still as it was.\<close>

lemma sp_crash_supers:
  assumes "sp_crash p s" and "sp_ready p old old2 new"
  shows "\<exists>b b2. mem 1 s = Some b \<and> mem 2 s = Some b2 \<and> sp_super b \<and> sp_super b2 \<and>
    (if sp_complete b then super_inode_root_addr b \<in> {old, new} else sp_complete b2 \<and> super_inode_root_addr b2 = old2)"
proof -
  obtain b b2 where P: "mem 1 (sp_fs p) = Some b" "mem 2 (sp_fs p) = Some b2" "sp_complete b" "sp_complete b2"
      "super_inode_root_addr b = old" "super_inode_root_addr b2 = old2" using assms(2) by (auto simp: sp_ready_def)
  have S: "sp_super b" "sp_super b2" using P(3,4) by (simp_all add: sp_complete_def)
  note B = persist_begin_facts [OF _ assms(2)]
  have one: "mem 1 (sp_fs q') = Some c \<and> mem 2 (sp_fs q') = Some b2 \<and> sp_complete c \<and> super_inode_root_addr c = new \<and>
      staged_super q' = staged_super q" if "persist_begin p = Some (True, q)" "persist_copy BPFS_BLOCKNO_SUPER q = Some q'"
      "c = blk_copy b 0 (staged_super q) 0 4096" for q q' c
    using that B [OF that(1)] P(1,2) copy_fields [of b "staged_super q"]
    by (auto simp: persist_copy_def bind_eq_Some_conv mem_put_mem)
  show ?thesis
    using assms(1)
  proof cases
    case before
    then show ?thesis using P S by auto
  next
    case (first q c t)
    note F = B [OF first(1)]
    have c: "c = b" "mem 1 s = Some t" "mem 2 s = Some b2" using first P(1,2) F(1) mem_put_mem [OF first(4)] by auto
    note T = torn_fields [OF first(3), unfolded c(1)]
    have "sp_super t" using T(3) S(1) F(2) by (simp add: sp_complete_def)
    moreover have "super_inode_root_addr t \<in> {old, new}" using T(1) P(5) F(3) by auto
    ultimately show ?thesis using c P S by auto
  next
    case (second q q' c t)
    note F = B [OF second(1)] and O = one [OF second(1,2) refl]
    have c: "c = b2" "mem 2 s = Some t" "mem 1 s = Some (blk_copy b 0 (staged_super q) 0 4096)"
      using second(3) O mem_put_mem [OF second(5)] by auto
    have "sp_super t" using torn_fields(3) [OF second(4)] c(1) S(2) F(2) O by (simp add: sp_complete_def)
    then show ?thesis using c O by (auto simp: sp_complete_def)
  next
    case (after q)
    show ?thesis
    proof (cases "\<exists>r. persist_begin p = Some (True, r)")
      case True
      then obtain r q' where r: "persist_begin p = Some (True, r)" "persist_copy BPFS_BLOCKNO_SUPER r = Some q'"
          "persist_copy BPFS_BLOCKNO_SUPER_2 q' = Some q" using after(2) by (auto simp: persist_superblock_def bind_eq_Some_conv)
      note O = one [OF r(1,2) refl] and F = B [OF r(1)]
      have "mem 2 s = Some (blk_copy b2 0 (staged_super r) 0 4096)" "mem 1 s = mem 1 (sp_fs q')"
        using r(3) O after(1) by (auto simp: persist_copy_def bind_eq_Some_conv mem_put_mem)
      then show ?thesis using O F(2) copy_fields(2) [of b2 "staged_super r"] by (auto simp: sp_complete_def)
    next
      case False
      then have "q = p" using after(2) by (auto simp: persist_superblock_def persist_begin_def bind_eq_Some_conv Let_def split: if_splits)
      then show ?thesis using after(1) P S by auto
    qed
  qed
qed

text \<open>C4. A commit in shadow paging mode is atomic: from any state with two complete super blocks, whenever the machine stops during
  \<^verbatim>\<open>persist_superblock\<close>, with the words of the super block that was being copied old or new in any mixture,
  \<^verbatim>\<open>recover_superblock\<close> succeeds and leaves two complete super blocks. When the first copy was complete at the crash the first of them
  names the old or the new root of the inode file. When it was torn, the first of them names the root that the second copy had: the old
  one if the copies agreed before, and otherwise the root of the update before, which an earlier crash between the two copies left there.\<close>

theorem superblock_crash_atomic:
  assumes "sp_ready p old old2 new" and "sp_crash p s"
  shows "\<exists>s' c b b2. recover_superblock s = Some (0, s') \<and> mem 1 s = Some c \<and> mem 1 s' = Some b \<and> mem 2 s' = Some b2 \<and>
    sp_complete b \<and> sp_complete b2 \<and> (if sp_complete c then super_inode_root_addr b \<in> {old, new} else super_inode_root_addr b = old2)"
proof -
  obtain b b2 where b: "mem 1 s = Some b" "mem 2 s = Some b2" "sp_super b" "sp_super b2"
      "if sp_complete b then super_inode_root_addr b \<in> {old, new} else sp_complete b2 \<and> super_inode_root_addr b2 = old2"
    using sp_crash_supers [OF assms(2,1)] by blast
  then obtain s' c c2 where "recover_superblock s = Some (0, s')" "mem 1 s' = Some c" "mem 2 s' = Some c2"
      "sp_complete c" "sp_complete c2" "c = (if sp_complete b then b else b2)" using recover_ok [OF b(1-4)] by (auto split: if_splits)
  then show ?thesis using b(1,5) by (auto split: if_splits)
qed

text \<open>Super blocks that differ in their addresses only.\<close>

definition sp_block :: "u64 \<Rightarrow> u64 \<Rightarrow> block" where
  "sp_block a a2 = put_u64 (put_u64 (put_u32 zero_block 0 BPFS_FS_MAGIC) 32 a) 40 a2"

lemma sp_block_fields:
  "super_inode_root_addr (sp_block a a2) = a" "super_inode_root_addr_2 (sp_block a a2) = a2" "sp_super (sp_block a a2)"
  "sp_complete (sp_block a a2) \<longleftrightarrow> a = a2" "set_super_inode_root_addr_2 (sp_block a a2) a = sp_block a a"
  "super_eq (sp_block a a2) (sp_block c c2) \<Longrightarrow> a = c"
proof -
  show f: "super_inode_root_addr (sp_block a a2) = a" "super_inode_root_addr_2 (sp_block a a2) = a2" "sp_super (sp_block a a2)" for a a2
    by (simp_all add: sp_block_def super_inode_root_addr_def super_inode_root_addr_2_def sp_super_def super_magic_def super_commit_mode_def access_simps)
       (simp add: put_u64_def put_u32_def store_le_def zero_block_def)
  then show "sp_complete (sp_block a a2) \<longleftrightarrow> a = a2" by (simp add: sp_complete_def)
  show "set_super_inode_root_addr_2 (sp_block a a2) a = sp_block a a"
    by (auto simp: set_super_inode_root_addr_2_def sp_block_def put_u64_def store_le_def fun_eq_iff)
  assume e: "super_eq (sp_block a a2) (sp_block c c2)"
  have "get_u64 (sp_block a a2) 32 = get_u64 (sp_block c c2) 32" by (rule get_word_cong(1)) (use e in \<open>simp add: super_eq_def\<close>)
  then show "a = c" using f(1) by (simp add: super_inode_root_addr_def)
qed

text \<open>A word of a torn block is taken from either block.\<close>

lemma torn_sp_block: "x \<in> {a, b} \<Longrightarrow> x2 \<in> {a2, b2} \<Longrightarrow> torn (sp_block a a2) (sp_block b b2) (sp_block x x2)"
  unfolding torn_def
proof (intro allI)
  fix w :: nat
  assume x: "x \<in> {a, b}" "x2 \<in> {a2, b2}"
  have o: "sp_block x x2 (8 * w + i) = sp_block c c2 (8 * w + i)" if "i < 8" "w = 4 \<longrightarrow> x = c" "w = 5 \<longrightarrow> x2 = c2" for i c c2
  proof -
    consider "w = 4" | "w = 5" | "w < 4" | "5 < w" by linarith
    then show ?thesis using that by cases (auto simp: sp_block_def put_u64_def store_le_def)
  qed
  show "(\<forall>i < 8. sp_block x x2 (8 * w + i) = sp_block a a2 (8 * w + i)) \<or> (\<forall>i < 8. sp_block x x2 (8 * w + i) = sp_block b b2 (8 * w + i))"
    using o [of _ a a2] o [of _ b b2] x by (cases "w = 4"; cases "w = 5") auto
qed

definition sp_sample :: "u64 \<Rightarrow> u64 \<Rightarrow> u64 \<Rightarrow> sp_state" where
  "sp_sample a a2 new = \<lparr>sp_fs = sample_fs\<lparr>bpram := (bpram sample_fs)[0 := sp_block a a, 1 := sp_block a2 a2]\<rparr>,
     staged_super = sp_block new a, first_run = True\<rparr>"

lemma sp_sample_mem:
  "mem 1 (sp_fs (sp_sample a a2 new)) = Some (sp_block a a)" "mem 2 (sp_fs (sp_sample a a2 new)) = Some (sp_block a2 a2)"
  by (simp_all add: sp_sample_def mem_def sample_fs_def)

text \<open>A crash of the first copy of the sample.\<close>

lemma sp_sample_crash:
  assumes "new \<noteq> a" and "x \<in> {a, new}" and "x2 \<in> {a, new}"
  obtains s where "sp_crash (sp_sample a a2 new) s" "mem 1 s = Some (sp_block x x2)" "mem 2 s = Some (sp_block a2 a2)"
proof -
  let ?p = "sp_sample a a2 new" and ?q = "(sp_sample a a2 new)\<lparr>staged_super := sp_block new new, first_run := False\<rparr>"
  have "\<not> super_eq (sp_block a a) (sp_block new a)" using sp_block_fields(6) assms(1) by metis
  then have b: "persist_begin ?p = Some (True, ?q)"
    using sp_sample_mem [of a a2 new] by (simp add: persist_begin_def sp_sample_def sp_block_fields)
  obtain s where s: "put_mem 1 (sp_block x x2) (sp_fs ?p) = Some s" by (auto simp: put_mem_def sp_sample_def sample_fs_def)
  have "sp_crash ?p s"
  proof (rule sp_crash.first [OF b])
    show "mem BPFS_BLOCKNO_SUPER (sp_fs ?q) = Some (sp_block a a)" using sp_sample_mem(1) by (simp add: sp_sample_def)
    show "torn (sp_block a a) (staged_super ?q) (sp_block x x2)" using torn_sp_block assms(2,3) by simp
    show "put_mem BPFS_BLOCKNO_SUPER (sp_block x x2) (sp_fs ?q) = Some s" using s by (simp add: sp_sample_def)
  qed
  then show ?thesis using that mem_put_mem [OF s] sp_sample_mem by simp
qed

text \<open>Root 3 is replaced by root 9, and the first copy is torn between its two addresses; the same when the second copy still has
  the root 2 of the update before.\<close>

theorem superblock_crash_atomic_witness:
  "(\<exists>s s' b. sp_crash (sp_sample 3 3 9) s \<and> mem 1 s = Some (sp_block 9 3) \<and> recover_superblock s = Some (0, s') \<and> mem 1 s' = Some b \<and>
     super_inode_root_addr b = 3) \<and>
   (\<exists>s s' b. sp_crash (sp_sample 3 2 9) s \<and> mem 1 s = Some (sp_block 9 3) \<and> recover_superblock s = Some (0, s') \<and> mem 1 s' = Some b \<and>
     super_inode_root_addr b = 2)"
proof -
  have "\<exists>s s' b. sp_crash (sp_sample 3 k 9) s \<and> mem 1 s = Some (sp_block 9 3) \<and> recover_superblock s = Some (0, s') \<and> mem 1 s' = Some b \<and>
     super_inode_root_addr b = k" for k
  proof -
    obtain s where s: "sp_crash (sp_sample 3 k 9) s" "mem 1 s = Some (sp_block 9 3)" by (rule sp_sample_crash [of 9 3 9 3 k]) auto
    have "staged_super (sp_sample 3 k 9) = sp_block 9 3" by (simp add: sp_sample_def)
    then have "sp_ready (sp_sample 3 k 9) 3 k 9" by (simp add: sp_ready_def sp_sample_mem sp_block_fields)
    from superblock_crash_atomic [OF this s(1)] s show ?thesis by (auto simp: sp_block_fields(4))
  qed
  then show ?thesis by blast
qed

text \<open>The last case is real. After a crash between the two copies recovery leaves
  a first super block with the new root and a second one with the old root, both of them complete; a
  crash of the next update can then bring back the root of the update before, whose blocks
  may be in use for other data.\<close>

lemma stale_second_super:
  "\<exists>s s2 s2' b. sp_crash (sp_sample 3 3 9) s \<and> recover_superblock s = Some (0, s) \<and>
     mem 1 (sp_fs (sp_sample 9 3 11)) = mem 1 s \<and> mem 2 (sp_fs (sp_sample 9 3 11)) = mem 2 s \<and>
     sp_crash (sp_sample 9 3 11) s2 \<and> recover_superblock s2 = Some (0, s2') \<and> mem 1 s2' = Some b \<and> super_inode_root_addr b = 3"
proof -
  obtain s where s: "sp_crash (sp_sample 3 3 9) s" "mem 1 s = Some (sp_block 9 9)" "mem 2 s = Some (sp_block 3 3)"
    by (rule sp_sample_crash [of 9 3 9 9 3]) auto
  obtain s2 where s2: "sp_crash (sp_sample 9 3 11) s2" "mem 1 s2 = Some (sp_block 11 9)" "mem 2 s2 = Some (sp_block 3 3)"
    by (rule sp_sample_crash [of 11 9 11 9 3]) auto
  have "recover_superblock s = Some (0, s)"
    using s sp_block_fields(3) by (simp add: recover_superblock_def sp_block_fields sp_super_def)
  moreover obtain s2' where "recover_superblock s2 = Some (0, s2')" "mem 1 s2' = Some (sp_block 3 3)"
    using recover_ok [OF s2(2,3)] by (auto simp: sp_block_fields)
  moreover have "super_inode_root_addr (sp_block 3 3) = 3" by (rule sp_block_fields)
  moreover have "mem 1 (sp_fs (sp_sample 9 3 11)) = mem 1 s" "mem 2 (sp_fs (sp_sample 9 3 11)) = mem 2 s"
    using s(2,3) sp_sample_mem by simp_all
  ultimately show ?thesis using s(1) s2(1) by blast
qed

end
