(* ===== verification/Indirect_Cow.thy ===== *)
theory Indirect_Cow
  imports Blocks Hash_Map
begin

text \<open>
  \<^verbatim>\<open>indirect_cow.c\<close> and the functions of \<^verbatim>\<open>bpfs.c\<close> as they are built with \<^verbatim>\<open>MODE_SCSP\<close>, short-circuit shadow paging.
  A block that is copied on write gets its new contents in DRAM; \<^verbatim>\<open>get_block\<close> on its new number returns the copy. A commit finds the
  highest block of the tree of copies whose change is a single word, drops the copies above it, writes the copies below it to their
  new blocks, and then stores that word in place.

  The \<^verbatim>\<open>struct block\<close> objects live in a heap: an address that is not in it was never allocated or has been released, and
  following it, or \<^verbatim>\<open>NULL\<close>, ends the process (\<open>None\<close>). The answers of \<^verbatim>\<open>malloc\<close> are arguments.
\<close>

section \<open>State\<close>

record ic_block =
  orig_blkno :: u64
  cow_blkno :: u64
  dram :: "block option"
  required :: bool
  ic_parent :: "addr option"
  children_all :: "addr option"
  child_all_next :: "addr option"
  children_cow :: "addr option"
  child_cow_next :: "addr option"

abbreviation (input) PARENT_STACK_SIZE :: nat where "PARENT_STACK_SIZE \<equiv> 16"

text \<open>A pointer to the bytes of a block: a block of the memory, or the copy in DRAM that belongs to a \<^verbatim>\<open>struct block\<close>.\<close>

datatype ic_ptr = InBpram u64 | InDram addr

text \<open>The parent stack is a list with its top first. \<^verbatim>\<open>bpfs_super\<close> may point at the copy of the super block.\<close>

record icow =
  ic_fs :: fs
  ic_heap :: "addr \<Rightarrow> ic_block option"
  ic_fresh :: addr
  indirect_cow_inited :: bool
  blkno_map_orig :: "addr hash_map"
  blkno_map_cow :: "addr hash_map"
  parent_stack :: "addr list"
  bpfs_super :: ic_ptr

text \<open>What the allocations of a call answer: the \<^verbatim>\<open>struct block\<close>, its copy, and the insertions into the two tables.\<close>

record ic_mem =
  mem_block :: bool
  mem_dram :: bool
  mem_orig :: "bool \<times> hm_mem"
  mem_cow :: "bool \<times> hm_mem"

definition upd_block :: "addr \<Rightarrow> (ic_block \<Rightarrow> ic_block) \<Rightarrow> icow \<Rightarrow> icow option" where
  "upd_block a f s = do { b \<leftarrow> ic_heap s a; Some (s\<lparr>ic_heap := (ic_heap s)(a \<mapsto> f b)\<rparr>) }"

definition delete_block :: "addr \<Rightarrow> icow \<Rightarrow> icow option" where
  "delete_block a s = do { b \<leftarrow> ic_heap s a; Some (s\<lparr>ic_heap := (ic_heap s)(a := None)\<rparr>) }"

definition load_ptr :: "ic_ptr \<Rightarrow> icow \<Rightarrow> block option" where
  "load_ptr p s = (case p of
     InBpram n \<Rightarrow> mem n (ic_fs s)
   | InDram a \<Rightarrow> Option.bind (ic_heap s a) dram)"

definition store_ptr :: "ic_ptr \<Rightarrow> block \<Rightarrow> icow \<Rightarrow> icow option" where
  "store_ptr p v s = (case p of
     InBpram n \<Rightarrow> do { f \<leftarrow> put_mem n v (ic_fs s); Some (s\<lparr>ic_fs := f\<rparr>) }
   | InDram a \<Rightarrow> do { b \<leftarrow> ic_heap s a; d \<leftarrow> dram b; upd_block a (dram_update (\<lambda>_. Some v)) s })"

definition on_fs :: "(fs \<Rightarrow> fs option) \<Rightarrow> icow \<Rightarrow> icow option" where
  "on_fs f s = do { f \<leftarrow> f (ic_fs s); Some (s\<lparr>ic_fs := f\<rparr>) }"

definition erase_orig :: "u64 \<Rightarrow> icow \<Rightarrow> icow option" where
  "erase_orig n s = do { (v, m) \<leftarrow> hash_map_erase (blkno_map_orig s) (KPtr n); Some (s\<lparr>blkno_map_orig := m\<rparr>) }"

definition erase_cow :: "u64 \<Rightarrow> icow \<Rightarrow> icow option" where
  "erase_cow n s = do { (v, m) \<leftarrow> hash_map_erase (blkno_map_cow s) (KPtr n); Some (s\<lparr>blkno_map_cow := m\<rparr>) }"

definition find_orig :: "u64 \<Rightarrow> icow \<Rightarrow> addr option option" where
  "find_orig n s = hash_map_find_val (blkno_map_orig s) (KPtr n)"

definition find_cow :: "u64 \<Rightarrow> icow \<Rightarrow> addr option option" where
  "find_cow n s = hash_map_find_val (blkno_map_cow s) (KPtr n)"

section \<open>The super block pointer\<close>

definition set_super :: "ic_ptr \<Rightarrow> icow \<Rightarrow> icow option" where
  "set_super p s = do {
     super \<leftarrow> load_ptr p s;
     check (super_magic super = BPFS_FS_MAGIC);
     Some (s\<lparr>bpfs_super := p\<rparr>)
   }"

definition get_bpram_super :: ic_ptr where
  "get_bpram_super = InBpram BPFS_BLOCKNO_SUPER"

definition get_super_blockno :: "icow \<Rightarrow> u64 option" where
  "get_super_blockno s = do {
     super \<leftarrow> find_orig BPFS_BLOCKNO_SUPER s;
     case super of
       None \<Rightarrow> Some BPFS_BLOCKNO_SUPER
     | Some a \<Rightarrow> do {
         b \<leftarrow> ic_heap s a;
         Some (if cow_blkno b = BPFS_BLOCKNO_INVALID then BPFS_BLOCKNO_SUPER else cow_blkno b)
       }
   }"

section \<open>The table of blocks\<close>

definition parent_get :: "icow \<Rightarrow> addr option" where
  "parent_get s = (case parent_stack s of [] \<Rightarrow> None | a # _ \<Rightarrow> Some a)"

definition block_get_either :: "u64 \<Rightarrow> icow \<Rightarrow> addr option option" where
  "block_get_either blkno s = do {
     c \<leftarrow> find_cow blkno s;
     if c \<noteq> None then Some c
     else do {
       block \<leftarrow> find_orig blkno s;
       case block of
         None \<Rightarrow> Some None
       | Some a \<Rightarrow> do { b \<leftarrow> ic_heap s a; check (cow_blkno b = BPFS_BLOCKNO_INVALID); Some (Some a) }
     }
   }"

definition block_create :: "bool \<Rightarrow> u64 \<Rightarrow> u64 \<Rightarrow> icow \<Rightarrow> (addr option \<times> icow) option" where
  "block_create malloc_ok orig cow s = do {
     let parent = parent_get s;
     e \<leftarrow> block_get_either orig s;
     check (e = None);
     e \<leftarrow> block_get_either cow s;
     check (e = None);
     if \<not> malloc_ok then Some (None, s)
     else do {
       let a = ic_fresh s;
       let s = s\<lparr>ic_fresh := Suc a\<rparr>;
       let block = \<lparr>orig_blkno = orig, cow_blkno = cow, dram = None, required = False, ic_parent = parent,
         children_all = None, child_all_next = None, children_cow = None, child_cow_next = None\<rparr>;
       case parent of
         None \<Rightarrow> do {
           check (orig = BPFS_BLOCKNO_SUPER);
           Some (Some a, s\<lparr>ic_heap := (ic_heap s)(a \<mapsto> block)\<rparr>)
         }
       | Some p \<Rightarrow> do {
           check (orig \<noteq> BPFS_BLOCKNO_SUPER);
           b \<leftarrow> ic_heap s p;
           check (orig_blkno b \<noteq> BPFS_BLOCKNO_SUPER \<or> children_all b = None);
           let block = block\<lparr>child_all_next := children_all b\<rparr>;
           let b = b\<lparr>children_all := Some a\<rparr>;
           Some (Some a,
             if cow = BPFS_BLOCKNO_INVALID then s\<lparr>ic_heap := (ic_heap s)(p \<mapsto> b, a \<mapsto> block)\<rparr>
             else s\<lparr>ic_heap := (ic_heap s)(p \<mapsto> b\<lparr>children_cow := Some a\<rparr>, a \<mapsto> block\<lparr>child_cow_next := children_cow b\<rparr>)\<rparr>)
         }
     }
   }"

text \<open>The globals start as zero, so the pointers to the tables are set by this call; when the second table has no memory the
  first one is destroyed.\<close>

definition indirect_cow_init :: "hm_mem \<Rightarrow> hm_mem \<Rightarrow> icow \<Rightarrow> (int \<times> icow) option" where
  "indirect_cow_init m1 m2 s = do {
     check (\<not> indirect_cow_inited s);
     (case hash_map_create_ptr m1 of
       None \<Rightarrow> Some (- ENOMEM, s)
     | Some orig \<Rightarrow> (case hash_map_create_ptr m2 of
         None \<Rightarrow> Some (- ENOMEM, s\<lparr>blkno_map_orig := orig\<rparr>)
       | Some cow \<Rightarrow> Some (0, s\<lparr>blkno_map_orig := orig, blkno_map_cow := cow, parent_stack := [], indirect_cow_inited := True\<rparr>)))
   }"

text \<open>The tables are destroyed at the end; only a later \<^verbatim>\<open>indirect_cow_init\<close> may follow.\<close>

definition indirect_cow_destroy :: "icow \<Rightarrow> icow option" where
  "indirect_cow_destroy s = do {
     check (indirect_cow_inited s);
     check (hash_map_size (blkno_map_orig s) = 1);
     check (hash_map_size (blkno_map_cow s) = 1);
     let s = s\<lparr>indirect_cow_inited := False\<rparr>;
     super \<leftarrow> find_orig BPFS_BLOCKNO_SUPER s;
     a \<leftarrow> super;
     s \<leftarrow> erase_orig BPFS_BLOCKNO_SUPER s;
     b \<leftarrow> ic_heap s a;
     s \<leftarrow> erase_cow (cow_blkno b) s;
     delete_block a s
   }"

section \<open>Parents\<close>

text \<open>The loop over the siblings that looks for a block.\<close>

partial_function (option) find_sibling :: "addr \<Rightarrow> addr option \<Rightarrow> icow \<Rightarrow> bool option" where
  "find_sibling block sibling s = (case sibling of
     None \<Rightarrow> Some False
   | Some a \<Rightarrow> if a = block then Some True
       else do { b \<leftarrow> ic_heap s a; find_sibling block (child_all_next b) s })"

declare find_sibling.simps [code]

definition check_parent :: "addr \<Rightarrow> icow \<Rightarrow> unit option" where
  "check_parent block s = do {
     b \<leftarrow> ic_heap s block;
     case parent_get s of
       None \<Rightarrow> do {
         check (orig_blkno b = BPFS_BLOCKNO_SUPER);
         check (child_all_next b = None)
       }
     | Some parent \<Rightarrow>
         if orig_blkno b = BPFS_BLOCKNO_SUPER then check (child_all_next b = None)
         else do {
           p \<leftarrow> ic_heap s parent;
           found \<leftarrow> find_sibling block (children_all p) s;
           check found;
           check (ic_parent b = Some parent)
         }
   }"

definition push_parent :: "addr \<Rightarrow> icow \<Rightarrow> (int \<times> icow) option" where
  "push_parent a s = do {
     check (Suc (length (parent_stack s)) \<le> PARENT_STACK_SIZE);
     Some (0, s\<lparr>parent_stack := a # parent_stack s\<rparr>)
   }"

definition indirect_cow_parent_push :: "ic_mem \<Rightarrow> u64 \<Rightarrow> icow \<Rightarrow> (int \<times> icow) option" where
  "indirect_cow_parent_push m blkno s = do {
     block \<leftarrow> block_get_either blkno s;
     case block of
       None \<Rightarrow> do {
         (block, s) \<leftarrow> block_create (mem_block m) blkno BPFS_BLOCKNO_INVALID s;
         case block of
           None \<Rightarrow> Some (- ENOMEM, s)
         | Some a \<Rightarrow> do {
             (r, orig) \<leftarrow> hash_map_insert (fst (mem_orig m)) (snd (mem_orig m)) (blkno_map_orig s) (KPtr blkno) a;
             check (r = 0);
             push_parent a (s\<lparr>blkno_map_orig := orig\<rparr>)
           }
       }
     | Some a \<Rightarrow> do {
         _ \<leftarrow> check_parent a s;
         push_parent a s
       }
   }"

definition indirect_cow_parent_pop :: "u64 \<Rightarrow> icow \<Rightarrow> icow option" where
  "indirect_cow_parent_pop blkno s = (case parent_stack s of
     [] \<Rightarrow> None
   | a # rest \<Rightarrow> do {
       b \<leftarrow> ic_heap s a;
       check (blkno = orig_blkno b \<or> blkno = cow_blkno b);
       Some (s\<lparr>parent_stack := rest\<rparr>)
     })"

section \<open>Copies\<close>

text \<open>The label \<^verbatim>\<open>abort\<close> of \<^verbatim>\<open>indirect_cow_block_cow\<close>. A released copy cannot be read any more.\<close>

definition block_cow_abort :: "int \<Rightarrow> bool \<Rightarrow> addr option \<Rightarrow> u64 \<Rightarrow> u64 \<Rightarrow> icow \<Rightarrow> (int \<times> icow) option" where
  "block_cow_abort r new_block block orig cow s = do {
     a \<leftarrow> block;
     s \<leftarrow> upd_block a (\<lambda>b. b\<lparr>dram := None, cow_blkno := BPFS_BLOCKNO_INVALID\<rparr>) s;
     s \<leftarrow> erase_cow cow s;
     s \<leftarrow> (if new_block then do { s \<leftarrow> erase_orig orig s; delete_block a s } else Some s);
     Some (r, s)
   }"

text \<open>The existing block gets its number and is linked into the list of its parent.\<close>

definition block_set_cow :: "addr \<Rightarrow> u64 \<Rightarrow> icow \<Rightarrow> icow option" where
  "block_set_cow a cow s = do {
     b \<leftarrow> ic_heap s a;
     check (cow_blkno b = BPFS_BLOCKNO_INVALID);
     check (child_cow_next b = None);
     check (ic_parent b = parent_get s);
     s \<leftarrow> upd_block a (cow_blkno_update (\<lambda>_. cow)) s;
     case parent_get s of
       None \<Rightarrow> Some s
     | Some p \<Rightarrow> do {
         check (orig_blkno b \<noteq> BPFS_BLOCKNO_SUPER);
         pb \<leftarrow> ic_heap s p;
         s \<leftarrow> upd_block a (child_cow_next_update (\<lambda>_. children_cow pb)) s;
         upd_block p (children_cow_update (\<lambda>_. Some a)) s
       }
   }"

definition insert_block :: "ic_mem \<Rightarrow> bool \<Rightarrow> addr \<Rightarrow> u64 \<Rightarrow> u64 \<Rightarrow> icow \<Rightarrow> (int \<times> icow) option" where
  "insert_block m new_block a orig cow s = do {
     (r, om) \<leftarrow> (if new_block then hash_map_insert (fst (mem_orig m)) (snd (mem_orig m)) (blkno_map_orig s) (KPtr orig) a
                else Some (0, blkno_map_orig s));
     let s = s\<lparr>blkno_map_orig := om\<rparr>;
     if r < 0 then block_cow_abort r new_block (Some a) orig cow s
     else do {
       check (r = 0);
       (r, cm) \<leftarrow> hash_map_insert (fst (mem_cow m)) (snd (mem_cow m)) (blkno_map_cow s) (KPtr cow) a;
       let s = s\<lparr>blkno_map_cow := cm\<rparr>;
       if r < 0 then block_cow_abort r new_block (Some a) orig cow s
       else do { check (r = 0); Some (0, s) }
     }
   }"

definition alloc_dram :: "ic_mem \<Rightarrow> bool \<Rightarrow> addr \<Rightarrow> u64 \<Rightarrow> u64 \<Rightarrow> icow \<Rightarrow> (int \<times> icow) option" where
  "alloc_dram m new_block a orig cow s =
     (if \<not> mem_dram m then block_cow_abort (- ENOMEM) new_block (Some a) orig cow s
      else do {
        s \<leftarrow> upd_block a (dram_update (\<lambda>_. Some (heap_junk (ic_fs s)))) s;
        insert_block m new_block a orig cow s
      })"

definition indirect_cow_block_cow :: "ic_mem \<Rightarrow> u64 \<Rightarrow> u64 \<Rightarrow> icow \<Rightarrow> (int \<times> icow) option" where
  "indirect_cow_block_cow m orig cow s = do {
     block \<leftarrow> find_orig orig s;
     check (orig \<noteq> BPFS_BLOCKNO_INVALID);
     check (cow \<noteq> BPFS_BLOCKNO_INVALID);
     check (cow \<noteq> BPFS_BLOCKNO_SUPER);
     check (orig \<noteq> BPFS_BLOCKNO_SUPER_2);
     check (cow \<noteq> BPFS_BLOCKNO_SUPER_2);
     _ \<leftarrow> (case parent_get s of
            None \<Rightarrow> Some ()
          | Some p \<Rightarrow> do { b \<leftarrow> ic_heap s p; check (orig_blkno b \<noteq> BPFS_BLOCKNO_SUPER \<or> children_cow b = None) });
     case block of
       None \<Rightarrow> do {
         (block, s) \<leftarrow> block_create (mem_block m) orig cow s;
         case block of
           None \<Rightarrow> block_cow_abort (- ENOMEM) True None orig cow s
         | Some a \<Rightarrow> alloc_dram m True a orig cow s
       }
     | Some a \<Rightarrow> do {
         s \<leftarrow> block_set_cow a cow s;
         alloc_dram m False a orig cow s
       }
   }"

text \<open>The pointer to the copy, or \<^verbatim>\<open>NULL\<close>.\<close>

definition indirect_cow_block_get :: "u64 \<Rightarrow> icow \<Rightarrow> ic_ptr option option" where
  "indirect_cow_block_get blkno s = do {
     block \<leftarrow> find_cow blkno s;
     case block of
       None \<Rightarrow> Some None
     | Some a \<Rightarrow> do { b \<leftarrow> ic_heap s a; Some (if dram b = None then None else Some (InDram a)) }
   }"

definition block_freshly_alloced :: "u64 \<Rightarrow> icow \<Rightarrow> bool" where
  "block_freshly_alloced blockno s = staged_list_freshly_alloced (bm_allocs (block_alloc (ic_fs s))) (blockno - 1)"

definition indirect_cow_block_required :: "u64 \<Rightarrow> icow \<Rightarrow> icow option" where
  "indirect_cow_block_required blkno s = do {
     block \<leftarrow> find_cow blkno s;
     case block of
       Some a \<Rightarrow> upd_block a (required_update (\<lambda>_. True)) s
     | None \<Rightarrow> do { check (block_freshly_alloced blkno s); Some s }
   }"

section \<open>Access by block number in this mode\<close>

partial_function (option) scsp_get_block :: "u64 \<Rightarrow> icow \<Rightarrow> (ic_ptr \<times> icow) option" where
  "scsp_get_block blockno s = do {
     check (blockno \<noteq> BPFS_BLOCKNO_INVALID);
     block \<leftarrow> indirect_cow_block_get blockno s;
     case block of
       Some p \<Rightarrow> Some (p, s)
     | None \<Rightarrow>
         if blockno AND disk_bit \<noteq> 0 then do {
           (r, buf, d) \<leftarrow> readBlocksWithPrefetch True (heap_junk (ic_fs s)) (blockno XOR disk_bit) (dm (ic_fs s));
           check (r = 1);
           (new_block, f) \<leftarrow> alloc_block ((ic_fs s)\<lparr>dm := d\<rparr>);
           f \<leftarrow> put_mem new_block buf f;
           (p, s) \<leftarrow> scsp_get_block (current_indir_pointer f) (s\<lparr>ic_fs := f\<rparr>);
           indir \<leftarrow> load_ptr p s;
           indir \<leftarrow> replace_addr blockno new_block indir;
           s \<leftarrow> store_ptr p indir s;
           a \<leftarrow> anti_cache_manager_access new_block (ac (ic_fs s));
           Some (InBpram new_block, s\<lparr>ic_fs := (ic_fs s)\<lparr>ac := a\<rparr>\<rparr>)
         }
         else Some (InBpram blockno, s)
   }"

declare scsp_get_block.simps [code]

text \<open>The super block may be freed for the time of a transaction.\<close>

definition scsp_free_block :: "u64 \<Rightarrow> fs \<Rightarrow> fs option" where
  "scsp_free_block blockno s =
     (if blockno AND disk_bit \<noteq> 0 then Some s
      else do {
        check (blockno \<noteq> BPFS_BLOCKNO_INVALID);
        check (blockno = BPFS_BLOCKNO_SUPER \<or> BPFS_BLOCKNO_FIRST_ALLOC \<le> blockno);
        bm \<leftarrow> bitmap_free (block_alloc s) (blockno - 1);
        a \<leftarrow> anti_cache_manager_delete_lru_entries [blockno] (ac s);
        Some (s\<lparr>block_alloc := bm, ac := a\<rparr>)
      })"

text \<open>The start of \<^verbatim>\<open>cow_block\<close> and \<^verbatim>\<open>cow_block_entire\<close>: \<open>Inl\<close> is what they return at once, \<open>Inr\<close> the new block.\<close>

definition scsp_cow_begin :: "ic_mem \<Rightarrow> u64 \<Rightarrow> icow \<Rightarrow> ((u64 + u64) \<times> icow) option" where
  "scsp_cow_begin m old_blockno s =
     (if block_freshly_alloced old_blockno s then Some (Inl old_blockno, s)
      else do {
        (new_blockno, f) \<leftarrow> alloc_block (ic_fs s);
        let s = s\<lparr>ic_fs := f\<rparr>;
        if new_blockno = BPFS_BLOCKNO_INVALID then Some (Inl BPFS_BLOCKNO_INVALID, s)
        else do {
          (r, s) \<leftarrow> indirect_cow_block_cow m old_blockno new_blockno s;
          if r < 0 then do {
            s \<leftarrow> on_fs (unalloc_block new_blockno) s;
            s \<leftarrow> on_fs (set_block old_blockno) s;
            Some (Inl BPFS_BLOCKNO_INVALID, s)
          }
          else Some (Inr new_blockno, s)
        }
      })"

definition scsp_cow_block :: "ic_mem \<Rightarrow> u64 \<Rightarrow> u32 \<Rightarrow> u32 \<Rightarrow> u32 \<Rightarrow> icow \<Rightarrow> (u64 \<times> icow) option" where
  "scsp_cow_block m old_blockno off sz valid s = do {
     let e = unat (off + sz);
     check (off + sz \<le> 4096);
     check (valid \<le> 4096);
     (r, s) \<leftarrow> scsp_cow_begin m old_blockno s;
     case r of
       Inl n \<Rightarrow> Some (n, s)
     | Inr new_blockno \<Rightarrow> do {
         (po, s) \<leftarrow> scsp_get_block old_blockno s;
         (pn, s) \<leftarrow> scsp_get_block new_blockno s;
         old_block \<leftarrow> load_ptr po s;
         new_block \<leftarrow> load_ptr pn s;
         let new_block = blk_copy new_block 0 old_block 0 (unat off);
         let nbytes = cow_nbytes (ic_fs s) + ucast off;
         let copy_end = (e < unat valid);
         let new_block = (if copy_end then blk_copy new_block e old_block e (unat valid - e) else new_block);
         let nbytes = (if copy_end then nbytes + of_nat (unat valid - e) else nbytes);
         let nblocks = (if off \<noteq> 0 \<or> copy_end then cow_nblocks (ic_fs s) + 1 else cow_nblocks (ic_fs s));
         s \<leftarrow> store_ptr pn new_block s;
         s \<leftarrow> on_fs (\<lambda>f. scsp_free_block old_blockno (f\<lparr>cow_nbytes := nbytes, cow_nblocks := nblocks\<rparr>)) s;
         Some (new_blockno, s)
       }
   }"

definition scsp_cow_block_entire :: "ic_mem \<Rightarrow> u64 \<Rightarrow> icow \<Rightarrow> (u64 \<times> icow) option" where
  "scsp_cow_block_entire m old_blockno s = do {
     (r, s) \<leftarrow> scsp_cow_begin m old_blockno s;
     case r of
       Inl n \<Rightarrow> Some (n, s)
     | Inr new_blockno \<Rightarrow> do {
         (po, s) \<leftarrow> scsp_get_block old_blockno s;
         (pn, s) \<leftarrow> scsp_get_block new_blockno s;
         old_block \<leftarrow> load_ptr po s;
         new_block \<leftarrow> load_ptr pn s;
         s \<leftarrow> store_ptr pn (blk_copy new_block 0 old_block 0 4096) s;
         s \<leftarrow> on_fs (\<lambda>f. scsp_free_block old_blockno
           (f\<lparr>cow_nbytes := cow_nbytes f + BPFS_BLOCK_SIZE, cow_nblocks := cow_nblocks f + 1\<rparr>)) s;
         Some (new_blockno, s)
       }
   }"

definition indirect_cow_block_direct :: "u64 \<Rightarrow> u32 \<Rightarrow> u32 \<Rightarrow> icow \<Rightarrow> icow option" where
  "indirect_cow_block_direct blkno off sz s = do {
     block \<leftarrow> find_cow blkno s;
     check (blkno \<noteq> BPFS_BLOCKNO_INVALID);
     check (off < 4096 \<and> sz \<le> 4096);
     check (off + sz \<le> 4096);
     case block of
       None \<Rightarrow> Some s
     | Some a \<Rightarrow> do {
         b \<leftarrow> ic_heap s a;
         if orig_blkno b = BPFS_BLOCKNO_INVALID \<or> cow_blkno b = BPFS_BLOCKNO_INVALID then Some s
         else do {
           (p, s) \<leftarrow> scsp_get_block (orig_blkno b) s;
           dst \<leftarrow> load_ptr p s;
           src \<leftarrow> load_ptr (InDram a) s;
           store_ptr p (blk_copy dst (unat off) src (unat off) (unat sz)) s
         }
       }
   }"

section \<open>Commit\<close>

text \<open>The loop over the words of a block: whether there is at most one difference, the new word, its offset (4096 without one).
  Without a difference the new word is not written.\<close>

primrec atomic_scan :: "nat list \<Rightarrow> block \<Rightarrow> block \<Rightarrow> bool \<Rightarrow> u64 option \<times> nat \<Rightarrow> bool \<times> u64 option \<times> nat" where
  "atomic_scan [] b0 b1 diff res = (True, res)"
| "atomic_scan (off # offs) b0 b1 diff res =
     (if get_u64 b0 off \<noteq> get_u64 b1 off then
        if diff then (False, res) else atomic_scan offs b0 b1 True (Some (get_u64 b1 off), off)
      else atomic_scan offs b0 b1 diff res)"

definition word_offs :: "nat list" where
  "word_offs = map (\<lambda>i. 8 * i) [0..<512]"

definition cow_is_atomically_writable :: "addr \<Rightarrow> icow \<Rightarrow> ((bool \<times> u64 option \<times> nat) \<times> icow) option" where
  "cow_is_atomically_writable a s = do {
     b \<leftarrow> ic_heap s a;
     (p, s) \<leftarrow> scsp_get_block (orig_blkno b) s;
     block_0 \<leftarrow> load_ptr p s;
     block_1 \<leftarrow> load_ptr (InDram a) s;
     Some (atomic_scan word_offs block_0 block_1 False (None, 4096), s)
   }"

text \<open>The loop that frees the blocks of a transaction that copied nothing but the super block.\<close>

definition free_all_block :: "addr \<Rightarrow> icow \<Rightarrow> icow option" where
  "free_all_block a s = do {
     b \<leftarrow> ic_heap s a;
     check (dram b = None \<and> cow_blkno b = BPFS_BLOCKNO_INVALID);
     delete_block a s
   }"

partial_function (option) free_all :: "addr hash_map_it2 \<Rightarrow> icow \<Rightarrow> icow option" where
  "free_all it s = do {
     (more, it) \<leftarrow> hash_map_it2_next (blkno_map_orig s) it;
     if \<not> more then Some s
     else do {
       e \<leftarrow> it_elt it;
       s \<leftarrow> free_all_block (snd e) s;
       free_all it s
     }
   }"

declare free_all.simps [code]

definition commit_unchanged :: "icow \<Rightarrow> icow option" where
  "commit_unchanged s = do {
     block \<leftarrow> find_orig BPFS_BLOCKNO_SUPER s;
     a \<leftarrow> block;
     b \<leftarrow> ic_heap s a;
     check (cow_blkno b \<noteq> BPFS_BLOCKNO_INVALID);
     s \<leftarrow> set_super get_bpram_super s;
     s \<leftarrow> erase_cow (cow_blkno b) s;
     s \<leftarrow> on_fs (unfree_block BPFS_BLOCKNO_SUPER) s;
     s \<leftarrow> on_fs (unalloc_block (cow_blkno b)) s;
     s \<leftarrow> upd_block a (\<lambda>b. b\<lparr>dram := None, cow_blkno := BPFS_BLOCKNO_INVALID\<rparr>) s;
     it \<leftarrow> hash_map_it2_create (blkno_map_orig s);
     s \<leftarrow> free_all it s;
     m \<leftarrow> hash_map_clear (blkno_map_orig s);
     Some (s\<lparr>blkno_map_orig := m\<rparr>)
   }"

text \<open>The loop that looks for the highest block that is atomically writable.\<close>

partial_function (option) find_highest :: "addr \<Rightarrow> icow \<Rightarrow> (addr \<times> icow) option" where
  "find_highest block s = do {
     b \<leftarrow> ic_heap s block;
     check (children_cow b \<noteq> None \<or> required b);
     (stop, s) \<leftarrow> (case children_cow b of
        None \<Rightarrow> Some (False, s)
      | Some child \<Rightarrow> do {
          c \<leftarrow> ic_heap s child;
          check (child_cow_next c = None);
          (w, s) \<leftarrow> cow_is_atomically_writable child s;
          Some (\<not> fst w, s)
        });
     if stop \<or> required b then Some (block, s)
     else do { child \<leftarrow> children_cow b; find_highest child s }
   }"

declare find_highest.simps [code]

text \<open>The loop that drops the copies of the blocks above \<open>notatomic_block\<close>.\<close>

partial_function (option) revert_parents :: "addr option \<Rightarrow> addr option \<Rightarrow> icow \<Rightarrow> icow option" where
  "revert_parents block notatomic_block s =
     (if block = notatomic_block then Some s
      else do {
        a \<leftarrow> block;
        b \<leftarrow> ic_heap s a;
        s \<leftarrow> on_fs (unalloc_block (cow_blkno b)) s;
        s \<leftarrow> on_fs (unfree_block (orig_blkno b)) s;
        s \<leftarrow> erase_orig (orig_blkno b) s;
        s \<leftarrow> erase_cow (cow_blkno b) s;
        s \<leftarrow> delete_block a s;
        revert_parents (children_cow b) notatomic_block s
      })"

declare revert_parents.simps [code]

text \<open>The body of the loop over the copies that are kept, and the loop.\<close>

definition copy_block :: "addr \<Rightarrow> icow \<Rightarrow> icow option" where
  "copy_block a s = do {
     b \<leftarrow> ic_heap s a;
     s \<leftarrow> erase_orig (orig_blkno b) s;
     s \<leftarrow> erase_cow (cow_blkno b) s;
     (p, s) \<leftarrow> scsp_get_block (cow_blkno b) s;
     dst \<leftarrow> load_ptr p s;
     src \<leftarrow> load_ptr (InDram a) s;
     s \<leftarrow> store_ptr p (blk_copy dst 0 src 0 4096) s;
     delete_block a s
   }"

partial_function (option) copy_cows :: "addr hash_map_it2 \<Rightarrow> icow \<Rightarrow> icow option" where
  "copy_cows it s = do {
     (more, it) \<leftarrow> hash_map_it2_next (blkno_map_cow s) it;
     if \<not> more then Some s
     else do {
       e \<leftarrow> it_elt it;
       s \<leftarrow> copy_block (snd e) s;
       copy_cows it s
     }
   }"

declare copy_cows.simps [code]

text \<open>The loop that frees the blocks that were not copied.\<close>

definition free_uncowed_block :: "addr \<Rightarrow> icow \<Rightarrow> icow option" where
  "free_uncowed_block a s = do {
     b \<leftarrow> ic_heap s a;
     check (cow_blkno b = BPFS_BLOCKNO_INVALID);
     check (dram b = None);
     check (\<not> required b);
     s \<leftarrow> erase_orig (orig_blkno b) s;
     delete_block a s
   }"

partial_function (option) free_uncowed :: "addr hash_map_it2 \<Rightarrow> icow \<Rightarrow> icow option" where
  "free_uncowed it s = do {
     (more, it) \<leftarrow> hash_map_it2_next (blkno_map_orig s) it;
     if \<not> more then Some s
     else do {
       e \<leftarrow> it_elt it;
       s \<leftarrow> free_uncowed_block (snd e) s;
       free_uncowed it s
     }
   }"

declare free_uncowed.simps [code]

text \<open>All of a commit with more than one copy, except for the last store: the search for the block, the loop over its parents,
  and the other loops.\<close>

definition commit_search :: "icow \<Rightarrow> ((addr \<times> u64 \<times> (u64 option \<times> nat) \<times> addr option) \<times> icow) option" where
  "commit_search s = do {
     super \<leftarrow> find_orig BPFS_BLOCKNO_SUPER s;
     super_block \<leftarrow> super;
     b \<leftarrow> ic_heap s super_block;
     check (\<not> required b);
     check (children_cow b \<noteq> None);
     (w, s) \<leftarrow> cow_is_atomically_writable super_block s;
     check (fst w);
     (block, s) \<leftarrow> find_highest super_block s;
     b \<leftarrow> ic_heap s block;
     (w, s) \<leftarrow> cow_is_atomically_writable block s;
     check (fst w);
     Some ((super_block, orig_blkno b, snd w, children_cow b), s)
   }"

definition commit_begin :: "icow \<Rightarrow> ((u64 \<times> u64 option \<times> nat) \<times> icow) option" where
  "commit_begin s = do {
     ((super_block, atomic_blkno, w, notatomic_block), s) \<leftarrow> commit_search s;
     check (Some super_block \<noteq> notatomic_block);
     s \<leftarrow> set_super get_bpram_super s;
     s \<leftarrow> revert_parents (Some super_block) notatomic_block s;
     Some ((atomic_blkno, w), s)
   }"

definition commit_prepare :: "icow \<Rightarrow> ((u64 \<times> u64 option \<times> nat) \<times> icow) option" where
  "commit_prepare s = do {
     (w, s) \<leftarrow> commit_begin s;
     it \<leftarrow> hash_map_it2_create (blkno_map_cow s);
     s \<leftarrow> copy_cows it s;
     it \<leftarrow> hash_map_it2_create (blkno_map_orig s);
     s \<leftarrow> free_uncowed it s;
     Some (w, s)
   }"

definition commit_store :: "u64 \<times> u64 option \<times> nat \<Rightarrow> icow \<Rightarrow> icow option" where
  "commit_store w s = (case w of (atomic_blkno, atomic_new, atomic_off) \<Rightarrow>
     if atomic_off = 4096 then Some s
     else do {
       (p, s) \<leftarrow> scsp_get_block atomic_blkno s;
       b \<leftarrow> load_ptr p s;
       v \<leftarrow> atomic_new;
       store_ptr p (put_u64 b atomic_off v) s
     })"

definition indirect_cow_commit :: "icow \<Rightarrow> icow option" where
  "indirect_cow_commit s = do {
     check (parent_stack s = []);
     check (\<not> hash_map_empty (blkno_map_cow s));
     if hash_map_size (blkno_map_cow s) = 1 then commit_unchanged s
     else do {
       (w, s) \<leftarrow> commit_prepare s;
       commit_store w s
     }
   }"

section \<open>Abort\<close>

definition abort_block :: "addr \<Rightarrow> icow \<Rightarrow> icow option" where
  "abort_block a s = do {
     b \<leftarrow> ic_heap s a;
     s \<leftarrow> (if cow_blkno b \<noteq> 0 then do {
             s \<leftarrow> on_fs (unalloc_block (cow_blkno b)) s;
             s \<leftarrow> on_fs (unfree_block (orig_blkno b)) s;
             erase_cow (cow_blkno b) s
           }
           else Some s);
     s \<leftarrow> erase_orig (orig_blkno b) s;
     delete_block a s
   }"

partial_function (option) abort_loop :: "addr hash_map_it2 \<Rightarrow> icow \<Rightarrow> icow option" where
  "abort_loop it s = do {
     (more, it) \<leftarrow> hash_map_it2_next (blkno_map_orig s) it;
     if \<not> more then Some s
     else do {
       e \<leftarrow> it_elt it;
       s \<leftarrow> abort_block (snd e) s;
       abort_loop it s
     }
   }"

declare abort_loop.simps [code]

definition indirect_cow_abort :: "icow \<Rightarrow> icow option" where
  "indirect_cow_abort s = do {
     check (parent_stack s = []);
     s \<leftarrow> set_super get_bpram_super s;
     it \<leftarrow> hash_map_it2_create (blkno_map_orig s);
     abort_loop it s
   }"

section \<open>Transactions in this mode\<close>

definition reset_indirect_cow_superblock :: "ic_mem \<Rightarrow> icow \<Rightarrow> icow option" where
  "reset_indirect_cow_superblock m s = do {
     p \<leftarrow> indirect_cow_block_get BPFS_BLOCKNO_SUPER s;
     check (p = None);
     (new_blockno, s) \<leftarrow> scsp_cow_block_entire m BPFS_BLOCKNO_SUPER s;
     check (new_blockno \<noteq> BPFS_BLOCKNO_INVALID);
     (p, s) \<leftarrow> scsp_get_block new_blockno s;
     set_super p s
   }"

definition scsp_revert_superblock :: "icow \<Rightarrow> icow option" where
  "scsp_revert_superblock s = indirect_cow_abort s"

definition scsp_persist_superblock :: "icow \<Rightarrow> icow option" where
  "scsp_persist_superblock s = indirect_cow_commit s"

definition scsp_bpfs_abort :: "ic_mem \<Rightarrow> icow \<Rightarrow> icow option" where
  "scsp_bpfs_abort m s = do {
     s \<leftarrow> scsp_revert_superblock s;
     s \<leftarrow> on_fs abort_blocks s;
     s \<leftarrow> on_fs abort_inodes s;
     reset_indirect_cow_superblock m s
   }"

definition scsp_bpfs_commit :: "ic_mem \<Rightarrow> icow \<Rightarrow> icow option" where
  "scsp_bpfs_commit m s = do {
     s \<leftarrow> scsp_persist_superblock s;
     s \<leftarrow> on_fs commit_blocks s;
     s \<leftarrow> on_fs commit_inodes s;
     reset_indirect_cow_superblock m s
   }"

end
