(* ===== verification/Cow_Tables.thy ===== *)
theory Cow_Tables
  imports Indirect_Cow
begin

text \<open>
  The tables of \<^verbatim>\<open>indirect_cow.c\<close>: the words in which two blocks differ, erasing entries behind an iterator, the invariant \<open>icow_ok\<close> of
  the tables, the blocks and what is staged, and \<^verbatim>\<open>indirect_cow_abort\<close>. The locale \<open>table_loop\<close> is the contract of a loop over a table
  whose body erases the entry it stands on; the four loops of the source interpret it.
\<close>

section \<open>Words of a block\<close>

lemma get_u64_byte:
  assumes "i < 8"
  shows "ucast (drop_bit (8 * i) (get_u64 b a)) = b (a + i)"
proof (rule bit_word_eqI)
  fix k assume "k < LENGTH(8)"
  then have "k < 8" by simp
  moreover have "(8 * i + k) div 8 = i" "(8 * i + k) mod 8 = k" using \<open>k < 8\<close> by simp_all
  moreover have "8 * i + k < 64" using assms \<open>k < 8\<close> by simp
  ultimately show "bit (ucast (drop_bit (8 * i) (get_u64 b a)) :: u8) k = bit (b (a + i)) k"
    by (simp add: bit_ucast_iff bit_drop_bit_eq get_u64_def bit_load_le)
qed

text \<open>Two blocks have the same 4096 bytes.\<close>

definition same_block :: "block \<Rightarrow> block \<Rightarrow> bool" where
  "same_block b c \<longleftrightarrow> (\<forall>i < 4096. b i = c i)"

lemma same_block_words: "same_block b c \<longleftrightarrow> (\<forall>off \<in> set word_offs. get_u64 b off = get_u64 c off)"
proof
  assume "same_block b c"
  then have "b (off + i) = c (off + i)" if "off \<in> set word_offs" "i < 8" for off i
    using that by (auto simp: same_block_def word_offs_def)
  then show "\<forall>off \<in> set word_offs. get_u64 b off = get_u64 c off"
    unfolding get_u64_def by (intro ballI load_le_cong) (metis le_add_diff_inverse less_diff_conv2 add.commute)
next
  assume w: "\<forall>off \<in> set word_offs. get_u64 b off = get_u64 c off"
  have "b i = c i" if "i < 4096" for i
  proof -
    have "8 * (i div 8) \<in> set word_offs" using that by (auto simp: word_offs_def)
    moreover have "i = 8 * (i div 8) + i mod 8" "i mod 8 < 8" by simp_all
    ultimately show ?thesis using w get_u64_byte [of "i mod 8" b "8 * (i div 8)"] get_u64_byte [of "i mod 8" c "8 * (i div 8)"] by metis
  qed
  then show "same_block b c" by (simp add: same_block_def)
qed

text \<open>The words that differ.\<close>

definition diff_offs :: "block \<Rightarrow> block \<Rightarrow> nat list" where
  "diff_offs b c = filter (\<lambda>off. get_u64 b off \<noteq> get_u64 c off) word_offs"

lemma atomic_scan_diff:
  "atomic_scan offs b0 b1 True res = (filter (\<lambda>off. get_u64 b0 off \<noteq> get_u64 b1 off) offs = [], res)"
  by (induction offs) auto

lemma atomic_scan_filter:
  "atomic_scan offs b0 b1 False res = (case filter (\<lambda>off. get_u64 b0 off \<noteq> get_u64 b1 off) offs of
     [] \<Rightarrow> (True, res)
   | off # rest \<Rightarrow> (rest = [], Some (get_u64 b1 off), off))"
  by (induction offs) (auto simp: atomic_scan_diff split: list.split)

lemma atomic_scan_eq:
  "atomic_scan word_offs b0 b1 False (None, 4096) = (case diff_offs b0 b1 of
     [] \<Rightarrow> (True, None, 4096)
   | off # rest \<Rightarrow> (rest = [], Some (get_u64 b1 off), off))"
  by (simp add: atomic_scan_filter diff_offs_def)

lemma diff_offs_aligned: "off \<in> set (diff_offs b0 b1) \<Longrightarrow> off < 4096 \<and> off mod 8 = 0"
  by (auto simp: diff_offs_def word_offs_def)

text \<open>The block after the store that the scan found.\<close>

definition atomic_result :: "block \<Rightarrow> u64 option \<times> nat \<Rightarrow> block" where
  "atomic_result b w = (case w of (None, off) \<Rightarrow> b | (Some v, off) \<Rightarrow> put_u64 b off v)"

lemma atomic_scan_store:
  assumes "atomic_scan word_offs b0 b1 False (None, 4096) = (True, w)"
  shows "same_block (atomic_result b0 w) b1" "fst w = None \<longleftrightarrow> snd w = 4096" "snd w < 4096 \<longrightarrow> snd w mod 8 = 0" "snd w \<le> 4096"
proof -
  consider "diff_offs b0 b1 = []" "w = (None, 4096)" | off where "diff_offs b0 b1 = [off]" "w = (Some (get_u64 b1 off), off)"
    using assms by (auto simp: atomic_scan_eq split: list.splits)
  then have "same_block (atomic_result b0 w) b1 \<and> (fst w = None \<longleftrightarrow> snd w = 4096) \<and> (snd w < 4096 \<longrightarrow> snd w mod 8 = 0) \<and> snd w \<le> 4096"
  proof cases
    case 1
    then have "same_block b0 b1" by (auto simp: same_block_words diff_offs_def filter_empty_conv)
    then show ?thesis using 1 by (simp add: atomic_result_def)
  next
    case 2
    have o: "off < 4096" "off mod 8 = 0" using diff_offs_aligned [of off b0 b1] 2(1) by auto
    have eq: "get_u64 b0 x = get_u64 b1 x" if "x \<in> set word_offs" "x \<noteq> off" for x
    proof -
      have "x \<notin> set (diff_offs b0 b1)" using 2(1) that(2) by simp
      then show ?thesis using that(1) by (simp add: diff_offs_def)
    qed
    have "get_u64 (put_u64 b0 off (get_u64 b1 off)) x = get_u64 b1 x" if x: "x \<in> set word_offs" for x
    proof (cases "x = off")
      case False
      have "x mod 8 = 0" using x by (auto simp: word_offs_def)
      then have "off + 8 \<le> x \<or> x + 8 \<le> off" using o(2) False by presburger
      then show ?thesis using eq [OF x False] by (simp add: get_put_u64_other)
    qed (simp add: get_put_u64_same)
    then show ?thesis using 2 o by (simp add: atomic_result_def same_block_words)
  qed
  then show "same_block (atomic_result b0 w) b1" "fst w = None \<longleftrightarrow> snd w = 4096" "snd w < 4096 \<longrightarrow> snd w mod 8 = 0" "snd w \<le> 4096" by auto
qed

section \<open>Erasing entries that an iterator has passed\<close>

lemma chain_unlink_id: "k \<notin> fst ` set c \<Longrightarrow> chain_unlink k c = c"
  by (induction c) auto

lemma chain_unlink_append: "k \<notin> fst ` set d \<Longrightarrow> chain_unlink k (c @ d) = chain_unlink k c @ d"
  by (induction c) (simp_all add: chain_unlink_id)

lemma dropWhile_unlink:
  assumes "k \<notin> fst ` set (dropWhile (\<lambda>e. fst e \<noteq> k') c)"
  shows "dropWhile (\<lambda>e. fst e \<noteq> k') (chain_unlink k c) = dropWhile (\<lambda>e. fst e \<noteq> k') c"
proof -
  let ?P = "\<lambda>e. fst e \<noteq> k'"
  have t: "e \<in> set (chain_unlink k (takeWhile ?P c)) \<Longrightarrow> ?P e" for e
    using set_chain_unlink [of k "takeWhile ?P c"] set_takeWhileD [of e ?P c] by auto
  have "dropWhile ?P (chain_unlink k (takeWhile ?P c) @ dropWhile ?P c) = dropWhile ?P (dropWhile ?P c)"
    by (rule dropWhile_append2) (rule t)
  moreover have "chain_unlink k c = chain_unlink k (takeWhile ?P c) @ dropWhile ?P c"
    using chain_unlink_append [OF assms, of "takeWhile ?P c"] by simp
  ultimately show ?thesis by simp
qed

lemma erase_it:
  assumes "hash_map_ok hm" and "hash hm k = Some i" and "it_ok hm it" and "k \<notin> fst ` set (it_rest hm it)"
  shows "\<exists>hm'. hash_map_erase hm k = Some (hm_map hm k, hm') \<and> hash_map_ok hm' \<and> hm_map hm' = (hm_map hm)(k := None) \<and>
    hm_type hm' = hm_type hm \<and> it_ok hm' it \<and> it_rest hm' it = it_rest hm it"
proof -
  have t: "table_ok hm" using assms(1) by (simp add: hash_map_ok_def)
  obtain hm' where e: "hash_map_erase hm k = Some (hm_map hm k, hm')" "hash_map_ok hm'" "hm_map hm' = (hm_map hm)(k := None)" "hash hm' = hash hm"
      "hm_map hm k = None \<longrightarrow> hm' = hm" using hash_map_erase_ok [OF assms(1), of k] assms(2) by (auto simp: key_ok_def)
  have ty: "hm_type hm' = hm_type hm" using hash_eq_type [OF e(4)] .
  show ?thesis
  proof (cases "hm_map hm k")
    case (Some v)
    let ?c = "buckets hm ! unat i"
    have ib: "unat i < length (buckets hm)" using hash_bound [OF t assms(2)] .
    have h: "hash_map_erase hm k = Some (Some v, (put_chain i (chain_unlink k ?c) hm)\<lparr>hm_size := hm_size hm - 1, hm_version := hm_version hm + 1\<rparr>)"
      using assms(2) bucket_access [OF t assms(2)] Some hm_map_bucket [OF assms(2)]
      by (simp add: hash_map_erase_def erase_chain_elt_def chain_search_key_eq put_chain_def)
    have b: "buckets hm' = (buckets hm)[unat i := chain_unlink k ?c]" "hm_loose_version hm' = hm_loose_version hm"
      using h e(1) by (auto simp: put_chain_def buckets_def)
    have r: "it_ok hm' it \<and> it_rest hm' it = it_rest hm it"
    proof (cases "it_next_elt it")
      case None
      then show ?thesis using assms(3) b by (simp add: it_ok_def it_rest_def)
    next
      case (Some k')
      let ?n = "it_next_bucket it"
      let ?d = "dropWhile (\<lambda>e. fst e \<noteq> k') (buckets hm ! ?n)"
      have n: "?n < length (buckets hm)" "k' \<in> fst ` set (buckets hm ! ?n)" using assms(3) Some by (auto simp: it_ok_def)
      have nk: "k \<notin> fst ` set ?d" "k \<notin> fst ` set (concat (drop (Suc ?n) (buckets hm)))"
        using assms(4) Some by (auto simp: it_rest_def)
      obtain w es where d: "?d = (k', w) # es" using dropWhile_key [OF n(2)] by blast
      have cat: "concat (drop (Suc ?n) (buckets hm')) = concat (drop (Suc ?n) (buckets hm))"
      proof (cases "Suc ?n \<le> unat i")
        case True
        have "k \<notin> fst ` set ?c"
        proof
          assume "k \<in> fst ` set ?c"
          moreover have "?c \<in> set (drop (Suc ?n) (buckets hm))" using True ib
            by (auto simp: in_set_conv_nth intro!: exI [of _ "unat i - Suc ?n"])
          ultimately show False using nk(2) by auto
        qed
        then show ?thesis unfolding b(1) using ib by (simp add: chain_unlink_id list_update_id)
      next
        case False
        then show ?thesis unfolding b(1) by (simp add: drop_update_cancel)
      qed
      have dd: "dropWhile (\<lambda>e. fst e \<noteq> k') (buckets hm' ! ?n) = ?d"
        unfolding b(1) using dropWhile_unlink [OF nk(1)] n(1) by (cases "?n = unat i") simp_all
      have "k' \<in> fst ` set (buckets hm' ! ?n)"
        using dd d set_dropWhileD [of "(k', w)" "\<lambda>e. fst e \<noteq> k'" "buckets hm' ! ?n"] by force
      then show ?thesis using assms(3) b n(1) dd cat Some by (simp add: it_ok_def it_rest_def)
    qed
    then show ?thesis using e ty by blast
  qed (use e ty assms(3) in auto)
qed

section \<open>Staged blocks\<close>

text \<open>A copy has a new block that is staged as allocated, and the block it replaces is staged as freed.\<close>

definition cow_staged :: "fs \<Rightarrow> u64 \<Rightarrow> u64 \<Rightarrow> bool" where
  "cow_staged f orig cow \<longleftrightarrow> resident orig f \<and> resident cow f \<and> 3 \<le> cow \<and>
     cow - 1 \<in> set (bm_allocs (block_alloc f)) \<and> cow - 1 \<notin> set (bm_frees (block_alloc f)) \<and>
     orig - 1 \<in> set (bm_frees (block_alloc f)) \<and> orig - 1 \<notin> set (bm_allocs (block_alloc f))"

lemma cow_staged_simps: "cow_staged f orig cow \<Longrightarrow> orig \<noteq> 0 \<and> cow \<noteq> 0 \<and> orig \<noteq> cow"
  by (auto simp: cow_staged_def resident_def)

lemma unalloc_block_ok:
  assumes "blocks_ok f" and "3 \<le> n" and "n - 1 \<in> set (bm_allocs (block_alloc f))" and "n - 1 \<notin> set (bm_frees (block_alloc f))"
  shows "\<exists>bm. unalloc_block n f = Some (f\<lparr>block_alloc := bm\<rparr>) \<and> blocks_ok (f\<lparr>block_alloc := bm\<rparr>) \<and>
    bm_allocs bm = remove1 (n - 1) (bm_allocs (block_alloc f)) \<and> bm_frees bm = bm_frees (block_alloc f) \<and>
    bitmap_used bm = bitmap_used (block_alloc f) - {unat (n - 1)} \<and> bitmap_persistent bm = bitmap_persistent (block_alloc f)"
proof -
  let ?bm = "block_alloc f" and ?no = "n - 1"
  let ?b = "?bm\<lparr>bm_allocs := remove1 ?no (bm_allocs ?bm)\<rparr>"
  have inv: "bitmap_inv ?bm" using assms(1) by (simp add: blocks_ok_def bitmap_inv_fixed_def)
  have u: "unat ?no \<in> bitmap_used ?bm" using inv assms(3) by (simp add: bitmap_inv_simps)
  have core: "bitmap_core ?bm" "bitmap_core ?b" using inv by (simp_all add: bitmap_inv_def)
  obtain w where w: "bitmap_byte ?bm ?no = Some w" "w AND bit_mask ?no \<noteq> 0" "?no < bm_ntotal ?bm"
    using bitmap_byte_used [OF core(1) u] by blast
  obtain bm where bm: "bitmap_clear ?b ?no = Some bm" "bm_allocs bm = bm_allocs ?b" "bm_frees bm = bm_frees ?b"
    using bitmap_clear_used [OF core(2), of ?no] u by auto
  have e: "bitmap_unalloc ?bm ?no = Some bm" using w bm assms(3) by (simp add: bitmap_unalloc_def)
  note st = bitmap_unalloc_step [OF inv e assms(4)]
  have "n \<noteq> 0" using assms(2) by auto
  then show ?thesis using e st bm assms(1,2)
    by (intro exI [of _ bm]) (simp add: unalloc_block_def blocks_ok_def bitmap_inv_fixed_def)
qed

lemma unfree_block_ok:
  assumes "blocks_ok f" and "n \<noteq> 0" and "n - 1 \<in> set (bm_frees (block_alloc f))"
  shows "\<exists>bm. unfree_block n f = Some (f\<lparr>block_alloc := bm\<rparr>) \<and> blocks_ok (f\<lparr>block_alloc := bm\<rparr>) \<and>
    bm_allocs bm = bm_allocs (block_alloc f) \<and> bm_frees bm = remove1 (n - 1) (bm_frees (block_alloc f)) \<and>
    bitmap_used bm = bitmap_used (block_alloc f) \<and> bitmap_persistent bm = bitmap_persistent (block_alloc f)"
proof -
  let ?bm = "block_alloc f" and ?no = "n - 1"
  let ?b = "?bm\<lparr>bm_frees := remove1 ?no (bm_frees ?bm)\<rparr>"
  have inv: "bitmap_inv ?bm" using assms(1) by (simp add: blocks_ok_def bitmap_inv_fixed_def)
  have u: "unat ?no \<in> bitmap_used ?bm" using inv assms(3) by (simp add: bitmap_inv_simps)
  have core: "bitmap_core ?bm" "bitmap_core ?b" using inv by (simp_all add: bitmap_inv_def)
  obtain w where w: "bitmap_byte ?bm ?no = Some w" "w AND bit_mask ?no \<noteq> 0" "?no < bm_ntotal ?bm"
    using bitmap_byte_used [OF core(1) u] by blast
  have "bitmap_ensure_set ?b ?no = Some (True, ?b)" using bitmap_ensure_set_used [OF core(2)] u by simp
  then have e: "bitmap_unfree ?bm ?no = Some ?b" using w assms(3) by (simp add: bitmap_unfree_def)
  note st = bitmap_unfree_step [OF inv e]
  show ?thesis using e st assms(1,2)
    by (intro exI [of _ ?b]) (simp add: unfree_block_def blocks_ok_def bitmap_inv_fixed_def)
qed

text \<open>Both together drop one copy.\<close>

definition dropped :: "u64 \<Rightarrow> u64 \<Rightarrow> fs \<Rightarrow> fs \<Rightarrow> bool" where
  "dropped orig cow f f' \<longleftrightarrow> (\<exists>bm. f' = f\<lparr>block_alloc := bm\<rparr> \<and> blocks_ok f' \<and>
     bm_allocs bm = remove1 (cow - 1) (bm_allocs (block_alloc f)) \<and> bm_frees bm = remove1 (orig - 1) (bm_frees (block_alloc f)) \<and>
     bitmap_used bm = bitmap_used (block_alloc f) - {unat (cow - 1)} \<and> bitmap_persistent bm = bitmap_persistent (block_alloc f))"

lemma drop_copy_ok:
  assumes "blocks_ok f" and "cow_staged f orig cow"
  shows "\<exists>f1 f2. unalloc_block cow f = Some f1 \<and> unfree_block orig f1 = Some f2 \<and> dropped orig cow f f2"
proof -
  obtain bm where bm: "unalloc_block cow f = Some (f\<lparr>block_alloc := bm\<rparr>)" "blocks_ok (f\<lparr>block_alloc := bm\<rparr>)"
      "bm_allocs bm = remove1 (cow - 1) (bm_allocs (block_alloc f))" "bm_frees bm = bm_frees (block_alloc f)"
      "bitmap_used bm = bitmap_used (block_alloc f) - {unat (cow - 1)}" "bitmap_persistent bm = bitmap_persistent (block_alloc f)"
    using unalloc_block_ok [OF assms(1), of cow] assms(2) by (auto simp: cow_staged_def)
  obtain bm' where bm': "unfree_block orig (f\<lparr>block_alloc := bm\<rparr>) = Some (f\<lparr>block_alloc := bm'\<rparr>)" "blocks_ok (f\<lparr>block_alloc := bm'\<rparr>)"
      "bm_allocs bm' = bm_allocs bm" "bm_frees bm' = remove1 (orig - 1) (bm_frees bm)"
      "bitmap_used bm' = bitmap_used bm" "bitmap_persistent bm' = bitmap_persistent bm"
    using unfree_block_ok [OF bm(2), of orig] assms(2) bm(4) cow_staged_simps [OF assms(2)] by (auto simp: cow_staged_def)
  have "dropped orig cow f (f\<lparr>block_alloc := bm'\<rparr>)" unfolding dropped_def using bm bm' by (intro exI [of _ bm']) simp
  then show ?thesis using bm(1) bm'(1) by blast
qed

lemma drop_copy_swapped:
  assumes "blocks_ok f" and "cow_staged f orig cow"
  shows "\<exists>f1 f2. unfree_block orig f = Some f1 \<and> unalloc_block cow f1 = Some f2 \<and> dropped orig cow f f2"
proof -
  obtain bm where bm: "unfree_block orig f = Some (f\<lparr>block_alloc := bm\<rparr>)" "blocks_ok (f\<lparr>block_alloc := bm\<rparr>)"
      "bm_allocs bm = bm_allocs (block_alloc f)" "bm_frees bm = remove1 (orig - 1) (bm_frees (block_alloc f))"
      "bitmap_used bm = bitmap_used (block_alloc f)" "bitmap_persistent bm = bitmap_persistent (block_alloc f)"
    using unfree_block_ok [OF assms(1), of orig] assms(2) cow_staged_simps [OF assms(2)] by (auto simp: cow_staged_def)
  have "cow - 1 \<notin> set (bm_frees bm)" using bm(4) assms(2) by (metis cow_staged_def notin_set_remove1)
  then obtain bm' where bm': "unalloc_block cow (f\<lparr>block_alloc := bm\<rparr>) = Some (f\<lparr>block_alloc := bm'\<rparr>)" "blocks_ok (f\<lparr>block_alloc := bm'\<rparr>)"
      "bm_allocs bm' = remove1 (cow - 1) (bm_allocs bm)" "bm_frees bm' = bm_frees bm"
      "bitmap_used bm' = bitmap_used bm - {unat (cow - 1)}" "bitmap_persistent bm' = bitmap_persistent bm"
    using unalloc_block_ok [OF bm(2), of cow] assms(2) bm(3) by (auto simp: cow_staged_def)
  have "dropped orig cow f (f\<lparr>block_alloc := bm'\<rparr>)" unfolding dropped_def using bm bm' by (intro exI [of _ bm']) simp
  then show ?thesis using bm(1) bm'(1) by blast
qed

lemma dropped_staged:
  assumes "dropped orig cow f f'" and "cow_staged f m n" and "m \<noteq> orig" and "n \<noteq> cow"
  shows "cow_staged f' m n"
proof -
  obtain bm where f': "f' = f\<lparr>block_alloc := bm\<rparr>" "bm_allocs bm = remove1 (cow - 1) (bm_allocs (block_alloc f))"
      "bm_frees bm = remove1 (orig - 1) (bm_frees (block_alloc f))" using assms(1) by (auto simp: dropped_def)
  have a: "n - 1 \<in> set (bm_allocs bm)" "m - 1 \<in> set (bm_frees bm)"
    using assms(2,3,4) unfolding f'(2,3) by (simp_all add: cow_staged_def in_set_remove1)
  have b: "n - 1 \<notin> set (bm_frees bm)" "m - 1 \<notin> set (bm_allocs bm)"
    using assms(2) unfolding f'(2,3) cow_staged_def by (meson notin_set_remove1)+
  show ?thesis using assms(2) a b by (simp add: f'(1) cow_staged_def)
qed

lemma dropped_mem: "dropped orig cow f f' \<Longrightarrow> mem n f' = mem n f \<and> bpram f' = bpram f \<and> resident n f' = resident n f \<and> blocks_ok f'"
  by (auto simp: dropped_def)

section \<open>The invariant of the tables\<close>

definition copy_ok :: "fs \<Rightarrow> ic_block \<Rightarrow> bool" where
  "copy_ok f b \<longleftrightarrow> (if cow_blkno b = 0 then dram b = None \<and> \<not> required b
     else dram b \<noteq> None \<and> cow_staged f (orig_blkno b) (cow_blkno b))"

definition icow_ok :: "icow \<Rightarrow> bool" where
  "icow_ok s \<longleftrightarrow> ptr_map_ok (blkno_map_orig s) \<and> ptr_map_ok (blkno_map_cow s) \<and> blocks_ok (ic_fs s) \<and>
     (\<forall>k a. hm_map (blkno_map_orig s) k = Some a \<longleftrightarrow> (\<exists>b. ic_heap s a = Some b \<and> k = KPtr (orig_blkno b))) \<and>
     (\<forall>k a. hm_map (blkno_map_cow s) k = Some a \<longleftrightarrow> (\<exists>b. ic_heap s a = Some b \<and> cow_blkno b \<noteq> 0 \<and> k = KPtr (cow_blkno b))) \<and>
     (\<forall>a b. ic_heap s a = Some b \<longrightarrow> copy_ok (ic_fs s) b \<and> hm_map (blkno_map_cow s) (KPtr (orig_blkno b)) = None)"

lemma icow_okD:
  assumes "icow_ok s"
  shows "ptr_map_ok (blkno_map_orig s)" "ptr_map_ok (blkno_map_cow s)" "blocks_ok (ic_fs s)"
    "ic_heap s a = Some b \<Longrightarrow> hm_map (blkno_map_orig s) (KPtr (orig_blkno b)) = Some a"
    "ic_heap s a = Some b \<Longrightarrow> cow_blkno b \<noteq> 0 \<Longrightarrow> hm_map (blkno_map_cow s) (KPtr (cow_blkno b)) = Some a"
    "ic_heap s a = Some b \<Longrightarrow> copy_ok (ic_fs s) b"
    "ic_heap s a = Some b \<Longrightarrow> hm_map (blkno_map_cow s) (KPtr (orig_blkno b)) = None"
  using assms unfolding icow_ok_def by blast+

lemma icow_ok_origE:
  assumes "icow_ok s" and "hm_map (blkno_map_orig s) k = Some a"
  obtains b where "ic_heap s a = Some b" "k = KPtr (orig_blkno b)"
  using assms unfolding icow_ok_def by blast

lemma icow_ok_cowE:
  assumes "icow_ok s" and "hm_map (blkno_map_cow s) k = Some a"
  obtains b where "ic_heap s a = Some b" "cow_blkno b \<noteq> 0" "k = KPtr (cow_blkno b)"
  using assms unfolding icow_ok_def by blast

lemma icow_inj:
  assumes "icow_ok s" and "ic_heap s a = Some b" and "ic_heap s a' = Some b'" and "a \<noteq> a'"
  shows "orig_blkno b \<noteq> orig_blkno b'" "cow_blkno b \<noteq> 0 \<Longrightarrow> cow_blkno b \<noteq> cow_blkno b'"
    "cow_blkno b' \<noteq> 0 \<Longrightarrow> orig_blkno b \<noteq> cow_blkno b'"
proof -
  show "orig_blkno b \<noteq> orig_blkno b'" using icow_okD(4) [OF assms(1,2)] icow_okD(4) [OF assms(1,3)] assms(4) by auto
  show "cow_blkno b \<noteq> cow_blkno b'" if "cow_blkno b \<noteq> 0"
    using icow_okD(5) [OF assms(1,2) that] icow_okD(5) [OF assms(1,3)] assms(4) that by auto
  show "orig_blkno b \<noteq> cow_blkno b'" if "cow_blkno b' \<noteq> 0"
    using icow_okD(7) [OF assms(1,2)] icow_okD(5) [OF assms(1,3) that] by auto
qed

text \<open>Removing one block from the heap and the tables.\<close>

lemma icow_ok_remove:
  assumes ok: "icow_ok s" and a: "ic_heap s a = Some b" and h: "ic_heap s' = (ic_heap s)(a := None)"
    and o: "ptr_map_ok (blkno_map_orig s')" "hm_map (blkno_map_orig s') = (hm_map (blkno_map_orig s))(KPtr (orig_blkno b) := None)"
    and c: "ptr_map_ok (blkno_map_cow s')" "hm_map (blkno_map_cow s') = (if cow_blkno b = 0 then hm_map (blkno_map_cow s)
      else (hm_map (blkno_map_cow s))(KPtr (cow_blkno b) := None))"
    and f: "blocks_ok (ic_fs s')"
    and cp: "\<And>a' b'. a' \<noteq> a \<Longrightarrow> ic_heap s a' = Some b' \<Longrightarrow> cow_blkno b' \<noteq> 0 \<Longrightarrow> cow_staged (ic_fs s') (orig_blkno b') (cow_blkno b')"
  shows "icow_ok s'"
proof -
  have 1: "hm_map (blkno_map_orig s') k = Some a' \<longleftrightarrow> (\<exists>b. ic_heap s' a' = Some b \<and> k = KPtr (orig_blkno b))" for k a'
  proof
    assume "hm_map (blkno_map_orig s') k = Some a'"
    then have k: "k \<noteq> KPtr (orig_blkno b)" "hm_map (blkno_map_orig s) k = Some a'" by (auto simp: o(2) split: if_splits)
    obtain b' where "ic_heap s a' = Some b'" "k = KPtr (orig_blkno b')" using icow_ok_origE [OF ok k(2)] .
    moreover from this have "a' \<noteq> a" using k(1) a by auto
    ultimately show "\<exists>b. ic_heap s' a' = Some b \<and> k = KPtr (orig_blkno b)" by (simp add: h)
  next
    assume "\<exists>b. ic_heap s' a' = Some b \<and> k = KPtr (orig_blkno b)"
    then obtain b' where b': "a' \<noteq> a" "ic_heap s a' = Some b'" "k = KPtr (orig_blkno b')" by (auto simp: h split: if_splits)
    then show "hm_map (blkno_map_orig s') k = Some a'"
      using icow_okD(4) [OF ok b'(2)] icow_inj(1) [OF ok b'(2) a b'(1)] by (simp add: o(2))
  qed
  have 2: "hm_map (blkno_map_cow s') k = Some a' \<longleftrightarrow> (\<exists>b. ic_heap s' a' = Some b \<and> cow_blkno b \<noteq> 0 \<and> k = KPtr (cow_blkno b))" for k a'
  proof
    assume "hm_map (blkno_map_cow s') k = Some a'"
    then have k: "cow_blkno b \<noteq> 0 \<longrightarrow> k \<noteq> KPtr (cow_blkno b)" "hm_map (blkno_map_cow s) k = Some a'" by (auto simp: c(2) split: if_splits)
    obtain b' where "ic_heap s a' = Some b'" "cow_blkno b' \<noteq> 0" "k = KPtr (cow_blkno b')" using icow_ok_cowE [OF ok k(2)] .
    moreover from this have "a' \<noteq> a" using k(1) a by auto
    ultimately show "\<exists>b. ic_heap s' a' = Some b \<and> cow_blkno b \<noteq> 0 \<and> k = KPtr (cow_blkno b)" by (simp add: h)
  next
    assume "\<exists>b. ic_heap s' a' = Some b \<and> cow_blkno b \<noteq> 0 \<and> k = KPtr (cow_blkno b)"
    then obtain b' where b': "a' \<noteq> a" "ic_heap s a' = Some b'" "cow_blkno b' \<noteq> 0" "k = KPtr (cow_blkno b')" by (auto simp: h split: if_splits)
    then show "hm_map (blkno_map_cow s') k = Some a'"
      using icow_okD(5) [OF ok b'(2,3)] icow_inj(2) [OF ok b'(2) a b'(1,3)] by (simp add: c(2))
  qed
  have 3: "copy_ok (ic_fs s') b' \<and> hm_map (blkno_map_cow s') (KPtr (orig_blkno b')) = None" if "ic_heap s' a' = Some b'" for a' b'
  proof -
    have a': "a' \<noteq> a" "ic_heap s a' = Some b'" using that by (auto simp: h split: if_splits)
    then show ?thesis using icow_okD(6,7) [OF ok a'(2)] cp [OF a'] by (simp add: copy_ok_def c(2))
  qed
  show ?thesis unfolding icow_ok_def using o(1) c(1) f 1 2 3 by blast
qed

section \<open>Loops over a table\<close>

text \<open>A loop that calls \<^verbatim>\<open>hash_map_it2_next\<close> until it returns false and whose body may erase the entry it stands on.\<close>

locale table_loop =
  fixes tbl :: "icow \<Rightarrow> addr hash_map" and body :: "addr \<Rightarrow> icow \<Rightarrow> icow option"
    and loop :: "addr hash_map_it2 \<Rightarrow> icow \<Rightarrow> icow option"
  assumes loop_eq: "loop it s = do {
     (more, it) \<leftarrow> hash_map_it2_next (tbl s) it;
     if \<not> more then Some s
     else do { e \<leftarrow> it_elt it; s \<leftarrow> body (snd e) s; loop it s }
   }"
begin

definition loop_step :: "((hkey \<times> addr) list \<Rightarrow> icow \<Rightarrow> bool) \<Rightarrow> bool" where
  "loop_step I \<longleftrightarrow> (\<forall>e es s it. I (e # es) s \<longrightarrow> it_ok (tbl s) it \<longrightarrow> it_rest (tbl s) it = es \<longrightarrow>
     (\<exists>s'. body (snd e) s = Some s' \<and> I es s' \<and> it_ok (tbl s') it \<and> it_rest (tbl s') it = es))"

lemma loop_rule:
  assumes "I es s" and "it_ok (tbl s) it" and "it_rest (tbl s) it = es"
    and tbl: "\<And>es s. I es s \<Longrightarrow> ptr_map_ok (tbl s)" and step: "loop_step I"
  shows "\<exists>s'. loop it s = Some s' \<and> I [] s'"
  using assms(1-3)
proof (induction es arbitrary: s it)
  case Nil
  have "table_ok (tbl s)" using tbl [OF Nil.prems(1)] by (simp add: ptr_map_ok_def hash_map_ok_def)
  then show ?case using it2_next_ok [OF _ Nil.prems(2)] Nil.prems by (subst loop_eq) simp
next
  case (Cons e es)
  have "table_ok (tbl s)" using tbl [OF Cons.prems(1)] by (simp add: ptr_map_ok_def hash_map_ok_def)
  then obtain it' where it': "hash_map_it2_next (tbl s) it = Some (True, it')" "it_elt it' = Some e" "it_ok (tbl s) it'"
      "it_rest (tbl s) it' = es" using it2_next_ok [OF _ Cons.prems(2)] Cons.prems(3) by auto
  then obtain s' where s': "body (snd e) s = Some s'" "I es s'" "it_ok (tbl s') it'" "it_rest (tbl s') it' = es"
    using step Cons.prems(1) unfolding loop_step_def by blast
  then show ?case using Cons.IH [OF s'(2-4)] it' by (subst loop_eq) simp
qed

lemma loop_all:
  assumes "\<And>es. distinct (map fst es) \<Longrightarrow> map_of es = hm_map (tbl s) \<Longrightarrow> I es s" and "ptr_map_ok (tbl s)"
    and tbl: "\<And>es s. I es s \<Longrightarrow> ptr_map_ok (tbl s)" and step: "loop_step I"
  shows "\<exists>it s'. hash_map_it2_create (tbl s) = Some it \<and> loop it s = Some s' \<and> I [] s'"
proof -
  have t: "table_ok (tbl s)" using assms(2) by (simp add: ptr_map_ok_def hash_map_ok_def)
  obtain it where it: "hash_map_it2_create (tbl s) = Some it" "it_ok (tbl s) it" "it_rest (tbl s) it = concat (buckets (tbl s))"
    using it2_create_ok [OF t] by blast
  have "I (concat (buckets (tbl s))) s" using assms(1) entries_map [OF t] by blast
  from loop_rule [OF this it(2,3) _ step] obtain s' where "loop it s = Some s'" "I [] s'" using tbl by blast
  then show ?thesis using it(1) by blast
qed

end

interpretation ab: table_loop blkno_map_orig abort_block abort_loop
  by unfold_locales (subst abort_loop.simps, rule refl)

interpretation cc: table_loop blkno_map_cow copy_block copy_cows
  by unfold_locales (subst copy_cows.simps, rule refl)

interpretation fu: table_loop blkno_map_orig free_uncowed_block free_uncowed
  by unfold_locales (subst free_uncowed.simps, rule refl)

interpretation fa: table_loop blkno_map_orig free_all_block free_all
  by unfold_locales (subst free_all.simps, rule refl)

section \<open>Erasing from the tables\<close>

lemma erase_ptr:
  assumes "ptr_map_ok hm"
  shows "\<exists>v hm'. hash_map_erase hm (KPtr n) = Some (v, hm') \<and> ptr_map_ok hm' \<and> hm_map hm' = (hm_map hm)(KPtr n := None)"
proof -
  obtain hm' where "hash_map_erase hm (KPtr n) = Some (hm_map hm (KPtr n), hm')" "hash_map_ok hm'"
      "hm_map hm' = (hm_map hm)(KPtr n := None)" "hash hm' = hash hm"
    using hash_map_erase_ok [of hm "KPtr n"] assms by (auto simp: ptr_map_ok_def)
  then show ?thesis using hash_eq_type [of hm' hm] assms by (simp add: ptr_map_ok_def)
qed

lemma erase_ptr_it:
  assumes "ptr_map_ok hm" and "it_ok hm it" and "KPtr n \<notin> fst ` set (it_rest hm it)"
  shows "\<exists>v hm'. hash_map_erase hm (KPtr n) = Some (v, hm') \<and> ptr_map_ok hm' \<and> hm_map hm' = (hm_map hm)(KPtr n := None) \<and>
    it_ok hm' it \<and> it_rest hm' it = it_rest hm it"
proof -
  obtain i where "hash hm (KPtr n) = Some i" using assms(1) by (simp add: ptr_map_ok_def hash_def)
  then obtain hm' where "hash_map_erase hm (KPtr n) = Some (hm_map hm (KPtr n), hm')" "hash_map_ok hm'" "hm_map hm' = (hm_map hm)(KPtr n := None)"
      "hm_type hm' = hm_type hm" "it_ok hm' it" "it_rest hm' it = it_rest hm it"
    using erase_it [of hm "KPtr n" i it] assms by (auto simp: ptr_map_ok_def)
  then show ?thesis using assms(1) by (simp add: ptr_map_ok_def)
qed

lemma erase_orig_ok:
  assumes "ptr_map_ok (blkno_map_orig s)"
  shows "\<exists>m. erase_orig n s = Some (s\<lparr>blkno_map_orig := m\<rparr>) \<and> ptr_map_ok m \<and> hm_map m = (hm_map (blkno_map_orig s))(KPtr n := None)"
  using erase_ptr [OF assms, of n] by (auto simp: erase_orig_def)

lemma erase_orig_it:
  assumes "ptr_map_ok (blkno_map_orig s)" and "it_ok (blkno_map_orig s) it" and "KPtr n \<notin> fst ` set (it_rest (blkno_map_orig s) it)"
  shows "\<exists>m. erase_orig n s = Some (s\<lparr>blkno_map_orig := m\<rparr>) \<and> ptr_map_ok m \<and> hm_map m = (hm_map (blkno_map_orig s))(KPtr n := None) \<and>
    it_ok m it \<and> it_rest m it = it_rest (blkno_map_orig s) it"
  using erase_ptr_it [OF assms] by (auto simp: erase_orig_def)

lemma erase_cow_ok:
  assumes "ptr_map_ok (blkno_map_cow s)"
  shows "\<exists>m. erase_cow n s = Some (s\<lparr>blkno_map_cow := m\<rparr>) \<and> ptr_map_ok m \<and> hm_map m = (hm_map (blkno_map_cow s))(KPtr n := None)"
  using erase_ptr [OF assms, of n] by (auto simp: erase_cow_def)

lemma erase_cow_it:
  assumes "ptr_map_ok (blkno_map_cow s)" and "it_ok (blkno_map_cow s) it" and "KPtr n \<notin> fst ` set (it_rest (blkno_map_cow s) it)"
  shows "\<exists>m. erase_cow n s = Some (s\<lparr>blkno_map_cow := m\<rparr>) \<and> ptr_map_ok m \<and> hm_map m = (hm_map (blkno_map_cow s))(KPtr n := None) \<and>
    it_ok m it \<and> it_rest m it = it_rest (blkno_map_cow s) it"
  using erase_ptr_it [OF assms] by (auto simp: erase_cow_def)

section \<open>What has been dropped\<close>

definition cow_nos :: "icow \<Rightarrow> addr set \<Rightarrow> u64 set" where
  "cow_nos s D = {cow_blkno b - 1 | a b. a \<in> D \<and> ic_heap s a = Some b \<and> cow_blkno b \<noteq> 0}"

definition orig_nos :: "icow \<Rightarrow> addr set \<Rightarrow> u64 set" where
  "orig_nos s D = {orig_blkno b - 1 | a b. a \<in> D \<and> ic_heap s a = Some b \<and> cow_blkno b \<noteq> 0}"

text \<open>The blocks of \<open>D\<close> are gone, their copies are no longer staged, and nothing else has changed.\<close>

definition rolled :: "icow \<Rightarrow> addr set \<Rightarrow> icow \<Rightarrow> bool" where
  "rolled s D s' \<longleftrightarrow> icow_ok s' \<and> ic_heap s' = (\<lambda>a. if a \<in> D then None else ic_heap s a) \<and>
     ic_fs s' = (ic_fs s)\<lparr>block_alloc := block_alloc (ic_fs s')\<rparr> \<and>
     set (bm_allocs (block_alloc (ic_fs s'))) = set (bm_allocs (block_alloc (ic_fs s))) - cow_nos s D \<and>
     set (bm_frees (block_alloc (ic_fs s'))) = set (bm_frees (block_alloc (ic_fs s))) - orig_nos s D \<and>
     bitmap_persistent (block_alloc (ic_fs s')) = bitmap_persistent (block_alloc (ic_fs s)) \<and>
     bpfs_super s' = bpfs_super s \<and> parent_stack s' = parent_stack s"

lemma rolled_start: "icow_ok s \<Longrightarrow> rolled s {} s"
  by (simp add: rolled_def cow_nos_def orig_nos_def)

lemma nos_insert:
  assumes "ic_heap s a = Some b"
  shows "cow_nos s (insert a D) = (if cow_blkno b = 0 then cow_nos s D else insert (cow_blkno b - 1) (cow_nos s D))"
    "orig_nos s (insert a D) = (if cow_blkno b = 0 then orig_nos s D else insert (orig_blkno b - 1) (orig_nos s D))"
  using assms by (auto simp: cow_nos_def orig_nos_def)

text \<open>One more block is dropped.\<close>

lemma rolled_step:
  assumes r: "rolled s D s1" and a: "ic_heap s1 a = Some b" and h: "ic_heap s2 = (ic_heap s1)(a := None)"
    and f: "if cow_blkno b = 0 then ic_fs s2 = ic_fs s1 else dropped (orig_blkno b) (cow_blkno b) (ic_fs s1) (ic_fs s2)"
    and o: "ptr_map_ok (blkno_map_orig s2)" "hm_map (blkno_map_orig s2) = (hm_map (blkno_map_orig s1))(KPtr (orig_blkno b) := None)"
    and c: "ptr_map_ok (blkno_map_cow s2)" "hm_map (blkno_map_cow s2) = (if cow_blkno b = 0 then hm_map (blkno_map_cow s1)
      else (hm_map (blkno_map_cow s1))(KPtr (cow_blkno b) := None))"
    and k: "bpfs_super s2 = bpfs_super s1" "parent_stack s2 = parent_stack s1"
  shows "rolled s (insert a D) s2"
proof -
  have ok: "icow_ok s1" using r by (simp add: rolled_def)
  have sa: "ic_heap s a = Some b" "a \<notin> D" using r a by (auto simp: rolled_def split: if_splits)
  note ni = nos_insert [OF sa(1), of D]
  have st: "cow_staged (ic_fs s2) (orig_blkno b') (cow_blkno b')" if "a' \<noteq> a" "ic_heap s1 a' = Some b'" "cow_blkno b' \<noteq> 0" for a' b'
  proof -
    have "cow_staged (ic_fs s1) (orig_blkno b') (cow_blkno b')" using icow_okD(6) [OF ok that(2)] that(3) by (simp add: copy_ok_def)
    then show ?thesis using f dropped_staged icow_inj [OF ok that(2) a that(1)] that(3) by (cases "cow_blkno b = 0") auto
  qed
  have bo: "blocks_ok (ic_fs s2)" using f icow_okD(3) [OF ok] dropped_mem by (cases "cow_blkno b = 0") auto
  have "icow_ok s2" by (rule icow_ok_remove [OF ok a h o c bo st])
  moreover have "ic_heap s2 = (\<lambda>x. if x \<in> insert a D then None else ic_heap s x)" using r h by (auto simp: rolled_def)
  moreover have "ic_fs s2 = (ic_fs s)\<lparr>block_alloc := block_alloc (ic_fs s2)\<rparr> \<and>
     set (bm_allocs (block_alloc (ic_fs s2))) = set (bm_allocs (block_alloc (ic_fs s))) - cow_nos s (insert a D) \<and>
     set (bm_frees (block_alloc (ic_fs s2))) = set (bm_frees (block_alloc (ic_fs s))) - orig_nos s (insert a D) \<and>
     bitmap_persistent (block_alloc (ic_fs s2)) = bitmap_persistent (block_alloc (ic_fs s))"
  proof (cases "cow_blkno b = 0")
    case True
    then show ?thesis using f r ni by (simp add: rolled_def)
  next
    case False
    then obtain bm where bm: "ic_fs s2 = (ic_fs s1)\<lparr>block_alloc := bm\<rparr>"
        "bm_allocs bm = remove1 (cow_blkno b - 1) (bm_allocs (block_alloc (ic_fs s1)))"
        "bm_frees bm = remove1 (orig_blkno b - 1) (bm_frees (block_alloc (ic_fs s1)))"
        "bitmap_persistent bm = bitmap_persistent (block_alloc (ic_fs s1))"
      using f by (auto simp: dropped_def)
    have d: "distinct (bm_allocs (block_alloc (ic_fs s1)))" "distinct (bm_frees (block_alloc (ic_fs s1)))"
      using icow_okD(3) [OF ok] by (simp_all add: blocks_ok_def bitmap_inv_fixed_def bitmap_inv_def)
    have "ic_fs s1 = (ic_fs s)\<lparr>block_alloc := block_alloc (ic_fs s1)\<rparr>" using r by (simp add: rolled_def)
    then have "ic_fs s2 = (ic_fs s)\<lparr>block_alloc := bm\<rparr>" using bm(1) by (metis fs.surjective fs.update_convs(2))
    moreover have "set (bm_allocs bm) = set (bm_allocs (block_alloc (ic_fs s1))) - {cow_blkno b - 1}"
      "set (bm_frees bm) = set (bm_frees (block_alloc (ic_fs s1))) - {orig_blkno b - 1}" using bm d by simp_all
    ultimately show ?thesis using r False bm(4) unfolding ni by (auto simp: rolled_def)
  qed
  ultimately show ?thesis using r k by (simp add: rolled_def)
qed

section \<open>Abort\<close>

lemma abort_block_ok:
  assumes r: "rolled s D s1" and a: "ic_heap s1 a = Some b"
    and it: "it_ok (blkno_map_orig s1) it" "KPtr (orig_blkno b) \<notin> fst ` set (it_rest (blkno_map_orig s1) it)"
  shows "\<exists>s2. abort_block a s1 = Some s2 \<and> rolled s (insert a D) s2 \<and>
    hm_map (blkno_map_orig s2) = (hm_map (blkno_map_orig s1))(KPtr (orig_blkno b) := None) \<and>
    it_ok (blkno_map_orig s2) it \<and> it_rest (blkno_map_orig s2) it = it_rest (blkno_map_orig s1) it"
proof -
  have ok: "icow_ok s1" using r by (simp add: rolled_def)
  define s' where "s' = (if cow_blkno b = 0 then Some s1 else do {
     s \<leftarrow> on_fs (unalloc_block (cow_blkno b)) s1; s \<leftarrow> on_fs (unfree_block (orig_blkno b)) s; erase_cow (cow_blkno b) s })"
  have "\<exists>f cm. s' = Some (s1\<lparr>ic_fs := f, blkno_map_cow := cm\<rparr>) \<and> ptr_map_ok cm \<and>
    (if cow_blkno b = 0 then f = ic_fs s1 else dropped (orig_blkno b) (cow_blkno b) (ic_fs s1) f) \<and>
    hm_map cm = (if cow_blkno b = 0 then hm_map (blkno_map_cow s1) else (hm_map (blkno_map_cow s1))(KPtr (cow_blkno b) := None))"
  proof (cases "cow_blkno b = 0")
    case True
    then show ?thesis using icow_okD(2) [OF ok] by (intro exI [of _ "ic_fs s1"] exI [of _ "blkno_map_cow s1"]) (simp add: s'_def)
  next
    case False
    then have st: "cow_staged (ic_fs s1) (orig_blkno b) (cow_blkno b)" using icow_okD(6) [OF ok a] by (simp add: copy_ok_def)
    obtain f1 f2 where f: "unalloc_block (cow_blkno b) (ic_fs s1) = Some f1" "unfree_block (orig_blkno b) f1 = Some f2"
        "dropped (orig_blkno b) (cow_blkno b) (ic_fs s1) f2" using drop_copy_ok [OF icow_okD(3) [OF ok] st] by blast
    obtain cm where cm: "erase_cow (cow_blkno b) (s1\<lparr>ic_fs := f2\<rparr>) = Some (s1\<lparr>ic_fs := f2, blkno_map_cow := cm\<rparr>)" "ptr_map_ok cm"
        "hm_map cm = (hm_map (blkno_map_cow s1))(KPtr (cow_blkno b) := None)"
      using erase_cow_ok [of "s1\<lparr>ic_fs := f2\<rparr>" "cow_blkno b"] icow_okD(2) [OF ok] by auto
    have "s' = Some (s1\<lparr>ic_fs := f2, blkno_map_cow := cm\<rparr>)" using False f(1,2) cm(1) by (simp add: s'_def on_fs_def)
    then show ?thesis using False f(3) cm by (intro exI [of _ f2] exI [of _ cm]) simp
  qed
  then obtain f cm where s': "s' = Some (s1\<lparr>ic_fs := f, blkno_map_cow := cm\<rparr>)" "ptr_map_ok cm"
      "if cow_blkno b = 0 then f = ic_fs s1 else dropped (orig_blkno b) (cow_blkno b) (ic_fs s1) f"
      "hm_map cm = (if cow_blkno b = 0 then hm_map (blkno_map_cow s1) else (hm_map (blkno_map_cow s1))(KPtr (cow_blkno b) := None))" by blast
  let ?t = "s1\<lparr>ic_fs := f, blkno_map_cow := cm\<rparr>"
  obtain om where om: "erase_orig (orig_blkno b) ?t = Some (?t\<lparr>blkno_map_orig := om\<rparr>)" "ptr_map_ok om"
      "hm_map om = (hm_map (blkno_map_orig s1))(KPtr (orig_blkno b) := None)" "it_ok om it" "it_rest om it = it_rest (blkno_map_orig s1) it"
    using erase_orig_it [of ?t it "orig_blkno b"] icow_okD(1) [OF ok] it by auto
  let ?s = "?t\<lparr>blkno_map_orig := om, ic_heap := (ic_heap s1)(a := None)\<rparr>"
  have "abort_block a s1 = do { s \<leftarrow> s'; s \<leftarrow> erase_orig (orig_blkno b) s; delete_block a s }"
    using a by (simp add: abort_block_def s'_def)
  then have "abort_block a s1 = Some ?s" using s'(1) om(1) a by (simp add: delete_block_def)
  moreover have "rolled s (insert a D) ?s" by (rule rolled_step [OF r a]) (use s' om in simp_all)
  ultimately show ?thesis using om by auto
qed

text \<open>The loop: all blocks are dropped.\<close>

definition abort_inv :: "icow \<Rightarrow> (hkey \<times> addr) list \<Rightarrow> icow \<Rightarrow> bool" where
  "abort_inv s es s' \<longleftrightarrow> distinct (map fst es) \<and> hm_map (blkno_map_orig s') = map_of es \<and> (\<exists>D. rolled s D s')"

lemma map_of_tail: "distinct (map fst (e # es)) \<Longrightarrow> (map_of (e # es))(fst e := None) = map_of es"
  by (cases e) (auto simp: fun_eq_iff map_of_eq_None_iff [symmetric])

lemma abort_loop_step: "ab.loop_step (abort_inv s)"
  unfolding ab.loop_step_def
proof (intro allI impI)
  fix e es s1 it
  assume I: "abort_inv s (e # es) s1" and it: "it_ok (blkno_map_orig s1) it" "it_rest (blkno_map_orig s1) it = es"
  then obtain D where r: "rolled s D s1" and m: "hm_map (blkno_map_orig s1) = map_of (e # es)" and d: "distinct (map fst (e # es))"
    by (auto simp: abort_inv_def)
  have ok: "icow_ok s1" using r by (simp add: rolled_def)
  have "hm_map (blkno_map_orig s1) (fst e) = Some (snd e)" by (simp add: m)
  then obtain b where b: "ic_heap s1 (snd e) = Some b" "fst e = KPtr (orig_blkno b)" using icow_ok_origE [OF ok] by metis
  have "KPtr (orig_blkno b) \<notin> fst ` set (it_rest (blkno_map_orig s1) it)" using d b(2) it(2) by simp
  then obtain s2 where s2: "abort_block (snd e) s1 = Some s2" "rolled s (insert (snd e) D) s2"
      "hm_map (blkno_map_orig s2) = (hm_map (blkno_map_orig s1))(KPtr (orig_blkno b) := None)"
      "it_ok (blkno_map_orig s2) it" "it_rest (blkno_map_orig s2) it = it_rest (blkno_map_orig s1) it"
    using abort_block_ok [OF r b(1) it(1)] by blast
  have "hm_map (blkno_map_orig s2) = map_of es" using s2(3) map_of_tail [OF d] m b(2) by simp
  then have "abort_inv s es s2" using s2(2) d by (auto simp: abort_inv_def)
  then show "\<exists>s'. abort_block (snd e) s1 = Some s' \<and> abort_inv s es s' \<and> it_ok (blkno_map_orig s') it \<and> it_rest (blkno_map_orig s') it = es"
    using s2 it(2) by blast
qed

lemma heap_empty:
  assumes "icow_ok s" and "hm_map (blkno_map_orig s) = Map.empty"
  shows "ic_heap s = Map.empty"
  using icow_okD(4) [OF assms(1)] assms(2) by (metis ext option.distinct(1) option.exhaust)

lemma rolled_all:
  assumes "rolled s D s'" and "ic_heap s' = Map.empty"
  shows "rolled s (dom (ic_heap s)) s'"
proof -
  have D: "dom (ic_heap s) \<subseteq> D" using assms by (auto simp: rolled_def fun_eq_iff split: if_splits)
  have "cow_nos s D = cow_nos s (dom (ic_heap s))" "orig_nos s D = orig_nos s (dom (ic_heap s))"
    using D by (auto simp: cow_nos_def orig_nos_def)
  moreover have "(if a \<in> dom (ic_heap s) then None else ic_heap s a) = None" for a by (cases "ic_heap s a") (auto simp: dom_def)
  then have "ic_heap s' = (\<lambda>a. if a \<in> dom (ic_heap s) then None else ic_heap s a)" using assms(2) by simp
  ultimately show ?thesis using assms(1) by (simp add: rolled_def)
qed

definition bpram_super_ok :: "fs \<Rightarrow> bool" where
  "bpram_super_ok f \<longleftrightarrow> (\<exists>b. mem BPFS_BLOCKNO_SUPER f = Some b \<and> super_magic b = BPFS_FS_MAGIC)"

lemma set_super_ok: "bpram_super_ok (ic_fs s) \<Longrightarrow> set_super get_bpram_super s = Some (s\<lparr>bpfs_super := InBpram BPFS_BLOCKNO_SUPER\<rparr>)"
  by (auto simp: bpram_super_ok_def set_super_def get_bpram_super_def load_ptr_def)

lemma icow_ok_super [simp]: "icow_ok (s\<lparr>bpfs_super := p\<rparr>) = icow_ok s"
  by (simp add: icow_ok_def)

lemma indirect_cow_abort_rolled:
  assumes "icow_ok s" and "parent_stack s = []" and "bpram_super_ok (ic_fs s)"
  shows "\<exists>s'. indirect_cow_abort s = Some s' \<and> rolled (s\<lparr>bpfs_super := InBpram BPFS_BLOCKNO_SUPER\<rparr>) (dom (ic_heap s)) s' \<and> ic_heap s' = Map.empty"
proof -
  let ?s = "s\<lparr>bpfs_super := InBpram BPFS_BLOCKNO_SUPER\<rparr>"
  have ok: "icow_ok ?s" using assms(1) by simp
  have "abort_inv ?s es ?s" if "distinct (map fst es)" "map_of es = hm_map (blkno_map_orig ?s)" for es
    using that rolled_start [OF ok] by (auto simp: abort_inv_def)
  moreover have "ptr_map_ok (blkno_map_orig s')" if "abort_inv ?s es s'" for es s'
    using that icow_okD(1) by (auto simp: abort_inv_def rolled_def)
  ultimately obtain it s' where l: "hash_map_it2_create (blkno_map_orig ?s) = Some it" "abort_loop it ?s = Some s'" "abort_inv ?s [] s'"
    using ab.loop_all [of ?s "abort_inv ?s"] icow_okD(1) [OF ok] abort_loop_step [of ?s] by blast
  from l(3) obtain D where D: "rolled ?s D s'" "hm_map (blkno_map_orig s') = Map.empty" by (auto simp: abort_inv_def)
  have "icow_ok s'" using D(1) by (simp add: rolled_def)
  then have e: "ic_heap s' = Map.empty" using heap_empty D(2) by blast
  have "indirect_cow_abort s = Some s'" using l(1,2) assms(2) set_super_ok [OF assms(3)] by (simp add: indirect_cow_abort_def)
  then show ?thesis using rolled_all [OF D(1) e] e by auto
qed

end
