(* ===== verification/Cow_Commit.thy ===== *)
theory Cow_Commit
  imports Cow_Tables
begin

text \<open>
  \<^verbatim>\<open>indirect_cow_commit\<close>: the search for the block that is written in place, the loops, the last store, and what a crash
  may leave of them.
\<close>

section \<open>Access\<close>

lemma find_eq:
  assumes "icow_ok s"
  shows "find_orig n s = Some (hm_map (blkno_map_orig s) (KPtr n))" "find_cow n s = Some (hm_map (blkno_map_cow s) (KPtr n))"
  using ptr_map.find_abs [OF icow_okD(1) [OF assms]] ptr_map.find_abs [OF icow_okD(2) [OF assms]] by (simp_all add: find_orig_def find_cow_def)

lemma scsp_get_block_bpram:
  assumes "ptr_map_ok (blkno_map_cow s)" and "hm_map (blkno_map_cow s) (KPtr n) = None" and "resident n f"
  shows "scsp_get_block n s = Some (InBpram n, s)"
proof -
  have "indirect_cow_block_get n s = Some None"
    using ptr_map.find_abs [OF assms(1)] assms(2) by (simp add: indirect_cow_block_get_def find_cow_def)
  then show ?thesis using assms(3) by (subst scsp_get_block.simps) (simp add: resident_def)
qed

text \<open>The contents of a block before and after the transaction.\<close>

definition change :: "icow \<Rightarrow> addr \<Rightarrow> block \<Rightarrow> block \<Rightarrow> bool" where
  "change s a b0 b1 \<longleftrightarrow> (\<exists>b. ic_heap s a = Some b \<and> cow_blkno b \<noteq> 0 \<and> mem (orig_blkno b) (ic_fs s) = Some b0 \<and> dram b = Some b1)"

definition one_word :: "icow \<Rightarrow> addr \<Rightarrow> bool" where
  "one_word s a \<longleftrightarrow> (\<exists>b0 b1. change s a b0 b1 \<and> length (diff_offs b0 b1) \<le> 1)"

lemma scan_one_word: "fst (atomic_scan word_offs b0 b1 False (None, 4096)) \<longleftrightarrow> length (diff_offs b0 b1) \<le> 1"
  by (auto simp: atomic_scan_eq split: list.split)

lemma writable_eval:
  assumes ok: "icow_ok s" and a: "ic_heap s a = Some b" "cow_blkno b \<noteq> 0"
  shows "\<exists>b0 b1 w. mem (orig_blkno b) (ic_fs s) = Some b0 \<and> dram b = Some b1 \<and> cow_is_atomically_writable a s = Some ((one_word s a, w), s) \<and>
    (one_word s a \<longrightarrow> same_block (atomic_result b0 w) b1 \<and> (fst w = None \<longleftrightarrow> snd w = 4096) \<and> snd w \<le> 4096 \<and> snd w mod 8 = 0)"
proof -
  have st: "dram b \<noteq> None" "resident (orig_blkno b) (ic_fs s)" using icow_okD(6) [OF ok a(1)] a(2) by (auto simp: copy_ok_def cow_staged_def)
  obtain b0 b1 where b: "mem (orig_blkno b) (ic_fs s) = Some b0" "dram b = Some b1" using resident_mem [OF st(2)] st(1) by blast
  obtain r w where w: "atomic_scan word_offs b0 b1 False (None, 4096) = (r, w)" by (rule prod.exhaust)
  have "cow_is_atomically_writable a s = Some ((r, w), s)"
    using a b w scsp_get_block_bpram [OF icow_okD(2) [OF ok] icow_okD(7) [OF ok a(1)] st(2)]
    by (simp add: cow_is_atomically_writable_def load_ptr_def)
  moreover have "change s a x y \<longleftrightarrow> x = b0 \<and> y = b1" for x y using a b by (auto simp: change_def)
  then have "r = one_word s a" using scan_one_word [of b0 b1] w by (auto simp: one_word_def)
  moreover have "snd w mod 8 = 0" if r using atomic_scan_store [OF w [unfolded that(1) [THEN eqTrueI]]] by (cases "snd w = 4096") auto
  moreover have "same_block (atomic_result b0 w) b1 \<and> (fst w = None \<longleftrightarrow> snd w = 4096) \<and> snd w \<le> 4096" if r
    using atomic_scan_store [OF w [unfolded that(1) [THEN eqTrueI]]] by blast
  ultimately show ?thesis using b by auto
qed

section \<open>The search\<close>

text \<open>\<^verbatim>\<open>find_highest\<close> stops at a block.\<close>

definition stops :: "icow \<Rightarrow> ic_block \<Rightarrow> bool" where
  "stops s b \<longleftrightarrow> (case children_cow b of
     None \<Rightarrow> required b
   | Some x \<Rightarrow> \<exists>d. ic_heap s x = Some d \<and> cow_blkno d \<noteq> 0 \<and> child_cow_next d = None \<and> (required b \<or> \<not> one_word s x))"

text \<open>The copies from the first one down to the one that is written in place; \<open>c\<close> is the copy below it.\<close>

primrec cow_path :: "icow \<Rightarrow> addr list \<Rightarrow> addr option \<Rightarrow> bool" where
  "cow_path s [] c \<longleftrightarrow> False"
| "cow_path s (a # as) c \<longleftrightarrow> (\<exists>b. ic_heap s a = Some b \<and> cow_blkno b \<noteq> 0 \<and> one_word s a \<and>
     (if as = [] then children_cow b = c \<and> stops s b
      else \<not> required b \<and> children_cow b = Some (hd as) \<and> (\<exists>d. ic_heap s (hd as) = Some d \<and> child_cow_next d = None) \<and> cow_path s as c))"

lemma cow_path_in:
  assumes "cow_path s xs c" and "x \<in> set xs"
  shows "\<exists>b. ic_heap s x = Some b \<and> cow_blkno b \<noteq> 0 \<and> one_word s x"
  using assms by (induction xs) (auto split: if_splits)

lemma cow_path_last:
  assumes "cow_path s xs c"
  shows "\<exists>b. ic_heap s (last xs) = Some b \<and> cow_blkno b \<noteq> 0 \<and> one_word s (last xs) \<and> children_cow b = c \<and> stops s b"
  using assms by (induction xs) (auto split: if_splits)

lemma find_highest_path:
  assumes ok: "icow_ok s" and "cow_path s xs c"
  shows "find_highest (hd xs) s = Some (last xs, s)"
  using assms(2)
proof (induction xs)
  case (Cons a as)
  then obtain b where b: "ic_heap s a = Some b" "cow_blkno b \<noteq> 0" "one_word s a" by auto
  show ?case
  proof (cases "as = []")
    case True
    then have st: "stops s b" using Cons.prems b(1) by auto
    show ?thesis
    proof (cases "children_cow b")
      case None
      then show ?thesis using st b(1) True by (subst find_highest.simps) (simp add: stops_def)
    next
      case (Some x)
      then obtain d where d: "ic_heap s x = Some d" "cow_blkno d \<noteq> 0" "child_cow_next d = None" "required b \<or> \<not> one_word s x"
        using st by (auto simp: stops_def)
      obtain w where "cow_is_atomically_writable x s = Some ((one_word s x, w), s)" using writable_eval [OF ok d(1,2)] by blast
      then show ?thesis using Some d b(1) True by (subst find_highest.simps) auto
    qed
  next
    case False
    then obtain d where n: "\<not> required b" "children_cow b = Some (hd as)" "ic_heap s (hd as) = Some d" "child_cow_next d = None" "cow_path s as c"
      using Cons.prems b(1) by auto
    have h: "hd as \<in> set as" using False by simp
    have d: "cow_blkno d \<noteq> 0" "one_word s (hd as)" using cow_path_in [OF n(5) h] n(3) by auto
    obtain w where "cow_is_atomically_writable (hd as) s = Some ((one_word s (hd as), w), s)" using writable_eval [OF ok n(3) d(1)] by blast
    then have "find_highest a s = find_highest (hd as) s" using n b(1) d(2) by (subst find_highest.simps) simp
    then show ?thesis using Cons.IH [OF n(5)] False by simp
  qed
qed simp

section \<open>Dropping the parents\<close>

primrec cow_links :: "icow \<Rightarrow> addr list \<Rightarrow> addr option \<Rightarrow> bool" where
  "cow_links s [] c \<longleftrightarrow> True"
| "cow_links s (a # as) c \<longleftrightarrow> (\<exists>b. ic_heap s a = Some b \<and> cow_blkno b \<noteq> 0 \<and>
     children_cow b = (if as = [] then c else Some (hd as)) \<and> cow_links s as c)"

lemma cow_path_links: "cow_path s xs c \<Longrightarrow> cow_links s xs c"
  by (induction xs) (auto split: if_splits)

lemma cow_links_heap:
  "cow_links s xs c \<Longrightarrow> (\<And>x. x \<in> set xs \<Longrightarrow> ic_heap s' x = ic_heap s x) \<Longrightarrow> cow_links s' xs c"
  by (induction xs) auto

lemma revert_parents_ok:
  assumes "rolled s D s1" and "cow_links s1 xs c" and "distinct xs" and "c \<notin> Some ` set xs"
  shows "\<exists>s2. revert_parents (if xs = [] then c else Some (hd xs)) c s1 = Some s2 \<and> rolled s (D \<union> set xs) s2"
  using assms
proof (induction xs arbitrary: D s1)
  case Nil
  then show ?case by (subst revert_parents.simps) simp
next
  case (Cons a as)
  then obtain b where b: "ic_heap s1 a = Some b" "cow_blkno b \<noteq> 0" "children_cow b = (if as = [] then c else Some (hd as))" "cow_links s1 as c" by auto
  have ok: "icow_ok s1" using Cons.prems(1) by (simp add: rolled_def)
  have st: "cow_staged (ic_fs s1) (orig_blkno b) (cow_blkno b)" using icow_okD(6) [OF ok b(1)] b(2) by (simp add: copy_ok_def)
  obtain f1 f2 where f: "unalloc_block (cow_blkno b) (ic_fs s1) = Some f1" "unfree_block (orig_blkno b) f1 = Some f2"
      "dropped (orig_blkno b) (cow_blkno b) (ic_fs s1) f2" using drop_copy_ok [OF icow_okD(3) [OF ok] st] by blast
  let ?t = "s1\<lparr>ic_fs := f2\<rparr>"
  obtain om where om: "erase_orig (orig_blkno b) ?t = Some (?t\<lparr>blkno_map_orig := om\<rparr>)" "ptr_map_ok om"
      "hm_map om = (hm_map (blkno_map_orig s1))(KPtr (orig_blkno b) := None)" using erase_orig_ok [of ?t "orig_blkno b"] icow_okD(1) [OF ok] by auto
  let ?u = "?t\<lparr>blkno_map_orig := om\<rparr>"
  obtain cm where cm: "erase_cow (cow_blkno b) ?u = Some (?u\<lparr>blkno_map_cow := cm\<rparr>)" "ptr_map_ok cm"
      "hm_map cm = (hm_map (blkno_map_cow s1))(KPtr (cow_blkno b) := None)" using erase_cow_ok [of ?u "cow_blkno b"] icow_okD(2) [OF ok] by auto
  let ?s = "?u\<lparr>blkno_map_cow := cm, ic_heap := (ic_heap s1)(a := None)\<rparr>"
  have r: "rolled s (insert a D) ?s" by (rule rolled_step [OF Cons.prems(1) b(1)]) (use f om cm b(2) in simp_all)
  have "cow_links ?s as c" using Cons.prems(3) by (intro cow_links_heap [OF b(4)]) auto
  then obtain s2 where s2: "revert_parents (if as = [] then c else Some (hd as)) c ?s = Some s2" "rolled s (insert a D \<union> set as) s2"
    using Cons.IH [OF r] Cons.prems(3,4) by auto
  have "c \<noteq> Some a" using Cons.prems(4) by auto
  then have "revert_parents (Some a) c s1 = revert_parents (children_cow b) c ?s"
    using b(1) f(1,2) om(1) cm(1) by (subst revert_parents.simps) (simp add: on_fs_def delete_block_def)
  then show ?case using s2 b(3) by simp
qed

section \<open>Writing the copies\<close>

text \<open>The new block of \<open>b\<close> has the contents of its copy.\<close>

definition written :: "fs \<Rightarrow> ic_block \<Rightarrow> bool" where
  "written f b \<longleftrightarrow> (\<exists>d m. dram b = Some d \<and> mem (cow_blkno b) f = Some m \<and> same_block m d)"

text \<open>Only blocks with the number of a copy have changed, and the copies that are gone have been written.\<close>

definition copied :: "icow \<Rightarrow> icow \<Rightarrow> bool" where
  "copied s s' \<longleftrightarrow> icow_ok s' \<and>
     (\<forall>a. ic_heap s' a = ic_heap s a \<or> ic_heap s' a = None \<and> (\<exists>b. ic_heap s a = Some b \<and> cow_blkno b \<noteq> 0 \<and> written (ic_fs s') b)) \<and>
     (\<forall>n. hm_map (blkno_map_cow s) (KPtr n) = None \<longrightarrow> mem n (ic_fs s') = mem n (ic_fs s)) \<and>
     ic_fs s' = (ic_fs s)\<lparr>bpram := bpram (ic_fs s')\<rparr> \<and> length (bpram (ic_fs s')) = length (bpram (ic_fs s)) \<and>
     bpfs_super s' = bpfs_super s \<and> parent_stack s' = parent_stack s"

lemma copied_start: "icow_ok s \<Longrightarrow> copied s s"
  by (simp add: copied_def)

lemma put_mem_fs:
  assumes "put_mem n v f = Some g"
  shows "g = f\<lparr>bpram := bpram g\<rparr>" "length (bpram g) = length (bpram f)" "cow_staged g m k = cow_staged f m k" "blocks_ok g = blocks_ok f"
  using assms by (auto simp: put_mem_eq_Some cow_staged_def resident_def blocks_ok_def)

lemma copied_step:
  assumes c: "copied s s1" and ok: "icow_ok s" and a: "ic_heap s1 a = Some b" "cow_blkno b \<noteq> 0" and d: "dram b = Some d"
    and p: "mem (cow_blkno b) (ic_fs s1) = Some m" "put_mem (cow_blkno b) (blk_copy m 0 d 0 4096) (ic_fs s1) = Some (ic_fs s2)"
    and h: "ic_heap s2 = (ic_heap s1)(a := None)"
    and om: "ptr_map_ok (blkno_map_orig s2)" "hm_map (blkno_map_orig s2) = (hm_map (blkno_map_orig s1))(KPtr (orig_blkno b) := None)"
    and cm: "ptr_map_ok (blkno_map_cow s2)" "hm_map (blkno_map_cow s2) = (hm_map (blkno_map_cow s1))(KPtr (cow_blkno b) := None)"
    and k: "bpfs_super s2 = bpfs_super s1" "parent_stack s2 = parent_stack s1"
  shows "copied s s2"
proof -
  have ok1: "icow_ok s1" using c by (simp add: copied_def)
  note pf = put_mem_fs [OF p(2)]
  have sa: "ic_heap s a = Some b" using c a(1) unfolding copied_def by (metis option.distinct(1))
  have st: "cow_staged (ic_fs s2) (orig_blkno b') (cow_blkno b')" if "a' \<noteq> a" "ic_heap s1 a' = Some b'" "cow_blkno b' \<noteq> 0" for a' b'
    using icow_okD(6) [OF ok1 that(2)] that(3) pf(3) by (simp add: copy_ok_def)
  have "icow_ok s2" by (rule icow_ok_remove [OF ok1 a(1) h om cm(1) _ _ st]) (use cm a(2) pf icow_okD(3) [OF ok1] in simp_all)
  moreover have "ic_heap s2 x = ic_heap s x \<or> ic_heap s2 x = None \<and> (\<exists>b. ic_heap s x = Some b \<and> cow_blkno b \<noteq> 0 \<and> written (ic_fs s2) b)" for x
  proof (cases "x = a")
    case True
    have "written (ic_fs s2) b" using d mem_put_mem [OF p(2), of "cow_blkno b"] by (auto simp: written_def same_block_def blk_copy_def)
    then show ?thesis using True h sa a(2) by simp
  next
    case False
    then have e: "ic_heap s2 x = ic_heap s1 x" using h by simp
    show ?thesis
    proof (cases "ic_heap s1 x = ic_heap s x")
      case False
      then obtain b' where b': "ic_heap s1 x = None" "ic_heap s x = Some b'" "cow_blkno b' \<noteq> 0" "written (ic_fs s1) b'"
        using c unfolding copied_def by blast
      have "cow_blkno b' \<noteq> cow_blkno b" using icow_inj(2) [OF ok b'(2) sa \<open>x \<noteq> a\<close> b'(3)] .
      then have "written (ic_fs s2) b'" using b'(4) mem_put_mem [OF p(2), of "cow_blkno b'"] by (simp add: written_def)
      then show ?thesis using b' e by simp
    qed (use e in simp)
  qed
  moreover have "mem n (ic_fs s2) = mem n (ic_fs s)" if "hm_map (blkno_map_cow s) (KPtr n) = None" for n
  proof -
    have "n \<noteq> cow_blkno b" using that icow_okD(5) [OF ok sa a(2)] by auto
    then show ?thesis using mem_put_mem [OF p(2), of n] that c by (simp add: copied_def)
  qed
  moreover have "ic_fs s1 = (ic_fs s)\<lparr>bpram := bpram (ic_fs s1)\<rparr>" "length (bpram (ic_fs s1)) = length (bpram (ic_fs s))"
    using c by (simp_all add: copied_def)
  then have "ic_fs s2 = (ic_fs s)\<lparr>bpram := bpram (ic_fs s2)\<rparr>" "length (bpram (ic_fs s2)) = length (bpram (ic_fs s))"
    using pf(1,2) by (metis fs.surjective fs.update_convs(1), simp)
  ultimately show ?thesis using c k by (simp add: copied_def)
qed

lemma copy_block_ok:
  assumes c: "copied s s1" and ok: "icow_ok s" and a: "ic_heap s1 a = Some b" "cow_blkno b \<noteq> 0"
    and it: "it_ok (blkno_map_cow s1) it" "KPtr (cow_blkno b) \<notin> fst ` set (it_rest (blkno_map_cow s1) it)"
  shows "\<exists>s2. copy_block a s1 = Some s2 \<and> copied s s2 \<and>
    hm_map (blkno_map_cow s2) = (hm_map (blkno_map_cow s1))(KPtr (cow_blkno b) := None) \<and>
    it_ok (blkno_map_cow s2) it \<and> it_rest (blkno_map_cow s2) it = it_rest (blkno_map_cow s1) it"
proof -
  have ok1: "icow_ok s1" using c by (simp add: copied_def)
  obtain om where om: "erase_orig (orig_blkno b) s1 = Some (s1\<lparr>blkno_map_orig := om\<rparr>)" "ptr_map_ok om"
      "hm_map om = (hm_map (blkno_map_orig s1))(KPtr (orig_blkno b) := None)" using erase_orig_ok [of s1 "orig_blkno b"] icow_okD(1) [OF ok1] by auto
  let ?t = "s1\<lparr>blkno_map_orig := om\<rparr>"
  obtain cm where cm: "erase_cow (cow_blkno b) ?t = Some (?t\<lparr>blkno_map_cow := cm\<rparr>)" "ptr_map_ok cm"
      "hm_map cm = (hm_map (blkno_map_cow s1))(KPtr (cow_blkno b) := None)" "it_ok cm it" "it_rest cm it = it_rest (blkno_map_cow s1) it"
    using erase_cow_it [of ?t it "cow_blkno b"] icow_okD(2) [OF ok1] it by auto
  let ?u = "?t\<lparr>blkno_map_cow := cm\<rparr>"
  have st: "dram b \<noteq> None" "resident (cow_blkno b) (ic_fs s1)" using icow_okD(6) [OF ok1 a(1)] a(2) by (auto simp: copy_ok_def cow_staged_def)
  obtain d m where dm: "dram b = Some d" "mem (cow_blkno b) (ic_fs s1) = Some m" using st(1) resident_mem [OF st(2)] by blast
  obtain f where f: "put_mem (cow_blkno b) (blk_copy m 0 d 0 4096) (ic_fs s1) = Some f" using resident_put [OF st(2)] by blast
  have g: "scsp_get_block (cow_blkno b) ?u = Some (InBpram (cow_blkno b), ?u)" using scsp_get_block_bpram [of ?u] cm(2,3) st(2) by simp
  let ?s = "?u\<lparr>ic_fs := f, ic_heap := (ic_heap s1)(a := None)\<rparr>"
  have "copy_block a s1 = Some ?s" using a(1) om(1) cm(1) g dm f by (simp add: copy_block_def load_ptr_def store_ptr_def delete_block_def)
  moreover have "copied s ?s" by (rule copied_step [OF c ok a dm]) (use f om cm in simp_all)
  ultimately show ?thesis using cm by auto
qed

definition copy_inv :: "icow \<Rightarrow> (hkey \<times> addr) list \<Rightarrow> icow \<Rightarrow> bool" where
  "copy_inv s es s' \<longleftrightarrow> distinct (map fst es) \<and> hm_map (blkno_map_cow s') = map_of es \<and> copied s s'"

lemma copy_loop_step:
  assumes "icow_ok s"
  shows "cc.loop_step (copy_inv s)"
  unfolding cc.loop_step_def
proof (intro allI impI)
  fix e es s1 it
  assume I: "copy_inv s (e # es) s1" and it: "it_ok (blkno_map_cow s1) it" "it_rest (blkno_map_cow s1) it = es"
  then have c: "copied s s1" and m: "hm_map (blkno_map_cow s1) = map_of (e # es)" and d: "distinct (map fst (e # es))"
    by (auto simp: copy_inv_def)
  have ok: "icow_ok s1" using c by (simp add: copied_def)
  have "hm_map (blkno_map_cow s1) (fst e) = Some (snd e)" by (simp add: m)
  then obtain b where b: "ic_heap s1 (snd e) = Some b" "cow_blkno b \<noteq> 0" "fst e = KPtr (cow_blkno b)" using icow_ok_cowE [OF ok] by metis
  have "KPtr (cow_blkno b) \<notin> fst ` set (it_rest (blkno_map_cow s1) it)" using d b(3) it(2) by simp
  then obtain s2 where s2: "copy_block (snd e) s1 = Some s2" "copied s s2"
      "hm_map (blkno_map_cow s2) = (hm_map (blkno_map_cow s1))(KPtr (cow_blkno b) := None)"
      "it_ok (blkno_map_cow s2) it" "it_rest (blkno_map_cow s2) it = it_rest (blkno_map_cow s1) it"
    using copy_block_ok [OF c assms b(1,2) it(1)] by blast
  have "hm_map (blkno_map_cow s2) = map_of es" using s2(3) map_of_tail [OF d] m b(3) by simp
  then have "copy_inv s es s2" using s2(2) d by (auto simp: copy_inv_def)
  then show "\<exists>s'. copy_block (snd e) s1 = Some s' \<and> copy_inv s es s' \<and> it_ok (blkno_map_cow s') it \<and> it_rest (blkno_map_cow s') it = es"
    using s2 it(2) by blast
qed

lemma copy_cows_ok:
  assumes ok: "icow_ok s"
  shows "\<exists>it s'. hash_map_it2_create (blkno_map_cow s) = Some it \<and> copy_cows it s = Some s' \<and> copied s s' \<and>
    ic_heap s' = (\<lambda>a. case ic_heap s a of None \<Rightarrow> None | Some b \<Rightarrow> if cow_blkno b = 0 then Some b else None)"
proof -
  have "copy_inv s es s" if "distinct (map fst es)" "map_of es = hm_map (blkno_map_cow s)" for es
    using that copied_start [OF ok] by (auto simp: copy_inv_def)
  moreover have "ptr_map_ok (blkno_map_cow s')" if "copy_inv s es s'" for es s'
    using that icow_okD(2) by (auto simp: copy_inv_def copied_def)
  ultimately obtain it s' where l: "hash_map_it2_create (blkno_map_cow s) = Some it" "copy_cows it s = Some s'" "copy_inv s [] s'"
    using cc.loop_all [of s "copy_inv s"] icow_okD(2) [OF ok] copy_loop_step [OF ok] by blast
  have c: "copied s s'" "hm_map (blkno_map_cow s') = Map.empty" using l(3) by (auto simp: copy_inv_def)
  have ok': "icow_ok s'" using c(1) by (simp add: copied_def)
  have "ic_heap s' a = (case ic_heap s a of None \<Rightarrow> None | Some b \<Rightarrow> if cow_blkno b = 0 then Some b else None)" for a
  proof (cases "ic_heap s' a")
    case None
    then show ?thesis using c(1) unfolding copied_def by (metis (mono_tags, lifting) option.case_eq_if option.sel)
  next
    case (Some b)
    then have "cow_blkno b = 0" using icow_okD(5) [OF ok' Some] c(2) by auto
    moreover have "ic_heap s a = Some b" using c(1) Some unfolding copied_def by (metis option.distinct(1))
    ultimately show ?thesis using Some by simp
  qed
  then show ?thesis using l c(1) by blast
qed

section \<open>Freeing the other blocks\<close>

definition free_inv :: "icow \<Rightarrow> (hkey \<times> addr) list \<Rightarrow> icow \<Rightarrow> bool" where
  "free_inv s es s' \<longleftrightarrow> distinct (map fst es) \<and> hm_map (blkno_map_orig s') = map_of es \<and> (\<exists>D. rolled s D s') \<and>
     ic_fs s' = ic_fs s \<and> (\<forall>a b. ic_heap s' a = Some b \<longrightarrow> cow_blkno b = 0)"

lemma free_uncowed_step: "fu.loop_step (free_inv s)"
  unfolding fu.loop_step_def
proof (intro allI impI)
  fix e es s1 it
  assume I: "free_inv s (e # es) s1" and it: "it_ok (blkno_map_orig s1) it" "it_rest (blkno_map_orig s1) it = es"
  then obtain D where r: "rolled s D s1" and m: "hm_map (blkno_map_orig s1) = map_of (e # es)" and d: "distinct (map fst (e # es))"
    by (auto simp: free_inv_def)
  have ok: "icow_ok s1" using r by (simp add: rolled_def)
  have "hm_map (blkno_map_orig s1) (fst e) = Some (snd e)" by (simp add: m)
  then obtain b where b: "ic_heap s1 (snd e) = Some b" "fst e = KPtr (orig_blkno b)" using icow_ok_origE [OF ok] by metis
  have z: "cow_blkno b = 0" using I b(1) by (auto simp: free_inv_def)
  then have u: "dram b = None" "\<not> required b" using icow_okD(6) [OF ok b(1)] by (simp_all add: copy_ok_def)
  have "KPtr (orig_blkno b) \<notin> fst ` set (it_rest (blkno_map_orig s1) it)" using d b(2) it(2) by simp
  then obtain om where om: "erase_orig (orig_blkno b) s1 = Some (s1\<lparr>blkno_map_orig := om\<rparr>)" "ptr_map_ok om"
      "hm_map om = (hm_map (blkno_map_orig s1))(KPtr (orig_blkno b) := None)" "it_ok om it" "it_rest om it = it_rest (blkno_map_orig s1) it"
    using erase_orig_it [OF icow_okD(1) [OF ok] it(1)] by blast
  let ?s = "s1\<lparr>blkno_map_orig := om, ic_heap := (ic_heap s1)(snd e := None)\<rparr>"
  have x: "free_uncowed_block (snd e) s1 = Some ?s" using b(1) z u om(1) by (simp add: free_uncowed_block_def delete_block_def)
  have "rolled s (insert (snd e) D) ?s" by (rule rolled_step [OF r b(1)]) (use om z icow_okD(2) [OF ok] in simp_all)
  moreover have "hm_map om = map_of es" using om(3) map_of_tail [OF d] m b(2) by simp
  moreover have "\<forall>a b. ic_heap ?s a = Some b \<longrightarrow> cow_blkno b = 0" using I by (auto simp: free_inv_def)
  moreover have "ic_fs s1 = ic_fs s" using I by (simp add: free_inv_def)
  ultimately have "free_inv s es ?s" using d by (auto simp: free_inv_def)
  then show "\<exists>s'. free_uncowed_block (snd e) s1 = Some s' \<and> free_inv s es s' \<and> it_ok (blkno_map_orig s') it \<and> it_rest (blkno_map_orig s') it = es"
    using x om it(2) by auto
qed

lemma free_uncowed_ok:
  assumes ok: "icow_ok s" and z: "\<And>a b. ic_heap s a = Some b \<Longrightarrow> cow_blkno b = 0"
  shows "\<exists>it s'. hash_map_it2_create (blkno_map_orig s) = Some it \<and> free_uncowed it s = Some s' \<and> icow_ok s' \<and> ic_heap s' = Map.empty \<and>
    ic_fs s' = ic_fs s \<and> bpfs_super s' = bpfs_super s \<and> parent_stack s' = parent_stack s"
proof -
  have "free_inv s es s" if "distinct (map fst es)" "map_of es = hm_map (blkno_map_orig s)" for es
    using that rolled_start [OF ok] z by (auto simp: free_inv_def)
  moreover have "ptr_map_ok (blkno_map_orig s')" if "free_inv s es s'" for es s'
    using that icow_okD(1) by (auto simp: free_inv_def rolled_def)
  ultimately obtain it s' where l: "hash_map_it2_create (blkno_map_orig s) = Some it" "free_uncowed it s = Some s'" "free_inv s [] s'"
    using fu.loop_all [of s "free_inv s"] icow_okD(1) [OF ok] free_uncowed_step [of s] by blast
  then obtain D where D: "rolled s D s'" "hm_map (blkno_map_orig s') = Map.empty" "ic_fs s' = ic_fs s" by (auto simp: free_inv_def)
  have "icow_ok s'" using D(1) by (simp add: rolled_def)
  then show ?thesis using l heap_empty [of s'] D by (auto simp: rolled_def)
qed

section \<open>Commit\<close>

text \<open>The state in which a transaction with changes can be committed: \<open>xs\<close> are the copies from the super block down to the one that is
  written in place.\<close>

definition commit_ready :: "icow \<Rightarrow> addr list \<Rightarrow> addr option \<Rightarrow> bool" where
  "commit_ready s xs c \<longleftrightarrow> icow_ok s \<and> parent_stack s = [] \<and> bpram_super_ok (ic_fs s) \<and>
     cow_path s xs c \<and> distinct xs \<and> c \<notin> Some ` set xs \<and> hm_map (blkno_map_orig s) (KPtr BPFS_BLOCKNO_SUPER) = Some (hd xs) \<and>
     (\<exists>b. ic_heap s (hd xs) = Some b \<and> \<not> required b \<and> children_cow b \<noteq> None)"

text \<open>\<open>b\<close> is a copy that is written to its new block.\<close>

definition kept :: "icow \<Rightarrow> addr list \<Rightarrow> ic_block \<Rightarrow> bool" where
  "kept s xs b \<longleftrightarrow> (\<exists>a. ic_heap s a = Some b \<and> a \<notin> set xs \<and> cow_blkno b \<noteq> 0)"

definition kept_no :: "icow \<Rightarrow> addr list \<Rightarrow> u64 \<Rightarrow> bool" where
  "kept_no s xs n \<longleftrightarrow> (\<exists>b. kept s xs b \<and> n = cow_blkno b)"

text \<open>What the search returned: the store of \<open>w\<close> makes the old block \<open>b0\<close> of the last copy equal to its copy.\<close>

definition in_place :: "icow \<Rightarrow> addr list \<Rightarrow> u64 \<Rightarrow> block \<Rightarrow> u64 option \<times> nat \<Rightarrow> bool" where
  "in_place s xs n b0 w \<longleftrightarrow> (\<exists>b b1. ic_heap s (last xs) = Some b \<and> n = orig_blkno b \<and> mem n (ic_fs s) = Some b0 \<and> dram b = Some b1 \<and>
     same_block (atomic_result b0 w) b1 \<and> (fst w = None \<longleftrightarrow> snd w = 4096) \<and> snd w \<le> 4096 \<and> snd w mod 8 = 0)"

lemma commit_search_ok:
  assumes "commit_ready s xs c"
  shows "\<exists>n b0 w. commit_search s = Some ((hd xs, n, w, c), s) \<and> in_place s xs n b0 w \<and> resident n (ic_fs s) \<and> hm_map (blkno_map_cow s) (KPtr n) = None"
proof -
  have ok: "icow_ok s" and p: "cow_path s xs c" using assms by (simp_all add: commit_ready_def)
  have ne: "xs \<noteq> []" using p by auto
  obtain b where b: "ic_heap s (hd xs) = Some b" "\<not> required b" "children_cow b \<noteq> None" "hm_map (blkno_map_orig s) (KPtr 1) = Some (hd xs)"
    using assms by (auto simp: commit_ready_def)
  have h: "cow_blkno b \<noteq> 0" "one_word s (hd xs)" using cow_path_in [OF p, of "hd xs"] ne b(1) by auto
  obtain w0 where w0: "cow_is_atomically_writable (hd xs) s = Some ((one_word s (hd xs), w0), s)" using writable_eval [OF ok b(1) h(1)] by blast
  obtain e where e: "ic_heap s (last xs) = Some e" "cow_blkno e \<noteq> 0" "one_word s (last xs)" "children_cow e = c" using cow_path_last [OF p] by blast
  obtain b0 b1 w where w: "mem (orig_blkno e) (ic_fs s) = Some b0" "dram e = Some b1" "cow_is_atomically_writable (last xs) s = Some ((one_word s (last xs), w), s)"
      "one_word s (last xs) \<longrightarrow> same_block (atomic_result b0 w) b1 \<and> (fst w = None \<longleftrightarrow> snd w = 4096) \<and> snd w \<le> 4096 \<and> snd w mod 8 = 0"
    using writable_eval [OF ok e(1,2)] by (elim exE conjE)
  have "commit_search s = Some ((hd xs, orig_blkno e, w, c), s)"
    using b w0 h(2) find_highest_path [OF ok p] e w(3) find_eq(1) [OF ok] by (simp add: commit_search_def)
  moreover have "in_place s xs (orig_blkno e) b0 w" using e(1,3) w by (simp add: in_place_def)
  moreover have "resident (orig_blkno e) (ic_fs s)" using icow_okD(6) [OF ok e(1)] e(2) by (simp add: copy_ok_def cow_staged_def)
  ultimately show ?thesis using icow_okD(7) [OF ok e(1)] by blast
qed

lemma commit_begin_ok:
  assumes "commit_ready s xs c"
  shows "\<exists>n b0 w s1. commit_begin s = Some ((n, w), s1) \<and> rolled (s\<lparr>bpfs_super := InBpram BPFS_BLOCKNO_SUPER\<rparr>) (set xs) s1 \<and>
    in_place s xs n b0 w \<and> resident n (ic_fs s) \<and> hm_map (blkno_map_cow s) (KPtr n) = None"
proof -
  let ?s = "s\<lparr>bpfs_super := InBpram BPFS_BLOCKNO_SUPER\<rparr>"
  have ok: "icow_ok s" and p: "cow_path s xs c" and d: "distinct xs" "c \<notin> Some ` set xs" and sp: "bpram_super_ok (ic_fs s)"
    using assms by (simp_all add: commit_ready_def)
  have ne: "xs \<noteq> []" using p by auto
  obtain n b0 w where w: "commit_search s = Some ((hd xs, n, w, c), s)" "in_place s xs n b0 w" "resident n (ic_fs s)"
      "hm_map (blkno_map_cow s) (KPtr n) = None" using commit_search_ok [OF assms] by blast
  have "cow_links ?s xs c" by (rule cow_links_heap [OF cow_path_links [OF p]]) simp
  then obtain s1 where s1: "revert_parents (Some (hd xs)) c ?s = Some s1" "rolled ?s (set xs) s1"
    using revert_parents_ok [of ?s "{}" ?s xs c] rolled_start [of ?s] ok d ne by auto
  have "Some (hd xs) \<noteq> c" using d(2) ne by auto
  then have "commit_begin s = Some ((n, w), s1)" using w(1) set_super_ok [OF sp] s1(1) by (simp add: commit_begin_def)
  then show ?thesis using s1(2) w by blast
qed

lemma rolled_cow_map:
  assumes "rolled s D s1" and "icow_ok s"
  shows "hm_map (blkno_map_cow s1) (KPtr n) = None \<longleftrightarrow> \<not> (\<exists>a b. ic_heap s a = Some b \<and> a \<notin> D \<and> cow_blkno b \<noteq> 0 \<and> n = cow_blkno b)"
proof
  have ok: "icow_ok s1" and h: "ic_heap s1 = (\<lambda>a. if a \<in> D then None else ic_heap s a)" using assms(1) by (simp_all add: rolled_def)
  show "\<not> (\<exists>a b. ic_heap s a = Some b \<and> a \<notin> D \<and> cow_blkno b \<noteq> 0 \<and> n = cow_blkno b)" if "hm_map (blkno_map_cow s1) (KPtr n) = None"
  proof safe
    fix a b assume "ic_heap s a = Some b" "a \<notin> D" "cow_blkno b \<noteq> 0" "n = cow_blkno b"
    then show False using that icow_okD(5) [OF ok, of a b] by (simp add: h)
  qed
  show "hm_map (blkno_map_cow s1) (KPtr n) = None" if "\<not> (\<exists>a b. ic_heap s a = Some b \<and> a \<notin> D \<and> cow_blkno b \<noteq> 0 \<and> n = cow_blkno b)"
  proof (rule ccontr)
    assume "hm_map (blkno_map_cow s1) (KPtr n) \<noteq> None"
    then obtain a where "hm_map (blkno_map_cow s1) (KPtr n) = Some a" by blast
    then obtain b where "ic_heap s1 a = Some b" "cow_blkno b \<noteq> 0" "n = cow_blkno b" using icow_ok_cowE [OF ok] by (metis hkey.inject(1))
    then show False using that unfolding h by (auto split: if_splits)
  qed
qed

text \<open>The memory before the last store: only the new blocks of the copies below have changed.\<close>

definition unchanged_but :: "icow \<Rightarrow> addr list \<Rightarrow> fs \<Rightarrow> bool" where
  "unchanged_but s xs f \<longleftrightarrow> (\<forall>n. \<not> kept_no s xs n \<longrightarrow> mem n f = mem n (ic_fs s))"

text \<open>The memory after it.\<close>

definition committed :: "icow \<Rightarrow> addr list \<Rightarrow> fs \<Rightarrow> bool" where
  "committed s xs f \<longleftrightarrow> (\<forall>b. kept s xs b \<longrightarrow> written f b) \<and>
     (\<exists>m b0 w. in_place s xs m b0 w \<and> \<not> kept_no s xs m \<and>
       (\<forall>n. \<not> kept_no s xs n \<longrightarrow> mem n f = (if n = m then Some (atomic_result b0 w) else mem n (ic_fs s))))"

lemma rolled_copied:
  assumes "rolled (s\<lparr>bpfs_super := p\<rparr>) (set xs) s1" and "icow_ok s" and "copied s1 s2"
  shows "unchanged_but s xs (ic_fs s2)" "length (bpram (ic_fs s2)) = length (bpram (ic_fs s))"
    "bitmap_persistent (block_alloc (ic_fs s2)) = bitmap_persistent (block_alloc (ic_fs s))"
proof -
  have f1: "ic_fs s1 = (ic_fs s)\<lparr>block_alloc := block_alloc (ic_fs s1)\<rparr>" using assms(1) by (simp add: rolled_def)
  have m1: "mem n (ic_fs s1) = mem n (ic_fs s)" for n using f1 mem_update(1) by metis
  have "hm_map (blkno_map_cow s1) (KPtr n) = None" if "\<not> kept_no s xs n" for n
    using rolled_cow_map [OF assms(1), of n] assms(2) that by (auto simp: kept_no_def kept_def)
  then show "unchanged_but s xs (ic_fs s2)" using assms(3) m1 by (simp add: unchanged_but_def copied_def)
  have "bpram (ic_fs s1) = bpram (ic_fs s)" by (subst f1) simp
  then show "length (bpram (ic_fs s2)) = length (bpram (ic_fs s))" using assms(3) by (simp add: copied_def)
  have "ic_fs s2 = (ic_fs s1)\<lparr>bpram := bpram (ic_fs s2)\<rparr>" using assms(3) by (simp add: copied_def)
  then have "block_alloc (ic_fs s2) = block_alloc (ic_fs s1)" by (metis fs.select_convs(2) fs.surjective fs.update_convs(1))
  then show "bitmap_persistent (block_alloc (ic_fs s2)) = bitmap_persistent (block_alloc (ic_fs s))" using assms(1) by (simp add: rolled_def)
qed

lemma commit_prepare_ok:
  assumes "commit_ready s xs c"
  shows "\<exists>n b0 w s1. commit_prepare s = Some ((n, w), s1) \<and> in_place s xs n b0 w \<and> resident n (ic_fs s1) \<and> \<not> kept_no s xs n \<and>
    unchanged_but s xs (ic_fs s1) \<and> (\<forall>b. kept s xs b \<longrightarrow> written (ic_fs s1) b) \<and> icow_ok s1 \<and> ic_heap s1 = Map.empty \<and>
    set (bm_allocs (block_alloc (ic_fs s1))) = set (bm_allocs (block_alloc (ic_fs s))) - cow_nos s (set xs) \<and>
    set (bm_frees (block_alloc (ic_fs s1))) = set (bm_frees (block_alloc (ic_fs s))) - orig_nos s (set xs) \<and>
    bitmap_persistent (block_alloc (ic_fs s1)) = bitmap_persistent (block_alloc (ic_fs s)) \<and>
    bpfs_super s1 = InBpram BPFS_BLOCKNO_SUPER \<and> parent_stack s1 = []"
proof -
  let ?s = "s\<lparr>bpfs_super := InBpram BPFS_BLOCKNO_SUPER\<rparr>"
  have ok: "icow_ok s" and ps: "parent_stack s = []" using assms by (simp_all add: commit_ready_def)
  obtain n b0 w s1 where s1: "commit_begin s = Some ((n, w), s1)" "rolled ?s (set xs) s1" "in_place s xs n b0 w" "resident n (ic_fs s)"
      "hm_map (blkno_map_cow s) (KPtr n) = None" using commit_begin_ok [OF assms] by blast
  have ok1: "icow_ok s1" and h1: "ic_heap s1 = (\<lambda>a. if a \<in> set xs then None else ic_heap s a)"
    using s1(2) by (simp_all add: rolled_def cong: if_cong)
  obtain it s2 where s2: "hash_map_it2_create (blkno_map_cow s1) = Some it" "copy_cows it s1 = Some s2" "copied s1 s2"
      "ic_heap s2 = (\<lambda>a. case ic_heap s1 a of None \<Rightarrow> None | Some b \<Rightarrow> if cow_blkno b = 0 then Some b else None)"
    using copy_cows_ok [OF ok1] by blast
  have ok2: "icow_ok s2" using s2(3) by (simp add: copied_def)
  have "cow_blkno b = 0" if "ic_heap s2 a = Some b" for a b using that unfolding s2(4) by (auto split: option.splits if_splits)
  then obtain it' s3 where s3: "hash_map_it2_create (blkno_map_orig s2) = Some it'" "free_uncowed it' s2 = Some s3" "icow_ok s3" "ic_heap s3 = Map.empty"
      "ic_fs s3 = ic_fs s2" "bpfs_super s3 = bpfs_super s2" "parent_stack s3 = parent_stack s2" using free_uncowed_ok [OF ok2] by blast
  have "commit_prepare s = Some ((n, w), s3)" using s1(1) s2(1,2) s3(1,2) by (simp add: commit_prepare_def)
  moreover note rc = rolled_copied [OF s1(2) ok s2(3)]
  moreover have "resident n (ic_fs s3)" using s1(4) rc(2) by (simp add: resident_def s3(5))
  moreover have "\<not> kept_no s xs n" using s1(5) icow_okD(5) [OF ok] by (auto simp: kept_no_def kept_def)
  moreover have "written (ic_fs s2) b" if "kept s xs b" for b
  proof -
    obtain a where a: "ic_heap s a = Some b" "a \<notin> set xs" "cow_blkno b \<noteq> 0" using \<open>kept s xs b\<close> by (auto simp: kept_def)
    then have "ic_heap s1 a = Some b" "ic_heap s2 a = None" by (simp_all add: h1 s2(4))
    then show ?thesis using s2(3) unfolding copied_def by (metis option.distinct(1) option.inject)
  qed
  moreover have "ic_fs s2 = (ic_fs s1)\<lparr>bpram := bpram (ic_fs s2)\<rparr>" using s2(3) by (simp add: copied_def)
  then have "block_alloc (ic_fs s2) = block_alloc (ic_fs s1)" by (metis fs.select_convs(2) fs.surjective fs.update_convs(1))
  moreover have "cow_nos ?s (set xs) = cow_nos s (set xs)" "orig_nos ?s (set xs) = orig_nos s (set xs)" by (simp_all add: cow_nos_def orig_nos_def)
  moreover have "bpfs_super s3 = InBpram 1" "parent_stack s3 = []" using s3(6,7) s2(3) s1(2) ps by (simp_all add: copied_def rolled_def)
  ultimately show ?thesis using s1(2,3) s3 by (intro exI [of _ n] exI [of _ b0] exI [of _ w] exI [of _ s3]) (simp add: rolled_def)
qed

lemma cow_map_size:
  assumes ok: "icow_ok s" and ab: "ic_heap s a = Some x" "ic_heap s b = Some y" "cow_blkno x \<noteq> 0" "cow_blkno y \<noteq> 0" "a \<noteq> b"
  shows "\<not> hash_map_empty (blkno_map_cow s)" "hash_map_size (blkno_map_cow s) \<noteq> 1"
proof -
  let ?D = "dom (hm_map (blkno_map_cow s))"
  have sub: "?D \<subseteq> KPtr ` (UNIV - {0})"
  proof
    fix k assume "k \<in> ?D"
    then obtain z where "hm_map (blkno_map_cow s) k = Some z" by blast
    then show "k \<in> KPtr ` (UNIV - {0})" using icow_ok_cowE [OF ok] by (metis Diff_iff UNIV_I image_eqI singletonD)
  qed
  have fin: "finite (UNIV :: u64 set)" by simp
  have "card ?D \<le> card (KPtr ` (UNIV - {0 :: u64}))" using sub by (intro card_mono) simp_all
  also have "\<dots> = card (UNIV - {0 :: u64})" by (intro card_image) (simp add: inj_on_def)
  also have "\<dots> < card (UNIV :: u64 set)" by (intro psubset_card_mono) auto
  also have "\<dots> = 2 ^ 64" by (simp add: card_word)
  finally have lt: "card ?D < 2 ^ 64" .
  have "KPtr (cow_blkno x) \<in> ?D" "KPtr (cow_blkno y) \<in> ?D" "KPtr (cow_blkno x) \<noteq> KPtr (cow_blkno y)"
    using icow_okD(5) [OF ok ab(1,3)] icow_okD(5) [OF ok ab(2,4)] ab(5) by auto
  then have two: "2 \<le> card ?D" using card_mono [of ?D "{KPtr (cow_blkno x), KPtr (cow_blkno y)}"] finite_subset [OF sub] by simp
  have "hash_map_size (blkno_map_cow s) = of_nat (card ?D)" using size_card [of "blkno_map_cow s"] icow_okD(2) [OF ok] by (simp add: ptr_map_ok_def)
  then have u: "unat (hash_map_size (blkno_map_cow s)) = card ?D" using lt by (simp add: unsigned_of_nat take_bit_nat_eq_self)
  show "hash_map_size (blkno_map_cow s) \<noteq> 1" using u two by auto
  show "\<not> hash_map_empty (blkno_map_cow s)" using u two by (auto simp: hash_map_empty_def hash_map_size_def)
qed

lemma ready_two_copies:
  assumes "commit_ready s xs c"
  shows "\<exists>a b x y. ic_heap s a = Some x \<and> ic_heap s b = Some y \<and> cow_blkno x \<noteq> 0 \<and> cow_blkno y \<noteq> 0 \<and> a \<noteq> b"
proof -
  obtain b where b: "ic_heap s (hd xs) = Some b" "children_cow b \<noteq> None" and p: "cow_path s xs c" and d: "distinct xs" "c \<notin> Some ` set xs"
    using assms by (auto simp: commit_ready_def)
  obtain a as where xs: "xs = a # as" using p by (cases xs) auto
  have ca: "cow_blkno b \<noteq> 0" using p b(1) xs by auto
  show ?thesis
  proof (cases "as = []")
    case True
    then have "stops s b" "children_cow b = c" using p b(1) xs by auto
    then obtain x e where x: "c = Some x" "ic_heap s x = Some e" "cow_blkno e \<noteq> 0" using b(2) by (auto simp: stops_def)
    then have "x \<noteq> a" using d(2) xs by auto
    then show ?thesis using x b(1) ca xs by auto
  next
    case False
    then have "hd as \<in> set xs" "hd as \<noteq> a" using d(1) xs by auto
    then show ?thesis using cow_path_in [OF p, of "hd as"] b(1) ca xs by auto
  qed
qed

lemma commit_store_ok:
  assumes "icow_ok s" and "ic_heap s = Map.empty" and "resident n (ic_fs s)" and "mem n (ic_fs s) = Some b0" and "fst w = None \<longleftrightarrow> snd w = 4096"
  shows "\<exists>f. commit_store (n, w) s = Some (s\<lparr>ic_fs := f\<rparr>) \<and> (\<forall>m. mem m f = (if m = n then Some (atomic_result b0 w) else mem m (ic_fs s))) \<and>
    block_alloc f = block_alloc (ic_fs s)"
proof -
  obtain v off where w: "w = (v, off)" by (rule prod.exhaust)
  show ?thesis
  proof (cases "off = 4096")
    case True
    then show ?thesis using assms(4,5) w by (intro exI [of _ "ic_fs s"]) (simp add: commit_store_def atomic_result_def)
  next
    case False
    then obtain u where u: "v = Some u" using assms(5) w by auto
    have "hm_map (blkno_map_cow s) (KPtr n) = None"
      using icow_ok_cowE [OF assms(1), of "KPtr n"] assms(2) by (metis option.distinct(1) option.exhaust)
    then have g: "scsp_get_block n s = Some (InBpram n, s)" using scsp_get_block_bpram [OF icow_okD(2) [OF assms(1)]] assms(3) by blast
    obtain f where f: "put_mem n (put_u64 b0 off u) (ic_fs s) = Some f" using resident_put [OF assms(3)] by blast
    have "block_alloc f = block_alloc (ic_fs s)" using f by (auto simp: put_mem_eq_Some)
    then show ?thesis using False u g f assms(4) w mem_put_mem [OF f]
      by (intro exI [of _ f]) (simp add: commit_store_def load_ptr_def store_ptr_def atomic_result_def)
  qed
qed

lemma indirect_cow_commit_ok:
  assumes "commit_ready s xs c"
  shows "\<exists>s'. indirect_cow_commit s = Some s' \<and> committed s xs (ic_fs s') \<and> ic_heap s' = Map.empty \<and> bpfs_super s' = InBpram BPFS_BLOCKNO_SUPER \<and>
    set (bm_allocs (block_alloc (ic_fs s'))) = set (bm_allocs (block_alloc (ic_fs s))) - cow_nos s (set xs) \<and>
    set (bm_frees (block_alloc (ic_fs s'))) = set (bm_frees (block_alloc (ic_fs s))) - orig_nos s (set xs)"
proof -
  obtain n b0 w s1 where s1: "commit_prepare s = Some ((n, w), s1)" "in_place s xs n b0 w" "resident n (ic_fs s1)" "\<not> kept_no s xs n"
      "unchanged_but s xs (ic_fs s1)" "\<forall>b. kept s xs b \<longrightarrow> written (ic_fs s1) b" "icow_ok s1" "ic_heap s1 = Map.empty"
      "set (bm_allocs (block_alloc (ic_fs s1))) = set (bm_allocs (block_alloc (ic_fs s))) - cow_nos s (set xs)"
      "set (bm_frees (block_alloc (ic_fs s1))) = set (bm_frees (block_alloc (ic_fs s))) - orig_nos s (set xs)"
      "bpfs_super s1 = InBpram BPFS_BLOCKNO_SUPER" using commit_prepare_ok [OF assms] by metis
  have m: "mem n (ic_fs s1) = Some b0" "fst w = None \<longleftrightarrow> snd w = 4096" using s1(2,4,5) by (auto simp: in_place_def unchanged_but_def)
  obtain f where f: "commit_store (n, w) s1 = Some (s1\<lparr>ic_fs := f\<rparr>)" "\<And>m. mem m f = (if m = n then Some (atomic_result b0 w) else mem m (ic_fs s1))"
      "block_alloc f = block_alloc (ic_fs s1)" using commit_store_ok [OF s1(7,8,3) m] by blast
  have ok: "icow_ok s" "parent_stack s = []" using assms by (simp_all add: commit_ready_def)
  obtain a b x y where "ic_heap s a = Some x" "ic_heap s b = Some y" "cow_blkno x \<noteq> 0" "cow_blkno y \<noteq> 0" "a \<noteq> b"
    using ready_two_copies [OF assms] by blast
  note sz = cow_map_size [OF ok(1) this]
  have "indirect_cow_commit s = Some (s1\<lparr>ic_fs := f\<rparr>)" using ok(2) sz s1(1) f(1) by (simp add: indirect_cow_commit_def)
  moreover have "written f b" if "kept s xs b" for b
  proof -
    have "cow_blkno b \<noteq> n" using that s1(4) by (auto simp: kept_no_def)
    then show ?thesis using s1(6) that f(2) [of "cow_blkno b"] by (simp add: written_def)
  qed
  then have "committed s xs f" using s1(2,4,5) f(2) unfolding committed_def unchanged_but_def
    by (intro conjI allI impI exI [of _ n] exI [of _ b0] exI [of _ w]) auto
  ultimately show ?thesis using s1 f(3) by (intro exI [of _ "s1\<lparr>ic_fs := f\<rparr>"]) simp
qed

section \<open>Crashes during a commit\<close>

text \<open>The state after \<open>k\<close> rounds of the loop over the copies.\<close>

primrec copy_upto :: "nat \<Rightarrow> addr hash_map_it2 \<Rightarrow> icow \<Rightarrow> (addr hash_map_it2 \<times> icow) option" where
  "copy_upto 0 it s = Some (it, s)"
| "copy_upto (Suc k) it s = do {
     (more, it) \<leftarrow> hash_map_it2_next (blkno_map_cow s) it;
     check more;
     e \<leftarrow> it_elt it;
     s \<leftarrow> copy_block (snd e) s;
     copy_upto k it s
   }"

text \<open>The memory at the moments between the block copies of a commit: at its start, after \<open>k\<close> rounds of the loop, and at its end.\<close>

inductive commit_moment :: "icow \<Rightarrow> fs \<Rightarrow> bool" where
  start: "commit_moment s (ic_fs s)"
| copying: "hash_map_size (blkno_map_cow s) \<noteq> 1 \<Longrightarrow> commit_begin s = Some (w, s1) \<Longrightarrow> hash_map_it2_create (blkno_map_cow s1) = Some it \<Longrightarrow>
    copy_upto k it s1 = Some (it', s2) \<Longrightarrow> commit_moment s (ic_fs s2)"
| stored: "indirect_cow_commit s = Some s1 \<Longrightarrow> commit_moment s (ic_fs s1)"

text \<open>The memory after a crash. The commit has no barrier, so its stores may reach the memory in any order and any of them may be
  missing: every aligned word of every block has what it held at some moment of the commit, each word at a moment of its own.\<close>

definition commit_crash :: "icow \<Rightarrow> fs \<Rightarrow> bool" where
  "commit_crash s f \<longleftrightarrow> length (bpram f) = length (bpram (ic_fs s)) \<and>
     (\<forall>n b. mem n f = Some b \<longrightarrow> (\<forall>off \<in> set word_offs. \<exists>g d. commit_moment s g \<and> mem n g = Some d \<and> get_u64 b off = get_u64 d off))"

lemma copy_upto_inv:
  assumes "icow_ok s" and "copy_inv s es s1" and "it_ok (blkno_map_cow s1) it" and "it_rest (blkno_map_cow s1) it = es"
    and "copy_upto k it s1 = Some (it', s2)"
  shows "\<exists>es'. copy_inv s es' s2 \<and> it_ok (blkno_map_cow s2) it' \<and> it_rest (blkno_map_cow s2) it' = es'"
  using assms(2-5)
proof (induction k arbitrary: es s1 it)
  case (Suc k)
  have t: "table_ok (blkno_map_cow s1)"
    using Suc.prems(1) icow_okD(2) [of s1] by (auto simp: copy_inv_def copied_def ptr_map_ok_def hash_map_ok_def)
  note n = it2_next_ok [OF t Suc.prems(2)]
  show ?case
  proof (cases es)
    case Nil
    then show ?thesis using n Suc.prems(3,4) by simp
  next
    case (Cons e es')
    then obtain it1 where it1: "hash_map_it2_next (blkno_map_cow s1) it = Some (True, it1)" "it_elt it1 = Some e" "it_ok (blkno_map_cow s1) it1"
        "it_rest (blkno_map_cow s1) it1 = es'" using n Suc.prems(3) by auto
    obtain s' where s': "copy_block (snd e) s1 = Some s'" "copy_inv s es' s'" "it_ok (blkno_map_cow s') it1" "it_rest (blkno_map_cow s') it1 = es'"
      using copy_loop_step [OF assms(1)] Suc.prems(1) it1(3,4) Cons unfolding cc.loop_step_def by blast
    have "copy_upto k it1 s' = Some (it', s2)" using Suc.prems(4) it1 s'(1) by simp
    then show ?thesis using Suc.IH [OF s'(2,3,4)] by blast
  qed
qed auto

lemma copying_unchanged:
  assumes ready: "commit_ready s xs c" and b: "commit_begin s = Some (w, s1)" "hash_map_it2_create (blkno_map_cow s1) = Some it"
      "copy_upto k it s1 = Some (it', s2)"
  shows "unchanged_but s xs (ic_fs s2)"
proof -
  let ?s = "s\<lparr>bpfs_super := InBpram BPFS_BLOCKNO_SUPER\<rparr>"
  have ok: "icow_ok s" using ready by (simp add: commit_ready_def)
  have r: "rolled ?s (set xs) s1" using commit_begin_ok [OF ready] b(1) by auto
  then have ok1: "icow_ok s1" by (simp add: rolled_def)
  have t1: "table_ok (blkno_map_cow s1)" using icow_okD(2) [OF ok1] by (simp add: ptr_map_ok_def hash_map_ok_def)
  have it: "it_ok (blkno_map_cow s1) it" "it_rest (blkno_map_cow s1) it = concat (buckets (blkno_map_cow s1))"
    using it2_create_ok [OF t1] b(2) by auto
  have "copy_inv s1 (concat (buckets (blkno_map_cow s1))) s1" using entries_map [OF t1] copied_start [OF ok1] by (simp add: copy_inv_def)
  then have "copied s1 s2" using copy_upto_inv [OF ok1 _ it b(3)] by (auto simp: copy_inv_def)
  then show ?thesis using rolled_copied(1) [OF r ok] by blast
qed

text \<open>Only the end of a commit differs from its start outside of the new blocks.\<close>

lemma commit_moment_cases:
  assumes "commit_moment s g" and ready: "commit_ready s xs c" and "indirect_cow_commit s = Some s'"
  shows "unchanged_but s xs g \<or> g = ic_fs s'"
  using assms(1)
proof cases
  case start
  then show ?thesis by (simp add: unchanged_but_def)
next
  case (copying w s1 it k it' s2)
  then show ?thesis using copying_unchanged [OF ready] by blast
next
  case (stored s1)
  then show ?thesis using assms(3) by simp
qed

text \<open>The blocks that were in use before the transaction are none of the new blocks.\<close>

lemma kept_no_fresh:
  assumes "icow_ok s" and "kept_no s xs n"
  shows "unat (n - 1) \<notin> bitmap_persistent (block_alloc (ic_fs s))"
proof -
  obtain a b where "ic_heap s a = Some b" "cow_blkno b \<noteq> 0" "n = cow_blkno b" using assms(2) by (auto simp: kept_no_def kept_def)
  then have "n - 1 \<in> set (bm_allocs (block_alloc (ic_fs s)))" using icow_okD(6) [OF assms(1)] by (metis copy_ok_def cow_staged_def)
  then show ?thesis by (auto simp: bitmap_persistent_def)
qed

section \<open>A transaction without changes\<close>

lemma hash_map_clear_ok:
  assumes "ptr_map_ok hm"
  shows "\<exists>m. hash_map_clear hm = Some m \<and> ptr_map_ok m \<and> hm_map m = Map.empty"
proof -
  let ?n = "unat (v_size (hm_tbl hm))"
  let ?m = "bump (hm\<lparr>hm_size := 0, hm_tbl := (hm_tbl hm)\<lparr>v_elts := replicate ?n []\<rparr>\<rparr>)"
  have t: "table_ok hm" and ty: "hm_type hm = TPtr" using assms by (simp_all add: ptr_map_ok_def hash_map_ok_def)
  have l: "length (v_elts (hm_tbl hm)) = ?n" using table_okD(1) [OF t] by (simp add: buckets_def)
  have c: "hash_map_clear hm = Some ?m" by (simp add: hash_map_clear_def l)
  have b: "buckets ?m = replicate ?n []" by (simp add: buckets_def)
  have "table_ok ?m" using t l unfolding table_ok_def b by (auto simp: vector_ok_def chain_ok_def)
  moreover have "concat (buckets ?m) = []" unfolding b by simp
  moreover have "hm_size ?m = 0" by (simp add: bump_def)
  ultimately have ok: "hash_map_ok ?m" "table_ok ?m" by (simp_all only: hash_map_ok_def list.size simp_thms) simp
  have "hm_map ?m = Map.empty" using entries_map(2) [OF ok(2)] \<open>concat (buckets ?m) = []\<close> by (metis map_of.simps(1))
  then show ?thesis using c ok(1) ty by (intro exI [of _ ?m]) (simp add: ptr_map_ok_def)
qed

definition free_all_inv :: "icow \<Rightarrow> (hkey \<times> addr) list \<Rightarrow> icow \<Rightarrow> bool" where
  "free_all_inv s es s' \<longleftrightarrow> distinct (map snd es) \<and> (\<forall>e \<in> set es. \<exists>b. ic_heap s (snd e) = Some b \<and> dram b = None \<and> cow_blkno b = 0) \<and>
     ptr_map_ok (blkno_map_orig s) \<and> s' = s\<lparr>ic_heap := (\<lambda>a. if a \<in> snd ` set es then ic_heap s a else None)\<rparr>"

lemma free_all_step: "fa.loop_step (free_all_inv s)"
  unfolding fa.loop_step_def
proof (intro allI impI)
  fix e es s1 it
  assume I: "free_all_inv s (e # es) s1" and it: "it_ok (blkno_map_orig s1) it" "it_rest (blkno_map_orig s1) it = es"
  have s1: "s1 = s\<lparr>ic_heap := (\<lambda>a. if a \<in> snd ` set (e # es) then ic_heap s a else None)\<rparr>" and d: "snd e \<notin> snd ` set es"
    using I by (auto simp: free_all_inv_def)
  obtain b where b: "ic_heap s (snd e) = Some b" "dram b = None" "cow_blkno b = 0" using I by (auto simp: free_all_inv_def)
  let ?s = "s\<lparr>ic_heap := (\<lambda>a. if a \<in> snd ` set es then ic_heap s a else None)\<rparr>"
  have "(ic_heap s1)(snd e := None) = ic_heap ?s" using d by (auto simp: s1 fun_eq_iff)
  then have "free_all_block (snd e) s1 = Some ?s" using b by (simp add: free_all_block_def delete_block_def s1)
  moreover have "free_all_inv s es ?s" using I by (auto simp: free_all_inv_def)
  moreover have "blkno_map_orig ?s = blkno_map_orig s1" by (simp add: s1)
  ultimately show "\<exists>s'. free_all_block (snd e) s1 = Some s' \<and> free_all_inv s es s' \<and> it_ok (blkno_map_orig s') it \<and> it_rest (blkno_map_orig s') it = es"
    using it by metis
qed

lemma map_of_elem: "distinct (map fst es) \<Longrightarrow> e \<in> set es \<Longrightarrow> map_of es (fst e) = Some (snd e)"
  by (cases e) simp

lemma entries_inj:
  assumes ok: "icow_ok s" and es: "distinct (map fst es)" "map_of es = hm_map (blkno_map_orig s)"
  shows "distinct (map snd es)"
proof -
  have "fst e = fst e'" if "e \<in> set es" "e' \<in> set es" "snd e = snd e'" for e e'
  proof -
    have "hm_map (blkno_map_orig s) (fst e) = Some (snd e)" "hm_map (blkno_map_orig s) (fst e') = Some (snd e)"
      using map_of_elem [OF es(1) that(1)] map_of_elem [OF es(1) that(2)] es(2) that(3) by simp_all
    then show ?thesis using icow_ok_origE [OF ok] by (metis option.inject)
  qed
  then have "inj_on snd (set es)" by (intro inj_onI prod_eqI) blast+
  then show ?thesis using es(1) by (simp add: distinct_map)
qed

lemma free_all_ok:
  assumes ok: "ptr_map_ok (blkno_map_orig s)"
    and heap: "\<And>k a. hm_map (blkno_map_orig s) k = Some a \<Longrightarrow> \<exists>b. ic_heap s a = Some b \<and> dram b = None \<and> cow_blkno b = 0"
    and all: "\<And>a b. ic_heap s a = Some b \<Longrightarrow> \<exists>k. hm_map (blkno_map_orig s) k = Some a"
    and inj: "\<And>es. distinct (map fst es) \<Longrightarrow> map_of es = hm_map (blkno_map_orig s) \<Longrightarrow> distinct (map snd es)"
  shows "\<exists>it. hash_map_it2_create (blkno_map_orig s) = Some it \<and> free_all it s = Some (s\<lparr>ic_heap := Map.empty\<rparr>)"
proof -
  have "free_all_inv s es s" if es: "distinct (map fst es)" "map_of es = hm_map (blkno_map_orig s)" for es
  proof -
    have "\<exists>b. ic_heap s (snd e) = Some b \<and> dram b = None \<and> cow_blkno b = 0" if "e \<in> set es" for e
      using heap [of "fst e" "snd e"] map_of_elem [OF es(1) that] es(2) by simp
    moreover have "(if a \<in> snd ` set es then ic_heap s a else None) = ic_heap s a" for a
    proof (cases "ic_heap s a")
      case (Some b)
      then obtain k where "map_of es k = Some a" using all es(2) by metis
      then have "a \<in> snd ` set es" by (metis image_eqI map_of_SomeD snd_conv)
      then show ?thesis by simp
    qed simp
    ultimately show ?thesis using inj [OF es] ok by (simp add: free_all_inv_def)
  qed
  then obtain it s' where "hash_map_it2_create (blkno_map_orig s) = Some it" "free_all it s = Some s'" "free_all_inv s [] s'"
    using fa.loop_all [of s "free_all_inv s"] ok free_all_step [of s] by (auto simp: free_all_inv_def)
  then show ?thesis by (simp add: free_all_inv_def)
qed

lemma commit_unchanged_ok:
  assumes ok: "icow_ok s" and ps: "parent_stack s = []" and sp: "bpram_super_ok (ic_fs s)"
    and a: "hm_map (blkno_map_orig s) (KPtr BPFS_BLOCKNO_SUPER) = Some a" "ic_heap s a = Some b" "cow_blkno b \<noteq> 0"
    and only: "\<And>a' b'. ic_heap s a' = Some b' \<Longrightarrow> cow_blkno b' \<noteq> 0 \<Longrightarrow> a' = a"
  shows "\<exists>s'. indirect_cow_commit s = Some s' \<and> icow_ok s' \<and> ic_heap s' = Map.empty \<and> dropped BPFS_BLOCKNO_SUPER (cow_blkno b) (ic_fs s) (ic_fs s') \<and>
    bpfs_super s' = InBpram BPFS_BLOCKNO_SUPER \<and> parent_stack s' = []"
proof -
  have o: "orig_blkno b = 1" using icow_ok_origE [OF ok a(1)] a(2) by auto
  have st: "cow_staged (ic_fs s) 1 (cow_blkno b)" using icow_okD(6) [OF ok a(2)] a(3) o by (simp add: copy_ok_def)
  obtain f1 f2 where f: "unfree_block 1 (ic_fs s) = Some f1" "unalloc_block (cow_blkno b) f1 = Some f2" "dropped 1 (cow_blkno b) (ic_fs s) f2"
    using drop_copy_swapped [OF icow_okD(3) [OF ok] st] by blast
  let ?s0 = "s\<lparr>bpfs_super := InBpram 1\<rparr>"
  obtain cm where cm: "erase_cow (cow_blkno b) ?s0 = Some (?s0\<lparr>blkno_map_cow := cm\<rparr>)" "ptr_map_ok cm"
      "hm_map cm = (hm_map (blkno_map_cow s))(KPtr (cow_blkno b) := None)" using erase_cow_ok [of ?s0 "cow_blkno b"] icow_okD(2) [OF ok] by auto
  have D: "hm_map (blkno_map_cow s) k = None" if "k \<noteq> KPtr (cow_blkno b)" for k
  proof (rule ccontr)
    assume "hm_map (blkno_map_cow s) k \<noteq> None"
    then obtain x where x: "hm_map (blkno_map_cow s) k = Some x" by blast
    obtain y where "ic_heap s x = Some y" "cow_blkno y \<noteq> 0" "k = KPtr (cow_blkno y)" using icow_ok_cowE [OF ok x] .
    then show False using only [of x y] a(2) that by auto
  qed
  have e: "hm_map cm = Map.empty" using D by (auto simp: cm(3) fun_eq_iff)
  have "k \<in> dom (hm_map (blkno_map_cow s)) \<longleftrightarrow> k = KPtr (cow_blkno b)" for k
    using D [of k] icow_okD(5) [OF ok a(2,3)] by (cases "k = KPtr (cow_blkno b)") (auto simp: dom_def)
  then have "dom (hm_map (blkno_map_cow s)) = {KPtr (cow_blkno b)}" by blast
  then have sz: "hash_map_size (blkno_map_cow s) = 1" using size_card [of "blkno_map_cow s"] icow_okD(2) [OF ok] by (simp add: ptr_map_ok_def)
  then have ne: "\<not> hash_map_empty (blkno_map_cow s)" by (simp add: hash_map_empty_def hash_map_size_def)
  let ?t = "?s0\<lparr>blkno_map_cow := cm, ic_fs := f2, ic_heap := (ic_heap s)(a \<mapsto> b\<lparr>dram := None, cow_blkno := 0\<rparr>)\<rparr>"
  have "\<exists>it. hash_map_it2_create (blkno_map_orig ?t) = Some it \<and> free_all it ?t = Some (?t\<lparr>ic_heap := Map.empty\<rparr>)"
  proof (rule free_all_ok)
    show "ptr_map_ok (blkno_map_orig ?t)" using icow_okD(1) [OF ok] by simp
    show "\<exists>b. ic_heap ?t x = Some b \<and> dram b = None \<and> cow_blkno b = 0" if "hm_map (blkno_map_orig ?t) k = Some x" for k x
    proof (cases "x = a")
      case False
      have "hm_map (blkno_map_orig s) k = Some x" using that by simp
      then obtain y where y: "ic_heap s x = Some y" using icow_ok_origE [OF ok] by blast
      then have "cow_blkno y = 0" using only False by blast
      then show ?thesis using False y icow_okD(6) [OF ok y] by (simp add: copy_ok_def)
    qed simp
    show "\<exists>k. hm_map (blkno_map_orig ?t) k = Some x" if "ic_heap ?t x = Some y" for x y
      using that a(1) icow_okD(4) [OF ok, of x] by (auto split: if_splits)
    show "distinct (map snd es)" if "distinct (map fst es)" "map_of es = hm_map (blkno_map_orig ?t)" for es
      using entries_inj [OF ok that(1)] that(2) by simp
  qed
  then obtain it where it: "hash_map_it2_create (blkno_map_orig s) = Some it" "free_all it ?t = Some (?t\<lparr>ic_heap := Map.empty\<rparr>)" by auto
  obtain om where om: "hash_map_clear (blkno_map_orig s) = Some om" "ptr_map_ok om" "hm_map om = Map.empty"
    using hash_map_clear_ok [OF icow_okD(1) [OF ok]] by blast
  let ?s = "?t\<lparr>ic_heap := Map.empty, blkno_map_orig := om\<rparr>"
  have "commit_unchanged s = Some ?s" using a set_super_ok [OF sp] cm(1) f(1,2) it om(1) find_eq(1) [OF ok]
    by (simp add: commit_unchanged_def on_fs_def upd_block_def)
  then have "indirect_cow_commit s = Some ?s" using ps sz ne by (simp add: indirect_cow_commit_def)
  moreover have "icow_ok ?s" using om cm(2) e dropped_mem [OF f(3)] by (simp add: icow_ok_def)
  ultimately show ?thesis using f(3) ps by auto
qed

end
