(* ===== verification/Cow_Inv.thy ===== *)
theory Cow_Inv
  imports Cow_Commit
begin

text \<open>
  The invariant of a transaction: what the calls that follow pointers and make copies keep of the tables.
\<close>

section \<open>Invariant of a transaction\<close>

definition in_use :: "fs \<Rightarrow> u64 \<Rightarrow> bool" where
  "in_use f n \<longleftrightarrow> n AND disk_bit \<noteq> 0 \<or> unat (n - 1) \<in> bitmap_used (block_alloc f)"

definition icow_inv :: "icow \<Rightarrow> bool" where
  "icow_inv s \<longleftrightarrow> icow_ok s \<and> (\<forall>a. ic_fresh s \<le> a \<longrightarrow> ic_heap s a = None) \<and>
     (\<forall>a b. ic_heap s a = Some b \<longrightarrow> in_use (ic_fs s) (orig_blkno b))"

text \<open>Two blocks differ in links, the contents of the copy and the flag of a copied block only.\<close>

definition same_core :: "ic_block \<Rightarrow> ic_block \<Rightarrow> bool" where
  "same_core b c \<longleftrightarrow> orig_blkno b = orig_blkno c \<and> cow_blkno b = cow_blkno c \<and> (dram b = None \<longleftrightarrow> dram c = None) \<and>
     (cow_blkno b = 0 \<longrightarrow> required b = required c)"

lemma same_core_refl [simp]: "same_core b b" "rel_option same_core x x"
  by (simp_all add: same_core_def option.rel_refl)

lemma same_core_cases:
  assumes "rel_option same_core x y"
  shows "(x = None \<and> y = None) \<or> (\<exists>b c. x = Some b \<and> y = Some c \<and> same_core b c)"
  using assms by (cases x; cases y) auto

lemma same_core_Some:
  assumes "rel_option same_core x y"
  shows "x = Some b \<Longrightarrow> \<exists>c. y = Some c \<and> same_core b c" "y = Some c \<Longrightarrow> \<exists>b. x = Some b \<and> same_core b c"
  using assms by (cases x; cases y; simp)+

lemma icow_ok_core:
  assumes ok: "icow_ok s" and m: "blkno_map_orig s' = blkno_map_orig s" "blkno_map_cow s' = blkno_map_cow s"
    and f: "blocks_ok (ic_fs s')" "\<And>a b. ic_heap s a = Some b \<Longrightarrow> cow_blkno b \<noteq> 0 \<Longrightarrow> cow_staged (ic_fs s') (orig_blkno b) (cow_blkno b)"
    and h: "\<And>a. rel_option same_core (ic_heap s a) (ic_heap s' a)"
  shows "icow_ok s'"
proof -
  have e: "(\<exists>b. ic_heap s' a = Some b \<and> P (orig_blkno b) (cow_blkno b)) \<longleftrightarrow> (\<exists>b. ic_heap s a = Some b \<and> P (orig_blkno b) (cow_blkno b))" for a P
    using same_core_cases [OF h [of a]] by (auto simp: same_core_def)
  have "hm_map (blkno_map_orig s) k = Some a \<longleftrightarrow> (\<exists>b. ic_heap s' a = Some b \<and> k = KPtr (orig_blkno b))" for k a
    unfolding e [of a "\<lambda>n c. k = KPtr n"] using ok by (simp add: icow_ok_def)
  moreover have "hm_map (blkno_map_cow s) k = Some a \<longleftrightarrow> (\<exists>b. ic_heap s' a = Some b \<and> cow_blkno b \<noteq> 0 \<and> k = KPtr (cow_blkno b))" for k a
    unfolding e [of a "\<lambda>n c. c \<noteq> 0 \<and> k = KPtr c"] using ok by (simp add: icow_ok_def)
  moreover have "copy_ok (ic_fs s') c \<and> hm_map (blkno_map_cow s) (KPtr (orig_blkno c)) = None" if c: "ic_heap s' a = Some c" for a c
  proof -
    obtain b where b: "ic_heap s a = Some b" "same_core b c" using same_core_cases [OF h [of a]] c by auto
    then show ?thesis using icow_okD(6,7) [OF ok b(1)] f(2) [OF b(1)] by (auto simp: copy_ok_def same_core_def)
  qed
  ultimately show ?thesis unfolding icow_ok_def m using icow_okD(1,2) [OF ok] f(1) by blast
qed

lemma icow_inv_core:
  assumes inv: "icow_inv s" and m: "blkno_map_orig s' = blkno_map_orig s" "blkno_map_cow s' = blkno_map_cow s"
    and f: "ic_fs s' = ic_fs s" "ic_fresh s' = ic_fresh s" and h: "\<And>a. rel_option same_core (ic_heap s a) (ic_heap s' a)"
  shows "icow_inv s'"
proof -
  have ok: "icow_ok s" using inv by (simp add: icow_inv_def)
  have "cow_staged (ic_fs s') (orig_blkno b) (cow_blkno b)" if "ic_heap s a = Some b" "cow_blkno b \<noteq> 0" for a b
    using icow_okD(6) [OF ok that(1)] that(2) f(1) by (simp add: copy_ok_def)
  then have "icow_ok s'" using icow_okD(3) [OF ok] f(1) by (intro icow_ok_core [OF ok m _ _ h]) simp_all
  moreover have "ic_heap s' a = None" if "ic_fresh s' \<le> a" for a
    using same_core_cases [OF h [of a]] inv that f(2) by (auto simp: icow_inv_def)
  moreover have "in_use (ic_fs s') (orig_blkno c)" if c: "ic_heap s' a = Some c" for a c
  proof -
    obtain b where b: "ic_heap s a = Some b" "same_core b c" using same_core_cases [OF h [of a]] c by auto
    have "in_use (ic_fs s) (orig_blkno b)" using inv b(1) by (simp add: icow_inv_def)
    then show ?thesis using b(2) f(1) by (simp add: same_core_def)
  qed
  ultimately show ?thesis by (simp add: icow_inv_def)
qed

lemma icow_inv_stack [simp]: "icow_inv (s\<lparr>parent_stack := p\<rparr>) = icow_inv s" "icow_inv (s\<lparr>bpfs_super := q\<rparr>) = icow_inv s"
  by (simp_all add: icow_inv_def icow_ok_def)

lemma insert_ptr:
  assumes "ptr_map_ok hm" and "hash_map_insert pool m hm (KPtr n) v = Some (r, hm')"
  shows "ptr_map_ok hm' \<and> hm_map hm' = (hm_map hm)(KPtr n \<mapsto> v) \<and> r = (if hm_map hm (KPtr n) = None then 0 else 1)"
proof -
  have "hash_map_insert True m hm (KPtr n) v = Some (r, hm')"
    using assms(2) by (auto simp: hash_map_insert_def chain_elt_create_def bind_Some_eq split: option.splits)
  then show ?thesis using hash_map_insert_ok [of hm "KPtr n" m v] assms(1) by (auto simp: ptr_map_ok_def)
qed

section \<open>New blocks\<close>

lemma block_get_either_eq:
  assumes "icow_ok s"
  shows "block_get_either n s = Some r \<Longrightarrow> r = None \<Longrightarrow> hm_map (blkno_map_orig s) (KPtr n) = None \<and> hm_map (blkno_map_cow s) (KPtr n) = None"
  using find_eq [OF assms] by (auto simp: block_get_either_def bind_Some_eq split: if_splits option.splits)

text \<open>A block is added with links to its parent.\<close>

definition added :: "icow \<Rightarrow> u64 \<Rightarrow> u64 \<Rightarrow> addr \<Rightarrow> icow \<Rightarrow> bool" where
  "added s orig cow a s' \<longleftrightarrow> a = ic_fresh s \<and> (\<exists>b. ic_heap s' a = Some b \<and> orig_blkno b = orig \<and> cow_blkno b = cow \<and> dram b = None \<and> \<not> required b) \<and>
     (\<forall>x. x \<noteq> a \<longrightarrow> rel_option same_core (ic_heap s x) (ic_heap s' x)) \<and>
     blkno_map_orig s' = blkno_map_orig s \<and> blkno_map_cow s' = blkno_map_cow s \<and> ic_fs s' = ic_fs s \<and> ic_fresh s' = Suc a \<and>
     bpfs_super s' = bpfs_super s \<and> parent_stack s' = parent_stack s \<and>
     hm_map (blkno_map_orig s) (KPtr orig) = None \<and> hm_map (blkno_map_cow s) (KPtr orig) = None \<and>
     hm_map (blkno_map_orig s) (KPtr cow) = None \<and> hm_map (blkno_map_cow s) (KPtr cow) = None"

lemma block_create_added:
  assumes inv: "icow_inv s" and "block_create m orig cow s = Some (r, s')"
  shows "case r of None \<Rightarrow> s' = s | Some a \<Rightarrow> added s orig cow a s'"
proof -
  have ok: "icow_ok s" and fr: "ic_heap s (ic_fresh s) = None" using inv by (simp_all add: icow_inv_def)
  note g = block_get_either_eq [OF ok, of _ None]
  show ?thesis
  proof (cases "parent_get s")
    case None
    then show ?thesis using assms(2) fr g
      by (auto simp: block_create_def Let_def bind_Some_eq added_def split: if_splits)
  next
    case (Some p)
    then show ?thesis using assms(2) fr g
      by (auto simp: block_create_def Let_def bind_Some_eq added_def same_core_def split: if_splits)
  qed
qed

text \<open>A block is new, or becomes a copy.\<close>

lemma icow_ok_add:
  assumes ok: "icow_ok s" and a: "ic_heap s' a = Some b"
    and old: "ic_heap s a = None \<and> hm_map (blkno_map_orig s) (KPtr (orig_blkno b)) = None \<or>
      (\<exists>b0. ic_heap s a = Some b0 \<and> orig_blkno b0 = orig_blkno b \<and> cow_blkno b0 = 0)"
    and h: "\<And>x. x \<noteq> a \<Longrightarrow> rel_option same_core (ic_heap s x) (ic_heap s' x)"
    and om: "ptr_map_ok (blkno_map_orig s')" "hm_map (blkno_map_orig s') = (hm_map (blkno_map_orig s))(KPtr (orig_blkno b) \<mapsto> a)"
    and cm: "ptr_map_ok (blkno_map_cow s')" "hm_map (blkno_map_cow s') = (if cow_blkno b = 0 then hm_map (blkno_map_cow s)
      else (hm_map (blkno_map_cow s))(KPtr (cow_blkno b) \<mapsto> a))"
    and n: "hm_map (blkno_map_cow s) (KPtr (orig_blkno b)) = None"
    and c: "cow_blkno b \<noteq> 0 \<Longrightarrow> hm_map (blkno_map_cow s) (KPtr (cow_blkno b)) = None \<and> hm_map (blkno_map_orig s) (KPtr (cow_blkno b)) = None \<and>
      cow_blkno b \<noteq> orig_blkno b"
    and f: "blocks_ok (ic_fs s')" "copy_ok (ic_fs s') b"
      "\<And>x d. ic_heap s x = Some d \<Longrightarrow> cow_blkno d \<noteq> 0 \<Longrightarrow> cow_staged (ic_fs s') (orig_blkno d) (cow_blkno d)"
  shows "icow_ok s'"
proof -
  have other: "ic_heap s' x = Some d \<Longrightarrow> x \<noteq> a \<Longrightarrow> \<exists>e. ic_heap s x = Some e \<and> same_core e d"
    "ic_heap s x = Some e \<Longrightarrow> x \<noteq> a \<Longrightarrow> \<exists>d. ic_heap s' x = Some d \<and> same_core e d" for x d e
    using same_core_cases [OF h [of x]] by auto
  have o1: "orig_blkno d \<noteq> orig_blkno b" if "ic_heap s x = Some d" "x \<noteq> a" for x d
    using old icow_okD(4) [OF ok that(1)] icow_inj(1) [OF ok that(1) _ that(2)] by auto
  have 1: "hm_map (blkno_map_orig s') k = Some x \<longleftrightarrow> (\<exists>d. ic_heap s' x = Some d \<and> k = KPtr (orig_blkno d))" for k x
  proof (cases "x = a")
    case True
    have "k = KPtr (orig_blkno b)" if k: "hm_map (blkno_map_orig s) k = Some a"
    proof -
      obtain b1 where "ic_heap s a = Some b1" "k = KPtr (orig_blkno b1)" using icow_ok_origE [OF ok k] .
      then show ?thesis using old by auto
    qed
    then show ?thesis using True a by (auto simp: om(2))
  next
    case False
    show ?thesis
    proof
      assume "hm_map (blkno_map_orig s') k = Some x"
      then have "hm_map (blkno_map_orig s) k = Some x" using False by (auto simp: om(2) split: if_splits)
      then obtain e where "ic_heap s x = Some e" "k = KPtr (orig_blkno e)" using icow_ok_origE [OF ok] by blast
      then show "\<exists>d. ic_heap s' x = Some d \<and> k = KPtr (orig_blkno d)" using other(2) [OF _ False] by (fastforce simp: same_core_def)
    next
      assume "\<exists>d. ic_heap s' x = Some d \<and> k = KPtr (orig_blkno d)"
      then obtain d where d: "ic_heap s' x = Some d" "k = KPtr (orig_blkno d)" by blast
      obtain e where e: "ic_heap s x = Some e" "same_core e d" using other(1) [OF d(1) False] by blast
      then show "hm_map (blkno_map_orig s') k = Some x"
        using icow_okD(4) [OF ok e(1)] o1 [OF e(1) False] d(2) by (simp add: om(2) same_core_def)
    qed
  qed
  have 2: "hm_map (blkno_map_cow s') k = Some x \<longleftrightarrow> (\<exists>d. ic_heap s' x = Some d \<and> cow_blkno d \<noteq> 0 \<and> k = KPtr (cow_blkno d))" for k x
  proof (cases "x = a")
    case True
    have "hm_map (blkno_map_cow s) k \<noteq> Some a"
    proof
      assume k: "hm_map (blkno_map_cow s) k = Some a"
      obtain b1 where "ic_heap s a = Some b1" "cow_blkno b1 \<noteq> 0" using icow_ok_cowE [OF ok k] .
      then show False using old by auto
    qed
    then show ?thesis using True a by (auto simp: cm(2))
  next
    case False
    show ?thesis
    proof
      assume "hm_map (blkno_map_cow s') k = Some x"
      then have "hm_map (blkno_map_cow s) k = Some x" using False by (auto simp: cm(2) split: if_splits)
      then obtain e where "ic_heap s x = Some e" "cow_blkno e \<noteq> 0" "k = KPtr (cow_blkno e)" using icow_ok_cowE [OF ok] by blast
      then show "\<exists>d. ic_heap s' x = Some d \<and> cow_blkno d \<noteq> 0 \<and> k = KPtr (cow_blkno d)" using other(2) [OF _ False] by (fastforce simp: same_core_def)
    next
      assume "\<exists>d. ic_heap s' x = Some d \<and> cow_blkno d \<noteq> 0 \<and> k = KPtr (cow_blkno d)"
      then obtain d where d: "ic_heap s' x = Some d" "cow_blkno d \<noteq> 0" "k = KPtr (cow_blkno d)" by blast
      obtain e where e: "ic_heap s x = Some e" "same_core e d" using other(1) [OF d(1) False] by blast
      have m: "hm_map (blkno_map_cow s) k = Some x" using icow_okD(5) [OF ok e(1)] e(2) d by (simp add: same_core_def)
      then have "cow_blkno b \<noteq> 0 \<longrightarrow> k \<noteq> KPtr (cow_blkno b)" using c by auto
      then show "hm_map (blkno_map_cow s') k = Some x" using m by (simp add: cm(2))
    qed
  qed
  have 3: "copy_ok (ic_fs s') d \<and> hm_map (blkno_map_cow s') (KPtr (orig_blkno d)) = None" if d: "ic_heap s' x = Some d" for x d
  proof (cases "x = a")
    case True
    then show ?thesis using d a f(2) n c by (cases "cow_blkno b = 0") (auto simp: cm(2))
  next
    case False
    obtain e where e: "ic_heap s x = Some e" "same_core e d" using other(1) [OF d False] by blast
    have "cow_blkno b \<noteq> 0 \<longrightarrow> orig_blkno e \<noteq> cow_blkno b" using c icow_okD(4) [OF ok e(1)] by auto
    then show ?thesis using icow_okD(6,7) [OF ok e(1)] e(2) f(3) [OF e(1)] by (auto simp: cm(2) copy_ok_def same_core_def)
  qed
  show ?thesis unfolding icow_ok_def using om(1) cm(1) f(1) 1 2 3 by blast
qed

section \<open>Parents\<close>

lemma parent_push_inv:
  assumes inv: "icow_inv s" and use: "in_use (ic_fs s) n" and p: "indirect_cow_parent_push m n s = Some (r, s')"
  shows "icow_inv s' \<and> ic_fs s' = ic_fs s"
proof -
  have ok: "icow_ok s" using inv by (simp add: icow_inv_def)
  obtain e where e: "block_get_either n s = Some e" using p by (auto simp: indirect_cow_parent_push_def bind_Some_eq)
  show ?thesis
  proof (cases e)
    case (Some a)
    then have "s' = s\<lparr>parent_stack := a # parent_stack s\<rparr>" using e p by (auto simp: indirect_cow_parent_push_def push_parent_def bind_Some_eq)
    then show ?thesis using inv by simp
  next
    case None
    then obtain x s1 where c: "block_create (mem_block m) n 0 s = Some (x, s1)" using e p by (auto simp: indirect_cow_parent_push_def bind_Some_eq)
    show ?thesis
    proof (cases x)
      case None
      then show ?thesis using \<open>e = None\<close> e p c block_create_added [OF inv c] inv by (simp add: indirect_cow_parent_push_def)
    next
      case (Some a)
      then have ad: "added s n 0 a s1" using block_create_added [OF inv c] by simp
      obtain om where om: "hash_map_insert (fst (mem_orig m)) (snd (mem_orig m)) (blkno_map_orig s1) (KPtr n) a = Some (0, om)"
          "s' = s1\<lparr>blkno_map_orig := om, parent_stack := a # parent_stack s1\<rparr>"
        using \<open>e = None\<close> e p c Some by (auto simp: indirect_cow_parent_push_def push_parent_def bind_Some_eq)
      have s1: "a = ic_fresh s" and h: "\<And>x. x \<noteq> a \<Longrightarrow> rel_option same_core (ic_heap s x) (ic_heap s1 x)"
        using ad by (simp_all add: added_def)
      obtain b where b: "ic_heap s1 a = Some b" "orig_blkno b = n" "cow_blkno b = 0" "dram b = None" "\<not> required b" using ad by (auto simp: added_def)
      have eq: "blkno_map_orig s1 = blkno_map_orig s" "blkno_map_cow s1 = blkno_map_cow s" "ic_fs s1 = ic_fs s" "ic_fresh s1 = Suc a"
        using ad by (simp_all add: added_def)
      have om': "ptr_map_ok om" "hm_map om = (hm_map (blkno_map_orig s))(KPtr n \<mapsto> a)" using insert_ptr [OF _ om(1)] icow_okD(1) [OF ok] eq(1) by auto
      have fr: "ic_heap s a = None" using inv s1 by (simp add: icow_inv_def)
      have st: "cow_staged (ic_fs s) (orig_blkno d) (cow_blkno d)" if "ic_heap s x = Some d" "cow_blkno d \<noteq> 0" for x d
        using icow_okD(6) [OF ok that(1)] that(2) by (simp add: copy_ok_def)
      have "icow_ok s'" by (rule icow_ok_add [OF ok, of s' a b])
          (use b fr h om om' eq ad st icow_okD(2,3) [OF ok] in \<open>auto simp: added_def copy_ok_def\<close>)
      moreover have "ic_heap s' x = None" if "ic_fresh s' \<le> x" for x
      proof -
        have "x \<noteq> a" "ic_heap s x = None" using that om(2) eq(4) s1 inv by (simp_all add: icow_inv_def)
        then show ?thesis using same_core_cases [OF h [of x]] om(2) by auto
      qed
      moreover have "in_use (ic_fs s') (orig_blkno d)" if d: "ic_heap s' x = Some d" for x d
      proof (cases "x = a")
        case True
        then show ?thesis using d b om(2) eq(3) use by simp
      next
        case False
        then obtain y where y: "ic_heap s x = Some y" "same_core y d" using same_core_cases [OF h [of x]] d om(2) by auto
        have "in_use (ic_fs s) (orig_blkno y)" using inv y(1) by (simp add: icow_inv_def)
        then show ?thesis using y(2) om(2) eq(3) by (simp add: same_core_def)
      qed
      ultimately show ?thesis using om(2) eq(3) by (simp add: icow_inv_def)
    qed
  qed
qed

lemma parent_pop_inv: "icow_inv s \<Longrightarrow> indirect_cow_parent_pop n s = Some s' \<Longrightarrow> icow_inv s' \<and> ic_fs s' = ic_fs s"
  by (auto simp: indirect_cow_parent_pop_def bind_Some_eq split: list.splits)

section \<open>Copies\<close>

text \<open>Block \<open>a\<close> of \<open>s'\<close> is new or was not a copy in \<open>s\<close>; the other blocks differ in links only.\<close>

definition pre_cow :: "icow \<Rightarrow> u64 \<Rightarrow> u64 \<Rightarrow> bool \<Rightarrow> addr \<Rightarrow> icow \<Rightarrow> bool" where
  "pre_cow s orig cow new_block a s' \<longleftrightarrow> (\<exists>b. ic_heap s' a = Some b \<and> orig_blkno b = orig \<and> cow_blkno b = cow) \<and>
     (\<forall>x. x \<noteq> a \<longrightarrow> rel_option same_core (ic_heap s x) (ic_heap s' x)) \<and>
     (if new_block then ic_heap s a = None \<and> hm_map (blkno_map_orig s) (KPtr orig) = None \<and> hm_map (blkno_map_cow s) (KPtr orig) = None
      else (\<exists>b0. ic_heap s a = Some b0 \<and> orig_blkno b0 = orig \<and> cow_blkno b0 = 0)) \<and>
     a < ic_fresh s' \<and> ic_fresh s \<le> ic_fresh s' \<and>
     blkno_map_orig s' = blkno_map_orig s \<and> blkno_map_cow s' = blkno_map_cow s \<and> ic_fs s' = ic_fs s \<and>
     bpfs_super s' = bpfs_super s \<and> parent_stack s' = parent_stack s"

lemma upd_block_eq: "upd_block a f s = Some s' \<longleftrightarrow> (\<exists>b. ic_heap s a = Some b \<and> s' = s\<lparr>ic_heap := (ic_heap s)(a \<mapsto> f b)\<rparr>)"
  by (auto simp: upd_block_def bind_Some_eq)

lemma pre_cow_new:
  assumes "icow_inv s" and "block_create m orig cow s = Some (Some a, s')"
  shows "pre_cow s orig cow True a s'"
  using block_create_added [OF assms] assms(1) by (auto simp: added_def pre_cow_def icow_inv_def)

lemma pre_cow_old:
  assumes inv: "icow_inv s" and a: "ic_heap s a = Some b0" "orig_blkno b0 = orig" and b: "block_set_cow a cow s = Some s'"
  shows "pre_cow s orig cow False a s'"
proof -
  have z: "cow_blkno b0 = 0" and l: "a < ic_fresh s" using a b inv by (auto simp: block_set_cow_def bind_Some_eq icow_inv_def not_le [symmetric])
  show ?thesis
  proof (cases "parent_get s")
    case None
    then have "s' = s\<lparr>ic_heap := (ic_heap s)(a \<mapsto> b0\<lparr>cow_blkno := cow\<rparr>)\<rparr>"
      using a b by (auto simp: block_set_cow_def upd_block_eq bind_Some_eq parent_get_def)
    then show ?thesis using a z l by (simp add: pre_cow_def)
  next
    case (Some p)
    then obtain d where d: "s' = s\<lparr>ic_heap := (ic_heap s)(a \<mapsto> b0\<lparr>cow_blkno := cow, child_cow_next := d\<rparr>, p \<mapsto>
        (the (((ic_heap s)(a \<mapsto> b0\<lparr>cow_blkno := cow, child_cow_next := d\<rparr>)) p))\<lparr>children_cow := Some a\<rparr>)\<rparr>" "p = a \<or> ic_heap s p \<noteq> None"
      using a b by (auto simp: block_set_cow_def upd_block_eq bind_Some_eq parent_get_def split: if_splits)
    show ?thesis
    proof (cases "p = a")
      case True
      then show ?thesis using a z l d by (simp add: pre_cow_def)
    next
      case False
      then obtain e where "ic_heap s p = Some e" using d(2) by blast
      then show ?thesis using a z l d False by (simp add: pre_cow_def same_core_def)
    qed
  qed
qed

text \<open>The block is a copy now.\<close>

definition cowed :: "icow \<Rightarrow> u64 \<Rightarrow> u64 \<Rightarrow> addr \<Rightarrow> icow \<Rightarrow> bool" where
  "cowed s orig cow a s' \<longleftrightarrow> (\<exists>b. ic_heap s' a = Some b \<and> orig_blkno b = orig \<and> cow_blkno b = cow \<and> dram b \<noteq> None) \<and>
     (\<forall>x. x \<noteq> a \<longrightarrow> rel_option same_core (ic_heap s x) (ic_heap s' x)) \<and>
     (ic_heap s a = None \<and> hm_map (blkno_map_orig s) (KPtr orig) = None \<or>
      (\<exists>b0. ic_heap s a = Some b0 \<and> orig_blkno b0 = orig \<and> cow_blkno b0 = 0)) \<and>
     a < ic_fresh s' \<and> ic_fresh s \<le> ic_fresh s' \<and>
     ptr_map_ok (blkno_map_orig s') \<and> hm_map (blkno_map_orig s') = (hm_map (blkno_map_orig s))(KPtr orig \<mapsto> a) \<and>
     ptr_map_ok (blkno_map_cow s') \<and> hm_map (blkno_map_cow s') = (hm_map (blkno_map_cow s))(KPtr cow \<mapsto> a) \<and>
     hm_map (blkno_map_cow s) (KPtr orig) = None \<and> hm_map (blkno_map_cow s) (KPtr cow) = None \<and>
     ic_fs s' = ic_fs s \<and> bpfs_super s' = bpfs_super s \<and> parent_stack s' = parent_stack s"

lemma insert_ptr_nonneg:
  "ptr_map_ok hm \<Longrightarrow> hash_map_insert pool m hm (KPtr n) v = Some (r, hm') \<Longrightarrow> 0 \<le> r"
  using insert_ptr by fastforce

lemma insert_block_cowed:
  assumes ok: "icow_ok s" and pre: "pre_cow s orig cow new_block a s1" and d: "\<exists>b. ic_heap s1 a = Some b \<and> dram b \<noteq> None"
    and i: "insert_block m new_block a orig cow s1 = Some (r, s')"
  shows "r = 0 \<and> cowed s orig cow a s'"
proof -
  have maps: "blkno_map_orig s1 = blkno_map_orig s" "blkno_map_cow s1 = blkno_map_cow s" using pre by (simp_all add: pre_cow_def)
  have po: "ptr_map_ok (blkno_map_orig s1)" "ptr_map_ok (blkno_map_cow s1)" using icow_okD(1,2) [OF ok] maps by simp_all
  obtain r1 om where om: "(if new_block then hash_map_insert (fst (mem_orig m)) (snd (mem_orig m)) (blkno_map_orig s1) (KPtr orig) a
      else Some (0, blkno_map_orig s1)) = Some (r1, om)" using i by (auto simp: insert_block_def bind_Some_eq)
  have r1: "0 \<le> r1" using om insert_ptr_nonneg [OF po(1)] by (auto split: if_splits)
  have omok: "ptr_map_ok om" "hm_map om = (hm_map (blkno_map_orig s))(KPtr orig \<mapsto> a)"
  proof -
    have "ptr_map_ok om \<and> hm_map om = (hm_map (blkno_map_orig s))(KPtr orig \<mapsto> a)"
    proof (cases new_block)
      case True
      then show ?thesis using om insert_ptr [OF po(1)] maps by auto
    next
      case False
      then obtain b0 where "ic_heap s a = Some b0" "orig_blkno b0 = orig" using pre by (auto simp: pre_cow_def)
      then have "hm_map (blkno_map_orig s) (KPtr orig) = Some a" using icow_okD(4) [OF ok] by blast
      then show ?thesis using False om po(1) maps(1) by auto
    qed
    then show "ptr_map_ok om" "hm_map om = (hm_map (blkno_map_orig s))(KPtr orig \<mapsto> a)" by auto
  qed
  obtain r2 cm where cm: "hash_map_insert (fst (mem_cow m)) (snd (mem_cow m)) (blkno_map_cow s1) (KPtr cow) a = Some (r2, cm)"
    using i om r1 by (auto simp: insert_block_def bind_Some_eq Let_def split: if_splits)
  have r2: "0 \<le> r2" using cm insert_ptr_nonneg [OF po(2)] by blast
  have s': "s' = s1\<lparr>blkno_map_orig := om, blkno_map_cow := cm\<rparr>" "r = 0" "r2 = 0"
    using i om r1 r2 cm by (auto simp: insert_block_def bind_Some_eq Let_def split: if_splits)
  have cmok: "ptr_map_ok cm" "hm_map cm = (hm_map (blkno_map_cow s))(KPtr cow \<mapsto> a)" "hm_map (blkno_map_cow s) (KPtr cow) = None"
    using insert_ptr [OF po(2) cm] s'(3) maps(2) by (auto split: if_splits)
  have "hm_map (blkno_map_cow s) (KPtr orig) = None"
  proof (cases new_block)
    case False
    then obtain b0 where "ic_heap s a = Some b0" "orig_blkno b0 = orig" using pre by (auto simp: pre_cow_def)
    then show ?thesis using icow_okD(7) [OF ok] by metis
  qed (use pre in \<open>simp add: pre_cow_def\<close>)
  then show ?thesis using pre d omok cmok s' unfolding cowed_def pre_cow_def by (cases new_block) auto
qed

lemma alloc_dram_cowed:
  assumes ok: "icow_ok s" and pre: "pre_cow s orig cow new_block a s1" and i: "alloc_dram m new_block a orig cow s1 = Some (r, s')"
  shows "if mem_dram m then r = 0 \<and> cowed s orig cow a s' else r = - ENOMEM \<and> ic_fs s' = ic_fs s"
proof (cases "mem_dram m")
  case False
  then have "block_cow_abort (- ENOMEM) new_block (Some a) orig cow s1 = Some (r, s')" using i by (simp add: alloc_dram_def)
  then have "r = - ENOMEM \<and> ic_fs s' = ic_fs s1"
    by (auto simp: block_cow_abort_def bind_Some_eq upd_block_eq erase_cow_def erase_orig_def delete_block_def split: if_splits)
  then show ?thesis using False pre by (simp add: pre_cow_def)
next
  case True
  obtain b where b: "ic_heap s1 a = Some b" using pre by (auto simp: pre_cow_def)
  let ?s = "s1\<lparr>ic_heap := (ic_heap s1)(a \<mapsto> b\<lparr>dram := Some (heap_junk (ic_fs s1))\<rparr>)\<rparr>"
  have "insert_block m new_block a orig cow ?s = Some (r, s')" using i True b by (simp add: alloc_dram_def upd_block_def)
  moreover have "pre_cow s orig cow new_block a ?s" using pre b by (auto simp: pre_cow_def)
  ultimately show ?thesis using True insert_block_cowed [OF ok, of orig cow new_block a ?s m r s'] by simp
qed

lemma block_cow_cowed:
  assumes inv: "icow_inv s" and c: "indirect_cow_block_cow m orig cow s = Some (r, s')"
  shows "if mem_dram m then r = 0 \<and> (\<exists>a. cowed s orig cow a s') else r = - ENOMEM \<and> ic_fs s' = ic_fs s"
proof -
  have ok: "icow_ok s" using inv by (simp add: icow_inv_def)
  show ?thesis
  proof (cases "hm_map (blkno_map_orig s) (KPtr orig)")
    case None
    then obtain x s1 where x: "block_create (mem_block m) orig cow s = Some (x, s1)"
        "(case x of None \<Rightarrow> block_cow_abort (- ENOMEM) True None orig cow s1 | Some a \<Rightarrow> alloc_dram m True a orig cow s1) = Some (r, s')"
      using c find_eq(1) [OF ok] by (auto simp: indirect_cow_block_cow_def bind_Some_eq)
    obtain a where a: "x = Some a" using x(2) by (cases x) (auto simp: block_cow_abort_def)
    have "alloc_dram m True a orig cow s1 = Some (r, s')" using x(2) a by simp
    then show ?thesis using alloc_dram_cowed [OF ok pre_cow_new [OF inv x(1) [unfolded a]]] by (metis (full_types))
  next
    case (Some a)
    then obtain s1 where s1: "block_set_cow a cow s = Some s1" "alloc_dram m False a orig cow s1 = Some (r, s')"
      using c find_eq(1) [OF ok] by (auto simp: indirect_cow_block_cow_def bind_Some_eq)
    obtain b0 where b0: "ic_heap s a = Some b0" "orig_blkno b0 = orig" using icow_ok_origE [OF ok Some] by auto
    show ?thesis using alloc_dram_cowed [OF ok pre_cow_old [OF inv b0 s1(1)] s1(2)] by (auto split: if_splits)
  qed
qed

end
