(* ===== verification/Cow_Trans.thy ===== *)
theory Cow_Trans
  imports Cow_Inv
begin

text \<open>
  Transactions with short-circuit shadow paging: copy on write, sequences of calls, and the properties of abort and commit.
\<close>

section \<open>Copy on write\<close>

lemma scsp_free_block_eq:
  assumes "blocks_ok f" and "resident n f" and "scsp_free_block n f = Some f'"
  shows "\<exists>a. f' = f\<lparr>block_alloc := (block_alloc f)\<lparr>bm_frees := (n - 1) # bm_frees (block_alloc f)\<rparr>, ac := a\<rparr> \<and>
    n - 1 \<notin> set (bm_frees (block_alloc f)) \<and> blocks_ok f'"
proof -
  have "n AND disk_bit = 0" using assms(2) by (simp add: resident_def)
  then obtain bm a where f': "bitmap_free (block_alloc f) (n - 1) = Some bm" "f' = f\<lparr>block_alloc := bm, ac := a\<rparr>"
    using assms(3) by (auto simp: scsp_free_block_def bind_Some_eq)
  have bm: "bm = (block_alloc f)\<lparr>bm_frees := (n - 1) # bm_frees (block_alloc f)\<rparr>" "n - 1 \<notin> set (bm_frees (block_alloc f))"
    using f'(1) by (auto simp: bitmap_free_def bind_Some_eq staged_list_freshly_alloced_def)
  have "blocks_ok f'" using bitmap_free_step [OF _ f'(1)] assms(1) f'(2) by (simp add: blocks_ok_def bitmap_inv_fixed_def)
  then show ?thesis using f'(2) bm by blast
qed

lemma set_block_used:
  assumes "blocks_ok f" and "n AND disk_bit = 0" and "unat (n - 1) \<in> bitmap_used (block_alloc f)"
  shows "set_block n f = None"
proof -
  have "bitmap_core (block_alloc f)" using assms(1) by (simp add: blocks_ok_def bitmap_inv_fixed_def bitmap_inv_def)
  from bitmap_byte_used [OF this assms(3)] have "bitmap_set (block_alloc f) (n - 1) = None" by (auto simp: bitmap_set_def)
  then show ?thesis using assms(2) by (cases "n = 0") (simp_all add: set_block_def)
qed

text \<open>A new block is staged in \<open>f\<close>; the copies stay staged.\<close>

lemma allocated_facts:
  assumes "allocated n f g" and "blocks_ok f"
  shows "n - 1 \<notin> set (bm_allocs (block_alloc f))" "n - 1 \<notin> set (bm_frees (block_alloc f))" "3 \<le> n" "n \<noteq> 0"
    "in_use f m \<Longrightarrow> resident n f \<Longrightarrow> m \<noteq> n" "in_use f m \<Longrightarrow> in_use g m" "bpram g = bpram f" "g = f\<lparr>block_alloc := block_alloc g\<rparr>"
    "bitmap_used (block_alloc g) = insert (unat (n - 1)) (bitmap_used (block_alloc f))" "unat (n - 1) \<notin> bitmap_used (block_alloc f)"
    "bm_allocs (block_alloc g) = (n - 1) # bm_allocs (block_alloc f)" "bm_frees (block_alloc g) = bm_frees (block_alloc f)" "resident n f"
proof -
  have n: "3 \<le> unat n" "unat n - 1 \<notin> bitmap_used (block_alloc f)" "resident n f" using assms(1) by (simp_all add: allocated_def)
  then have z: "n \<noteq> 0" by auto
  then have u: "unat (n - 1) \<notin> bitmap_used (block_alloc f)" using n(2) by (simp add: unat_pred)
  have inv: "bitmap_inv (block_alloc f)" using assms(2) by (simp add: blocks_ok_def bitmap_inv_fixed_def)
  show "n - 1 \<notin> set (bm_allocs (block_alloc f))" "n - 1 \<notin> set (bm_frees (block_alloc f))" using inv u by (auto simp: bitmap_inv_simps)
  show "3 \<le> n" using n(1) by (simp add: word_le_nat_alt)
  show "n \<noteq> 0" by (rule z)
  show "in_use f m \<Longrightarrow> resident n f \<Longrightarrow> m \<noteq> n" using u by (auto simp: in_use_def resident_def)
  show "in_use f m \<Longrightarrow> in_use g m" using assms(1) by (auto simp: in_use_def allocated_def)
  show g: "g = f\<lparr>block_alloc := block_alloc g\<rparr>" using assms(1) by (simp add: allocated_def)
  show "bpram g = bpram f" by (subst g) simp
  have "unat n - 1 = unat (n - 1)" using z by (simp add: unat_pred)
  then show "bitmap_used (block_alloc g) = insert (unat (n - 1)) (bitmap_used (block_alloc f))" using assms(1) unfolding allocated_def by metis
  show "unat (n - 1) \<notin> bitmap_used (block_alloc f)" "resident n f" by (fact u, fact n)
  show "bm_allocs (block_alloc g) = (n - 1) # bm_allocs (block_alloc f)" "bm_frees (block_alloc g) = bm_frees (block_alloc f)"
    using assms(1) unfolding allocated_def by blast+
qed

lemma cow_staged_alloc:
  assumes "allocated n f g" and "blocks_ok f" and "cow_staged f orig cow"
  shows "cow_staged g orig cow"
proof -
  note a = allocated_facts [OF assms(1,2)]
  have r: "resident m g = resident m f" for m by (subst a(8)) simp
  have bm: "bm_allocs (block_alloc g) = (n - 1) # bm_allocs (block_alloc f)" "bm_frees (block_alloc g) = bm_frees (block_alloc f)"
    using assms(1) by (simp_all add: allocated_def)
  have "orig - 1 \<noteq> n - 1" using assms(3) a(2) by (metis cow_staged_def)
  then show ?thesis using assms(3) r bm by (simp add: cow_staged_def)
qed

text \<open>The state after the allocation of the new block.\<close>

lemma alloc_inv:
  assumes inv: "icow_inv s" and full: "\<not> blocks_full (ic_fs s)"
  shows "\<exists>n f. alloc_block (ic_fs s) = Some (n, f) \<and> allocated n (ic_fs s) f \<and> blocks_ok f \<and> icow_inv (s\<lparr>ic_fs := f\<rparr>)"
proof -
  have ok: "icow_ok s" and bo: "blocks_ok (ic_fs s)" using inv icow_okD(3) by (auto simp: icow_inv_def)
  obtain n f where n: "alloc_block (ic_fs s) = Some (n, f)" "blocks_ok f" "allocated n (ic_fs s) f"
    using alloc_block_ok [OF bo] full by auto
  let ?s = "s\<lparr>ic_fs := f\<rparr>"
  have "icow_ok ?s"
  proof (rule icow_ok_core [OF ok])
    show "cow_staged (ic_fs ?s) (orig_blkno d) (cow_blkno d)" if "ic_heap s x = Some d" "cow_blkno d \<noteq> 0" for x d
      using icow_okD(6) [OF ok that(1)] that(2) cow_staged_alloc [OF n(3) bo] by (simp add: copy_ok_def)
  qed (use n(2) in simp_all)
  then have "icow_inv ?s" using inv allocated_facts(6) [OF n(3) bo] by (simp add: icow_inv_def)
  then show ?thesis using n by blast
qed

text \<open>Without memory for the copy, the error path sets the bit of the old block, which is set.\<close>

lemma enomem_path:
  assumes inv: "icow_inv s" and old: "resident old (ic_fs s)" "in_use (ic_fs s) old" and full: "\<not> blocks_full (ic_fs s)"
    and al: "alloc_block (ic_fs s) = Some (n, f)"
  shows "\<exists>f2. unalloc_block n f = Some f2 \<and> set_block old f2 = None"
proof -
  have bo: "blocks_ok (ic_fs s)" using inv icow_okD(3) by (auto simp: icow_inv_def)
  have n: "allocated n (ic_fs s) f" "blocks_ok f" using alloc_inv [OF inv full] al by auto
  note af = allocated_facts [OF n(1) bo]
  have al': "n - 1 \<in> set (bm_allocs (block_alloc f))" "n - 1 \<notin> set (bm_frees (block_alloc f))" using af(2,11,12) by simp_all
  obtain bm where bm: "unalloc_block n f = Some (f\<lparr>block_alloc := bm\<rparr>)" "blocks_ok (f\<lparr>block_alloc := bm\<rparr>)"
      "bitmap_used bm = bitmap_used (block_alloc f) - {unat (n - 1)}"
    using unalloc_block_ok [OF n(2) af(3) al'] by blast
  have d: "old AND disk_bit = 0" using old(1) by (simp add: resident_def)
  have "unat (old - 1) \<in> bitmap_used (block_alloc f)" using af(6) [OF old(2)] d by (simp add: in_use_def)
  moreover have "unat (old - 1) \<noteq> unat (n - 1)" using af(5) [OF old(2) af(13)] by simp
  ultimately have "unat (old - 1) \<in> bitmap_used (block_alloc (f\<lparr>block_alloc := bm\<rparr>))" using bm(3) by simp
  then show ?thesis using set_block_used [OF bm(2) d] bm(1) by blast
qed

lemma cow_begin_enomem:
  assumes inv: "icow_inv s" and old: "resident old (ic_fs s)" "in_use (ic_fs s) old" and nf: "\<not> block_freshly_alloced old s"
    and full: "\<not> blocks_full (ic_fs s)" and md: "\<not> mem_dram m"
  shows "scsp_cow_begin m old s = None"
proof -
  obtain n f where n: "alloc_block (ic_fs s) = Some (n, f)" "icow_inv (s\<lparr>ic_fs := f\<rparr>)" "n \<noteq> 0"
    using alloc_inv [OF inv full] allocated_facts(4) icow_okD(3) inv unfolding icow_inv_def by blast
  show ?thesis
  proof (cases "indirect_cow_block_cow m old n (s\<lparr>ic_fs := f\<rparr>)")
    case None
    then show ?thesis using nf n(1,3) by (simp add: scsp_cow_begin_def Let_def)
  next
    case (Some p)
    then obtain x s1 where x: "indirect_cow_block_cow m old n (s\<lparr>ic_fs := f\<rparr>) = Some (x, s1)" by (cases p) simp
    then have "x = - ENOMEM" "ic_fs s1 = f" using block_cow_cowed [OF n(2) x] md by auto
    then show ?thesis using enomem_path [OF inv old full n(1)] nf n(1,3) x by (auto simp: scsp_cow_begin_def Let_def on_fs_def)
  qed
qed

text \<open>Without memory for the copy, \<^verbatim>\<open>indirect_cow_block_cow\<close> takes back what it has done to the tables.\<close>

lemma block_cow_abort_ok:
  assumes "icow_ok s" and "ic_heap s1 a = Some b" and "blkno_map_orig s1 = blkno_map_orig s" and "blkno_map_cow s1 = blkno_map_cow s"
  shows "\<exists>s2. block_cow_abort r new_block (Some a) orig cow s1 = Some (r, s2) \<and> ic_fs s2 = ic_fs s1"
proof -
  let ?s = "s1\<lparr>ic_heap := (ic_heap s1)(a \<mapsto> b\<lparr>dram := None, cow_blkno := 0\<rparr>)\<rparr>"
  obtain cm where cm: "erase_cow cow ?s = Some (?s\<lparr>blkno_map_cow := cm\<rparr>)"
    using erase_cow_ok [of ?s cow] icow_okD(2) [OF assms(1)] assms(4) by auto
  obtain om where om: "erase_orig orig (?s\<lparr>blkno_map_cow := cm\<rparr>) = Some (?s\<lparr>blkno_map_cow := cm, blkno_map_orig := om\<rparr>)"
    using erase_orig_ok [of "?s\<lparr>blkno_map_cow := cm\<rparr>" orig] icow_okD(1) [OF assms(1)] assms(3) by auto
  show ?thesis using cm om assms(2) by (simp add: block_cow_abort_def upd_block_def delete_block_def)
qed

lemma block_cow_no_dram:
  assumes inv: "icow_inv s" and c: "indirect_cow_block_cow (m\<lparr>mem_dram := True\<rparr>) orig cow s = Some (r, s')"
  shows "\<exists>s2. indirect_cow_block_cow (m\<lparr>mem_dram := False\<rparr>) orig cow s = Some (- ENOMEM, s2) \<and> ic_fs s2 = ic_fs s"
proof -
  have ok: "icow_ok s" using inv by (simp add: icow_inv_def)
  have ab: "\<exists>s2. block_cow_abort (- ENOMEM) nb (Some a) orig cow s1 = Some (- ENOMEM, s2) \<and> ic_fs s2 = ic_fs s"
    if p: "pre_cow s orig cow nb a s1" for nb a s1
  proof -
    obtain b where "ic_heap s1 a = Some b" using p by (auto simp: pre_cow_def)
    moreover have "blkno_map_orig s1 = blkno_map_orig s" "blkno_map_cow s1 = blkno_map_cow s" "ic_fs s1 = ic_fs s" using p by (simp_all add: pre_cow_def)
    ultimately show ?thesis using block_cow_abort_ok [OF ok, of s1 a b "- ENOMEM" nb orig cow] by simp
  qed
  show ?thesis
  proof (cases "hm_map (blkno_map_orig s) (KPtr orig)")
    case None
    then obtain x s1 where x: "block_create (mem_block m) orig cow s = Some (x, s1)" "x \<noteq> None"
      using c find_eq(1) [OF ok] by (auto simp: indirect_cow_block_cow_def bind_Some_eq block_cow_abort_def split: option.splits)
    then obtain a where a: "x = Some a" by blast
    then show ?thesis using ab [OF pre_cow_new [OF inv x(1) [unfolded a]]] c x(1) None find_eq(1) [OF ok]
      by (auto simp: indirect_cow_block_cow_def bind_Some_eq alloc_dram_def)
  next
    case (Some a)
    then obtain s1 where s1: "block_set_cow a cow s = Some s1"
      using c find_eq(1) [OF ok] by (auto simp: indirect_cow_block_cow_def bind_Some_eq)
    obtain b0 where b0: "ic_heap s a = Some b0" "orig_blkno b0 = orig" using icow_ok_origE [OF ok Some] by auto
    show ?thesis using ab [OF pre_cow_old [OF inv b0 s1]] c s1 Some find_eq(1) [OF ok]
      by (auto simp: indirect_cow_block_cow_def bind_Some_eq alloc_dram_def)
  qed
qed

lemma cow_new_not_fresh:
  assumes "scsp_cow_block_entire m old s = Some (n, s')" and "n \<noteq> old"
  shows "\<not> block_freshly_alloced old s"
  using assms by (auto simp: scsp_cow_block_entire_def scsp_cow_begin_def)

text \<open>The heap after a copy of block \<open>old\<close> has been made with the number \<open>n\<close>.\<close>

definition cow_copied :: "ic_mem \<Rightarrow> icow \<Rightarrow> u64 \<Rightarrow> u64 \<Rightarrow> icow \<Rightarrow> bool" where
  "cow_copied m s old n s' \<longleftrightarrow> mem_dram m \<and> n \<noteq> 0 \<and> (\<exists>f s1 a d v. alloc_block (ic_fs s) = Some (n, f) \<and> icow_inv (s\<lparr>ic_fs := f\<rparr>) \<and>
     indirect_cow_block_cow m old n (s\<lparr>ic_fs := f\<rparr>) = Some (0, s1) \<and>
     ic_heap s1 a = Some d \<and> ic_heap s' = (ic_heap s1)(a \<mapsto> d\<lparr>dram := Some v\<rparr>))"

lemma cow_begin_cases:
  assumes inv: "icow_inv s" and old: "resident old (ic_fs s)" "in_use (ic_fs s) old" and b: "scsp_cow_begin m old s = Some (r, s')"
  shows "case r of
      Inl n \<Rightarrow> s' = s \<and> (n = 0 \<or> n = old)
    | Inr n \<Rightarrow> old - 1 \<notin> set (bm_allocs (block_alloc (ic_fs s))) \<and>
        (\<exists>f a. allocated n (ic_fs s) f \<and> blocks_ok f \<and> icow_inv (s\<lparr>ic_fs := f\<rparr>) \<and> cowed (s\<lparr>ic_fs := f\<rparr>) old n a s' \<and>
           mem_dram m \<and> alloc_block (ic_fs s) = Some (n, f) \<and> indirect_cow_block_cow m old n (s\<lparr>ic_fs := f\<rparr>) = Some (0, s'))"
proof (cases "block_freshly_alloced old s \<or> blocks_full (ic_fs s)")
  case True
  have bo: "blocks_ok (ic_fs s)" using inv icow_okD(3) by (auto simp: icow_inv_def)
  then show ?thesis using True b alloc_block_ok [OF bo] by (auto simp: scsp_cow_begin_def Let_def split: if_splits)
next
  case False
  then have nf: "\<not> block_freshly_alloced old s" "\<not> blocks_full (ic_fs s)" by auto
  have bo: "blocks_ok (ic_fs s)" using inv icow_okD(3) by (auto simp: icow_inv_def)
  obtain n f where n: "alloc_block (ic_fs s) = Some (n, f)" "allocated n (ic_fs s) f" "blocks_ok f" "icow_inv (s\<lparr>ic_fs := f\<rparr>)"
    using alloc_inv [OF inv nf(2)] by blast
  note af = allocated_facts [OF n(2) bo]
  have md: "mem_dram m" using cow_begin_enomem [OF inv old nf] b by force
  obtain x s1 where x: "indirect_cow_block_cow m old n (s\<lparr>ic_fs := f\<rparr>) = Some (x, s1)"
    using nf(1) n(1) af(4) b by (auto simp: scsp_cow_begin_def bind_Some_eq Let_def)
  obtain a where a: "x = 0" "cowed (s\<lparr>ic_fs := f\<rparr>) old n a s1" using block_cow_cowed [OF n(4) x] md by auto
  have "r = Inr n" "s' = s1" using nf(1) n(1) af(4) b x a(1) by (auto simp: scsp_cow_begin_def Let_def)
  moreover have "old - 1 \<notin> set (bm_allocs (block_alloc (ic_fs s)))"
    using nf(1) by (simp add: block_freshly_alloced_def staged_list_freshly_alloced_def)
  ultimately show ?thesis using a n x md by auto
qed

lemma nos_iff:
  "k \<in> cow_nos s UNIV \<longleftrightarrow> (\<exists>x e. ic_heap s x = Some e \<and> cow_blkno e \<noteq> 0 \<and> k = cow_blkno e - 1)"
  "k \<in> orig_nos s UNIV \<longleftrightarrow> (\<exists>x e. ic_heap s x = Some e \<and> cow_blkno e \<noteq> 0 \<and> k = orig_blkno e - 1)"
  by (auto simp: cow_nos_def orig_nos_def)

text \<open>The copies stay the same; there may be new blocks that are no copies.\<close>

definition same_copies :: "icow \<Rightarrow> icow \<Rightarrow> bool" where
  "same_copies s s' \<longleftrightarrow> (\<forall>x. rel_option same_core (ic_heap s x) (ic_heap s' x) \<or>
     ic_heap s x = None \<and> (\<exists>b. ic_heap s' x = Some b \<and> cow_blkno b = 0))"

lemma nos_core:
  assumes "same_copies s s'"
  shows "cow_nos s' UNIV = cow_nos s UNIV" "orig_nos s' UNIV = orig_nos s UNIV"
proof -
  have h: "rel_option same_core (ic_heap s x) (ic_heap s' x) \<or> ic_heap s x = None \<and> (\<exists>b. ic_heap s' x = Some b \<and> cow_blkno b = 0)" for x
    using assms by (simp add: same_copies_def)
  have *: "(\<exists>x e. ic_heap s' x = Some e \<and> cow_blkno e \<noteq> 0 \<and> P (orig_blkno e) (cow_blkno e)) \<longleftrightarrow>
      (\<exists>x e. ic_heap s x = Some e \<and> cow_blkno e \<noteq> 0 \<and> P (orig_blkno e) (cow_blkno e))" for P
  proof
    assume "\<exists>x e. ic_heap s' x = Some e \<and> cow_blkno e \<noteq> 0 \<and> P (orig_blkno e) (cow_blkno e)"
    then obtain x e where e: "ic_heap s' x = Some e" "cow_blkno e \<noteq> 0" "P (orig_blkno e) (cow_blkno e)" by blast
    have "rel_option same_core (ic_heap s x) (ic_heap s' x)" using h [of x] e(1,2) by auto
    then obtain d where "ic_heap s x = Some d" "same_core d e" using same_core_Some(2) e(1) by blast
    then show "\<exists>x e. ic_heap s x = Some e \<and> cow_blkno e \<noteq> 0 \<and> P (orig_blkno e) (cow_blkno e)" using e(2,3) unfolding same_core_def by metis
  next
    assume "\<exists>x e. ic_heap s x = Some e \<and> cow_blkno e \<noteq> 0 \<and> P (orig_blkno e) (cow_blkno e)"
    then obtain x e where e: "ic_heap s x = Some e" "cow_blkno e \<noteq> 0" "P (orig_blkno e) (cow_blkno e)" by blast
    have "rel_option same_core (ic_heap s x) (ic_heap s' x)" using h [of x] e(1) by auto
    then obtain d where "ic_heap s' x = Some d" "same_core e d" using same_core_Some(1) e(1) by blast
    then show "\<exists>x e. ic_heap s' x = Some e \<and> cow_blkno e \<noteq> 0 \<and> P (orig_blkno e) (cow_blkno e)" using e(2,3) unfolding same_core_def by metis
  qed
  show "cow_nos s' UNIV = cow_nos s UNIV" "orig_nos s' UNIV = orig_nos s UNIV"
    by (rule set_eqI, unfold nos_iff, rule *)+
qed

text \<open>A copy of block \<open>old\<close> has been made with the number \<open>n\<close>.\<close>

definition cow_done :: "icow \<Rightarrow> u64 \<Rightarrow> u64 \<Rightarrow> icow \<Rightarrow> bool" where
  "cow_done s old n s' \<longleftrightarrow> icow_inv s' \<and> bpram (ic_fs s') = bpram (ic_fs s) \<and>
     set (bm_allocs (block_alloc (ic_fs s'))) = insert (n - 1) (set (bm_allocs (block_alloc (ic_fs s)))) \<and> n - 1 \<notin> set (bm_allocs (block_alloc (ic_fs s))) \<and>
     set (bm_frees (block_alloc (ic_fs s'))) = insert (old - 1) (set (bm_frees (block_alloc (ic_fs s)))) \<and> old - 1 \<notin> set (bm_frees (block_alloc (ic_fs s))) \<and>
     bitmap_persistent (block_alloc (ic_fs s')) = bitmap_persistent (block_alloc (ic_fs s)) \<and>
     cow_nos s' UNIV = insert (n - 1) (cow_nos s UNIV) \<and> orig_nos s' UNIV = insert (old - 1) (orig_nos s UNIV) \<and>
     parent_stack s' = parent_stack s"

lemma cowed_nos:
  assumes c: "cowed s old n a s'" and n: "n \<noteq> 0"
  shows "cow_nos s' UNIV = insert (n - 1) (cow_nos s UNIV)" "orig_nos s' UNIV = insert (old - 1) (orig_nos s UNIV)"
proof -
  obtain b where b: "ic_heap s' a = Some b" "orig_blkno b = old" "cow_blkno b = n" using c by (auto simp: cowed_def)
  have h: "x \<noteq> a \<Longrightarrow> rel_option same_core (ic_heap s x) (ic_heap s' x)" for x using c by (simp add: cowed_def)
  have z: "ic_heap s a = Some e \<Longrightarrow> cow_blkno e = 0" for e using c by (auto simp: cowed_def)
  have *: "(\<exists>x e. ic_heap s' x = Some e \<and> cow_blkno e \<noteq> 0 \<and> P (orig_blkno e) (cow_blkno e)) \<longleftrightarrow>
      P old n \<or> (\<exists>x e. ic_heap s x = Some e \<and> cow_blkno e \<noteq> 0 \<and> P (orig_blkno e) (cow_blkno e))" for P
  proof
    assume "\<exists>x e. ic_heap s' x = Some e \<and> cow_blkno e \<noteq> 0 \<and> P (orig_blkno e) (cow_blkno e)"
    then obtain x e where e: "ic_heap s' x = Some e" "cow_blkno e \<noteq> 0" "P (orig_blkno e) (cow_blkno e)" by blast
    show "P old n \<or> (\<exists>x e. ic_heap s x = Some e \<and> cow_blkno e \<noteq> 0 \<and> P (orig_blkno e) (cow_blkno e))"
    proof (cases "x = a")
      case False
      obtain d where "ic_heap s x = Some d" "same_core d e" using same_core_Some(2) [OF h [OF False] e(1)] by blast
      then show ?thesis using e(2,3) unfolding same_core_def by metis
    qed (use e b in auto)
  next
    assume "P old n \<or> (\<exists>x e. ic_heap s x = Some e \<and> cow_blkno e \<noteq> 0 \<and> P (orig_blkno e) (cow_blkno e))"
    then consider "P old n" | x e where "ic_heap s x = Some e" "cow_blkno e \<noteq> 0" "P (orig_blkno e) (cow_blkno e)" by blast
    then show "\<exists>x e. ic_heap s' x = Some e \<and> cow_blkno e \<noteq> 0 \<and> P (orig_blkno e) (cow_blkno e)"
    proof cases
      case 1
      then show ?thesis using b n by blast
    next
      case (2 x e)
      then have "x \<noteq> a" using z by blast
      then obtain d where "ic_heap s' x = Some d" "same_core e d" using same_core_Some(1) [OF h 2(1)] by blast
      then show ?thesis using 2(2,3) unfolding same_core_def by metis
    qed
  qed
  show "cow_nos s' UNIV = insert (n - 1) (cow_nos s UNIV)" "orig_nos s' UNIV = insert (old - 1) (orig_nos s UNIV)"
    by (rule set_eqI, unfold nos_iff insert_iff, rule *)+
qed

lemma cow_finish:
  assumes inv: "icow_inv s" and old: "resident old (ic_fs s)" "in_use (ic_fs s) old" "old - 1 \<notin> set (bm_allocs (block_alloc (ic_fs s)))"
    and al: "allocated n (ic_fs s) f" "blocks_ok f" "icow_inv (s\<lparr>ic_fs := f\<rparr>)" and c: "cowed (s\<lparr>ic_fs := f\<rparr>) old n a s1"
    and b: "ic_heap s1 a = Some b" and g: "scsp_free_block old (f\<lparr>cow_nbytes := x, cow_nblocks := y\<rparr>) = Some g"
  shows "cow_done s old n (s1\<lparr>ic_heap := (ic_heap s1)(a \<mapsto> b\<lparr>dram := Some v\<rparr>), ic_fs := g\<rparr>)"
proof -
  let ?sf = "s\<lparr>ic_fs := f\<rparr>" and ?bm = "block_alloc f" and ?bo = "block_alloc (ic_fs s)"
  let ?s = "s1\<lparr>ic_heap := (ic_heap s1)(a \<mapsto> b\<lparr>dram := Some v\<rparr>), ic_fs := g\<rparr>"
  have bo: "blocks_ok (ic_fs s)" using inv icow_okD(3) by (auto simp: icow_inv_def)
  note af = allocated_facts [OF al(1) bo]
  have bm: "bm_allocs ?bm = (n - 1) # bm_allocs ?bo" "bm_frees ?bm = bm_frees ?bo" "resident n (ic_fs s)"
      "bitmap_used ?bm = insert (unat (n - 1)) (bitmap_used ?bo)"
    using af by blast+
  have res: "resident m f = resident m (ic_fs s)" for m by (subst af(8)) simp
  have bo': "blocks_ok (f\<lparr>cow_nbytes := x, cow_nblocks := y\<rparr>)" using al(2) by (simp add: blocks_ok_def)
  have ro: "resident old (f\<lparr>cow_nbytes := x, cow_nblocks := y\<rparr>)" using old(1) res by simp
  obtain q where q: "g = (f\<lparr>cow_nbytes := x, cow_nblocks := y\<rparr>)\<lparr>block_alloc := ?bm\<lparr>bm_frees := (old - 1) # bm_frees ?bm\<rparr>, ac := q\<rparr>"
      "old - 1 \<notin> set (bm_frees ?bm)" "blocks_ok g" using scsp_free_block_eq [OF bo' ro g] by auto
  have gb: "block_alloc g = ?bm\<lparr>bm_frees := (old - 1) # bm_frees ?bm\<rparr>" "bpram g = bpram f" "resident m g = resident m f" for m
    unfolding q(1) by simp_all
  have on: "old \<noteq> n" using af(5) [OF old(2) bm(3)] .
  have cb: "orig_blkno b = old" "cow_blkno b = n" using c b by (auto simp: cowed_def)
  have ok0: "icow_ok ?sf" using al(3) by (simp add: icow_inv_def)
  have st: "cow_staged g (orig_blkno d) (cow_blkno d)" if d: "ic_heap ?sf z = Some d" "cow_blkno d \<noteq> 0" for z d
  proof -
    have "cow_staged f (orig_blkno d) (cow_blkno d)" using icow_okD(6) [OF ok0 d(1)] d(2) by (simp add: copy_ok_def)
    moreover have "cow_blkno d \<noteq> old"
    proof
      assume "cow_blkno d = old"
      then have "cow_staged (ic_fs s) (orig_blkno d) old" using inv d by (auto simp: icow_inv_def dest!: icow_okD(6) simp: copy_ok_def)
      then show False using old(3) by (simp add: cow_staged_def)
    qed
    ultimately show ?thesis by (simp add: cow_staged_def gb)
  qed
  have stn: "cow_staged g old n" using old(1,3) bm res af(2,3) on by (simp add: cow_staged_def gb)
  have onone: "hm_map (blkno_map_orig ?sf) (KPtr n) = None"
  proof (rule ccontr)
    assume "hm_map (blkno_map_orig ?sf) (KPtr n) \<noteq> None"
    then obtain z where z: "hm_map (blkno_map_orig ?sf) (KPtr n) = Some z" by blast
    obtain e where e: "ic_heap ?sf z = Some e" "n = orig_blkno e" using icow_ok_origE [OF ok0 z] by auto
    then have "in_use (ic_fs s) n" using inv by (auto simp: icow_inv_def)
    then show False using af(5) [OF _ bm(3)] by blast
  qed
  have "icow_ok ?s"
  proof (rule icow_ok_add [OF ok0, of ?s a "b\<lparr>dram := Some v\<rparr>"])
    show "ic_heap ?sf a = None \<and> hm_map (blkno_map_orig ?sf) (KPtr (orig_blkno (b\<lparr>dram := Some v\<rparr>))) = None \<or>
        (\<exists>b0. ic_heap ?sf a = Some b0 \<and> orig_blkno b0 = orig_blkno (b\<lparr>dram := Some v\<rparr>) \<and> cow_blkno b0 = 0)"
      using c cb by (simp add: cowed_def)
  qed (use c cb on onone af(4) q(3) stn st in \<open>simp_all add: cowed_def copy_ok_def\<close>)
  moreover have hp: "z \<noteq> a \<Longrightarrow> rel_option same_core (ic_heap s z) (ic_heap ?s z)" for z using c by (simp add: cowed_def)
  have "ic_heap ?s z = None" if "ic_fresh ?s \<le> z" for z
  proof -
    have z: "z \<noteq> a" "ic_heap s z = None" using that c inv by (auto simp: cowed_def icow_inv_def)
    show ?thesis using same_core_cases [OF hp [OF z(1)]] z by auto
  qed
  moreover have us: "in_use g m" if "in_use (ic_fs s) m" for m using af(6) [OF that] gb(1) by (simp add: in_use_def)
  have "in_use g (orig_blkno d)" if d: "ic_heap ?s z = Some d" for z d
  proof (cases "z = a")
    case True
    then show ?thesis using d cb us [OF old(2)] by auto
  next
    case False
    obtain e where e: "ic_heap s z = Some e" "same_core e d" using same_core_Some(2) [OF hp [OF False] d] by blast
    then have "in_use (ic_fs s) (orig_blkno e)" using inv by (simp add: icow_inv_def)
    then show ?thesis using e(2) us by (simp add: same_core_def)
  qed
  ultimately have "icow_inv ?s" by (simp add: icow_inv_def)
  moreover have "cow_nos ?s UNIV = cow_nos s1 UNIV" "orig_nos ?s UNIV = orig_nos s1 UNIV"
  proof -
    have "dram b \<noteq> None" using c b by (auto simp: cowed_def)
    then have "rel_option same_core (ic_heap s1 z) (ic_heap ?s z)" for z using b by (cases "z = a") (auto simp: same_core_def)
    then have "same_copies s1 ?s" by (simp only: same_copies_def simp_thms)
    then show "cow_nos ?s UNIV = cow_nos s1 UNIV" "orig_nos ?s UNIV = orig_nos s1 UNIV" using nos_core by blast+
  qed
  moreover have "cow_nos ?sf UNIV = cow_nos s UNIV" "orig_nos ?sf UNIV = orig_nos s UNIV" by (simp_all add: cow_nos_def orig_nos_def)
  moreover have "bitmap_persistent (block_alloc g) = bitmap_persistent ?bo"
  proof -
    have u: "bitmap_used (block_alloc g) = bitmap_used ?bm" using gb(1) by simp
    have nu: "unat (n - 1) \<notin> bitmap_used ?bo" using af(10) .
    show ?thesis unfolding bitmap_persistent_def u bm(4) using nu bm(1) gb(1) by auto
  qed
  moreover have "bpram g = bpram (ic_fs s)" "parent_stack ?s = parent_stack s" using gb(2) af(7) c by (simp_all add: cowed_def)
  ultimately show ?thesis using cowed_nos [OF c af(4)] bm(1,2) gb(1) q(2) af(1) by (simp add: cow_done_def)
qed

lemma cowed_access:
  assumes c: "cowed s old n a s1" and on: "old \<noteq> n" and r: "resident old f" and n: "n \<noteq> 0"
  shows "scsp_get_block old s1 = Some (InBpram old, s1)" "scsp_get_block n s1 = Some (InDram a, s1)"
proof -
  have cm: "ptr_map_ok (blkno_map_cow s1)" "hm_map (blkno_map_cow s1) = (hm_map (blkno_map_cow s))(KPtr n \<mapsto> a)"
      "hm_map (blkno_map_cow s) (KPtr old) = None" using c by (simp_all add: cowed_def)
  show "scsp_get_block old s1 = Some (InBpram old, s1)" by (rule scsp_get_block_bpram [OF cm(1) _ r]) (use cm on in simp)
  obtain b where b: "ic_heap s1 a = Some b" "dram b \<noteq> None" using c by (auto simp: cowed_def)
  have "indirect_cow_block_get n s1 = Some (Some (InDram a))"
    using ptr_map.find_abs [OF cm(1), of n] cm(2) b by (simp add: indirect_cow_block_get_def find_cow_def)
  then show "scsp_get_block n s1 = Some (InDram a, s1)" using n by (subst scsp_get_block.simps) simp
qed

lemma store_dram_eq: "ic_heap s a = Some b \<Longrightarrow> store_ptr (InDram a) v s = Some s' \<Longrightarrow> s' = s\<lparr>ic_heap := (ic_heap s)(a \<mapsto> b\<lparr>dram := Some v\<rparr>)\<rparr>"
  by (auto simp: store_ptr_def upd_block_eq bind_Some_eq)

lemma cow_block_entire_done:
  assumes inv: "icow_inv s" and old: "resident old (ic_fs s)" "in_use (ic_fs s) old" and b: "scsp_cow_block_entire m old s = Some (n, s')"
  shows "s' = s \<and> (n = 0 \<or> n = old) \<or> cow_done s old n s' \<and> cow_copied m s old n s'"
proof -
  obtain r s1 where r: "scsp_cow_begin m old s = Some (r, s1)" using b by (auto simp: scsp_cow_block_entire_def bind_Some_eq)
  note cs = cow_begin_cases [OF inv old r]
  show ?thesis
  proof (cases r)
    case (Inl k)
    then show ?thesis using cs b r by (auto simp: scsp_cow_block_entire_def)
  next
    case (Inr k)
    then obtain f a where fa: "old - 1 \<notin> set (bm_allocs (block_alloc (ic_fs s)))" "allocated k (ic_fs s) f" "blocks_ok f" "icow_inv (s\<lparr>ic_fs := f\<rparr>)"
        "cowed (s\<lparr>ic_fs := f\<rparr>) old k a s1" and md: "mem_dram m" and al: "alloc_block (ic_fs s) = Some (k, f)"
        and bc: "indirect_cow_block_cow m old k (s\<lparr>ic_fs := f\<rparr>) = Some (0, s1)" using cs by auto
    have bo: "blocks_ok (ic_fs s)" using inv icow_okD(3) by (auto simp: icow_inv_def)
    note af = allocated_facts [OF fa(2) bo]
    have on: "old \<noteq> k" using af(5) [OF old(2)] fa(2) by (simp add: allocated_def)
    obtain d where d: "ic_heap s1 a = Some d" using fa(5) by (auto simp: cowed_def)
    have fs1: "ic_fs s1 = f" using fa(5) by (simp add: cowed_def)
    obtain v s2 g where g: "store_ptr (InDram a) v s1 = Some s2"
        "scsp_free_block old ((ic_fs s2)\<lparr>cow_nbytes := cow_nbytes (ic_fs s2) + BPFS_BLOCK_SIZE, cow_nblocks := cow_nblocks (ic_fs s2) + 1\<rparr>) = Some g"
        "s' = s2\<lparr>ic_fs := g\<rparr>" "n = k"
      using b r Inr cowed_access [OF fa(5) on old(1) af(4)] by (auto simp: scsp_cow_block_entire_def bind_Some_eq on_fs_def)
    have s2: "s2 = s1\<lparr>ic_heap := (ic_heap s1)(a \<mapsto> d\<lparr>dram := Some v\<rparr>)\<rparr>" using store_dram_eq [OF d g(1)] .
    have "cow_copied m s old k s'" unfolding cow_copied_def g(3) s2
      using md af(4) al fa(4) bc d by (intro conjI exI [of _ f] exI [of _ s1] exI [of _ a] exI [of _ d] exI [of _ v]) simp_all
    then show ?thesis using cow_finish [OF inv old fa d] g(2,3,4) fs1 unfolding s2 by simp
  qed
qed

lemma cow_block_done:
  assumes inv: "icow_inv s" and old: "resident old (ic_fs s)" "in_use (ic_fs s) old" and b: "scsp_cow_block m old off sz valid s = Some (n, s')"
  shows "s' = s \<and> (n = 0 \<or> n = old) \<or> cow_done s old n s' \<and> cow_copied m s old n s'"
proof -
  obtain r s1 where r: "scsp_cow_begin m old s = Some (r, s1)" using b by (auto simp: scsp_cow_block_def bind_Some_eq Let_def)
  note cs = cow_begin_cases [OF inv old r]
  show ?thesis
  proof (cases r)
    case (Inl k)
    then show ?thesis using cs b r by (auto simp: scsp_cow_block_def bind_Some_eq Let_def)
  next
    case (Inr k)
    then obtain f a where fa: "old - 1 \<notin> set (bm_allocs (block_alloc (ic_fs s)))" "allocated k (ic_fs s) f" "blocks_ok f" "icow_inv (s\<lparr>ic_fs := f\<rparr>)"
        "cowed (s\<lparr>ic_fs := f\<rparr>) old k a s1" and md: "mem_dram m" and al: "alloc_block (ic_fs s) = Some (k, f)"
        and bc: "indirect_cow_block_cow m old k (s\<lparr>ic_fs := f\<rparr>) = Some (0, s1)" using cs by auto
    have bo: "blocks_ok (ic_fs s)" using inv icow_okD(3) by (auto simp: icow_inv_def)
    note af = allocated_facts [OF fa(2) bo]
    have on: "old \<noteq> k" using af(5) [OF old(2)] fa(2) by (simp add: allocated_def)
    obtain d where d: "ic_heap s1 a = Some d" using fa(5) by (auto simp: cowed_def)
    have fs1: "ic_fs s1 = f" using fa(5) by (simp add: cowed_def)
    obtain v s2 x y g where g: "store_ptr (InDram a) v s1 = Some s2" "scsp_free_block old ((ic_fs s2)\<lparr>cow_nbytes := x, cow_nblocks := y\<rparr>) = Some g"
        "s' = s2\<lparr>ic_fs := g\<rparr>" "n = k"
      using b r Inr cowed_access [OF fa(5) on old(1) af(4)] by (auto simp: scsp_cow_block_def bind_Some_eq on_fs_def Let_def)
    have s2: "s2 = s1\<lparr>ic_heap := (ic_heap s1)(a \<mapsto> d\<lparr>dram := Some v\<rparr>)\<rparr>" using store_dram_eq [OF d g(1)] .
    have "cow_copied m s old k s'" unfolding cow_copied_def g(3) s2
      using md af(4) al fa(4) bc d by (intro conjI exI [of _ f] exI [of _ s1] exI [of _ a] exI [of _ d] exI [of _ v]) simp_all
    then show ?thesis using cow_finish [OF inv old fa d] g(2,3,4) fs1 unfolding s2 by simp
  qed
qed

section \<open>Transactions\<close>

text \<open>The calls between two commits: following a pointer down and up, copying a block, marking a copy, and writing to a copy through
  the pointer that \<^verbatim>\<open>get_block\<close> returns. The blocks that are pushed and copied are in use, and a
  block that is copied is in memory; \<open>ic_step\<close> has no other calls.\<close>

datatype ic_op = Push ic_mem u64 | Pop u64 | Cow ic_mem u64 | CowPart ic_mem u64 u32 u32 u32 | Required u64 | WriteCopy u64 "block \<Rightarrow> block"

fun ic_step :: "ic_op \<Rightarrow> icow \<Rightarrow> icow option" where
  "ic_step (Push m n) s = (if in_use (ic_fs s) n then map_option snd (indirect_cow_parent_push m n s) else None)"
| "ic_step (Pop n) s = indirect_cow_parent_pop n s"
| "ic_step (Cow m n) s = (if resident n (ic_fs s) \<and> in_use (ic_fs s) n then map_option snd (scsp_cow_block_entire m n s) else None)"
| "ic_step (CowPart m n off sz valid) s =
     (if resident n (ic_fs s) \<and> in_use (ic_fs s) n then map_option snd (scsp_cow_block m n off sz valid s) else None)"
| "ic_step (Required n) s = indirect_cow_block_required n s"
| "ic_step (WriteCopy n g) s = do {
     (p, s) \<leftarrow> scsp_get_block n s;
     case p of InBpram _ \<Rightarrow> None | InDram a \<Rightarrow> do { b \<leftarrow> load_ptr p s; store_ptr p (g b) s }
   }"

text \<open>\<open>s\<close> is reached from \<open>s0\<close>: the memory is unchanged, and exactly the copies are staged.\<close>

definition in_trans :: "icow \<Rightarrow> icow \<Rightarrow> bool" where
  "in_trans s0 s \<longleftrightarrow> icow_inv s \<and> bpram (ic_fs s) = bpram (ic_fs s0) \<and>
     set (bm_allocs (block_alloc (ic_fs s))) = set (bm_allocs (block_alloc (ic_fs s0))) \<union> cow_nos s UNIV \<and>
     set (bm_frees (block_alloc (ic_fs s))) = set (bm_frees (block_alloc (ic_fs s0))) \<union> orig_nos s UNIV \<and>
     cow_nos s UNIV \<inter> set (bm_allocs (block_alloc (ic_fs s0))) = {} \<and> orig_nos s UNIV \<inter> set (bm_frees (block_alloc (ic_fs s0))) = {} \<and>
     bitmap_persistent (block_alloc (ic_fs s)) = bitmap_persistent (block_alloc (ic_fs s0))"

lemma in_trans_cow:
  assumes "in_trans s0 s" and "cow_done s old n s'"
  shows "in_trans s0 s'"
  using assms by (auto simp: in_trans_def cow_done_def)

lemma in_trans_core:
  assumes "in_trans s0 s" and "icow_inv s'" "ic_fs s' = ic_fs s" and "same_copies s s'"
  shows "in_trans s0 s'"
  using assms(1-3) nos_core [OF assms(4)] by (simp add: in_trans_def)

lemma get_block_dram:
  assumes "icow_ok s" and "scsp_get_block n s = Some (InDram a, s')"
  shows "s' = s \<and> (\<exists>b. ic_heap s a = Some b \<and> cow_blkno b = n \<and> n \<noteq> 0 \<and> dram b \<noteq> None)"
proof -
  obtain p where p: "indirect_cow_block_get n s = Some p" "n \<noteq> 0"
    using assms(2) by (subst (asm) scsp_get_block.simps) (auto simp: bind_Some_eq)
  show ?thesis
  proof (cases p)
    case None
    then show ?thesis using assms(2) p by (subst (asm) scsp_get_block.simps) (auto simp: bind_Some_eq split: if_splits)
  next
    case (Some q)
    then have "scsp_get_block n s = Some (q, s)" using p by (subst scsp_get_block.simps) simp
    then have "q = InDram a" "s' = s" using assms(2) by simp_all
    moreover obtain b where b: "hm_map (blkno_map_cow s) (KPtr n) = Some a" "ic_heap s a = Some b" "dram b \<noteq> None"
      using p(1) Some \<open>q = InDram a\<close> find_eq(2) [OF assms(1)]
      by (auto simp: indirect_cow_block_get_def bind_Some_eq split: option.splits if_splits)
    moreover have "cow_blkno b = n" using icow_ok_cowE [OF assms(1) b(1)] b(2) by auto
    ultimately show ?thesis using p(2) by blast
  qed
qed

lemma parent_push_copies:
  assumes inv: "icow_inv s" and p: "indirect_cow_parent_push m n s = Some (r, s')"
  shows "same_copies s s'"
proof -
  obtain e where e: "block_get_either n s = Some e" using p by (auto simp: indirect_cow_parent_push_def bind_Some_eq)
  show ?thesis
  proof (cases e)
    case (Some a)
    then have "ic_heap s' = ic_heap s" using e p by (auto simp: indirect_cow_parent_push_def push_parent_def bind_Some_eq)
    then show ?thesis by (simp add: same_copies_def)
  next
    case None
    then obtain x s1 where c: "block_create (mem_block m) n 0 s = Some (x, s1)" using e p by (auto simp: indirect_cow_parent_push_def bind_Some_eq)
    then have "ic_heap s' = ic_heap s1" using None e p
      by (auto simp: indirect_cow_parent_push_def push_parent_def bind_Some_eq split: option.splits)
    moreover have "same_copies s s1"
    proof (cases x)
      case None
      then show ?thesis using block_create_added [OF inv c] by (simp add: same_copies_def)
    next
      case (Some a)
      then have ad: "added s n 0 a s1" using block_create_added [OF inv c] by simp
      show ?thesis unfolding same_copies_def
      proof
        fix z
        show "rel_option same_core (ic_heap s z) (ic_heap s1 z) \<or> ic_heap s z = None \<and> (\<exists>b. ic_heap s1 z = Some b \<and> cow_blkno b = 0)"
          using ad inv by (cases "z = a") (auto simp: added_def icow_inv_def)
      qed
    qed
    ultimately show ?thesis by (simp add: same_copies_def)
  qed
qed

lemma upd_block_trans:
  assumes t: "in_trans s0 s" and a: "ic_heap s a = Some b" "same_core b b'"
  shows "in_trans s0 (s\<lparr>ic_heap := (ic_heap s)(a \<mapsto> b')\<rparr>)"
proof -
  let ?s = "s\<lparr>ic_heap := (ic_heap s)(a \<mapsto> b')\<rparr>"
  have h: "rel_option same_core (ic_heap s x) (ic_heap ?s x)" for x using a by simp
  then have "same_copies s ?s" by (simp only: same_copies_def simp_thms)
  moreover have "icow_inv ?s" using t by (intro icow_inv_core [of s ?s]) (use h in \<open>simp_all add: in_trans_def\<close>)
  ultimately show ?thesis using in_trans_core [OF t] by simp
qed

lemma ic_step_trans:
  assumes t: "in_trans s0 s" and st: "ic_step x s = Some s'"
  shows "in_trans s0 s'"
proof -
  have inv: "icow_inv s" using t by (simp add: in_trans_def)
  then have ok: "icow_ok s" by (simp add: icow_inv_def)
  show ?thesis
  proof (cases x)
    case (Push m n)
    then obtain r where "in_use (ic_fs s) n" "indirect_cow_parent_push m n s = Some (r, s')" using st by (auto split: if_splits)
    then show ?thesis using in_trans_core [OF t] parent_push_inv [OF inv] parent_push_copies [OF inv] by blast
  next
    case (Pop n)
    then have p: "indirect_cow_parent_pop n s = Some s'" using st by simp
    then have "ic_heap s' = ic_heap s" by (auto simp: indirect_cow_parent_pop_def bind_Some_eq split: list.splits)
    then show ?thesis using in_trans_core [OF t] parent_pop_inv [OF inv p] by (simp add: same_copies_def)
  next
    case (Cow m n)
    then obtain k where "resident n (ic_fs s)" "in_use (ic_fs s) n" "scsp_cow_block_entire m n s = Some (k, s')" using st by (auto split: if_splits)
    then show ?thesis using cow_block_entire_done [OF inv] t in_trans_cow [OF t] by blast
  next
    case (CowPart m n off sz valid)
    then obtain k where "resident n (ic_fs s)" "in_use (ic_fs s) n" "scsp_cow_block m n off sz valid s = Some (k, s')" using st by (auto split: if_splits)
    then show ?thesis using cow_block_done [OF inv] t in_trans_cow [OF t] by blast
  next
    case (Required n)
    then have rq: "indirect_cow_block_required n s = Some s'" using st by simp
    show ?thesis
    proof (cases "hm_map (blkno_map_cow s) (KPtr n)")
      case None
      then show ?thesis using rq t find_eq(2) [OF ok] by (simp add: indirect_cow_block_required_def)
    next
      case (Some a)
      obtain b where b: "ic_heap s a = Some b" "cow_blkno b \<noteq> 0" using icow_ok_cowE [OF ok Some] .
      then have "s' = s\<lparr>ic_heap := (ic_heap s)(a \<mapsto> b\<lparr>required := True\<rparr>)\<rparr>"
        using rq Some find_eq(2) [OF ok] by (simp add: indirect_cow_block_required_def upd_block_def)
      then show ?thesis using upd_block_trans [OF t b(1)] b(2) by (simp add: same_core_def)
    qed
  next
    case (WriteCopy n g)
    then obtain p s1 where p: "scsp_get_block n s = Some (p, s1)"
        "(case p of InBpram _ \<Rightarrow> None | InDram a \<Rightarrow> do { b \<leftarrow> load_ptr p s1; store_ptr p (g b) s1 }) = Some s'"
      using st by (auto simp: bind_Some_eq)
    then obtain a where "p = InDram a" by (cases p) auto
    then have a: "scsp_get_block n s = Some (InDram a, s1)" "Option.bind (load_ptr (InDram a) s1) (\<lambda>b. store_ptr (InDram a) (g b) s1) = Some s'"
      using p by simp_all
    obtain b where b: "s1 = s" "ic_heap s a = Some b" "dram b \<noteq> None" using get_block_dram [OF ok a(1)] by blast
    obtain v where "store_ptr (InDram a) v s = Some s'" using a(2) b(1) by (auto simp: bind_Some_eq)
    then have "s' = s\<lparr>ic_heap := (ic_heap s)(a \<mapsto> b\<lparr>dram := Some v\<rparr>)\<rparr>" using store_dram_eq [OF b(2)] by blast
    then show ?thesis using upd_block_trans [OF t b(2)] b(3) by (simp add: same_core_def)
  qed
qed

lemma run_in_trans:
  assumes "in_trans s0 s" and "run ic_step ops s = Some s'"
  shows "in_trans s0 s'"
  using run_invariant [of "in_trans s0" ic_step] ic_step_trans assms by blast

lemma in_trans_start:
  assumes "icow_inv s" and "ic_heap s = Map.empty"
  shows "in_trans s s"
  using assms by (simp add: in_trans_def cow_nos_def orig_nos_def)

lemma used_split:
  assumes "blocks_ok f"
  shows "bitmap_used (block_alloc f) = bitmap_persistent (block_alloc f) \<union> unat ` set (bm_allocs (block_alloc f))"
  using assms by (auto simp: blocks_ok_def bitmap_inv_fixed_def bitmap_inv_simps bitmap_persistent_def)

lemma trans_abort:
  assumes t: "in_trans s0 s" and ps: "parent_stack s = []" and sp: "bpram_super_ok (ic_fs s0)" and bo: "blocks_ok (ic_fs s0)"
  shows "\<exists>s'. indirect_cow_abort s = Some s' \<and> icow_ok s' \<and> ic_heap s' = Map.empty \<and> bpram (ic_fs s') = bpram (ic_fs s0) \<and>
    bitmap_used (block_alloc (ic_fs s')) = bitmap_used (block_alloc (ic_fs s0)) \<and>
    set (bm_allocs (block_alloc (ic_fs s'))) = set (bm_allocs (block_alloc (ic_fs s0))) \<and>
    set (bm_frees (block_alloc (ic_fs s'))) = set (bm_frees (block_alloc (ic_fs s0))) \<and> bpfs_super s' = InBpram BPFS_BLOCKNO_SUPER"
proof -
  let ?s = "s\<lparr>bpfs_super := InBpram BPFS_BLOCKNO_SUPER\<rparr>"
  have ok: "icow_ok s" using t by (simp add: in_trans_def icow_inv_def)
  have bp: "bpram (ic_fs s) = bpram (ic_fs s0)" using t by (simp add: in_trans_def)
  then have "mem n (ic_fs s) = mem n (ic_fs s0)" for n by (simp add: mem_def)
  then have "bpram_super_ok (ic_fs s)" using sp by (simp add: bpram_super_ok_def)
  then obtain s' where s': "indirect_cow_abort s = Some s'" "rolled ?s (dom (ic_heap s)) s'" "ic_heap s' = Map.empty"
    using indirect_cow_abort_rolled [OF ok ps] by blast
  have nos: "cow_nos ?s (dom (ic_heap s)) = cow_nos s UNIV" "orig_nos ?s (dom (ic_heap s)) = orig_nos s UNIV"
    by (auto simp: cow_nos_def orig_nos_def)
  have al: "set (bm_allocs (block_alloc (ic_fs s'))) = set (bm_allocs (block_alloc (ic_fs s0)))"
    "set (bm_frees (block_alloc (ic_fs s'))) = set (bm_frees (block_alloc (ic_fs s0)))"
    using s'(2) t unfolding rolled_def nos by (auto simp: in_trans_def)
  have pe: "bitmap_persistent (block_alloc (ic_fs s')) = bitmap_persistent (block_alloc (ic_fs s0))"
    using s'(2) t by (simp add: rolled_def in_trans_def)
  have ok': "icow_ok s'" using s'(2) by (simp add: rolled_def)
  have "bitmap_used (block_alloc (ic_fs s')) = bitmap_used (block_alloc (ic_fs s0))"
    using used_split [OF icow_okD(3) [OF ok']] used_split [OF bo] al(1) pe by simp
  moreover have "ic_fs s' = (ic_fs s)\<lparr>block_alloc := block_alloc (ic_fs s')\<rparr>" using s'(2) by (simp add: rolled_def)
  then have "bpram (ic_fs s') = bpram (ic_fs s)" by (metis fs.select_convs(1) fs.surjective fs.update_convs(2))
  moreover have "bpfs_super s' = InBpram 1" using s'(2) by (simp add: rolled_def)
  ultimately show ?thesis using s' al bp ok' by simp
qed

section \<open>Properties\<close>

text \<open>C7. An abort undoes every transaction: from a state without a transaction, after any sequence of calls that follow pointers, copy
  blocks, mark and change the copies, the tables are well-formed; when all parents are popped again \<^verbatim>\<open>indirect_cow_abort\<close> succeeds,
  frees all its blocks and leaves the memory and the set of blocks in use, with what is staged of them, as they were before.\<close>

theorem scsp_abort_restores:
  assumes "icow_inv s0" and "ic_heap s0 = Map.empty" and "bpram_super_ok (ic_fs s0)"
    and "run ic_step ops s0 = Some s" and "parent_stack s = []"
  shows "icow_inv s \<and> (\<exists>s'. indirect_cow_abort s = Some s' \<and> icow_ok s' \<and> ic_heap s' = Map.empty \<and> bpram (ic_fs s') = bpram (ic_fs s0) \<and>
    bitmap_used (block_alloc (ic_fs s')) = bitmap_used (block_alloc (ic_fs s0)) \<and>
    set (bm_allocs (block_alloc (ic_fs s'))) = set (bm_allocs (block_alloc (ic_fs s0))) \<and>
    set (bm_frees (block_alloc (ic_fs s'))) = set (bm_frees (block_alloc (ic_fs s0))) \<and> bpfs_super s' = InBpram BPFS_BLOCKNO_SUPER)"
proof -
  have t: "in_trans s0 s" using run_in_trans [OF in_trans_start [OF assms(1,2)] assms(4)] .
  have "blocks_ok (ic_fs s0)" using assms(1) icow_okD(3) by (auto simp: icow_inv_def)
  then show ?thesis using trans_abort [OF t assms(5,3)] t by (simp add: in_trans_def)
qed

definition scsp_fs :: fs where
  "scsp_fs = sample_fs\<lparr>bpram := (bpram sample_fs)[0 := put_u32 zero_block 0 BPFS_FS_MAGIC]\<rparr>"

definition scsp_start :: icow where
  "scsp_start = \<lparr>ic_fs = scsp_fs, ic_heap = Map.empty, ic_fresh = 0, indirect_cow_inited = True, blkno_map_orig = sample_map,
     blkno_map_cow = sample_map, parent_stack = [], bpfs_super = InBpram BPFS_BLOCKNO_SUPER\<rparr>"

definition enough_mem :: ic_mem where
  "enough_mem = \<lparr>mem_block = True, mem_dram = True, mem_orig = (True, True, True, True), mem_cow = (True, True, True, True)\<rparr>"

lemma scsp_start_ok: "icow_inv scsp_start" "bpram_super_ok (ic_fs scsp_start)"
proof -
  have "blocks_ok scsp_fs" using sample_fs_ok(1) by (simp add: scsp_fs_def blocks_ok_def)
  then show "icow_inv scsp_start" using sample_map_ok by (simp add: icow_inv_def icow_ok_def scsp_start_def ptr_map_ok_def)
  have "mem 1 scsp_fs = Some (put_u32 zero_block 0 BPFS_FS_MAGIC)" by (simp add: mem_def scsp_fs_def sample_fs_def)
  then show "bpram_super_ok (ic_fs scsp_start)" by (simp add: bpram_super_ok_def scsp_start_def super_magic_def get_put_u32_same)
qed

definition scsp_ops :: "ic_op list" where
  "scsp_ops = [Cow enough_mem 1, Push enough_mem 21, Cow enough_mem 5, Required 22, WriteCopy 22 (\<lambda>b. put_u64 b 0 9), Pop 21]"

theorem scsp_abort_restores_witness:
  "\<exists>s s'. run ic_step scsp_ops scsp_start = Some s \<and> indirect_cow_abort s = Some s' \<and> ic_heap s' = Map.empty \<and>
    bpram (ic_fs s') = bpram (ic_fs scsp_start)"
proof -
  have "map_option parent_stack (run ic_step scsp_ops scsp_start) = Some []" by code_simp
  then obtain s where s: "run ic_step scsp_ops scsp_start = Some s" "parent_stack s = []" by auto
  have "ic_heap scsp_start = Map.empty" by (simp add: scsp_start_def)
  then show ?thesis using scsp_abort_restores [OF scsp_start_ok(1) _ scsp_start_ok(2) s] s(1) by blast
qed

text \<open>C29. A copy on write that finds no memory for the copy in DRAM never returns. Take any call of \<^verbatim>\<open>cow_block_entire\<close> that,
  with that memory, would return a new block. Without it, \<^verbatim>\<open>indirect_cow_block_cow\<close> reports the failure, the error path gives
  the new block back, and then sets the bit of the old block in the bitmap. That bit is still set, and the assertion against it ends the
  process, in \<^verbatim>\<open>cow_block\<close> as in \<^verbatim>\<open>cow_block_entire\<close>.\<close>

theorem scsp_cow_enomem:
  assumes "icow_inv s" and "resident old (ic_fs s)" and "in_use (ic_fs s) old"
    and "scsp_cow_block_entire (m\<lparr>mem_dram := True\<rparr>) old s = Some (n, s')" and "n \<noteq> 0" and "n \<noteq> old"
  shows "\<exists>f s1 f2. alloc_block (ic_fs s) = Some (n, f) \<and>
    indirect_cow_block_cow (m\<lparr>mem_dram := False\<rparr>) old n (s\<lparr>ic_fs := f\<rparr>) = Some (- ENOMEM, s1) \<and>
    unalloc_block n (ic_fs s1) = Some f2 \<and> set_block old f2 = None \<and>
    scsp_cow_block_entire (m\<lparr>mem_dram := False\<rparr>) old s = None \<and> scsp_cow_block (m\<lparr>mem_dram := False\<rparr>) old off sz valid s = None"
proof -
  have "cow_copied (m\<lparr>mem_dram := True\<rparr>) s old n s'" using cow_block_entire_done [OF assms(1-4)] assms(5,6) by blast
  then obtain f s1 where f: "alloc_block (ic_fs s) = Some (n, f)" "icow_inv (s\<lparr>ic_fs := f\<rparr>)"
      "indirect_cow_block_cow (m\<lparr>mem_dram := True\<rparr>) old n (s\<lparr>ic_fs := f\<rparr>) = Some (0, s1)"
    unfolding cow_copied_def by blast
  obtain s2 where s2: "indirect_cow_block_cow (m\<lparr>mem_dram := False\<rparr>) old n (s\<lparr>ic_fs := f\<rparr>) = Some (- ENOMEM, s2)" "ic_fs s2 = f"
    using block_cow_no_dram [OF f(2,3)] by auto
  have nf: "\<not> block_freshly_alloced old s" "\<not> blocks_full (ic_fs s)"
    using assms(1,4,5,6) f(1) cow_new_not_fresh [OF assms(4,6)] alloc_block_ok [of "ic_fs s"] icow_okD(3) [of s]
    by (auto simp: icow_inv_def)
  obtain f2 where f2: "unalloc_block n f = Some f2" "set_block old f2 = None"
    using enomem_path [OF assms(1-3) nf(2) f(1)] by blast
  have "scsp_cow_begin (m\<lparr>mem_dram := False\<rparr>) old s = None" using cow_begin_enomem [OF assms(1-3) nf] by simp
  then show ?thesis using f(1) s2 f2 by (simp add: scsp_cow_block_entire_def scsp_cow_block_def check_def Let_def)
qed

theorem scsp_cow_enomem_witness:
  "\<exists>s s' f s1 f2. run ic_step [Cow enough_mem 1, Push enough_mem 21] scsp_start = Some s \<and>
    scsp_cow_block_entire (enough_mem\<lparr>mem_dram := True\<rparr>) 5 s = Some (22, s') \<and> alloc_block (ic_fs s) = Some (22, f) \<and>
    indirect_cow_block_cow (enough_mem\<lparr>mem_dram := False\<rparr>) 5 22 (s\<lparr>ic_fs := f\<rparr>) = Some (- ENOMEM, s1) \<and>
    unalloc_block 22 (ic_fs s1) = Some f2 \<and> set_block 5 f2 = None \<and>
    scsp_cow_block_entire (enough_mem\<lparr>mem_dram := False\<rparr>) 5 s = None"
proof -
  have "map_option (\<lambda>s. map_option fst (scsp_cow_block_entire (enough_mem\<lparr>mem_dram := True\<rparr>) 5 s))
      (run ic_step [Cow enough_mem 1, Push enough_mem 21] scsp_start) = Some (Some 22)" by code_simp
  then obtain s s' where s: "run ic_step [Cow enough_mem 1, Push enough_mem 21] scsp_start = Some s"
      "scsp_cow_block_entire (enough_mem\<lparr>mem_dram := True\<rparr>) 5 s = Some (22, s')" by auto
  have "map_option (\<lambda>s. resident 5 (ic_fs s) \<and> in_use (ic_fs s) 5) (run ic_step [Cow enough_mem 1, Push enough_mem 21] scsp_start) = Some True"
    by code_simp
  then have r: "resident 5 (ic_fs s)" "in_use (ic_fs s) 5" using s(1) by auto
  have "ic_heap scsp_start = Map.empty" by (simp add: scsp_start_def)
  then have "icow_inv s" using run_in_trans [OF in_trans_start [OF scsp_start_ok(1)] s(1)] by (simp add: in_trans_def)
  from scsp_cow_enomem [OF this r s(2)] s show ?thesis by fastforce
qed

text \<open>The same failure inside of \<^verbatim>\<open>indirect_cow_block_cow\<close> releases a new block that is still linked into the lists of its parent.\<close>

lemma block_cow_enomem_dangling:
  "(case run ic_step [Cow enough_mem 1, Push enough_mem 21] scsp_start of
      None \<Rightarrow> False
    | Some s \<Rightarrow> case indirect_cow_block_cow (enough_mem\<lparr>mem_dram := False\<rparr>) 5 22 s of
        None \<Rightarrow> False
      | Some (r, s') \<Rightarrow> r = - ENOMEM \<and> map_option children_cow (ic_heap s' 0) = Some (Some 1) \<and>
          map_option children_all (ic_heap s' 0) = Some (Some 1) \<and> Option.is_none (ic_heap s' 1))"
  by code_simp

end
