(* ===== verification/Cow_Atomic.thy ===== *)
theory Cow_Atomic
  imports Cow_Trans
begin

text \<open>
  When a transaction of calls can be committed, what \<^verbatim>\<open>indirect_cow_commit\<close> then does, and what a crash may leave of it.
  The links between the blocks of a transaction go from older blocks to newer ones, so the search of a commit walks down a finite path
  without repetition; it succeeds exactly on the paths of \<open>commit_path\<close>.
\<close>

section \<open>The links between the blocks\<close>

text \<open>A parent is older than its children, and the list of copied children holds copies.\<close>

definition links_ok :: "(addr \<Rightarrow> ic_block option) \<Rightarrow> bool" where
  "links_ok h \<longleftrightarrow> (\<forall>a b. h a = Some b \<longrightarrow> (\<forall>p. ic_parent b = Some p \<longrightarrow> p < a) \<and>
     (\<forall>x. children_cow b = Some x \<longrightarrow> a < x \<and> (\<exists>d. h x = Some d \<and> cow_blkno d \<noteq> 0)))"

lemma links_okD:
  assumes "links_ok h" and "h a = Some b"
  shows "ic_parent b = Some p \<Longrightarrow> p < a" "children_cow b = Some x \<Longrightarrow> a < x \<and> (\<exists>d. h x = Some d \<and> cow_blkno d \<noteq> 0)"
  using assms unfolding links_ok_def by blast+

lemma links_ok_update:
  assumes "links_ok h" and "h a = Some b" and "ic_parent b' = ic_parent b" "children_cow b' = children_cow b" "cow_blkno b' = cow_blkno b"
  shows "links_ok (h(a \<mapsto> b'))"
  using assms unfolding links_ok_def by (auto split: if_splits) (metis option.inject)+

lemma links_ok_new:
  assumes l: "links_ok h" and a: "h a = None" and b: "children_cow b = None" "\<forall>p. ic_parent b = Some p \<longrightarrow> p < a"
  shows "links_ok (h(a \<mapsto> b))"
  using assms unfolding links_ok_def by (auto split: if_splits) (metis option.distinct(1))+

text \<open>A copy becomes the first in the list of its parent.\<close>

lemma links_ok_child:
  assumes l: "links_ok h" and a: "h a = Some c" "cow_blkno c \<noteq> 0" and p: "h p = Some b" "p < a"
  shows "links_ok (h(p \<mapsto> b\<lparr>children_cow := Some a\<rparr>))"
  using assms unfolding links_ok_def by (auto split: if_splits) (metis option.inject)+

lemma block_create_links:
  assumes inv: "icow_inv s" and l: "links_ok (ic_heap s)" and c: "block_create m orig cow s = Some (r, s')"
  shows "links_ok (ic_heap s')"
proof (cases "m \<and> parent_get s \<noteq> None")
  case False
  have "ic_heap s (ic_fresh s) = None" using inv by (simp add: icow_inv_def)
  then show ?thesis using False c l links_ok_new [OF l] by (auto simp: block_create_def bind_Some_eq Let_def split: if_splits option.splits)
next
  case True
  then obtain p where p: "parent_get s = Some p" by blast
  let ?a = "ic_fresh s"
  let ?n = "\<lparr>orig_blkno = orig, cow_blkno = cow, dram = None, required = False, ic_parent = Some p,
         children_all = None, child_all_next = None, children_cow = None, child_cow_next = None\<rparr>"
  obtain b where b: "ic_heap s p = Some b" using True p c by (auto simp: block_create_def bind_Some_eq Let_def)
  have s': "ic_heap s' = (ic_heap s)(p \<mapsto> b\<lparr>children_all := Some ?a\<rparr>, ?a \<mapsto> ?n\<lparr>child_all_next := children_all b\<rparr>)" if "cow = 0"
    using True p c b that by (auto simp: block_create_def bind_Some_eq Let_def)
  have s'': "ic_heap s' = (ic_heap s)(p \<mapsto> b\<lparr>children_all := Some ?a, children_cow := Some ?a\<rparr>,
      ?a \<mapsto> ?n\<lparr>child_all_next := children_all b, child_cow_next := children_cow b\<rparr>)" if "cow \<noteq> 0"
    using True p c b that by (auto simp: block_create_def bind_Some_eq Let_def)
  have f: "ic_heap s ?a = None" and lt: "p < ?a" using inv b by (auto simp: icow_inv_def not_le [symmetric])
  let ?h = "(ic_heap s)(p \<mapsto> b\<lparr>children_all := Some ?a\<rparr>)"
  have l1: "links_ok ?h" by (rule links_ok_update [OF l b]) simp_all
  show ?thesis
  proof (cases "cow = 0")
    case True
    then show ?thesis using links_ok_new [OF l1, of ?a "?n\<lparr>child_all_next := children_all b\<rparr>"] f lt s' by simp
  next
    case False
    let ?m = "?n\<lparr>child_all_next := children_all b, child_cow_next := children_cow b\<rparr>"
    have "links_ok (?h(?a \<mapsto> ?m))" using links_ok_new [OF l1, of ?a ?m] f lt by simp
    from links_ok_child [OF this, of ?a ?m p] show ?thesis using False lt s'' by (simp add: fun_upd_twist)
  qed
qed

lemma block_set_cow_links:
  assumes inv: "icow_inv s" and l: "links_ok (ic_heap s)" and c: "block_set_cow a cow s = Some s'" "cow \<noteq> 0"
  shows "links_ok (ic_heap s')"
proof -
  obtain b where b: "ic_heap s a = Some b" "cow_blkno b = 0" "ic_parent b = parent_get s"
    using c(1) by (auto simp: block_set_cow_def bind_Some_eq)
  let ?h = "(ic_heap s)(a \<mapsto> b\<lparr>cow_blkno := cow\<rparr>)"
  have l1: "links_ok ?h" using l b(1) c(2) unfolding links_ok_def by (auto split: if_splits)
  show ?thesis
  proof (cases "parent_get s")
    case None
    then show ?thesis using b c(1) l1 by (auto simp: block_set_cow_def upd_block_eq bind_Some_eq parent_get_def)
  next
    case (Some p)
    have lt: "p < a" using links_okD(1) [OF l b(1)] b(3) Some by simp
    obtain pb where pb: "ic_heap s p = Some pb" and h: "ic_heap s' = (ic_heap s)(a \<mapsto> b\<lparr>cow_blkno := cow, child_cow_next := children_cow pb\<rparr>,
        p \<mapsto> pb\<lparr>children_cow := Some a\<rparr>)"
      using b Some c(1) lt by (auto simp: block_set_cow_def upd_block_eq bind_Some_eq parent_get_def split: if_splits)
    let ?c = "b\<lparr>cow_blkno := cow, child_cow_next := children_cow pb\<rparr>"
    have "links_ok (?h(a \<mapsto> ?c))" by (rule links_ok_update [OF l1, of a "b\<lparr>cow_blkno := cow\<rparr>"]) simp_all
    from links_ok_child [OF this, of a ?c p pb] show ?thesis using c(2) pb lt h by simp
  qed
qed

lemma alloc_dram_heap:
  assumes "alloc_dram m nb a orig cow s = Some (r, s')" and "mem_dram m" and "ic_heap s a = Some b" and "0 \<le> r"
  shows "ic_heap s' = (ic_heap s)(a \<mapsto> b\<lparr>dram := Some (heap_junk (ic_fs s))\<rparr>)"
  using assms by (auto simp: alloc_dram_def insert_block_def block_cow_abort_def bind_Some_eq upd_block_eq Let_def split: if_splits)

lemma block_cow_links:
  assumes inv: "icow_inv s" and l: "links_ok (ic_heap s)" and c: "indirect_cow_block_cow m orig cow s = Some (r, s')" and md: "mem_dram m" and z: "cow \<noteq> 0"
  shows "links_ok (ic_heap s')"
proof -
  have ok: "icow_ok s" using inv by (simp add: icow_inv_def)
  obtain nb a s1 where s1: "links_ok (ic_heap s1)" "pre_cow s orig cow nb a s1" "alloc_dram m nb a orig cow s1 = Some (r, s')"
  proof (cases "hm_map (blkno_map_orig s) (KPtr orig)")
    case None
    then obtain x s1 where x: "block_create (mem_block m) orig cow s = Some (x, s1)"
        "(case x of None \<Rightarrow> block_cow_abort (- ENOMEM) True None orig cow s1 | Some a \<Rightarrow> alloc_dram m True a orig cow s1) = Some (r, s')"
      using c find_eq(1) [OF ok] by (auto simp: indirect_cow_block_cow_def bind_Some_eq)
    then obtain a where a: "x = Some a" by (cases x) (auto simp: block_cow_abort_def)
    show ?thesis using that [of s1 True a] block_create_links [OF inv l x(1)] pre_cow_new [OF inv x(1) [unfolded a]] x(2) a by simp
  next
    case (Some a)
    then obtain s1 where x: "block_set_cow a cow s = Some s1" "alloc_dram m False a orig cow s1 = Some (r, s')"
      using c find_eq(1) [OF ok] by (auto simp: indirect_cow_block_cow_def bind_Some_eq)
    obtain b0 where b0: "ic_heap s a = Some b0" "orig_blkno b0 = orig" using icow_ok_origE [OF ok Some] by auto
    show ?thesis using that [of s1 False a] block_set_cow_links [OF inv l x(1) z] pre_cow_old [OF inv b0 x(1)] x(2) by simp
  qed
  obtain b where b: "ic_heap s1 a = Some b" using s1(2) by (auto simp: pre_cow_def)
  have r: "0 \<le> r" using alloc_dram_cowed [OF ok s1(2,3)] md by simp
  have "ic_heap s' = (ic_heap s1)(a \<mapsto> b\<lparr>dram := Some (heap_junk (ic_fs s1))\<rparr>)"
    using s1(3) md b r alloc_dram_heap by blast
  then show ?thesis using links_ok_update [OF s1(1) b] by simp
qed

lemma cow_copied_links:
  assumes l: "links_ok (ic_heap s)" and c: "cow_copied m s old n s'"
  shows "links_ok (ic_heap s')"
proof -
  obtain f s1 a d v where f: "icow_inv (s\<lparr>ic_fs := f\<rparr>)" "indirect_cow_block_cow m old n (s\<lparr>ic_fs := f\<rparr>) = Some (0, s1)"
      "ic_heap s1 a = Some d" "ic_heap s' = (ic_heap s1)(a \<mapsto> d\<lparr>dram := Some v\<rparr>)" "mem_dram m" "n \<noteq> 0"
    using c unfolding cow_copied_def by blast
  have "links_ok (ic_heap s1)" using block_cow_links [OF f(1) _ f(2,5,6)] l by simp
  from links_ok_update [OF this f(3), of "d\<lparr>dram := Some v\<rparr>"] show ?thesis using f(4) by simp
qed

lemma ic_step_links:
  assumes inv: "icow_inv s" and l: "links_ok (ic_heap s)" and st: "ic_step x s = Some s'"
  shows "links_ok (ic_heap s')"
proof -
  have ok: "icow_ok s" using inv by (simp add: icow_inv_def)
  have upd: "links_ok (ic_heap t)" if "upd_block a g s = Some t" "\<And>b. ic_parent (g b) = ic_parent b \<and> children_cow (g b) = children_cow b \<and> cow_blkno (g b) = cow_blkno b" for a g t
    using that links_ok_update [OF l] by (auto simp: upd_block_eq)
  show ?thesis
  proof (cases x)
    case (Push m n)
    then obtain r where p: "indirect_cow_parent_push m n s = Some (r, s')" using st by (auto split: if_splits)
    obtain e where e: "block_get_either n s = Some e" using p by (auto simp: indirect_cow_parent_push_def bind_Some_eq)
    show ?thesis
    proof (cases e)
      case (Some a)
      then show ?thesis using e p l by (auto simp: indirect_cow_parent_push_def push_parent_def bind_Some_eq)
    next
      case None
      then obtain y s1 where c: "block_create (mem_block m) n 0 s = Some (y, s1)" using e p by (auto simp: indirect_cow_parent_push_def bind_Some_eq)
      then have "ic_heap s' = ic_heap s1" using None e p
        by (auto simp: indirect_cow_parent_push_def push_parent_def bind_Some_eq split: option.splits)
      then show ?thesis using block_create_links [OF inv l c] by simp
    qed
  next
    case (Pop n)
    then show ?thesis using st l by (auto simp: indirect_cow_parent_pop_def bind_Some_eq split: list.splits)
  next
    case (Cow m n)
    then obtain k where "resident n (ic_fs s)" "in_use (ic_fs s) n" "scsp_cow_block_entire m n s = Some (k, s')" using st by (auto split: if_splits)
    then show ?thesis using cow_block_entire_done [OF inv] cow_copied_links [OF l] l by blast
  next
    case (CowPart m n off sz valid)
    then obtain k where "resident n (ic_fs s)" "in_use (ic_fs s) n" "scsp_cow_block m n off sz valid s = Some (k, s')" using st by (auto split: if_splits)
    then show ?thesis using cow_block_done [OF inv] cow_copied_links [OF l] l by blast
  next
    case (Required n)
    then show ?thesis using st l upd by (auto simp: indirect_cow_block_required_def bind_Some_eq split: option.splits)
  next
    case (WriteCopy n g)
    then obtain p s1 where p: "scsp_get_block n s = Some (p, s1)"
        "(case p of InBpram _ \<Rightarrow> None | InDram a \<Rightarrow> do { b \<leftarrow> load_ptr p s1; store_ptr p (g b) s1 }) = Some s'"
      using st by (auto simp: bind_Some_eq)
    then obtain a where a: "p = InDram a" by (cases p) auto
    then have "s1 = s" using get_block_dram [OF ok] p(1) by blast
    then show ?thesis using p(2) a upd by (auto simp: bind_Some_eq store_ptr_def)
  qed
qed

text \<open>The states of a transaction.\<close>

lemma run_links:
  assumes "icow_inv s0" and "ic_heap s0 = Map.empty" and "run ic_step ops s0 = Some s"
  shows "in_trans s0 s \<and> links_ok (ic_heap s)"
proof -
  have "in_trans s0 s0 \<and> links_ok (ic_heap s0)" using in_trans_start [OF assms(1,2)] assms(2) by (simp add: links_ok_def)
  moreover have "in_trans s0 t' \<and> links_ok (ic_heap t')" if "in_trans s0 t \<and> links_ok (ic_heap t)" "ic_step x t = Some t'" for x t t'
    using that ic_step_trans ic_step_links in_trans_def by blast
  ultimately show ?thesis using run_invariant [of "\<lambda>t. in_trans s0 t \<and> links_ok (ic_heap t)" ic_step s0 ops s] assms(3) by blast
qed

section \<open>When a commit succeeds\<close>

text \<open>The copies from the super block down to the one that is written in place form a path: every one of them has at most one changed word,
  all but the last are not marked and have one copied child, and the search stops at the last.\<close>

definition commit_path :: "icow \<Rightarrow> addr list \<Rightarrow> addr option \<Rightarrow> bool" where
  "commit_path s xs c \<longleftrightarrow> cow_path s xs c \<and> hm_map (blkno_map_orig s) (KPtr BPFS_BLOCKNO_SUPER) = Some (hd xs) \<and>
     (\<exists>b. ic_heap s (hd xs) = Some b \<and> \<not> required b \<and> children_cow b \<noteq> None)"

text \<open>The super block is the only copy.\<close>

definition only_super :: "icow \<Rightarrow> bool" where
  "only_super s \<longleftrightarrow> (\<exists>a b. hm_map (blkno_map_orig s) (KPtr BPFS_BLOCKNO_SUPER) = Some a \<and> ic_heap s a = Some b \<and> cow_blkno b \<noteq> 0 \<and>
     (\<forall>a' b'. ic_heap s a' = Some b' \<and> cow_blkno b' \<noteq> 0 \<longrightarrow> a' = a))"

lemma cow_path_increasing:
  assumes "links_ok (ic_heap s)" and "cow_path s xs c"
  shows "sorted_wrt (<) xs \<and> (\<forall>x. c = Some x \<longrightarrow> (\<forall>z \<in> set xs. z < x))"
  using assms(2)
proof (induction xs)
  case (Cons a as)
  then obtain b where b: "ic_heap s a = Some b" "children_cow b = (if as = [] then c else Some (hd as))" "as \<noteq> [] \<Longrightarrow> cow_path s as c"
    by (auto split: if_splits)
  note ch = links_okD(2) [OF assms(1) b(1)]
  show ?case
  proof (cases "as = []")
    case True
    then show ?thesis using b(2) ch by auto
  next
    case False
    then have "a < hd as" using b(2) ch [of "hd as"] by simp
    moreover have so: "sorted_wrt (<) as" "\<forall>x. c = Some x \<longrightarrow> (\<forall>z \<in> set as. z < x)" using Cons.IH [OF b(3) [OF False]] by auto
    ultimately have "a < z" if "z \<in> set as" for z using that False by (cases as) auto
    then show ?thesis using so False by (metis list.set_intros(1) less_trans list.exhaust set_ConsD sorted_wrt.simps(2))
  qed
qed simp

lemma commit_path_ready:
  assumes "in_trans s0 s" and "links_ok (ic_heap s)" and "parent_stack s = []" and "bpram_super_ok (ic_fs s)" and "commit_path s xs c"
  shows "commit_ready s xs c"
proof -
  have "sorted_wrt (<) xs \<and> (\<forall>x. c = Some x \<longrightarrow> (\<forall>z \<in> set xs. z < x))" using cow_path_increasing [OF assms(2), of xs c] assms(5) unfolding commit_path_def by blast
  then have "distinct xs" "c \<notin> Some ` set xs" by (auto simp: strict_sorted_iff)
  then show ?thesis using assms by (simp add: commit_ready_def commit_path_def in_trans_def icow_inv_def)
qed

text \<open>The search walks down such a path.\<close>

lemma find_highest_conv:
  assumes inv: "icow_inv s" and l: "links_ok (ic_heap s)" and "ic_heap s a = Some b" "cow_blkno b \<noteq> 0" "one_word s a" "find_highest a s = Some r"
  shows "\<exists>xs c. cow_path s xs c \<and> hd xs = a"
  using assms(3-6)
proof (induction "ic_fresh s - a" arbitrary: a b rule: less_induct)
  case less
  have ok: "icow_ok s" using inv by (simp add: icow_inv_def)
  show ?case
  proof (cases "children_cow b")
    case None
    then have "required b" using less.prems(1,4) by (subst (asm) find_highest.simps) (simp add: bind_Some_eq)
    then have "cow_path s [a] None" using less.prems None by (simp add: stops_def)
    then show ?thesis by (metis list.sel(1))
  next
    case (Some x)
    obtain d where d: "a < x" "ic_heap s x = Some d" "cow_blkno d \<noteq> 0" using links_okD(2) [OF l less.prems(1) Some] by blast
    obtain w where w: "cow_is_atomically_writable x s = Some ((one_word s x, w), s)" using writable_eval [OF ok d(2,3)] by blast
    have "find_highest a s = (if child_cow_next d \<noteq> None then None else if \<not> one_word s x \<or> required b then Some (a, s) else find_highest x s)"
      using less.prems(1) Some d(2) w by (subst find_highest.simps) (simp add: check_def)
    then have n: "child_cow_next d = None" and r: "required b \<or> \<not> one_word s x \<or> find_highest x s = Some r"
      using less.prems(4) by (auto split: if_splits)
    show ?thesis
    proof (cases "required b \<or> \<not> one_word s x")
      case True
      then have "cow_path s [a] (Some x)" using less.prems Some d n by (simp add: stops_def)
      then show ?thesis by (metis list.sel(1))
    next
      case False
      have "x < ic_fresh s" using inv d(2) by (auto simp: icow_inv_def not_le [symmetric])
      then have "ic_fresh s - x < ic_fresh s - a" using d(1) by simp
      then obtain xs c where xs: "cow_path s xs c" "hd xs = x" using less.hyps [of x d] d False r by auto
      then have "xs \<noteq> []" by auto
      then have "cow_path s (a # xs) c" using xs less.prems Some d n False by simp
      then show ?thesis by (metis list.sel(1))
    qed
  qed
qed

lemma super_copied:
  assumes ok: "icow_ok s" and sp: "bpram_super_ok (ic_fs s)" and a: "hm_map (blkno_map_orig s) (KPtr BPFS_BLOCKNO_SUPER) = Some a" "ic_heap s a = Some b"
    and w: "cow_is_atomically_writable a s = Some r"
  shows "cow_blkno b \<noteq> 0"
proof
  assume z: "cow_blkno b = 0"
  have o: "orig_blkno b = 1" using icow_ok_origE [OF ok a(1)] a(2) by auto
  have "mem 1 (ic_fs s) \<noteq> None" using sp by (auto simp: bpram_super_ok_def)
  then have "resident 1 (ic_fs s)" by (auto simp: mem_def resident_def split: if_splits)
  then have "scsp_get_block 1 s = Some (InBpram 1, s)" using scsp_get_block_bpram [OF icow_okD(2) [OF ok]] icow_okD(7) [OF ok a(2)] o by metis
  moreover have "dram b = None" using icow_okD(6) [OF ok a(2)] z by (simp add: copy_ok_def)
  ultimately show False using w a(2) o by (simp add: cow_is_atomically_writable_def load_ptr_def bind_Some_eq)
qed

lemma commit_search_conv:
  assumes inv: "icow_inv s" and l: "links_ok (ic_heap s)" and sp: "bpram_super_ok (ic_fs s)" and c: "commit_search s = Some r"
  shows "\<exists>xs c. commit_path s xs c"
proof -
  have ok: "icow_ok s" using inv by (simp add: icow_inv_def)
  obtain a b w s1 y where a: "hm_map (blkno_map_orig s) (KPtr BPFS_BLOCKNO_SUPER) = Some a" "ic_heap s a = Some b" "\<not> required b" "children_cow b \<noteq> None"
      "cow_is_atomically_writable a s = Some (w, s1)" "fst w" "find_highest a s1 = Some y"
    using c find_eq(1) [OF ok] by (auto simp: commit_search_def bind_Some_eq)
  have z: "cow_blkno b \<noteq> 0" using super_copied [OF ok sp a(1,2,5)] .
  obtain v where "cow_is_atomically_writable a s = Some ((one_word s a, v), s)" using writable_eval [OF ok a(2) z] by blast
  then have "one_word s a" "s1 = s" using a(5,6) by auto
  then obtain xs c where "cow_path s xs c" "hd xs = a" using find_highest_conv [OF inv l a(2) z] a(7) by blast
  then show ?thesis using a(1-4) by (auto simp: commit_path_def)
qed

lemma commit_conv:
  assumes inv: "icow_inv s" and l: "links_ok (ic_heap s)" and sp: "bpram_super_ok (ic_fs s)" and c: "indirect_cow_commit s = Some s'"
  shows "parent_stack s = [] \<and> (only_super s \<or> (\<exists>xs c. commit_path s xs c))"
proof (cases "hash_map_size (blkno_map_cow s) = 1")
  case True
  have ok: "icow_ok s" using inv by (simp add: icow_inv_def)
  obtain a b where a: "hm_map (blkno_map_orig s) (KPtr BPFS_BLOCKNO_SUPER) = Some a" "ic_heap s a = Some b" "cow_blkno b \<noteq> 0"
    using c True find_eq(1) [OF ok] by (auto simp: indirect_cow_commit_def commit_unchanged_def bind_Some_eq)
  have "a' = a" if "ic_heap s a' = Some b'" "cow_blkno b' \<noteq> 0" for a' b'
    using cow_map_size(2) [OF ok a(2) that(1) a(3) that(2)] True by auto
  then have "only_super s" using a unfolding only_super_def by blast
  then show ?thesis using c by (auto simp: indirect_cow_commit_def)
next
  case False
  then obtain r where "commit_search s = Some r"
    using c by (auto simp: indirect_cow_commit_def commit_prepare_def commit_begin_def bind_Some_eq)
  then show ?thesis using commit_search_conv [OF inv l sp] c by (auto simp: indirect_cow_commit_def)
qed

lemma only_super_commit:
  assumes t: "in_trans s0 s" and ps: "parent_stack s = []" and sp: "bpram_super_ok (ic_fs s)" and o: "only_super s"
  shows "\<exists>s'. indirect_cow_commit s = Some s' \<and> ic_heap s' = Map.empty \<and> bpfs_super s' = InBpram BPFS_BLOCKNO_SUPER \<and> bpram (ic_fs s') = bpram (ic_fs s) \<and>
    set (bm_allocs (block_alloc (ic_fs s'))) = set (bm_allocs (block_alloc (ic_fs s))) - cow_nos s UNIV \<and>
    set (bm_frees (block_alloc (ic_fs s'))) = set (bm_frees (block_alloc (ic_fs s))) - orig_nos s UNIV"
proof -
  have ok: "icow_ok s" using t by (simp add: in_trans_def icow_inv_def)
  obtain a b where a: "hm_map (blkno_map_orig s) (KPtr BPFS_BLOCKNO_SUPER) = Some a" "ic_heap s a = Some b" "cow_blkno b \<noteq> 0"
      "\<And>a' b'. ic_heap s a' = Some b' \<Longrightarrow> cow_blkno b' \<noteq> 0 \<Longrightarrow> a' = a" using o unfolding only_super_def by blast
  obtain s' where s': "indirect_cow_commit s = Some s'" "ic_heap s' = Map.empty" "dropped BPFS_BLOCKNO_SUPER (cow_blkno b) (ic_fs s) (ic_fs s')"
      "bpfs_super s' = InBpram BPFS_BLOCKNO_SUPER" using commit_unchanged_ok [OF ok ps sp a(1-3)] a(4) by metis
  have ob: "orig_blkno b = 1" using icow_ok_origE [OF ok a(1)] a(2) by auto
  have "cow_nos s UNIV = {cow_blkno b - 1}" "orig_nos s UNIV = {orig_blkno b - 1}" using a(2-4) by (auto simp: nos_iff set_eq_iff)
  moreover have "distinct (bm_allocs (block_alloc (ic_fs s)))" "distinct (bm_frees (block_alloc (ic_fs s)))"
    using icow_okD(3) [OF ok] by (simp_all add: blocks_ok_def bitmap_inv_fixed_def bitmap_inv_def)
  ultimately show ?thesis using s' ob dropped_mem [OF s'(3)] by (auto simp: dropped_def set_remove1_eq)
qed

lemma only_super_size:
  assumes ok: "icow_ok s" and o: "only_super s"
  shows "hash_map_size (blkno_map_cow s) = 1"
proof -
  obtain a b where a: "ic_heap s a = Some b" "cow_blkno b \<noteq> 0" "\<And>a' b'. ic_heap s a' = Some b' \<Longrightarrow> cow_blkno b' \<noteq> 0 \<Longrightarrow> a' = a"
    using o unfolding only_super_def by blast
  have "k = KPtr (cow_blkno b)" if k: "hm_map (blkno_map_cow s) k = Some x" for k x
  proof -
    obtain y where "ic_heap s x = Some y" "cow_blkno y \<noteq> 0" "k = KPtr (cow_blkno y)" using icow_ok_cowE [OF ok k] .
    then show ?thesis using a(1) a(3) [of x y] by auto
  qed
  then have "k \<in> dom (hm_map (blkno_map_cow s)) \<longleftrightarrow> k = KPtr (cow_blkno b)" for k using icow_okD(5) [OF ok a(1,2)] by (metis domD domI)
  then have "dom (hm_map (blkno_map_cow s)) = {KPtr (cow_blkno b)}" by blast
  then show ?thesis using size_card [of "blkno_map_cow s"] icow_okD(2) [OF ok] by (simp add: ptr_map_ok_def)
qed

section \<open>Properties\<close>

text \<open>C6. When a transaction commits, and that it is by one store. Take any sequence of calls from a state without a transaction.
  \<^verbatim>\<open>indirect_cow_commit\<close> then fails an assertion exactly when a parent is still pushed, or when the super block is not the only
  copy and the copies below it do not form a \<open>commit_path\<close>: from the super block down to the copy that is written in place, each has at
  most one changed word, and all but the last are unmarked and have one copied child. In the other cases it succeeds. With the super block as the only
  copy it changes no block. With a path, every copy off the path has been written to its new block, the block that the last copy of the path
  replaces has been made equal to it by a store of at most one aligned word, and no other block of the memory has changed. The tables
  are empty, and exactly the copies off the path remain staged.\<close>

theorem indirect_cow_commit_atomic:
  assumes "icow_inv s0" and "ic_heap s0 = Map.empty" and "bpram_super_ok (ic_fs s0)" and "run ic_step ops s0 = Some s"
  shows "case indirect_cow_commit s of
      None \<Rightarrow> parent_stack s \<noteq> [] \<or> \<not> only_super s \<and> (\<forall>xs c. \<not> commit_path s xs c)
    | Some s' \<Rightarrow> parent_stack s = [] \<and> ic_heap s' = Map.empty \<and> bpfs_super s' = InBpram BPFS_BLOCKNO_SUPER \<and>
        (only_super s \<and> bpram (ic_fs s') = bpram (ic_fs s0) \<and>
           set (bm_allocs (block_alloc (ic_fs s'))) = set (bm_allocs (block_alloc (ic_fs s0))) \<and>
           set (bm_frees (block_alloc (ic_fs s'))) = set (bm_frees (block_alloc (ic_fs s0))) \<or>
         (\<exists>xs c. commit_path s xs c \<and> committed s xs (ic_fs s') \<and>
           set (bm_allocs (block_alloc (ic_fs s'))) = set (bm_allocs (block_alloc (ic_fs s))) - cow_nos s (set xs) \<and>
           set (bm_frees (block_alloc (ic_fs s'))) = set (bm_frees (block_alloc (ic_fs s))) - orig_nos s (set xs)))"
proof -
  have t: "in_trans s0 s" and l: "links_ok (ic_heap s)" using run_links [OF assms(1,2,4)] by auto
  have inv: "icow_inv s" using t by (simp add: in_trans_def)
  have bp: "bpram (ic_fs s) = bpram (ic_fs s0)" using t by (simp add: in_trans_def)
  then have "mem n (ic_fs s) = mem n (ic_fs s0)" for n by (simp add: mem_def)
  then have sp: "bpram_super_ok (ic_fs s)" using assms(3) by (simp add: bpram_super_ok_def)
  show ?thesis
  proof (cases "parent_stack s = [] \<and> (only_super s \<or> (\<exists>xs c. commit_path s xs c))")
    case False
    then have "indirect_cow_commit s = None" using commit_conv [OF inv l sp] by (metis option.exhaust)
    then show ?thesis using False by auto
  next
    case True
    then consider "only_super s" | xs c where "commit_path s xs c" by blast
    then show ?thesis
    proof cases
      case 1
      then show ?thesis using only_super_commit [OF t _ sp] True t bp by (auto simp: in_trans_def)
    next
      case 2
      obtain s' where "indirect_cow_commit s = Some s'" "committed s xs (ic_fs s')" "ic_heap s' = Map.empty" "bpfs_super s' = InBpram BPFS_BLOCKNO_SUPER"
          "set (bm_allocs (block_alloc (ic_fs s'))) = set (bm_allocs (block_alloc (ic_fs s))) - cow_nos s (set xs)"
          "set (bm_frees (block_alloc (ic_fs s'))) = set (bm_frees (block_alloc (ic_fs s))) - orig_nos s (set xs)"
        using indirect_cow_commit_ok [OF commit_path_ready [OF t l _ sp 2]] True by blast
      then show ?thesis using True 2 by (simp del: fun_upd_apply) blast
    qed
  qed
qed

text \<open>A transaction: the super block gets one new word, block 5 two.\<close>

definition super_0 :: block where "super_0 = put_u32 zero_block 0 BPFS_FS_MAGIC"
definition super_1 :: block where "super_1 = put_u64 super_0 32 22"
definition root_0 :: block where "root_0 = put_u64 zero_block 0 7"
definition root_1 :: block where "root_1 = put_u64 (put_u64 root_0 8 1) 16 1"

definition commit_ops :: "ic_op list" where
  "commit_ops = [Cow enough_mem 1, Push enough_mem 21, Cow enough_mem 5, Required 22, Pop 21] @
     [WriteCopy 22 (\<lambda>_. root_1)] @ [WriteCopy 21 (\<lambda>_. super_1)]"

lemma diff_one:
  assumes "off mod 8 = 0"
  shows "length (diff_offs b (put_u64 b off v)) \<le> 1"
proof -
  have "distinct word_offs" by (auto simp: word_offs_def distinct_map inj_on_def)
  then have d: "distinct (diff_offs b (put_u64 b off v))" by (simp add: diff_offs_def)
  have "x = off" if "x \<in> set (diff_offs b (put_u64 b off v))" for x
  proof (rule ccontr)
    assume "x \<noteq> off"
    moreover have "x mod 8 = 0" using that diff_offs_aligned by blast
    ultimately have "off + 8 \<le> x \<or> x + 8 \<le> off" using assms by presburger
    then show False using that by (simp add: diff_offs_def get_put_u64_other)
  qed
  then have "set (diff_offs b (put_u64 b off v)) \<subseteq> {off}" by blast
  then have "card (set (diff_offs b (put_u64 b off v))) \<le> card {off}" by (intro card_mono) simp_all
  then show ?thesis using distinct_card [OF d] by simp
qed

lemma diff_two: "2 \<le> length (diff_offs root_0 root_1)"
proof -
  have w: "8 \<in> set word_offs" "16 \<in> set word_offs"
    by (auto simp: word_offs_def intro!: image_eqI [of _ _ "1 :: nat"] image_eqI [of _ _ "2 :: nat"])
  have z: "get_u64 zero_block a = 0" for a by (simp add: get_u64_def load_le_eq_0 zero_block_def)
  have "{8, 16} \<subseteq> set (diff_offs root_0 root_1)"
    using w z by (simp add: diff_offs_def root_0_def root_1_def access_simps)
  then have "card {8, 16 :: nat} \<le> card (set (diff_offs root_0 root_1))" by (intro card_mono) simp_all
  then show ?thesis using card_length [of "diff_offs root_0 root_1"] by simp
qed

lemma write_copy_eq:
  assumes "icow_ok s" and "ic_step (WriteCopy n g) s = Some s'"
  shows "\<exists>a b d. ic_heap s a = Some b \<and> cow_blkno b = n \<and> n \<noteq> 0 \<and> dram b = Some d \<and> s' = s\<lparr>ic_heap := (ic_heap s)(a \<mapsto> b\<lparr>dram := Some (g d)\<rparr>)\<rparr>"
proof -
  obtain p s1 where p: "scsp_get_block n s = Some (p, s1)"
      "(case p of InBpram _ \<Rightarrow> None | InDram a \<Rightarrow> do { b \<leftarrow> load_ptr p s1; store_ptr p (g b) s1 }) = Some s'"
    using assms(2) by (auto simp: bind_Some_eq)
  then obtain a where a: "p = InDram a" by (cases p) auto
  then have "s1 = s" "\<exists>b. ic_heap s a = Some b \<and> cow_blkno b = n \<and> n \<noteq> 0" using get_block_dram [OF assms(1)] p(1) by blast+
  then obtain b d where "ic_heap s a = Some b" "cow_blkno b = n" "n \<noteq> 0" "dram b = Some d" "s' = s\<lparr>ic_heap := (ic_heap s)(a \<mapsto> b\<lparr>dram := Some (g d)\<rparr>)\<rparr>"
    using p(2) a by (auto simp: load_ptr_def store_ptr_def bind_Some_eq upd_block_eq)
  then show ?thesis by blast
qed

lemma run_append: "run step (xs @ ys) s = Option.bind (run step xs s) (run step ys)"
proof (induction xs arbitrary: s)
  case (Cons x xs)
  then show ?case by (cases "step x s") simp_all
qed simp

lemma commit_run:
  "\<exists>s. run ic_step commit_ops scsp_start = Some s \<and> parent_stack s = [] \<and> commit_path s [0] (Some 1)"
proof -
  have e0: "ic_heap scsp_start = Map.empty" by (simp add: scsp_start_def)
  let ?h = "\<lambda>s a. map_option (\<lambda>b. (orig_blkno b, cow_blkno b, required b, children_cow b, child_cow_next b)) (ic_heap s a)"
  have "map_option (\<lambda>s. (parent_stack s, ?h s 0, ?h s 1)) (run ic_step commit_ops scsp_start) =
      Some ([], Some (1, 21, False, Some 1, None), Some (5, 22, True, None, None))" by code_simp
  then obtain s b0 b1 where s: "run ic_step commit_ops scsp_start = Some s" "parent_stack s = []" "ic_heap s 0 = Some b0" "ic_heap s 1 = Some b1"
      and b: "orig_blkno b0 = 1" "cow_blkno b0 = 21" "\<not> required b0" "children_cow b0 = Some 1" "orig_blkno b1 = 5" "cow_blkno b1 = 22" "child_cow_next b1 = None" by auto
  note t = run_in_trans [OF in_trans_start [OF scsp_start_ok(1) e0]]
  have ok: "icow_ok s'" if "run ic_step ops scsp_start = Some s'" for ops s' using t [OF that] by (simp add: in_trans_def icow_inv_def)
  obtain s1 s2 where s1: "run ic_step [Cow enough_mem 1, Push enough_mem 21, Cow enough_mem 5, Required 22, Pop 21] scsp_start = Some s1"
      "ic_step (WriteCopy 22 (\<lambda>_. root_1)) s1 = Some s2" "ic_step (WriteCopy 21 (\<lambda>_. super_1)) s2 = Some s"
    using s(1) unfolding commit_ops_def run_append by (auto simp: bind_Some_eq simp del: ic_step.simps)
  have ok1: "icow_ok s1" "icow_ok s2" "icow_ok s" using ok [OF s1(1)] ic_step_trans [OF t [OF s1(1)] s1(2)] ok [OF s(1)]
    by (simp_all add: in_trans_def icow_inv_def)
  obtain a2 c2 where c2: "ic_heap s1 a2 = Some c2" "cow_blkno c2 = 22" "s2 = s1\<lparr>ic_heap := (ic_heap s1)(a2 \<mapsto> c2\<lparr>dram := Some root_1\<rparr>)\<rparr>"
    using write_copy_eq [OF ok1(1) s1(2)] by blast
  obtain a1 c1 where c1: "ic_heap s2 a1 = Some c1" "cow_blkno c1 = 21" "s = s2\<lparr>ic_heap := (ic_heap s2)(a1 \<mapsto> c1\<lparr>dram := Some super_1\<rparr>)\<rparr>"
    using write_copy_eq [OF ok1(2) s1(3)] by blast
  have "a1 \<noteq> a2" using c1(1,2) c2(2,3) by auto
  then have h: "ic_heap s a1 = Some (c1\<lparr>dram := Some super_1\<rparr>)" "ic_heap s a2 = Some (c2\<lparr>dram := Some root_1\<rparr>)" using c1(3) c2(3) by simp_all
  have "a1 = 0" "a2 = 1" using icow_inj(2) [OF ok1(3) h(1) s(3)] icow_inj(2) [OF ok1(3) h(2) s(4)] c1(2) c2(2) b by auto
  then have d: "dram b0 = Some super_1" "dram b1 = Some root_1" using h s(3,4) by auto
  have bp: "bpram (ic_fs s) = bpram scsp_fs" using t [OF s(1)] by (simp add: in_trans_def scsp_start_def)
  have m: "mem 1 (ic_fs s) = Some super_0" "mem 5 (ic_fs s) = Some root_0" by (simp_all add: mem_def bp scsp_fs_def sample_fs_def super_0_def root_0_def)
  have "one_word s 0" using diff_one [of 32 super_0 22] m(1) b d s(3) by (auto simp: one_word_def change_def super_1_def)
  moreover have "\<not> one_word s 1" using diff_two m(2) b d s(4) by (auto simp: one_word_def change_def)
  moreover have "hm_map (blkno_map_orig s) (KPtr 1) = Some 0" using icow_okD(4) [OF ok1(3) s(3)] b(1) by simp
  ultimately have "commit_path s [0] (Some 1)" using s b by (simp add: commit_path_def stops_def)
  then show ?thesis using s by blast
qed

lemma commit_run_commits: "\<exists>s s'. run ic_step commit_ops scsp_start = Some s \<and> indirect_cow_commit s = Some s'"
proof -
  obtain s where s: "run ic_step commit_ops scsp_start = Some s" "parent_stack s = []" "commit_path s [0] (Some 1)" using commit_run by blast
  have e0: "ic_heap scsp_start = Map.empty" by (simp add: scsp_start_def)
  have t: "in_trans scsp_start s" "links_ok (ic_heap s)" using run_links [OF scsp_start_ok(1) e0 s(1)] by auto
  then have "mem n (ic_fs s) = mem n (ic_fs scsp_start)" for n by (simp add: in_trans_def mem_def)
  then have "bpram_super_ok (ic_fs s)" using scsp_start_ok(2) by (simp add: bpram_super_ok_def)
  then show ?thesis using indirect_cow_commit_ok [OF commit_path_ready [OF t s(2) _ s(3)]] s(1) by blast
qed

theorem indirect_cow_commit_atomic_witness:
  "\<exists>s s'. run ic_step commit_ops scsp_start = Some s \<and> indirect_cow_commit s = Some s' \<and> (\<exists>xs. committed s xs (ic_fs s'))"
proof -
  obtain s where s: "run ic_step commit_ops scsp_start = Some s" "parent_stack s = []" "commit_path s [0] (Some 1)" using commit_run by blast
  have e0: "ic_heap scsp_start = Map.empty" by (simp add: scsp_start_def)
  have "\<not> only_super s"
  proof -
    have "\<exists>b. ic_heap s 0 = Some b \<and> cow_blkno b \<noteq> 0" "\<exists>b. ic_heap s 1 = Some b \<and> cow_blkno b \<noteq> 0" using s(3) by (auto simp: commit_path_def stops_def)
    then show ?thesis by (auto simp: only_super_def)
  qed
  then show ?thesis using indirect_cow_commit_atomic [OF scsp_start_ok(1) e0 scsp_start_ok(2) s(1)] s by (auto split: option.splits)
qed

text \<open>The blocks that were in use before the transaction are the same in \<open>f\<close> and \<open>g\<close>.\<close>

definition same_persistent :: "icow \<Rightarrow> fs \<Rightarrow> fs \<Rightarrow> bool" where
  "same_persistent s f g \<longleftrightarrow> (\<forall>n. unat (n - 1) \<in> bitmap_persistent (block_alloc (ic_fs s)) \<longrightarrow> rel_option same_block (mem n f) (mem n g))"

lemma same_block_refl [simp]: "same_block b b"
  by (simp add: same_block_def)

lemma crash_same_block:
  assumes "commit_crash s f" and "\<And>g. commit_moment s g \<Longrightarrow> mem n g = mem n (ic_fs s)"
  shows "rel_option same_block (mem n f) (mem n (ic_fs s))"
proof (cases "mem n f")
  case None
  then have "mem n (ic_fs s) = None" using assms(1) by (auto simp: commit_crash_def mem_def split: if_splits)
  then show ?thesis using None by simp
next
  case (Some b)
  then obtain b0 where b0: "mem n (ic_fs s) = Some b0" using assms(1) by (auto simp: commit_crash_def mem_def split: if_splits)
  have "get_u64 b off = get_u64 b0 off" if "off \<in> set word_offs" for off
    using assms Some b0 that unfolding commit_crash_def by (metis option.inject)
  then show ?thesis using Some b0 by (simp add: same_block_words)
qed

text \<open>The block that is written in place has the word of before or the word of after the commit.\<close>

lemma crash_in_place:
  assumes c: "commit_crash s f" and m: "\<And>g. commit_moment s g \<Longrightarrow> mem n g = Some b0 \<or> mem n g = Some (atomic_result b0 w)"
    and b: "mem n f = Some b" and w: "snd w mod 8 = 0"
  shows "same_block b b0 \<or> same_block b (atomic_result b0 w)"
proof (cases w)
  case (Pair v off)
  have word: "get_u64 b x = get_u64 b0 x \<or> get_u64 b x = get_u64 (atomic_result b0 w) x" if "x \<in> set word_offs" for x
    using c b m that unfolding commit_crash_def by (metis option.inject)
  show ?thesis
  proof (cases v)
    case None
    then show ?thesis using word Pair by (simp add: same_block_words atomic_result_def)
  next
    case (Some u)
    have r: "atomic_result b0 w = put_u64 b0 off u" using Pair Some by (simp add: atomic_result_def)
    have other: "get_u64 (put_u64 b0 off u) x = get_u64 b0 x" if "x \<in> set word_offs" "x \<noteq> off" for x
    proof -
      have "x mod 8 = 0" using that(1) by (auto simp: word_offs_def)
      then have "off + 8 \<le> x \<or> x + 8 \<le> off" using w Pair that(2) by simp presburger
      then show ?thesis by (simp add: get_put_u64_other)
    qed
    have "(\<forall>x \<in> set word_offs. get_u64 b x = get_u64 b0 x) \<or> (\<forall>x \<in> set word_offs. get_u64 b x = get_u64 (put_u64 b0 off u) x)"
      using word other unfolding r by metis
    then show ?thesis by (simp add: same_block_words r)
  qed
qed

lemma in_place_persistent:
  assumes "commit_ready s xs c" and "in_place s xs m b0 w"
  shows "resident m (ic_fs s) \<and> unat (m - 1) \<in> bitmap_persistent (block_alloc (ic_fs s))"
proof -
  have ok: "icow_ok s" and p: "cow_path s xs c" using assms(1) by (simp_all add: commit_ready_def)
  obtain b where b: "ic_heap s (last xs) = Some b" "cow_blkno b \<noteq> 0" "m = orig_blkno b" using cow_path_last [OF p] assms(2) by (auto simp: in_place_def)
  then have st: "cow_staged (ic_fs s) m (cow_blkno b)" using icow_okD(6) [OF ok b(1)] by (simp add: copy_ok_def)
  have "bitmap_inv (block_alloc (ic_fs s))" using icow_okD(3) [OF ok] by (simp add: blocks_ok_def bitmap_inv_fixed_def)
  then have "unat (m - 1) \<in> bitmap_used (block_alloc (ic_fs s))" using st by (simp add: bitmap_inv_simps cow_staged_def)
  then show ?thesis using st by (auto simp: bitmap_persistent_def cow_staged_def)
qed

lemma path_crash:
  assumes ready: "commit_ready s xs c" and s': "indirect_cow_commit s = Some s'"
  shows "commit_crash s f \<Longrightarrow> same_persistent s f (ic_fs s) \<or> same_persistent s f (ic_fs s')"
    and "\<exists>g. commit_crash s g \<and> same_persistent s g (ic_fs s') \<and> (\<forall>n. unat (n - 1) \<notin> bitmap_persistent (block_alloc (ic_fs s)) \<longrightarrow> mem n g = mem n (ic_fs s))"
proof -
  have ok: "icow_ok s" using ready by (simp add: commit_ready_def)
  have "committed s xs (ic_fs s')" using indirect_cow_commit_ok [OF ready] s' by auto
  then obtain m b0 w where w: "in_place s xs m b0 w" "\<And>n. \<not> kept_no s xs n \<Longrightarrow> mem n (ic_fs s') = (if n = m then Some (atomic_result b0 w) else mem n (ic_fs s))"
      "\<not> kept_no s xs m" unfolding committed_def by blast
  have m0: "mem m (ic_fs s) = Some b0" "snd w mod 8 = 0" using w(1) by (auto simp: in_place_def)
  have mp: "resident m (ic_fs s)" "unat (m - 1) \<in> bitmap_persistent (block_alloc (ic_fs s))" using in_place_persistent [OF ready w(1)] by auto
  have nk: "\<not> kept_no s xs n" if "unat (n - 1) \<in> bitmap_persistent (block_alloc (ic_fs s))" for n using kept_no_fresh [OF ok] that by blast
  have mo: "mem n g = mem n (ic_fs s) \<or> mem n g = mem n (ic_fs s')" if "commit_moment s g" "\<not> kept_no s xs n" for n g
    using commit_moment_cases [OF that(1) ready s'] that(2) by (auto simp: unchanged_but_def)
  show "same_persistent s f (ic_fs s) \<or> same_persistent s f (ic_fs s')" if cr: "commit_crash s f"
  proof -
    obtain b where b: "mem m f = Some b" using cr m0(1) by (auto simp: commit_crash_def mem_def split: if_splits)
    have "mem m g = Some b0 \<or> mem m g = Some (atomic_result b0 w)" if "commit_moment s g" for g using mo [OF that w(3)] m0(1) w(2,3) by auto
    then have "same_block b b0 \<or> same_block b (atomic_result b0 w)" using crash_in_place [OF cr _ b m0(2)] by blast
    moreover have "rel_option same_block (mem n f) (mem n (ic_fs s))" if "unat (n - 1) \<in> bitmap_persistent (block_alloc (ic_fs s))" "n \<noteq> m" for n
    proof (rule crash_same_block [OF cr])
      show "mem n g = mem n (ic_fs s)" if "commit_moment s g" for g using mo [OF \<open>commit_moment s g\<close>, of n] w(2) [of n] nk [of n] \<open>unat (n - 1) \<in> _\<close> \<open>n \<noteq> m\<close> by auto
    qed
    ultimately show ?thesis using b m0(1) w(2) nk w(3) unfolding same_persistent_def by (metis (no_types, lifting) option.rel_inject(2))
  qed
  obtain g where g: "put_mem m (atomic_result b0 w) (ic_fs s) = Some g" using resident_put [OF mp(1)] by blast
  note mg = mem_put_mem [OF g]
  have "commit_crash s g"
    unfolding commit_crash_def
  proof (intro conjI allI impI ballI)
    fix n b off assume b: "mem n g = Some b"
    show "\<exists>g' d. commit_moment s g' \<and> mem n g' = Some d \<and> get_u64 b off = get_u64 d off"
    proof (cases "n = m")
      case True
      then show ?thesis using b mg w(2) [OF w(3)] commit_moment.stored [OF s'] by (intro exI [of _ "ic_fs s'"] exI [of _ b]) simp
    next
      case False
      then show ?thesis using b mg commit_moment.start by (intro exI [of _ "ic_fs s"] exI [of _ b]) simp
    qed
  qed (use put_mem_fs(2) [OF g] in simp)
  moreover have "same_persistent s g (ic_fs s')" unfolding same_persistent_def using mg w(2) nk by (auto simp: option.rel_refl)
  moreover have "mem n g = mem n (ic_fs s)" if "unat (n - 1) \<notin> bitmap_persistent (block_alloc (ic_fs s))" for n using mg mp(2) that by auto
  ultimately show "\<exists>g. commit_crash s g \<and> same_persistent s g (ic_fs s') \<and> (\<forall>n. unat (n - 1) \<notin> bitmap_persistent (block_alloc (ic_fs s)) \<longrightarrow> mem n g = mem n (ic_fs s))"
    by blast
qed



end
