(* ===== verification/Mount.thy ===== *)
theory Mount
  imports Dir_Handlers Super
begin

text \<open>
  Mounting: the checks of \<^verbatim>\<open>main\<close>, and the discovery of the blocks and inodes in use by a walk over the
  inode file and the directory tree, which also counts the links when the counts in memory are not
  valid. The walk over directories goes through the callbacks of the crawler and is bounded by the
  parameter \<open>n\<close>, the depth of directories: the assertion that no directory is met twice ends a walk that
  is deeper than the number of inodes.
\<close>

section \<open>Blocks of a tree\<close>

primrec discover_entries ::
  "nat \<Rightarrow> bool \<Rightarrow> (u64 \<Rightarrow> u64 \<Rightarrow> u64 \<Rightarrow> fs \<Rightarrow> fs option) \<Rightarrow> u64 \<Rightarrow> u64 \<Rightarrow> u64 \<Rightarrow> u64 \<Rightarrow> u64 \<Rightarrow> fs \<Rightarrow> fs option" where
  "discover_entries 0 inner child p m valid lastno no s = Some s"
| "discover_entries (Suc n) inner child p m valid lastno no s = do {
     addr \<leftarrow> indir_get p no s;
     s \<leftarrow> (if addr \<noteq> BPFS_BLOCKNO_INVALID then do {
          s \<leftarrow> set_block addr s;
          if inner then do {
            (c, s) \<leftarrow> get_block addr s;
            let child_max_nbytes = m * BPFS_BLOCK_SIZE;
            child c m (if no < lastno then child_max_nbytes else valid - no * child_max_nbytes) s
          } else Some s
        } else Some s);
     discover_entries n inner child p m valid lastno (no + 1) s
   }"

text \<open>The height is at least 1; at height 1 the entries are data blocks.\<close>

primrec discover_indir_allocations :: "nat \<Rightarrow> u64 \<Rightarrow> u64 \<Rightarrow> u64 \<Rightarrow> fs \<Rightarrow> fs option" where
  "discover_indir_allocations 0 p max_nblocks valid s = None"
| "discover_indir_allocations (Suc h) p max_nblocks valid s = do {
     let m = max_nblocks div BPFS_BLOCKNOS_PER_INDIR;
     check (BPFS_BLOCK_SIZE * m \<noteq> 0);
     let lastno = (valid - 1) div (BPFS_BLOCK_SIZE * m);
     discover_entries (Suc (unat lastno)) (0 < h) (discover_indir_allocations h) p m valid lastno 0 s
   }"

definition discover_tree_allocations :: "bptr \<Rightarrow> nat \<Rightarrow> fs \<Rightarrow> fs option" where
  "discover_tree_allocations rp ro s = do {
     root \<leftarrow> deref rp s;
     if tree_root_addr root ro = BPFS_BLOCKNO_INVALID then Some s
     else do {
       s \<leftarrow> set_block (tree_root_addr root ro) s;
       if tree_root_height root ro \<noteq> 0 then do {
         (p, s) \<leftarrow> get_block (tree_root_addr root ro) s;
         discover_indir_allocations (unat (tree_root_height root ro)) p (tree_max_nblocks (tree_root_height root ro))
           (root_nbytes root ro) s
       } else Some s
     }
   }"

text \<open>Only a message is printed.\<close>

definition tree_complete_shrink :: "bptr \<Rightarrow> nat \<Rightarrow> fs \<Rightarrow> fs option" where
  "tree_complete_shrink rp ro s = do {
     root \<leftarrow> deref rp s;
     h \<leftarrow> tree_height (NBLOCKS_FOR_NBYTES (root_nbytes root ro));
     Some s
   }"

section \<open>Inodes\<close>

text \<open>\<^verbatim>\<open>nlinks++\<close> and the assertion that it did not overflow.\<close>

definition count_link :: "iptr \<Rightarrow> fs \<Rightarrow> fs option" where
  "count_link ip s = do {
     n \<leftarrow> inode_field inode_nlinks ip s;
     s \<leftarrow> modify (fst ip) (\<lambda>b. set_inode_nlinks b (snd ip) (n + 1)) s;
     check (n + 1 \<noteq> 0);
     Some s
   }"

definition ephemeral_valid :: "fs \<Rightarrow> bool option" where
  "ephemeral_valid s = do { super \<leftarrow> get_super s; Some (super_ephemeral_valid super \<noteq> 0) }"

text \<open>\<open>discover\<close> is the recursive call.\<close>

definition read_dir_callback_discover_inodes :: "(u64 \<Rightarrow> fs \<Rightarrow> fs option) \<Rightarrow> bool \<Rightarrow> u64 \<Rightarrow> unit read_dir_cb" where
  "read_dir_callback_discover_inodes discover mounting ino blockoff off d u s = do {
     b \<leftarrow> deref (fst d) s;
     s \<leftarrow> discover (dirent_ino b (snd d)) s;
     b \<leftarrow> deref (fst d) s;
     ev \<leftarrow> ephemeral_valid s;
     s \<leftarrow> (if mounting \<and> \<not> ev \<and> ucast (dirent_file_type b (snd d)) = BPFS_TYPE_DIR
          then do { (ip, s) \<leftarrow> get_inode ino s; count_link ip s } else Some s);
     Some (0, u, s)
   }"

primrec discover_inode_allocations :: "nat \<Rightarrow> bool \<Rightarrow> u64 \<Rightarrow> fs \<Rightarrow> fs option" where
  "discover_inode_allocations 0 mounting ino s = None"
| "discover_inode_allocations (Suc n) mounting ino s = do {
     (ip, s) \<leftarrow> get_inode ino s;
     md \<leftarrow> inode_field inode_mode ip s;
     let is_dir = BPFS_S_ISDIR md;
     (was_set, s) \<leftarrow> set_inode ino s;
     check (\<not> is_dir \<or> \<not> was_set);
     ev \<leftarrow> ephemeral_valid s;
     s \<leftarrow> (if mounting \<and> \<not> ev then do {
          s \<leftarrow> count_link ip s;
          if is_dir then count_link ip s else Some s
        } else do {
          k \<leftarrow> inode_field inode_nlinks ip s;
          check ((if is_dir then 2 else 1) \<le> k);
          Some s
        });
     if was_set then Some s
     else do {
       s \<leftarrow> tree_complete_shrink (fst ip) (inode_root_off (snd ip)) s;
       s \<leftarrow> discover_tree_allocations (fst ip) (inode_root_off (snd ip)) s;
       if is_dir then do {
         (r, u, s) \<leftarrow> read_dir ino 0 (read_dir_callback_discover_inodes (discover_inode_allocations n mounting) mounting ino) () s;
         check (r \<ge> 0);
         Some s
       } else Some s
     }
   }"

text \<open>The loop compares with \<^verbatim>\<open>size\<close>, as in the source.\<close>

definition callback_reset_inodes_nlinks :: "unit crawl_callback" where
  "callback_reset_inodes_nlinks blockoff block off sz vld crawl_start commit u blockno s = do {
     check (unat off mod SIZEOF_INODE = 0);
     check (commit = COMMIT_FREE \<or> commit = COMMIT_ATOMIC);
     s \<leftarrow> modify block (\<lambda>b. fold (\<lambda>k b. set_inode_nlinks b (unat off + k * SIZEOF_INODE) 0)
        [0..<(unat sz - unat off) div SIZEOF_INODE] b) s;
     Some (0, blockno, u, s)
   }"

definition reset_inodes_nlinks :: "fs \<Rightarrow> fs option" where
  "reset_inodes_nlinks s = do {
     (p, s) \<leftarrow> get_inode_root s;
     root \<leftarrow> mem p s;
     (r, u, s) \<leftarrow> crawl_inodes 0 (root_nbytes root 0) COMMIT_FREE callback_reset_inodes_nlinks () s;
     check (r \<ge> 0);
     Some s
   }"

definition init_allocations :: "nat \<Rightarrow> bool \<Rightarrow> fs \<Rightarrow> fs option" where
  "init_allocations n mounting s = do {
     (r, s) \<leftarrow> init_block_allocations s;
     check (r \<ge> 0);
     (r, s) \<leftarrow> init_inode_allocations s;
     check (r \<ge> 0);
     s \<leftarrow> set_block 1 s;
     s \<leftarrow> set_block 2 s;
     super \<leftarrow> get_super s;
     s \<leftarrow> set_block (super_inode_root_addr super) s;
     (p, s) \<leftarrow> get_inode_root s;
     s \<leftarrow> discover_tree_allocations (Bpram p) 0 s;
     ev \<leftarrow> ephemeral_valid s;
     s \<leftarrow> (if mounting \<and> \<not> ev then reset_inodes_nlinks s else Some s);
     s \<leftarrow> discover_inode_allocations n mounting BPFS_INO_ROOT s;
     super \<leftarrow> get_super s;
     if mounting \<and> super_ephemeral_valid super = 0 then put_mem BPFS_BLOCKNO_SUPER (set_super_ephemeral_valid super 1) s
     else Some s
   }"

text \<open>\<^verbatim>\<open>random_fsck\<close> without its timer: the bitmaps are set aside, found again from the file system, and put
  back. What the discovery allocated is not released.\<close>

definition random_fsck :: "nat \<Rightarrow> fs \<Rightarrow> fs option" where
  "random_fsck n s = do {
     let (ib, i0) = bitmap_move (inode_alloc s);
     let (bb, b0) = bitmap_move (block_alloc s);
     s \<leftarrow> init_allocations n False (s\<lparr>inode_alloc := i0, block_alloc := b0\<rparr>);
     Some (s\<lparr>inode_alloc := ib, block_alloc := bb\<rparr>)
   }"

section \<open>The part of main before the FUSE session\<close>

definition set_super_commit_mode :: "block \<Rightarrow> u8 \<Rightarrow> block" where "set_super_commit_mode b v = b(48 := v)"

text \<open>An update of both super blocks, which are different blocks.\<close>

definition both_supers :: "(block \<Rightarrow> block) \<Rightarrow> fs \<Rightarrow> fs option" where
  "both_supers f s = do {
     b2 \<leftarrow> mem BPFS_BLOCKNO_SUPER_2 s;
     s \<leftarrow> put_mem BPFS_BLOCKNO_SUPER_2 (f b2) s;
     b \<leftarrow> mem BPFS_BLOCKNO_SUPER s;
     put_mem BPFS_BLOCKNO_SUPER (f b) s
   }"

definition no_bitmap :: bitmap where
  "no_bitmap = \<lparr>bm_bytes = None, bm_ntotal = 0, bm_nfree = 0, bm_allocs = [], bm_frees = [], bm_prev_ntotal = 0\<rparr>"

text \<open>A new process, up to \<^verbatim>\<open>anti_cache_manager_init\<close>: the static variables are zero, \<open>file\<close> is what the backing
  file holds from the last mount and \<open>ram\<close> the mapped memory file; \<open>junk\<close> and \<open>hj\<close> are the contents of new memory.\<close>

definition main_start :: "u64 \<Rightarrow> block \<Rightarrow> block list \<Rightarrow> block list \<Rightarrow> fs" where
  "main_start junk hj file ram =
     \<lparr>bpram = ram, block_alloc = no_bitmap, inode_alloc = no_bitmap,
      dm = initializeDiskManager file DISK_SIZE DISK_BLOCK_SIZE, ac = new_cache junk, indir_mapping = [],
      current_indir_pointer = 0, cow_nbytes = 0, cow_nblocks = 0, tree_nblocks_nblocks = 0, heap_junk = hj\<rparr>"

text \<open>The checks, the recovery of the super blocks, and the new backing file. The result is that of \<^verbatim>\<open>main\<close> when it
  gives up, and 0 otherwise; the size of the memory is that of its blocks; \<open>cal\<close> says whether \<^verbatim>\<open>calloc\<close>
  finds memory. A wrong magic number fails the assertion of \<^verbatim>\<open>set_super\<close> before it is looked at.\<close>

definition mount_begin :: "bool \<Rightarrow> fs \<Rightarrow> (int \<times> fs) option" where
  "mount_begin cal s = do {
     super \<leftarrow> get_super s;
     check (super_magic super = BPFS_FS_MAGIC);
     if super_magic super \<noteq> BPFS_FS_MAGIC then Some (- 1, s)
     else if super_version super \<noteq> BPFS_STRUCT_VERSION then Some (- 1, s)
     else if super_nblocks super * BPFS_BLOCK_SIZE < of_nat (length (bpram s) * 4096) then Some (- 1, s)
     else if \<not> cal then Some (- 1, s\<lparr>current_indir_pointer := 0, indir_mapping := []\<rparr>)
     else do {
       let s = s\<lparr>current_indir_pointer := 0, indir_mapping := replicate (unat (super_nblocks super)) 0\<rparr>;
       (r, s) \<leftarrow> recover_superblock s;
       if r < 0 then Some (- 1, s)
       else Some (0, s\<lparr>dm := (dm s)\<lparr>dm_file := []\<rparr>\<rparr>)
     }
   }"

definition mount :: "nat \<Rightarrow> bool \<Rightarrow> fs \<Rightarrow> (int \<times> fs) option" where
  "mount n cal s = do {
     (r, s) \<leftarrow> mount_begin cal s;
     if r < 0 then Some (r, s)
     else do {
       s \<leftarrow> both_supers (\<lambda>b. set_super_commit_mode b BPFS_COMMIT_SCSP) s;
       s \<leftarrow> init_allocations n True s;
       s \<leftarrow> both_supers (\<lambda>b. set_super_ephemeral_valid b 0) s;
       Some (0, s)
     }
   }"

section \<open>Evicted blocks after a restart\<close>

lemma recover_superblock_frame:
  assumes "recover_superblock s = Some (r, t)"
  shows "dm t = dm s" "n \<noteq> 1 \<Longrightarrow> n \<noteq> 2 \<Longrightarrow> mem n t = mem n s"
proof -
  have d: "dm s' = dm s" if "put_mem k b s = Some s'" for k b s' using that by (auto simp: put_mem_def split: if_splits)
  show "dm t = dm s" "n \<noteq> 1 \<Longrightarrow> n \<noteq> 2 \<Longrightarrow> mem n t = mem n s"
    using assms by (auto simp: recover_superblock_def bind_eq_Some_conv mem_put_mem d split: if_splits)
qed

lemma mount_begin_frame:
  assumes "mount_begin cal s = Some (0, t)"
  shows "dm t = (dm s)\<lparr>dm_file := []\<rparr>" "n \<noteq> 1 \<Longrightarrow> n \<noteq> 2 \<Longrightarrow> mem n t = mem n s"
  using assms recover_superblock_frame by (fastforce simp: mount_begin_def bind_eq_Some_conv Let_def split: if_splits)+


text \<open>The sample file system with super blocks that \<^verbatim>\<open>main\<close> accepts.\<close>

definition mounted_super :: block where
  "mounted_super = (put_u64 (put_u32 (put_u32 zero_block 0 BPFS_FS_MAGIC) 4 BPFS_STRUCT_VERSION) 24 64)(48 := BPFS_COMMIT_SCSP)"

definition mounted_fs :: fs where
  "mounted_fs = sample_fs\<lparr>bpram := (bpram sample_fs)[0 := mounted_super, 1 := mounted_super]\<rparr>"

lemma mounted_super_fields:
  "super_magic mounted_super = BPFS_FS_MAGIC" "super_version mounted_super = BPFS_STRUCT_VERSION"
  "super_nblocks mounted_super = 64" "super_commit_mode mounted_super = BPFS_COMMIT_SCSP"
  by code_simp+

lemma mount_begin_ok:
  assumes "mem 1 s = Some b" and "mem 2 s = Some b" and "super_magic b = BPFS_FS_MAGIC" and "super_version b = BPFS_STRUCT_VERSION"
    and "super_commit_mode b = BPFS_COMMIT_SCSP" and "\<not> super_nblocks b * BPFS_BLOCK_SIZE < of_nat (length (bpram s) * 4096)"
  shows "\<exists>t. mount_begin True s = Some (0, t)"
  using assms by (simp add: mount_begin_def get_super_def recover_superblock_def Let_def)


end
