(* ===== verification/Mkbpfs.thy ===== *)
theory Mkbpfs
  imports Mount
begin

text \<open>
  \<^verbatim>\<open>mkbpfs.c\<close>: the function that makes an empty file system, with the super blocks in blocks 1 and 2, the
  root of the inode file in block 3, its indirect block in block 4, two blocks of inodes, and the root
  directory's only block. The identifier and the time are parameters, and the contents of the memory
  before are arbitrary.
\<close>

section \<open>The function\<close>

abbreviation (input) BPFS_MIN_NBLOCKS :: u64 where "BPFS_MIN_NBLOCKS \<equiv> 7"
abbreviation (input) NBLOCKS_MODULUS :: u64 where "NBLOCKS_MODULUS \<equiv> 64"

definition INODES_NBLOCKS :: u64 where
  "INODES_NBLOCKS = max 1 (ROUNDUP64 64 BPFS_INODES_PER_BLOCK div BPFS_INODES_PER_BLOCK)"

text \<open>The static variable \<^verbatim>\<open>next_blockno\<close> is a part of the state.\<close>

definition mk_alloc_block :: "u64 \<Rightarrow> u64 \<Rightarrow> (u64 \<times> u64) option" where
  "mk_alloc_block nblocks next = do {
     check (next < nblocks);
     check (next < BPFS_MIN_NBLOCKS);
     Some (next + 1, next + 1)
   }"

text \<open>The block behind the pointer, and a write through it.\<close>

definition mk_get_block :: "u64 \<Rightarrow> u64 \<Rightarrow> block list \<Rightarrow> block option" where
  "mk_get_block nblocks no ram = do {
     check (no \<noteq> BPFS_BLOCKNO_INVALID);
     check (no \<le> nblocks);
     check (no \<le> BPFS_MIN_NBLOCKS);
     check (unat no \<le> length ram);
     Some (ram ! (unat no - 1))
   }"

definition mk_put_block :: "u64 \<Rightarrow> u64 \<Rightarrow> block \<Rightarrow> block list \<Rightarrow> block list option" where
  "mk_put_block nblocks no b ram = do { old \<leftarrow> mk_get_block nblocks no ram; Some (ram[unat no - 1 := b]) }"

definition mk_super :: "(nat \<Rightarrow> u8) \<Rightarrow> u64 \<Rightarrow> u64 \<Rightarrow> block \<Rightarrow> block" where
  "mk_super uuid nblocks root b = (
     let b = put_u32 b 4 BPFS_STRUCT_VERSION;
         b = blk_copy b 8 uuid 0 16;
         b = put_u64 b 24 nblocks;
         b = set_super_inode_root_addr_2 (set_super_inode_root_addr b root) root;
         b = set_super_ephemeral_valid (set_super_commit_mode b BPFS_COMMIT_SCSP) 1
     in blk_fill b 50 0 4046)"

text \<open>The loop over the blocks of inodes, which only stores their numbers.\<close>

primrec mk_inodes :: "nat \<Rightarrow> u64 \<Rightarrow> u64 \<Rightarrow> u64 \<Rightarrow> block \<Rightarrow> (block \<times> u64) option" where
  "mk_inodes 0 nblocks i next indir = Some (indir, next)"
| "mk_inodes (Suc n) nblocks i next indir = do {
     (no, next) \<leftarrow> mk_alloc_block nblocks next;
     mk_inodes n nblocks (i + 1) next (set_indir_addr indir i no)
   }"

definition mk_root_inode :: "u32 \<Rightarrow> u64 \<Rightarrow> block \<Rightarrow> block" where
  "mk_root_inode now addr b = (
     let b = set_inode_generation b 0 1;
         b = set_inode_mode b 0 (BPFS_S_IFDIR OR 0x1FD);
         b = set_inode_nlinks (set_inode_gid (set_inode_uid b 0 0) 0 0) 0 2;
         b = set_inode_flags b 0 0;
         b = set_root_nbytes (set_root_ha b 32 (mk_ha 0 addr)) 32 BPFS_BLOCK_SIZE;
         b = set_inode_mtime (set_inode_ctime (set_inode_atime b 0 now) 0 now) 0 now
     in blk_fill b 60 0 68)"

definition mkbpfs :: "(nat \<Rightarrow> u8) \<Rightarrow> u32 \<Rightarrow> u64 \<Rightarrow> u64 \<Rightarrow> block list \<Rightarrow> (int \<times> u64 \<times> block list) option" where
  "mkbpfs uuid now bpram_size next ram =
     (if bpram_size < BPFS_MIN_NBLOCKS * BPFS_BLOCK_SIZE then Some (- ENOSPC, next, ram)
      else if bpram_size < NBLOCKS_MODULUS * BPFS_BLOCK_SIZE then Some (- ENOSPC, next, ram)
      else do {
        check (2 \<le> length ram);
        let nblocks = ROUNDDOWN64 (bpram_size div BPFS_BLOCK_SIZE) NBLOCKS_MODULUS;
        (root, next) \<leftarrow> mk_alloc_block nblocks next;
        let nblocks = min nblocks (BPFS_TREE_ROOT_MAX_ADDR + 1);
        let super = mk_super uuid nblocks root (ram ! 0);
        let ram = ram[0 := super, 1 := super];
        b \<leftarrow> mk_get_block nblocks root ram;
        (addr, next) \<leftarrow> mk_alloc_block nblocks next;
        ram \<leftarrow> mk_put_block nblocks root (set_root_nbytes (set_root_ha b 0 (mk_ha 1 addr)) 0 (INODES_NBLOCKS * BPFS_BLOCK_SIZE)) ram;
        indir \<leftarrow> mk_get_block nblocks addr ram;
        (indir, next) \<leftarrow> mk_inodes (unat INODES_NBLOCKS) nblocks 0 next indir;
        ram \<leftarrow> mk_put_block nblocks addr indir ram;
        inodes \<leftarrow> mk_get_block nblocks (indir_addr indir 0) ram;
        (daddr, next) \<leftarrow> mk_alloc_block nblocks next;
        ram \<leftarrow> mk_put_block nblocks (indir_addr indir 0) (mk_root_inode now daddr inodes) ram;
        d \<leftarrow> mk_get_block nblocks daddr ram;
        ram \<leftarrow> mk_put_block nblocks daddr (set_dirent_rec_len d 0 0) ram;
        Some (0, next, ram[0 := put_u32 (ram ! 0) 0 BPFS_FS_MAGIC, 1 := put_u32 (ram ! 1) 0 BPFS_FS_MAGIC])
      })"

end
