(* ===== verification/Empty_Fs.thy ===== *)
theory Empty_Fs
  imports Mkbpfs Dir_Entries
begin

text \<open>
  What \<^verbatim>\<open>mkbpfs\<close> leaves in memory: a file system whose super blocks are accepted and whose root directory is
  found through the inode file and is empty; and which sizes \<^verbatim>\<open>main\<close> then refuses to mount.
\<close>

section \<open>The image\<close>

text \<open>The file system has a whole multiple of 64 blocks.\<close>

definition fs_blocks :: "nat \<Rightarrow> nat" where "fs_blocks n = n div 64 * 64"

definition mk_image :: "(nat \<Rightarrow> u8) \<Rightarrow> u32 \<Rightarrow> block list \<Rightarrow> block list" where
  "mk_image uuid now ram = (let super = put_u32 (mk_super uuid (of_nat (fs_blocks (length ram))) 3 (ram ! 0)) 0 BPFS_FS_MAGIC in
     ram[0 := super, 1 := super, 2 := set_root_nbytes (set_root_ha (ram ! 2) 0 (mk_ha 1 4)) 0 8192,
       3 := set_indir_addr (set_indir_addr (ram ! 3) 0 5) 1 6, 4 := mk_root_inode now 7 (ram ! 4), 6 := set_dirent_rec_len (ram ! 6) 0 0])"

definition ram_size :: "nat \<Rightarrow> bool" where
  "ram_size n \<longleftrightarrow> 64 \<le> n \<and> n < 2 ^ 51"

lemma ram_size_words:
  assumes "ram_size n"
  shows "unat (of_nat n :: u64) = n" "unat (of_nat n * 4096 :: u64) = n * 4096" "(of_nat n * 4096 :: u64) div 4096 = of_nat n"
    "ROUNDDOWN64 (of_nat n) 64 = of_nat (fs_blocks n)" "fs_blocks n \<le> n" "64 \<le> fs_blocks n"
    "unat (of_nat (fs_blocks n) :: u64) = fs_blocks n" "unat (of_nat (fs_blocks n) * 4096 :: u64) = fs_blocks n * 4096"
proof -
  have b: "64 \<le> n" "n < 2 ^ 51" using assms by (simp_all add: ram_size_def)
  have mul: "unat (of_nat k * 4096 :: u64) = k * 4096 \<and> unat (of_nat k :: u64) = k" if "k < 2 ^ 51" for k
    using unat_word_mult [of "of_nat k :: u64" 4096] unat_of_nat_small [of k] that by simp
  show u: "unat (of_nat n :: u64) = n" and "unat (of_nat n * 4096 :: u64) = n * 4096" using mul [of n] b by simp_all
  then show "(of_nat n * 4096 :: u64) div 4096 = of_nat n" by (simp add: word_unat_eq_iff unat_div)
  show f: "fs_blocks n \<le> n" by (simp add: fs_blocks_def)
  have "1 \<le> n div 64" using b(1) div_le_mono [of 64 n 64] by simp
  then show "64 \<le> fs_blocks n" by (simp add: fs_blocks_def)
  show g: "unat (of_nat (fs_blocks n) :: u64) = fs_blocks n" and "unat (of_nat (fs_blocks n) * 4096 :: u64) = fs_blocks n * 4096"
    using mul [of "fs_blocks n"] b f by simp_all
  show "ROUNDDOWN64 (of_nat n) 64 = of_nat (fs_blocks n)"
    using unat_ROUNDDOWN64 [of "of_nat n" 6] u g by (simp add: word_unat_eq_iff fs_blocks_def)
qed

lemma mkbpfs_run:
  assumes "ram_size (length ram)"
  shows "mkbpfs uuid now (of_nat (length ram) * 4096) 2 ram = Some (0, 7, mk_image uuid now ram)"
proof -
  let ?m = "of_nat (length ram) :: u64" and ?n = "of_nat (fs_blocks (length ram)) :: u64"
  note W = ram_size_words [OF assms]
  have n: "64 \<le> length ram" "length ram < 2 ^ 51" using assms by (simp_all add: ram_size_def)
  have c: "k < ?n" "k \<le> ?n" if "unat k < 64" for k using that W(6,7) by (simp_all add: word_less_nat_alt word_le_nat_alt)
  have s: "\<not> ?m * 4096 < 28672" "\<not> ?m * 4096 < 262144" using W(2) n(1) by (simp_all add: word_less_nat_alt)
  have mn: "min ?n (0x1FFFFFFFFFFFFFFF + 1) = ?n" using W(5,7) n(2) by (simp add: min_def word_le_nat_alt)
  have i: "INODES_NBLOCKS = 2" by code_simp
  have a: "indir_addr (set_indir_addr (set_indir_addr b 0 5) 1 6) 0 = 5" for b
    using indir_addr_set [of 1 0 "set_indir_addr b 0 5" 6] indir_addr_set [of 0 0 b 5] by simp
  have al: "mk_alloc_block ?n k = Some (k + 1, k + 1)" if "unat k < 7" for k
    using that c(1) [of k] by (simp add: mk_alloc_block_def word_less_nat_alt)
  have gt: "mk_get_block ?n k r = Some (r ! (unat k - 1))" "mk_put_block ?n k b r = Some (r[unat k - 1 := b])"
    if "k \<noteq> 0" "unat k \<le> 7" "length r = length ram" for k r b
    using that c(2) [of k] n(1) by (simp_all add: mk_get_block_def mk_put_block_def word_le_nat_alt)
  have two: "mk_inodes 2 ?n 0 4 b = Some (set_indir_addr (set_indir_addr b 0 5) 1 6, 6)" for b
    unfolding numeral_2_eq_2 using al [of 4] al [of 5] by simp
  have l: "7 \<le> length ram" "ram \<noteq> []" using n(1) by auto
  let ?S = "mk_super uuid ?n 3 (ram ! 0)"
  let ?r = "ram[0 := ?S, 1 := ?S, 2 := set_root_nbytes (set_root_ha (ram ! 2) 0 (mk_ha 1 4)) 0 8192,
       3 := set_indir_addr (set_indir_addr (ram ! 3) 0 5) 1 6, 4 := mk_root_inode now 7 (ram ! 4), 6 := set_dirent_rec_len (ram ! 6) 0 0,
       0 := put_u32 ?S 0 BPFS_FS_MAGIC, 1 := put_u32 ?S 0 BPFS_FS_MAGIC]"
  have run: "mkbpfs uuid now (?m * 4096) 2 ram = Some (0, 7, ?r)"
    using l unfolding mkbpfs_def W(3,4) Let_def mn i by (simp add: s al gt a two nth_list_update)
  have "?r = mk_image uuid now ram"
    by (rule nth_equalityI) (use l in \<open>auto simp: mk_image_def Let_def nth_list_update\<close>)
  then show ?thesis using run by simp
qed

text \<open>Loads from a block behind the other ways to change it.\<close>

lemma get_outside:
  "a + 8 \<le> d \<or> d + n \<le> a \<Longrightarrow> get_u64 (blk_fill b d v n) a = get_u64 b a" "a + 4 \<le> d \<or> d + n \<le> a \<Longrightarrow> get_u32 (blk_fill b d v n) a = get_u32 b a"
  "a + 8 \<le> d \<or> d + n \<le> a \<Longrightarrow> get_u64 (blk_copy b d c e n) a = get_u64 b a" "a + 4 \<le> d \<or> d + n \<le> a \<Longrightarrow> get_u32 (blk_copy b d c e n) a = get_u32 b a"
  "i < a \<or> a + 8 \<le> i \<Longrightarrow> get_u64 (b(i := v)) a = get_u64 b a" "i < a \<or> a + 4 \<le> i \<Longrightarrow> get_u32 (b(i := v)) a = get_u32 b a"
  "i < d \<Longrightarrow> blk_fill b d v n i = b i"
  by (rule get_word_cong; auto simp: blk_fill_def blk_copy_def)+ (simp add: blk_fill_def)

lemma mk_super_fields:
  fixes uuid :: "nat \<Rightarrow> u8" and nblocks root :: u64 and b :: block
  defines "c \<equiv> put_u32 (mk_super uuid nblocks root b) 0 BPFS_FS_MAGIC"
  shows "super_magic c = BPFS_FS_MAGIC" "super_version c = BPFS_STRUCT_VERSION" "super_nblocks c = nblocks"
    "super_inode_root_addr c = root" "super_inode_root_addr_2 c = root" "super_commit_mode c = BPFS_COMMIT_SCSP" "super_ephemeral_valid c = 1"
  unfolding c_def mk_super_def Let_def super_magic_def super_version_def super_nblocks_def super_inode_root_addr_def super_inode_root_addr_2_def
    super_commit_mode_def super_ephemeral_valid_def set_super_inode_root_addr_def set_super_inode_root_addr_2_def
    set_super_commit_mode_def set_super_ephemeral_valid_def
  by (simp_all add: access_simps get_outside)

lemma mk_root_inode_fields:
  fixes now :: u32 and addr :: u64 and b :: block
  defines "c \<equiv> mk_root_inode now addr b"
  assumes "addr \<le> BPFS_TREE_ROOT_MAX_ADDR"
  shows "inode_mode c 0 = 0x41FD" "inode_nlinks c 0 = 2" "inode_nbytes c 0 = 4096" "ha_height (root_ha c 32) = 0" "ha_addr (root_ha c 32) = addr"
  using assms(2) unfolding c_def mk_root_inode_def Let_def inode_mode_def inode_nlinks_def root_nbytes_def root_ha_def inode_root_off_def
    set_inode_generation_def set_inode_mode_def set_inode_nlinks_def set_inode_gid_def set_inode_uid_def set_inode_flags_def
    set_root_nbytes_def set_root_ha_def set_inode_mtime_def set_inode_ctime_def set_inode_atime_def
  by (simp_all add: access_simps get_outside)

section \<open>The mounted image\<close>

lemma image_mem:
  assumes "bpram s = mk_image uuid now ram" and "64 \<le> length ram"
  shows "mem 1 s = Some (put_u32 (mk_super uuid (of_nat (fs_blocks (length ram))) 3 (ram ! 0)) 0 BPFS_FS_MAGIC)" "mem 2 s = mem 1 s"
    "mem 3 s = Some (set_root_nbytes (set_root_ha (ram ! 2) 0 (mk_ha 1 4)) 0 8192)"
    "mem 4 s = Some (set_indir_addr (set_indir_addr (ram ! 3) 0 5) 1 6)"
    "mem 5 s = Some (mk_root_inode now 7 (ram ! 4))" "mem 7 s = Some (set_dirent_rec_len (ram ! 6) 0 0)" "k \<in> {1 .. 7} \<Longrightarrow> resident k s"
proof -
  have l: "7 \<le> length ram" "ram \<noteq> []" "length (bpram s) = length ram" using assms by (auto simp: mk_image_def Let_def)
  then show "mem 1 s = Some (put_u32 (mk_super uuid (of_nat (fs_blocks (length ram))) 3 (ram ! 0)) 0 BPFS_FS_MAGIC)" "mem 2 s = mem 1 s"
    "mem 3 s = Some (set_root_nbytes (set_root_ha (ram ! 2) 0 (mk_ha 1 4)) 0 8192)"
    "mem 4 s = Some (set_indir_addr (set_indir_addr (ram ! 3) 0 5) 1 6)"
    "mem 5 s = Some (mk_root_inode now 7 (ram ! 4))" "mem 7 s = Some (set_dirent_rec_len (ram ! 6) 0 0)"
    by (simp_all add: mem_def assms(1)) (simp_all add: mk_image_def Let_def)
  assume k: "k \<in> {1 .. 7}"
  then have "unat k \<le> 7" "k \<noteq> 0" by (auto simp: word_le_nat_alt)
  moreover from this have "k AND disk_bit = 0" by (intro disk_bit_small) simp
  ultimately show "resident k s" using l by (simp add: resident_def)
qed

lemma image_root_inode:
  assumes s: "bpram s = mk_image uuid now ram" "64 \<le> length ram"
    and st: "0 < bm_ntotal (inode_alloc s)" "5 < length (indir_mapping s)"
  shows "inode_at 1 s 3 4 5"
proof -
  note I = image_mem [OF s]
  have h: "unat (1 AND 7 :: u64) = 1" by simp
  have "indir_addr (set_indir_addr (set_indir_addr (ram ! 3) 0 5) 1 6) 0 = 5"
    using indir_addr_set [of 1 0 "set_indir_addr (ram ! 3) 0 5" 6] indir_addr_set [of 0 0 "ram ! 3" 5] by simp
  then have "leaf_at 1 s (- 1) 4 (inode_pos 1 div 4096) = Some (4, 5)"
    using I(4) I(7) [of 4] by (simp add: inode_pos_def)
  moreover have "root_at (Bpram 3) 0 s 1 4 8192"
    using I(3) by (simp add: root_at_def set_root_nbytes_def set_root_ha_def root_nbytes_def root_ha_def access_simps capacity_def)
  ultimately have "\<exists>h a N. root_at (Bpram 3) 0 s h a N \<and> unat (1 :: u64) * 128 \<le> N \<and> leaf_at h s (- 1) a (inode_pos 1 div 4096) = Some (4, 5)"
    by (intro exI [of _ 1] exI [of _ 4] exI [of _ 8192]) simp
  moreover have "map_option super_inode_root_addr (get_super s) = Some 3" using I(1) by (simp add: get_super_def mk_super_fields)
  ultimately show ?thesis using st I(7) [of 3] I(7) [of 5] unfolding inode_at_def by simp
qed

text \<open>An empty file system of \<open>n\<close> blocks.\<close>

definition empty_fs :: "nat \<Rightarrow> fs \<Rightarrow> bool" where
  "empty_fs n s \<longleftrightarrow> (\<exists>sup s1 b d. get_super s = Some sup \<and> super_magic sup = BPFS_FS_MAGIC \<and> super_version sup = BPFS_STRUCT_VERSION \<and>
     super_nblocks sup = of_nat n \<and> recover_superblock s = Some (0, s) \<and>
     get_inode BPFS_INO_ROOT s = Some ((Bpram 5, 0), s1) \<and> mem 5 s1 = Some b \<and> BPFS_S_ISDIR (inode_mode b 0) \<and> inode_nlinks b 0 = 2 \<and>
     inode_nbytes b 0 = 4096 \<and> tree_root_height b (inode_root_off 0) = 0 \<and> mem (tree_root_addr b (inode_root_off 0)) s1 = Some d \<and>
     dir_block d [] 0)"

lemma image_empty_fs:
  assumes "bpram s = mk_image uuid now ram" and "64 \<le> length ram" and "0 < bm_ntotal (inode_alloc s)" and "5 < length (indir_mapping s)"
  shows "empty_fs (fs_blocks (length ram)) s"
proof -
  let ?b = "mk_root_inode now 7 (ram ! 4)"
  note I = image_mem [OF assms(1,2)]
  obtain s1 where s1: "get_inode 1 s = Some ((Bpram 5, inode_pos 1 mod 4096), s1)" "noted s s1" using get_inode_ok [OF image_root_inode [OF assms]] .
  have m: "mem q s1 = mem q s" for q using touched_mem(1) [OF noted_touched [OF s1(2)]] .
  have "dir_block (set_dirent_rec_len (ram ! 6) 0 0) [] 0"
    by (simp add: dir_block_def dirent_rec_len_def set_dirent_rec_len_def access_simps)
  moreover have "tree_root_height ?b (inode_root_off 0) = 0" "tree_root_addr ?b (inode_root_off 0) = 7"
    using mk_root_inode_fields(3-5) [of 7 now] by (simp_all add: tree_root_height_def tree_root_addr_def inode_root_off_def)
  moreover have "recover_superblock s = Some (0, s)" using I(1,2) by (simp add: recover_superblock_def mk_super_fields)
  moreover have "inode_pos 1 mod 4096 = 0" by (simp add: inode_pos_def)
  ultimately show ?thesis
    unfolding empty_fs_def using I(1,5,6) m s1(1) mk_root_inode_fields(1-3) [of 7 now "ram ! 4"]
    by (simp add: get_super_def mk_super_fields BPFS_S_ISDIR_def)
qed

text \<open>C10. On a memory of at least 64 blocks, whatever it held before, \<^verbatim>\<open>mkbpfs\<close> returns 0 and leaves an empty file
  system: the super block has the right magic number, version and number of blocks (the largest multiple of 64 that fits),
  \<^verbatim>\<open>recover_superblock\<close> accepts it unchanged, and \<^verbatim>\<open>get_inode\<close> finds the root inode, a directory with two links and
  one block that has no entries. On less than 64 blocks it returns \<^verbatim>\<open>-ENOSPC\<close> and changes nothing.\<close>

theorem mkbpfs_empty_file_system:
  assumes "ram_size (length ram)"
  shows "\<exists>ram'. mkbpfs uuid now (of_nat (length ram) * 4096) 2 ram = Some (0, 7, ram') \<and> length ram' = length ram \<and>
      (\<forall>s. bpram s = ram' \<and> 0 < bm_ntotal (inode_alloc s) \<and> 5 < length (indir_mapping s) \<longrightarrow> empty_fs (length ram div 64 * 64) s) \<and>
      (\<forall>sz small. sz < 64 * 4096 \<longrightarrow> mkbpfs uuid now sz 2 small = Some (- ENOSPC, 2, small))"
proof -
  have n: "64 \<le> length ram" using assms by (simp add: ram_size_def)
  have "length (mk_image uuid now ram) = length ram" by (simp add: mk_image_def Let_def)
  moreover have "\<forall>sz small. sz < 64 * 4096 \<longrightarrow> mkbpfs uuid now sz 2 small = Some (- ENOSPC, 2, small)" by (simp add: mkbpfs_def)
  ultimately show ?thesis using mkbpfs_run [OF assms] image_empty_fs [OF _ n] unfolding fs_blocks_def by blast
qed

theorem mkbpfs_empty_file_system_witness:
  "\<exists>ram'. mkbpfs (\<lambda>_. 7) 77 (70 * 4096) 2 (replicate 70 (\<lambda>_. 5)) = Some (0, 7, ram') \<and> empty_fs 64 (sample_fs\<lparr>bpram := ram'\<rparr>)"
proof -
  have "ram_size (length (replicate 70 ((\<lambda>_. 5) :: block)))" by (simp add: ram_size_def)
  from mkbpfs_empty_file_system [OF this, of "\<lambda>_. 7" 77] obtain ram' where
    r: "mkbpfs (\<lambda>_. 7) 77 (70 * 4096) 2 (replicate 70 (\<lambda>_. 5)) = Some (0, 7, ram')"
      "\<forall>s. bpram s = ram' \<and> 0 < bm_ntotal (inode_alloc s) \<and> 5 < length (indir_mapping s) \<longrightarrow> empty_fs 64 s" by auto
  have "0 < bm_ntotal (inode_alloc sample_fs)" "5 < length (indir_mapping sample_fs)" by code_simp+
  then show ?thesis using r(1) r(2) [rule_format, of "sample_fs\<lparr>bpram := ram'\<rparr>"] by simp
qed

text \<open>C27. The size check of \<^verbatim>\<open>main\<close> is the wrong way round: a file system that \<^verbatim>\<open>mkbpfs\<close> made on a memory whose size is
  not a multiple of 64 blocks is smaller than the memory and is refused, whatever the rest of the state; with the message that
  the memory is too small. When the sizes agree the check passes.\<close>

theorem mount_refuses_partial_size:
  assumes "ram_size (length ram)"
  shows "\<exists>ram'. mkbpfs uuid now (of_nat (length ram) * 4096) 2 ram = Some (0, 7, ram') \<and>
      (\<forall>s. bpram s = ram' \<longrightarrow> (length ram mod 64 \<noteq> 0 \<longrightarrow> mount n cal s = Some (- 1, s)) \<and>
        (\<forall>sup. get_super s = Some sup \<longrightarrow> (super_nblocks sup * BPFS_BLOCK_SIZE < of_nat (length (bpram s) * 4096) \<longleftrightarrow> length ram mod 64 \<noteq> 0)))"
proof (intro exI [of _ "mk_image uuid now ram"] conjI allI impI)
  note W = ram_size_words [OF assms]
  fix s :: fs assume s: "bpram s = mk_image uuid now ram"
  have n: "64 \<le> length ram" "length (bpram s) = length ram" using assms s by (simp_all add: ram_size_def mk_image_def Let_def)
  obtain sup where g: "get_super s = Some sup" "super_magic sup = BPFS_FS_MAGIC" "super_version sup = BPFS_STRUCT_VERSION"
      "super_nblocks sup = of_nat (fs_blocks (length ram))"
    using image_mem(1) [OF s n(1)] mk_super_fields by (simp add: get_super_def)
  have "fs_blocks (length ram) < length ram \<longleftrightarrow> length ram mod 64 \<noteq> 0"
    unfolding fs_blocks_def using div_mult_mod_eq [of "length ram" 64] by linarith
  then have c: "super_nblocks sup * 4096 < of_nat (length (bpram s) * 4096) \<longleftrightarrow> length ram mod 64 \<noteq> 0"
    using W(2,8) g(4) n(2) by (simp add: word_less_nat_alt)
  show "mount n cal s = Some (- 1, s)" if "length ram mod 64 \<noteq> 0" using that c g by (simp add: mount_def mount_begin_def)
  show "super_nblocks t * BPFS_BLOCK_SIZE < of_nat (length (bpram s) * 4096) \<longleftrightarrow> length ram mod 64 \<noteq> 0" if "get_super s = Some t" for t
    using that c g(1) by simp
qed (rule mkbpfs_run [OF assms])

theorem mount_refuses_partial_size_witness:
  "\<exists>ram'. mkbpfs (\<lambda>_. 7) 77 (70 * 4096) 2 (replicate 70 (\<lambda>_. 5)) = Some (0, 7, ram') \<and>
     mount 8 True (sample_fs\<lparr>bpram := ram'\<rparr>) = Some (- 1, sample_fs\<lparr>bpram := ram'\<rparr>)"
proof -
  have "ram_size (length (replicate 70 ((\<lambda>_. 5) :: block)))" by (simp add: ram_size_def)
  from mount_refuses_partial_size [OF this, of "\<lambda>_. 7" 77 8 True] obtain ram' where
    r: "mkbpfs (\<lambda>_. 7) 77 (70 * 4096) 2 (replicate 70 (\<lambda>_. 5)) = Some (0, 7, ram')"
      "\<forall>s. bpram s = ram' \<longrightarrow> mount 8 True s = Some (- 1, s)" by auto
  then show ?thesis by simp
qed

end
