(* ===== verification/Spec2Isabelle.thy ===== *)
theory Spec2Isabelle
  imports Prelude Structs Atomic Bitmap Vector Hash_Iter Dcache Disk_Manager Lru Block_Tree Blocks Tree_Update Crawler Crawl_Reader Inodes Crawl_Single
    File_Overwrite Directories Dir_Handlers Dir_Lookup Super Cow_Atomic Mount Mkbpfs Empty_Fs
begin

text \<open>
  A verification of BPFS, a file system for byte-addressable persistent memory that runs as a FUSE server, with the
  anti-cache that moves cold blocks to a disk file. The sources are in \<^verbatim>\<open>src/bpfs\<close>.

  \<^bold>\<open>The program.\<close> \<^verbatim>\<open>bpfs.c\<close> holds the memory as an array of blocks of 4096 bytes. A file is a tree of indirect blocks
  (\<^verbatim>\<open>struct bpfs_tree_root\<close>); inodes are the contents of one such file, whose root is named by the super block, and a directory is a
  file of variable length records. Every access to a range of a tree goes through \<^verbatim>\<open>crawler.c\<close>, which calls a callback for each block and
  writes changed block numbers back, in place when one store of eight bytes is enough and by copy on write otherwise. Blocks and inodes
  are allocated from bitmaps whose changes are staged until commit or abort. Directories in use are cached by \<^verbatim>\<open>dcache.c\<close> in the
  tables of \<^verbatim>\<open>hash_map.c\<close>. \<^verbatim>\<open>anti_cache_manager.c\<close> keeps the blocks in order of their use and moves the oldest to the file of
  \<^verbatim>\<open>diskmanager.c\<close>; a pointer to such a block has its top bit set, and \<^verbatim>\<open>get_block\<close> brings the block back. \<^verbatim>\<open>mkbpfs.c\<close> makes
  an empty file system. In another commit mode \<^verbatim>\<open>indirect_cow.c\<close> keeps the copies of a transaction in DRAM and commits them with
  one store.

  \<^bold>\<open>Conventions.\<close> Machine integers are words of their width. A block is a function from offsets to bytes, and a structure in it is read
  and written by getters and setters at its offsets. \<open>None\<close> is the end of the process: a failed assertion, an access outside of the
  memory or through a bad pointer, or a loop that does not end. A status is an \<open>int\<close>, negative for an error number. Pointers into the memory are block
  numbers with offsets, so that aliasing is visible. Callbacks are functions on the state with their user data passed along. The build is
  the default one: \<^verbatim>\<open>COMMIT_MODE\<close> is \<^verbatim>\<open>MODE_BPFS\<close> and assertions are on; \<open>Super\<close> and \<open>Indirect_Cow\<close> model what
  the modes \<^verbatim>\<open>MODE_SP\<close> and \<^verbatim>\<open>MODE_SCSP\<close> add. The answers of \<^verbatim>\<open>malloc\<close>, the contents of new
  memory, the time and identifiers are parameters. Where a result depends on the contents of new memory the property says how: the
  first round of the anti-cache needs a count that is never initialised to be zero, and an abort after a growth of the bitmap reads junk.
  Some allocations are taken to succeed: those of the staged entries of the bitmaps, of the nodes of the anti-cache and of prefetch buffers; the code
  asserts that they do, or does not look.

  \<^bold>\<open>Theories and what they show.\<close>
  \<^item> \<open>Prelude\<close>: words, little-endian access, the option monad, and the locale \<open>staged_store\<close>, the contract of a store with abort.
  \<^item> \<open>Structs\<close> (\<^verbatim>\<open>bpfs_structs.h\<close>, \<^verbatim>\<open>util.h\<close>): the layout of all structures, rounding, and the conversion of modes, which is a
    round trip on the modes it accepts.
  \<^item> \<open>Atomic\<close>: which writes are atomic, and what \<^verbatim>\<open>atomic_memcpy\<close> stores.
  \<^item> \<open>Bitmap\<close>: the staged bitmap, byte by byte, with its set of used bits: allocation takes the least free bit, commit releases
    exactly the staged frees, abort restores the set. It interprets \<open>staged_store\<close>. An abort after a growth reads junk.
  \<^item> \<open>Vector\<close>, \<open>Hash_Map\<close>, \<open>Hash_Iter\<close> (\<^verbatim>\<open>vector.c\<close>, \<^verbatim>\<open>hash_map.c\<close>): functional correctness of the containers with all their
    error paths; the locale \<open>map_impl\<close> is interpreted for both kinds of keys and gives the refinement of a finite map, with the allocations of
    each call as arguments: an insertion without memory for its element ends the process. Both iterators visit every entry once.
  \<^item> \<open>Dcache\<close>: the invariant of the cache with its intrusive list, least recently used replacement, and entries as maps.
  \<^item> \<open>Disk_Manager\<close>, \<open>Lru\<close>: the disk file with prefetching (locale \<open>block_store\<close>) and the staging queue, list and table of resident
    blocks at the level of heap nodes (locale \<open>fifo\<close>), with the order of eviction. The element count of the list is not initialised, and
    not updated by a deletion; the theorems say when that ends the process.
  \<^item> \<open>Block_Tree\<close>, \<open>Blocks\<close>, \<open>Tree_Update\<close>: heights and capacities with their wrap-around and termination; block access,
    copy on write and eviction: an abort restores the blocks in use with their contents, and an evicted block is fetched back
    unchanged; growing, shrinking and zeroing of trees.
  \<^item> \<open>Crawler\<close>, \<open>Crawl_Reader\<close>, \<open>Crawl_Single\<close>: \<^verbatim>\<open>crawler.c\<close> with all commit modes. The locale \<open>reader\<close> is the contract of a
    callback that reads; its rule covers crawls over any range and any height. Crawls inside of one block have their own rules.
  \<^item> \<open>Inodes\<close>, \<open>File_Read\<close>: inodes, file data and their handlers; \<^verbatim>\<open>fuse_read\<close> replies with the bytes of the file.
  \<^item> \<open>Tree_Write\<close>, \<open>File_Write\<close>, \<open>File_Overwrite\<close>: \<^verbatim>\<open>fuse_write\<close> inside of one block changes exactly the bytes that are
    stored, or replies \<^verbatim>\<open>ENOSPC\<close> with the memory unchanged. The stored bytes are those of the request, except for a write in place that crosses
    the window of \<^verbatim>\<open>atomic_memcpy\<close>, which loses its end.
  \<^item> \<open>Directories\<close>, \<open>Dir_Handlers\<close>: entries of directories and every handler that works on them.
  \<^item> \<open>Dir_Entries\<close>, \<open>Dir_Load\<close>, \<open>Dir_Lookup\<close>: a directory block as a list of records; a new entry is invisible until its
    inode number is stored, and loading a block into the cache is the same as listing its records. The callback that loads a
    block interprets \<open>reader\<close>, so that \<^verbatim>\<open>find_dirent\<close> finds the entries of directories of any size.
  \<^item> \<open>Super\<close>: the two super blocks with shadow paging and a relation of what a crash may leave; recovery succeeds and finds the old
    or the new root when the first copy was complete at the crash, and otherwise the root of the second copy, which is the old one unless
    an earlier crash between the two copies left an older one there.
  \<^item> \<open>Indirect_Cow\<close> (\<^verbatim>\<open>indirect_cow.c\<close> and the functions of \<^verbatim>\<open>bpfs.c\<close> that differ in its mode): the heap of \<^verbatim>\<open>struct block\<close>, the
    two tables, the parent stack, copies, commit and abort. \<open>Cow_Tables\<close> has the invariant \<open>icow_ok\<close>, the locale \<open>table_loop\<close> of loops that
    erase the entry they stand on, interpreted by the four loops of the source, and the abort; \<open>Cow_Commit\<close> shows what a commit does on a
    path of copies with one changed word each; \<open>Cow_Inv\<close> and \<open>Cow_Trans\<close> show that the calls of a transaction keep the
    invariant and that an abort undoes any of them. \<open>Cow_Atomic\<close> shows that after any sequence of calls the commit succeeds exactly on such paths
    (and when nothing but the super block was copied), and what a crash leaves when the stores of a commit, which no barrier orders,
    reach the memory in any order: the blocks in use are as before or as after the commit, but the new blocks may be missing.
  \<^item> \<open>Mount\<close>, \<open>Mkbpfs\<close>, \<open>Empty_Fs\<close>: the start of the process, the checks of \<^verbatim>\<open>main\<close>, the new backing file (which loses what was
    evicted to the old one) and the discovery; and \<^verbatim>\<open>mkbpfs\<close>, which leaves an empty file
    system whose root directory is found; the size check of \<^verbatim>\<open>main\<close> is reversed.

  \<^bold>\<open>Loops.\<close> Loops over a range are structural recursions over the number of their rounds or have a termination proof
  (\<open>dirent_loop\<close>, \<open>bitmap_alloc_from\<close>). \<open>tree_height_loop\<close> and \<open>get_block\<close> may run forever and are partial functions; \<open>Block_Tree\<close>
  shows when the first one ends, and the second one ends on every block that is in memory. The loops of \<open>Indirect_Cow\<close> are partial
  functions too; the properties of abort and commit say when they return. Two definitions have a bound: the discovery
  of inodes takes the depth of the directory tree, which is at most the number of inodes, since a directory met
  twice is a failed assertion; and the removal of all directories from the cache takes their number, which is at most 1024.

  \<^bold>\<open>Not modelled.\<close> The threads: the anti-cache thread is a step between two calls. The handlers and the crawler in the modes
  \<^verbatim>\<open>MODE_SP\<close> and \<^verbatim>\<open>MODE_SCSP\<close>. The unused
  \<^verbatim>\<open>diskmanager_new.c\<close>. The end of the process when \<^verbatim>\<open>malloc\<close> of a staged entry fails in \<^verbatim>\<open>bitmap_alloc\<close> and
  \<^verbatim>\<open>bitmap_free\<close>. In the step functions over sequences of calls: copies of blocks that are not in memory, which the crawler
  fetches first; pushes of blocks that are not in use; and the release of a new block that is staged as freed. The FUSE library, except for the encoding of directory listings; the parsing of options, the mapping of the memory
  file and the session in \<^verbatim>\<open>main\<close>; the tools, benchmarks and write tests.
\<close>

end
